(* ===== verification/Prelude.thy ===== *)
theory Prelude
  imports Main "HOL-Library.Multiset" "HOL-Library.Word"
begin

text \<open>
  Shared vocabulary of the development: the collections the component theories add their
  facts to, C integer conversions, C division, and generic facts on lists that several
  components use.

  Conventions. A C \<open>int\<close> whose range never matters is an \<open>int\<close> or, for lengths and
  indices, a \<open>nat\<close>; a store into a narrower field goes through \<open>to_int16\<close> and its
  kin, which wrap as the compilers the server is built with do. A result of type
  \<open>'a option\<close> is \<open>None\<close> exactly where the C code would read or write outside an
  array, read an indeterminate value, or not return.
\<close>


section \<open>C integers\<close>

definition to_int8 :: "int \<Rightarrow> int" where
  "to_int8 x = (x + 128) mod 256 - 128"

definition to_int16 :: "int \<Rightarrow> int" where
  "to_int16 x = (x + 32768) mod 65536 - 32768"

definition to_int32 :: "int \<Rightarrow> int" where
  "to_int32 x = (x + 2147483648) mod 4294967296 - 2147483648"

definition to_uint8 :: "int \<Rightarrow> int" where
  "to_uint8 x = x mod 256"

definition to_uint16 :: "int \<Rightarrow> int" where
  "to_uint16 x = x mod 65536"

definition to_uint32 :: "int \<Rightarrow> int" where
  "to_uint32 x = x mod 4294967296"

lemma to_int8_id [simp]: "-128 \<le> x \<Longrightarrow> x < 128 \<Longrightarrow> to_int8 x = x"
  by (simp add: to_int8_def)

lemma to_int16_id [simp]: "-32768 \<le> x \<Longrightarrow> x < 32768 \<Longrightarrow> to_int16 x = x"
  by (simp add: to_int16_def)

lemma to_int16_range: "-32768 \<le> to_int16 x \<and> to_int16 x < 32768"
  by (simp add: to_int16_def)

lemma to_int32_id [simp]: "-2147483648 \<le> x \<Longrightarrow> x < 2147483648 \<Longrightarrow> to_int32 x = x"
  by (simp add: to_int32_def)

lemma to_int32_range: "-2147483648 \<le> to_int32 x \<and> to_int32 x < 2147483648"
  by (simp add: to_int32_def)

lemma to_uint8_id [simp]: "0 \<le> x \<Longrightarrow> x < 256 \<Longrightarrow> to_uint8 x = x"
  by (simp add: to_uint8_def)

lemma to_uint16_id [simp]: "0 \<le> x \<Longrightarrow> x < 65536 \<Longrightarrow> to_uint16 x = x"
  by (simp add: to_uint16_def)

lemma to_uint32_id [simp]: "0 \<le> x \<Longrightarrow> x < 4294967296 \<Longrightarrow> to_uint32 x = x"
  by (simp add: to_uint32_def)

text \<open>C division and remainder truncate towards zero.\<close>

definition c_div :: "int \<Rightarrow> int \<Rightarrow> int" where
  "c_div a b = sgn a * sgn b * (\<bar>a\<bar> div \<bar>b\<bar>)"

definition c_mod :: "int \<Rightarrow> int \<Rightarrow> int" where
  "c_mod a b = a - c_div a b * b"

lemma c_div_nonneg [simp]: "0 \<le> a \<Longrightarrow> 0 < b \<Longrightarrow> c_div a b = a div b"
  by (cases "a = 0") (auto simp: c_div_def)

lemma c_mod_nonneg [simp]: "0 \<le> a \<Longrightarrow> 0 < b \<Longrightarrow> c_mod a b = a mod b"
  by (simp add: c_mod_def minus_div_mult_eq_mod)

text \<open>\<open>cap_value(a, min, max)\<close> of \<open>common/utils.h\<close>.\<close>

definition cap_value :: "int \<Rightarrow> int \<Rightarrow> int \<Rightarrow> int" where
  "cap_value a mn mx = (if mx \<le> a then mx else if a \<le> mn then mn else a)"

lemma cap_value_range: "mn \<le> mx \<Longrightarrow> mn \<le> cap_value a mn mx \<and> cap_value a mn mx \<le> mx"
  by (auto simp: cap_value_def)

text \<open>Following the branches of a chain of guards, one at a time.\<close>

lemma if_eqE:
  "(if c then x else y) = r \<Longrightarrow> (c \<Longrightarrow> x = r \<Longrightarrow> P) \<Longrightarrow> (\<not> c \<Longrightarrow> y = r \<Longrightarrow> P) \<Longrightarrow> P"
  by (simp split: if_splits)

section \<open>Lists\<close>

text \<open>Swapping two positions of a list permutes it.\<close>

definition swap_at :: "'a list \<Rightarrow> nat \<Rightarrow> nat \<Rightarrow> 'a list" where
  "swap_at xs i j = xs[i := xs ! j, j := xs ! i]"

lemma length_swap_at [simp]: "length (swap_at xs i j) = length xs"
  by (simp add: swap_at_def)

lemma mset_swap_at [simp]:
  "i < length xs \<Longrightarrow> j < length xs \<Longrightarrow> mset (swap_at xs i j) = mset xs"
  by (simp add: swap_at_def mset_swap)

lemma nth_swap_at:
  "i < length xs \<Longrightarrow> j < length xs \<Longrightarrow>
   swap_at xs i j ! k = (if k = i then xs ! j else if k = j then xs ! i else xs ! k)"
  by (auto simp: swap_at_def nth_list_update)

text \<open>\<open>ARR_FIND\<close>: the first index where the test holds, or the length.\<close>

fun arr_find :: "('a \<Rightarrow> bool) \<Rightarrow> 'a list \<Rightarrow> nat" where
  "arr_find p [] = 0"
| "arr_find p (x # xs) = (if p x then 0 else Suc (arr_find p xs))"

lemma arr_find_le: "arr_find p xs \<le> length xs"
  by (induction xs) auto

lemma arr_find_lt_iff: "arr_find p xs < length xs \<longleftrightarrow> (\<exists>x \<in> set xs. p x)"
  by (induction xs) auto

lemma arr_find_nth: "arr_find p xs < length xs \<Longrightarrow> p (xs ! arr_find p xs)"
  by (induction xs) auto

lemma arr_find_before: "i < arr_find p xs \<Longrightarrow> \<not> p (xs ! i)"
  by (induction xs arbitrary: i) (auto simp: nth_Cons' split: if_splits)

lemma arr_find_eq_length_iff: "arr_find p xs = length xs \<longleftrightarrow> (\<forall>x \<in> set xs. \<not> p x)"
  using arr_find_lt_iff [of p xs] arr_find_le [of p xs] by fastforce

lemma mset_update_minus:
  "i < length xs \<Longrightarrow> mset (xs[i := x]) = add_mset x (mset xs - {#xs ! i#})"
  by (simp add: mset_update)

end
