(* ===== verification/Vector.thy ===== *)
theory Vector
  imports Prelude
begin

text \<open>
  The dynamic arrays of \<open>src/common/db.h\<close> (the \<open>VECTOR_*\<close> macros). A vector is its
  capacity \<open>_max_\<close>, its length \<open>_len_\<close> and the slots of \<open>_data_\<close>; a slot is
  \<open>None\<close> while its value is indeterminate (fresh \<open>aMalloc\<close> or \<open>aRealloc\<close>
  memory). An operation whose macro would touch a slot outside the allocation returns
  \<open>None\<close>. The abstraction \<open>vec_list\<close> reads the live prefix; the lemmas show that
  each operation refines its list counterpart.
\<close>

record 'a vec =
  vec_max :: nat
  vec_len :: nat
  vec_data :: "'a option list"

definition vec_wf :: "'a vec \<Rightarrow> bool" where
  "vec_wf v \<longleftrightarrow> length (vec_data v) = vec_max v \<and> vec_len v \<le> vec_max v
     \<and> (\<forall>i < vec_len v. vec_data v ! i \<noteq> None)"

definition vec_list :: "'a vec \<Rightarrow> 'a list" where
  "vec_list v = map the (take (vec_len v) (vec_data v))"

definition VECTOR_INIT :: "'a vec" where
  "VECTOR_INIT = \<lparr>vec_max = 0, vec_len = 0, vec_data = []\<rparr>"

definition VECTOR_INDEX :: "'a vec \<Rightarrow> nat \<Rightarrow> 'a option" where
  "VECTOR_INDEX v i = (if i < length (vec_data v) then vec_data v ! i else None)"

definition VECTOR_FIRST :: "'a vec \<Rightarrow> 'a option" where
  "VECTOR_FIRST v = VECTOR_INDEX v 0"

definition VECTOR_LAST :: "'a vec \<Rightarrow> 'a option" where
  "VECTOR_LAST v = (if vec_len v = 0 then None else VECTOR_INDEX v (vec_len v - 1))"

text \<open>
  \<open>VECTOR_RESIZE\<close>, with \<open>z\<close> the all-zero-bytes value of the element type. When the
  size grows, \<open>memset\<close> clears the positions from \<open>_len_\<close> up to the \<^emph>\<open>old\<close>
  capacity (the macro updates the capacity afterwards), so the new slots stay
  indeterminate. When it shrinks, the length is set to \<open>_n\<close> if \<open>_n\<close> is
  \<^emph>\<open>greater\<close> than the length.
\<close>

definition VECTOR_RESIZE :: "'a \<Rightarrow> 'a vec \<Rightarrow> nat \<Rightarrow> 'a vec" where
  "VECTOR_RESIZE z v n =
     (if n > vec_max v then
        v\<lparr>vec_data := take (vec_len v) (vec_data v)
                       @ replicate (vec_max v - vec_len v) (Some z)
                       @ replicate (n - vec_max v) None,
          vec_max := n\<rparr>
      else if n = 0 \<and> vec_max v > 0 then
        v\<lparr>vec_data := [], vec_max := 0, vec_len := 0\<rparr>
      else if n < vec_max v then
        v\<lparr>vec_data := take n (vec_data v), vec_max := n,
          vec_len := (if n > vec_len v then n else vec_len v)\<rparr>
      else v)"

text \<open>
  The loop of \<open>VECTOR_ENSURE\<close>: \<open>None\<close> when it would not end (a step of 0).
\<close>

function vector_newcapacity :: "nat \<Rightarrow> nat \<Rightarrow> nat \<Rightarrow> nat option" where
  "vector_newcapacity need step cap =
     (if need > cap then (if step = 0 then None else vector_newcapacity need step (cap + step))
      else Some cap)"
  by pat_completeness auto
termination
  by (relation "measure (\<lambda>(need, step, cap). need - cap)") auto

declare vector_newcapacity.simps [simp del]

definition VECTOR_ENSURE :: "'a \<Rightarrow> 'a vec \<Rightarrow> nat \<Rightarrow> nat \<Rightarrow> 'a vec option" where
  "VECTOR_ENSURE z v n step =
     (case vector_newcapacity (n + vec_len v) step (vec_max v) of
        None \<Rightarrow> None
      | Some c \<Rightarrow> Some (if c > vec_max v then VECTOR_RESIZE z v c else v))"

text \<open>
  \<open>VECTOR_INSERTARRAY\<close>; \<open>VECTOR_INSERT\<close> and \<open>VECTOR_INSERTCOPY\<close> insert one value
  the same way, \<open>VECTOR_INSERTZEROED\<close> the zero value. \<open>None\<close>: a slot at or beyond
  the capacity would be written.
\<close>

definition VECTOR_INSERTARRAY :: "'a vec \<Rightarrow> nat \<Rightarrow> 'a list \<Rightarrow> 'a vec option" where
  "VECTOR_INSERTARRAY v idx xs =
     (let n = length xs; d = vec_data v;
          moved = (if idx < vec_len v
                   then take (idx + n) d @ drop idx (take (vec_len v) d) @ drop (vec_len v + n) d
                   else d)
      in if (if idx < vec_len v then vec_len v + n else idx + n) > length d then None
         else Some (v\<lparr>vec_data := take idx moved @ map Some xs @ drop (idx + n) moved,
                      vec_len := vec_len v + n\<rparr>))"

definition VECTOR_INSERT :: "'a vec \<Rightarrow> nat \<Rightarrow> 'a \<Rightarrow> 'a vec option" where
  "VECTOR_INSERT v idx x = VECTOR_INSERTARRAY v idx [x]"

definition VECTOR_INSERTZEROED :: "'a \<Rightarrow> 'a vec \<Rightarrow> nat \<Rightarrow> 'a vec option" where
  "VECTOR_INSERTZEROED z v idx = VECTOR_INSERTARRAY v idx [z]"

definition VECTOR_PUSH :: "'a vec \<Rightarrow> 'a \<Rightarrow> 'a vec option" where
  "VECTOR_PUSH v x =
     (if vec_len v < length (vec_data v)
      then Some (v\<lparr>vec_data := (vec_data v)[vec_len v := Some x], vec_len := Suc (vec_len v)\<rparr>)
      else None)"

definition VECTOR_PUSHZEROED :: "'a \<Rightarrow> 'a vec \<Rightarrow> 'a vec option" where
  "VECTOR_PUSHZEROED z v = VECTOR_PUSH v z"

definition VECTOR_PUSHARRAY :: "'a vec \<Rightarrow> 'a list \<Rightarrow> 'a vec option" where
  "VECTOR_PUSHARRAY v xs =
     (let n = length xs; d = vec_data v
      in if vec_len v + n > length d then None
         else Some (v\<lparr>vec_data := take (vec_len v) d @ map Some xs @ drop (vec_len v + n) d,
                      vec_len := vec_len v + n\<rparr>))"

definition VECTOR_POPN :: "'a vec \<Rightarrow> nat \<Rightarrow> ('a option \<times> 'a vec) option" where
  "VECTOR_POPN v n =
     (if n > vec_len v then None
      else Some (VECTOR_INDEX v (vec_len v - n), v\<lparr>vec_len := vec_len v - n\<rparr>))"

definition VECTOR_POP :: "'a vec \<Rightarrow> ('a option \<times> 'a vec) option" where
  "VECTOR_POP v = VECTOR_POPN v 1"

definition VECTOR_ERASEN :: "'a vec \<Rightarrow> nat \<Rightarrow> nat \<Rightarrow> 'a vec option" where
  "VECTOR_ERASEN v idx n =
     (if n > vec_len v then None
      else let d = vec_data v;
               moved = (if idx < vec_len v - n
                        then take idx d @ drop (idx + n) (take (vec_len v) d)
                             @ drop (vec_len v - n) d
                        else d)
           in Some (v\<lparr>vec_data := moved, vec_len := vec_len v - n\<rparr>))"

definition VECTOR_ERASE :: "'a vec \<Rightarrow> nat \<Rightarrow> 'a vec option" where
  "VECTOR_ERASE v idx = VECTOR_ERASEN v idx 1"

definition VECTOR_TRUNCATE :: "'a vec \<Rightarrow> 'a vec" where
  "VECTOR_TRUNCATE v = v\<lparr>vec_len := 0\<rparr>"

definition VECTOR_CLEAR :: "'a vec \<Rightarrow> 'a vec" where
  "VECTOR_CLEAR v = (if vec_max v > 0 then v\<lparr>vec_data := [], vec_max := 0, vec_len := 0\<rparr> else v)"

text \<open>\<open>ARR_MOVE\<close>, \<open>ARR_MOVERIGHT\<close>, \<open>ARR_MOVELEFT\<close>: move one entry, shifting those between.\<close>

definition ARR_MOVERIGHT :: "nat \<Rightarrow> nat \<Rightarrow> 'a list \<Rightarrow> 'a list" where
  "ARR_MOVERIGHT from to xs =
     take from xs @ take (to - from) (drop (from + 1) xs) @ [xs ! from] @ drop (to + 1) xs"

definition ARR_MOVELEFT :: "nat \<Rightarrow> nat \<Rightarrow> 'a list \<Rightarrow> 'a list" where
  "ARR_MOVELEFT from to xs =
     take to xs @ [xs ! from] @ take (from - to) (drop to xs) @ drop (from + 1) xs"

definition ARR_MOVE :: "nat \<Rightarrow> nat \<Rightarrow> 'a list \<Rightarrow> 'a list" where
  "ARR_MOVE from to xs =
     (if from \<noteq> to then (if from < to then ARR_MOVERIGHT from to xs else ARR_MOVELEFT from to xs)
      else xs)"

section \<open>Refinement to lists\<close>

lemma vec_list_length [simp]: "vec_wf v \<Longrightarrow> length (vec_list v) = vec_len v"
  by (simp add: vec_list_def vec_wf_def)

lemma vec_wf_INIT [simp]: "vec_wf VECTOR_INIT" "vec_list VECTOR_INIT = []"
  by (simp_all add: vec_wf_def VECTOR_INIT_def vec_list_def)

lemma vec_list_empty_iff: "vec_wf v \<Longrightarrow> vec_list v = [] \<longleftrightarrow> vec_len v = 0"
  by (metis vec_list_length length_0_conv)

lemma VECTOR_INDEX_live:
  "vec_wf v \<Longrightarrow> i < vec_len v \<Longrightarrow> VECTOR_INDEX v i = Some (vec_list v ! i)"
  by (auto simp: vec_wf_def vec_list_def VECTOR_INDEX_def)

text \<open>A well-formed vector is determined on its live prefix by the list.\<close>

lemma vec_take_data: "vec_wf v \<Longrightarrow> take (vec_len v) (vec_data v) = map Some (vec_list v)"
  by (rule nth_equalityI) (auto simp: vec_wf_def vec_list_def)

lemma vec_wfI:
  assumes "length (vec_data w) = vec_max w" and "vec_len w \<le> vec_max w"
    and "take (vec_len w) (vec_data w) = map Some xs"
  shows "vec_wf w \<and> vec_list w = xs"
proof -
  have "vec_data w ! i \<noteq> None" if "i < vec_len w" for i
  proof -
    have "vec_data w ! i = map Some xs ! i"
      using that assms(3) by (metis nth_take)
    moreover have "i < length xs"
      using that assms by (metis length_map length_take min.absorb2)
    ultimately show ?thesis by simp
  qed
  with assms show ?thesis by (simp add: vec_wf_def vec_list_def)
qed

lemma VECTOR_RESIZE_grow:
  assumes "vec_wf v" and "n > vec_max v"
  shows "vec_wf (VECTOR_RESIZE z v n)" and "vec_list (VECTOR_RESIZE z v n) = vec_list v"
    and "vec_max (VECTOR_RESIZE z v n) = n" and "vec_len (VECTOR_RESIZE z v n) = vec_len v"
  using assms vec_wfI [of "VECTOR_RESIZE z v n" "vec_list v"] vec_take_data [of v]
  by (auto simp: VECTOR_RESIZE_def vec_wf_def)

lemma vector_newcapacity_ok:
  assumes "0 < step"
  shows "\<exists>c. vector_newcapacity need step cap = Some c \<and> need \<le> c \<and> cap \<le> c"
  using assms
proof (induction need step cap rule: vector_newcapacity.induct)
  case (1 need step cap)
  show ?case
  proof (cases "need > cap")
    case True
    with 1 obtain c where "vector_newcapacity need step (cap + step) = Some c"
      "need \<le> c" "cap + step \<le> c" by auto
    with True "1.prems" show ?thesis by (simp add: vector_newcapacity.simps [of need step cap])
  next
    case False
    then show ?thesis by (simp add: vector_newcapacity.simps [of need step cap])
  qed
qed

lemma VECTOR_ENSURE_ok:
  assumes "vec_wf v" and "0 < step"
  shows "\<exists>w. VECTOR_ENSURE z v n step = Some w \<and> vec_wf w \<and> vec_list w = vec_list v
           \<and> vec_len w = vec_len v \<and> n + vec_len w \<le> vec_max w"
proof -
  obtain c where c: "vector_newcapacity (n + vec_len v) step (vec_max v) = Some c"
    "n + vec_len v \<le> c" "vec_max v \<le> c"
    using vector_newcapacity_ok [OF assms(2)] by blast
  then show ?thesis
    using assms VECTOR_RESIZE_grow [of v c z] by (auto simp: VECTOR_ENSURE_def)
qed

lemma VECTOR_PUSH_ok:
  assumes "vec_wf v" and "vec_len v < vec_max v"
  shows "\<exists>w. VECTOR_PUSH v x = Some w \<and> vec_wf w \<and> vec_list w = vec_list v @ [x]
           \<and> vec_len w = Suc (vec_len v) \<and> vec_max w = vec_max v"
proof -
  let ?w = "v\<lparr>vec_data := (vec_data v)[vec_len v := Some x], vec_len := Suc (vec_len v)\<rparr>"
  have "vec_wf ?w \<and> vec_list ?w = vec_list v @ [x]"
    using assms vec_take_data [of v]
    by (intro vec_wfI) (auto simp: vec_wf_def take_Suc_conv_app_nth)
  with assms show ?thesis by (auto simp: VECTOR_PUSH_def vec_wf_def)
qed

lemma VECTOR_PUSHARRAY_ok:
  assumes "vec_wf v" and "vec_len v + length xs \<le> vec_max v"
  shows "\<exists>w. VECTOR_PUSHARRAY v xs = Some w \<and> vec_wf w \<and> vec_list w = vec_list v @ xs"
proof -
  let ?w = "v\<lparr>vec_data := take (vec_len v) (vec_data v) @ map Some xs
                @ drop (vec_len v + length xs) (vec_data v), vec_len := vec_len v + length xs\<rparr>"
  have "vec_wf ?w \<and> vec_list ?w = vec_list v @ xs"
    using assms vec_take_data [of v] by (intro vec_wfI) (auto simp: vec_wf_def)
  with assms show ?thesis by (auto simp: VECTOR_PUSHARRAY_def vec_wf_def Let_def)
qed

lemma VECTOR_POP_ok:
  assumes "vec_wf v" and "0 < vec_len v"
  shows "\<exists>w. VECTOR_POP v = Some (Some (last (vec_list v)), w) \<and> vec_wf w
           \<and> vec_list w = butlast (vec_list v) \<and> vec_len w = vec_len v - 1
           \<and> vec_max w = vec_max v"
proof -
  let ?w = "v\<lparr>vec_len := vec_len v - 1\<rparr>"
  have "take (vec_len ?w) (vec_data ?w) = map Some (butlast (vec_list v))"
    using assms vec_take_data [of v]
    by (metis One_nat_def butlast_take map_butlast vec.select_convs(2) vec.select_convs(3)
        vec.surjective vec.update_convs(2) vec_wf_def)
  with assms have "vec_wf ?w \<and> vec_list ?w = butlast (vec_list v)"
    by (intro vec_wfI) (auto simp: vec_wf_def)
  moreover have "VECTOR_INDEX v (vec_len v - 1) = Some (last (vec_list v))"
    using assms VECTOR_INDEX_live [of v "vec_len v - 1"]
    by (metis One_nat_def diff_less last_conv_nth less_numeral_extra(1) list.size(3)
        nat_less_le vec_list_length)
  ultimately show ?thesis using assms by (auto simp: VECTOR_POP_def VECTOR_POPN_def)
qed

lemma VECTOR_INSERTARRAY_ok:
  assumes "vec_wf v" and "idx \<le> vec_len v" and "vec_len v + length xs \<le> vec_max v"
  shows "\<exists>w. VECTOR_INSERTARRAY v idx xs = Some w \<and> vec_wf w
           \<and> vec_list w = take idx (vec_list v) @ xs @ drop idx (vec_list v)"
proof -
  let ?n = "length xs" and ?d = "vec_data v" and ?l = "vec_len v"
  obtain rest where rest: "?d = map Some (vec_list v) @ rest" "?l + length rest = vec_max v"
    using vec_take_data [OF assms(1)] assms(1)
    by (metis append_take_drop_id length_append length_map vec_list_length vec_wf_def)
  have len: "length (vec_list v) = ?l" using assms(1) by simp
  let ?dat = "map Some (take idx (vec_list v)) @ map Some xs @ map Some (drop idx (vec_list v))
                @ drop ?n rest"
  have moved: "VECTOR_INSERTARRAY v idx xs = Some (v\<lparr>vec_data := ?dat, vec_len := ?l + ?n\<rparr>)"
    using assms rest len
    by (auto simp: VECTOR_INSERTARRAY_def Let_def take_map drop_map drop_take)
  have "vec_wf (v\<lparr>vec_data := ?dat, vec_len := ?l + ?n\<rparr>)
      \<and> vec_list (v\<lparr>vec_data := ?dat, vec_len := ?l + ?n\<rparr>)
        = take idx (vec_list v) @ xs @ drop idx (vec_list v)"
    using assms rest len by (intro vec_wfI) auto
  with moved show ?thesis by blast
qed

lemma VECTOR_ERASEN_ok:
  assumes "vec_wf v" and "idx + n \<le> vec_len v"
  shows "\<exists>w. VECTOR_ERASEN v idx n = Some w \<and> vec_wf w
           \<and> vec_list w = take idx (vec_list v) @ drop (idx + n) (vec_list v)"
proof -
  let ?d = "vec_data v" and ?l = "vec_len v"
  obtain rest where rest: "?d = map Some (vec_list v) @ rest" "?l + length rest = vec_max v"
    using vec_take_data [OF assms(1)] assms(1)
    by (metis append_take_drop_id length_append length_map vec_list_length vec_wf_def)
  have len: "length (vec_list v) = ?l" using assms(1) by simp
  define w where "w = the (VECTOR_ERASEN v idx n)"
  have w: "VECTOR_ERASEN v idx n = Some w"
    using assms(2) by (simp add: w_def VECTOR_ERASEN_def Let_def)
  have dat: "vec_len w = ?l - n" "vec_max w = vec_max v" "length (vec_data w) = vec_max v"
    using w assms rest len by (auto simp: VECTOR_ERASEN_def Let_def)
  have "take (?l - n) (vec_data w)
      = map Some (take idx (vec_list v) @ drop (idx + n) (vec_list v))"
  proof (cases "idx < ?l - n")
    case True
    with w assms rest len show ?thesis
      by (auto simp: VECTOR_ERASEN_def Let_def take_map drop_map)
  next
    case False
    with assms have "?l - n = idx" "idx + n = ?l" by auto
    with w assms rest len show ?thesis
      by (auto simp: VECTOR_ERASEN_def Let_def take_map)
  qed
  then have "vec_wf w \<and> vec_list w = take idx (vec_list v) @ drop (idx + n) (vec_list v)"
    using dat rest by (intro vec_wfI) auto
  with w show ?thesis by blast
qed

lemma VECTOR_TRUNCATE_ok: "vec_wf v \<Longrightarrow> vec_wf (VECTOR_TRUNCATE v) \<and> vec_list (VECTOR_TRUNCATE v) = []"
  by (simp add: VECTOR_TRUNCATE_def vec_wf_def vec_list_def)

lemma VECTOR_CLEAR_ok: "vec_wf v \<Longrightarrow> vec_wf (VECTOR_CLEAR v) \<and> vec_list (VECTOR_CLEAR v) = []"
  by (auto simp: VECTOR_CLEAR_def vec_wf_def vec_list_def)

lemma mset_ARR_MOVE:
  assumes "from < length xs" and "to < length xs"
  shows "mset (ARR_MOVE from to xs) = mset xs"
proof -
  have split: "mset xs = mset (take a xs) + {#xs ! a#} + mset (drop (Suc a) xs)"
    if "a < length xs" for a
    using that by (metis id_take_nth_drop mset.simps(2) mset_append union_assoc add_mset_add_single union_commute)
  have mid: "mset (drop a xs) = mset (take (b - a) (drop a xs)) + mset (drop b xs)"
    if "a \<le> b" for a b
    using that by (metis append_take_drop_id drop_drop le_add_diff_inverse2 mset_append)
  show ?thesis
  proof (cases "from < to")
    case True
    then show ?thesis
      using split [OF assms(1)] mid [of "Suc from" "Suc to"]
      by (auto simp: ARR_MOVE_def ARR_MOVERIGHT_def)
  next
    case False
    have "mset xs = mset (take to xs) + mset (drop to xs)"
      by (metis append_take_drop_id mset_append)
    moreover have "mset (drop to xs) = mset (take (from - to) (drop to xs)) + mset (drop from xs)"
      using mid [of to "from"] False by simp
    moreover have "drop from xs = xs ! from # drop (Suc from) xs"
      using assms(1) by (simp add: Cons_nth_drop_Suc)
    ultimately show ?thesis using False
      by (auto simp: ARR_MOVE_def ARR_MOVELEFT_def)
  qed
qed

text \<open>
  Shrinking a vector below its length with \<open>VECTOR_RESIZE\<close> does not shorten it: the
  test that should update the length is the wrong way round, so the capacity drops to
  \<open>n\<close>, the length stays, and reading the last element is out of bounds.
\<close>

theorem vector_shrink_keeps_length:
  assumes "vec_wf v" "0 < n" "n < vec_len v"
  shows "vec_max (VECTOR_RESIZE z v n) = n \<and> vec_len (VECTOR_RESIZE z v n) = vec_len v \<and>
    \<not> vec_wf (VECTOR_RESIZE z v n) \<and> VECTOR_LAST (VECTOR_RESIZE z v n) = None"
  using assms by (auto simp: VECTOR_RESIZE_def vec_wf_def VECTOR_LAST_def VECTOR_INDEX_def)

lemma all_less_two: "(\<forall>i < (2::nat). P i) \<longleftrightarrow> P 0 \<and> P 1"
  by (auto simp: less_2_cases_iff)

theorem vector_shrink_keeps_length_witness:
  "VECTOR_LAST (VECTOR_RESIZE 0 \<lparr>vec_max = 2, vec_len = 2, vec_data = [Some 7, Some (8::nat)]\<rparr> 1) = None"
proof -
  have "vec_wf \<lparr>vec_max = 2, vec_len = 2, vec_data = [Some 7, Some (8::nat)]\<rparr>"
    by (simp add: vec_wf_def all_less_two)
  from vector_shrink_keeps_length [OF this, of 1 0] show ?thesis by simp
qed

end
