(* ===== verification/Bheap.thy ===== *)
theory Bheap
  imports Vector
begin

text \<open>
  The binary heaps of \<open>src/common/db.h\<close> (the \<open>BHEAP_*\<close> macros) over vectors. The
  sift loops work on the live elements of the vector, so they are functions on lists with
  the macro's index variable; the macros themselves work on vectors. The interface
  \<open>topcmp\<close> states what the macros require of their comparator; every law of the heap
  is proved inside it. Two families: \<open>BHEAP_PUSH\<close>/\<open>BHEAP_POPINDEX\<close> (timers) and
  \<open>BHEAP_PUSH2\<close>/\<open>BHEAP_POP2\<close>/\<open>BHEAP_UPDATE\<close> (path finding, where the order
  among equal elements must be the client's).
\<close>

section \<open>The operations\<close>

text \<open>
  The upward loop, shared by three macros: from \<open>i\<close> towards \<open>start\<close>, stop where
  \<open>stop parent element\<close> holds, else swap with the parent. Returns the final index too.
\<close>

function bheap_climb ::
  "('a \<Rightarrow> 'a \<Rightarrow> bool) \<Rightarrow> nat \<Rightarrow> 'a list \<Rightarrow> nat \<Rightarrow> 'a list \<times> nat" where
  "bheap_climb stop start xs i =
     (if i > start then
        let parent = (i - 1) div 2
        in if stop (xs ! parent) (xs ! i) then (xs, i)
           else bheap_climb stop start (swap_at xs parent i) parent
      else (xs, i))"
  by pat_completeness auto
termination
  by (relation "measure (\<lambda>(stop, start, xs, i). i)") auto

declare bheap_climb.simps [simp del]

definition bheap_up :: "('a \<Rightarrow> 'a \<Rightarrow> int) \<Rightarrow> 'a list \<Rightarrow> nat \<Rightarrow> 'a list \<times> nat" where
  "bheap_up topcmp = bheap_climb (\<lambda>p x. topcmp p x < 0) 0"

definition BHEAP_SIFTDOWN :: "('a \<Rightarrow> 'a \<Rightarrow> int) \<Rightarrow> 'a list \<Rightarrow> nat \<Rightarrow> nat \<Rightarrow> 'a list" where
  "BHEAP_SIFTDOWN topcmp xs start i = fst (bheap_climb (\<lambda>p x. topcmp p x \<le> 0) start xs i)"

text \<open>The downward loop of \<open>BHEAP_POPINDEX\<close>: swap with the smaller child.\<close>

function bheap_down :: "('a \<Rightarrow> 'a \<Rightarrow> int) \<Rightarrow> 'a list \<Rightarrow> nat \<Rightarrow> 'a list" where
  "bheap_down topcmp xs i =
     (if i < length xs then
        let l = i * 2 + 1; r = i * 2 + 2
        in if (l \<ge> length xs \<or> topcmp (xs ! i) (xs ! l) \<le> 0)
              \<and> (r \<ge> length xs \<or> topcmp (xs ! i) (xs ! r) \<le> 0) then xs
           else if r \<ge> length xs \<or> topcmp (xs ! l) (xs ! r) \<le> 0
           then bheap_down topcmp (swap_at xs i l) l
           else bheap_down topcmp (swap_at xs i r) r
      else xs)"
  by pat_completeness auto
termination
  by (relation "measure (\<lambda>(topcmp, xs, i). length xs - i)") auto

declare bheap_down.simps [simp del]

text \<open>The loop of \<open>BHEAP_SIFTUP\<close>: the smaller child moves up all the way to a leaf.\<close>

function bheap_leafward :: "('a \<Rightarrow> 'a \<Rightarrow> int) \<Rightarrow> 'a list \<Rightarrow> nat \<Rightarrow> 'a list \<times> nat" where
  "bheap_leafward topcmp xs i =
     (let l = i * 2 + 1 in
      if l < length xs then
        let r = i * 2 + 2
        in if r \<ge> length xs \<or> topcmp (xs ! l) (xs ! r) < 0
           then bheap_leafward topcmp (swap_at xs i l) l
           else bheap_leafward topcmp (swap_at xs i r) r
      else (xs, i))"
  by pat_completeness auto
termination
  by (relation "measure (\<lambda>(topcmp, xs, i). length xs - i)") auto

declare bheap_leafward.simps [simp del]

definition BHEAP_SIFTUP :: "('a \<Rightarrow> 'a \<Rightarrow> int) \<Rightarrow> 'a list \<Rightarrow> nat \<Rightarrow> 'a list" where
  "BHEAP_SIFTUP topcmp xs idx =
     (let (ys, i) = bheap_leafward topcmp xs idx in BHEAP_SIFTDOWN topcmp ys idx i)"

text \<open>
  The live part of a vector, rewritten in place (the loops read and write nothing else).
\<close>

definition vec_map_live :: "('a list \<Rightarrow> 'a list) \<Rightarrow> 'a vec \<Rightarrow> 'a vec" where
  "vec_map_live f v = v\<lparr>vec_data := map Some (f (vec_list v)) @ drop (vec_len v) (vec_data v)\<rparr>"

definition BHEAP_PEEK :: "'a vec \<Rightarrow> 'a option" where
  "BHEAP_PEEK v = VECTOR_INDEX v 0"

definition BHEAP_PUSH :: "('a \<Rightarrow> 'a \<Rightarrow> int) \<Rightarrow> 'a vec \<Rightarrow> 'a \<Rightarrow> 'a vec option" where
  "BHEAP_PUSH topcmp v x =
     map_option (vec_map_live (\<lambda>xs. fst (bheap_up topcmp xs (vec_len v)))) (VECTOR_PUSH v x)"

definition BHEAP_PUSH2 :: "('a \<Rightarrow> 'a \<Rightarrow> int) \<Rightarrow> 'a vec \<Rightarrow> 'a \<Rightarrow> 'a vec option" where
  "BHEAP_PUSH2 topcmp v x =
     map_option (vec_map_live (\<lambda>xs. BHEAP_SIFTDOWN topcmp xs 0 (vec_len v))) (VECTOR_PUSH v x)"

text \<open>
  \<open>VECTOR_INDEX(_heap, _idx) = VECTOR_POP(_heap)\<close>, then the two loops unless the
  removed index was the last one.
\<close>

definition BHEAP_POPINDEX :: "('a \<Rightarrow> 'a \<Rightarrow> int) \<Rightarrow> 'a vec \<Rightarrow> nat \<Rightarrow> 'a vec option" where
  "BHEAP_POPINDEX topcmp v idx =
     (case VECTOR_POP v of
        Some (Some y, w) \<Rightarrow>
          if idx \<ge> vec_len v then None
          else let w' = w\<lparr>vec_data := (vec_data w)[idx := Some y]\<rparr>
               in if idx \<ge> vec_len w' then Some w'
                  else Some (vec_map_live
                    (\<lambda>xs. let (ys, i) = bheap_up topcmp xs idx in bheap_down topcmp ys i) w')
      | _ \<Rightarrow> None)"

definition BHEAP_POP :: "('a \<Rightarrow> 'a \<Rightarrow> int) \<Rightarrow> 'a vec \<Rightarrow> 'a vec option" where
  "BHEAP_POP topcmp v = BHEAP_POPINDEX topcmp v 0"

definition BHEAP_POP2 :: "('a \<Rightarrow> 'a \<Rightarrow> int) \<Rightarrow> 'a vec \<Rightarrow> 'a vec option" where
  "BHEAP_POP2 topcmp v =
     (case VECTOR_POP v of
        Some (Some y, w) \<Rightarrow>
          (let w' = w\<lparr>vec_data := (vec_data w)[0 := Some y]\<rparr>
           in if vec_len w' = 0 then Some w'
              else Some (vec_map_live (\<lambda>xs. BHEAP_SIFTUP topcmp xs 0) w'))
      | _ \<Rightarrow> None)"

definition BHEAP_UPDATE :: "('a \<Rightarrow> 'a \<Rightarrow> int) \<Rightarrow> 'a vec \<Rightarrow> nat \<Rightarrow> 'a vec" where
  "BHEAP_UPDATE topcmp v idx =
     vec_map_live (\<lambda>xs. BHEAP_SIFTUP topcmp (BHEAP_SIFTDOWN topcmp xs 0 idx) idx) v"

definition BHEAP_MINTOPCMP :: "int \<Rightarrow> int \<Rightarrow> int" where
  "BHEAP_MINTOPCMP v1 v2 = (if v1 = v2 then 0 else if v1 < v2 then -1 else 1)"

definition BHEAP_MAXTOPCMP :: "int \<Rightarrow> int \<Rightarrow> int" where
  "BHEAP_MAXTOPCMP v1 v2 = (if v1 = v2 then 0 else if v1 > v2 then -1 else 1)"

text \<open>The heap order: no element is above its parent.\<close>

definition par :: "nat \<Rightarrow> nat" where
  "par i = (i - 1) div 2"

definition heap_ok :: "('a \<Rightarrow> 'a \<Rightarrow> int) \<Rightarrow> 'a list \<Rightarrow> bool" where
  "heap_ok topcmp xs \<longleftrightarrow> (\<forall>i < length xs. 0 < i \<longrightarrow> topcmp (xs ! par i) (xs ! i) \<le> 0)"

text \<open>The subtree below a position.\<close>

inductive desc :: "nat \<Rightarrow> nat \<Rightarrow> bool" for s where
  self: "desc s s"
| left: "desc s i \<Longrightarrow> desc s (2 * i + 1)"
| right: "desc s i \<Longrightarrow> desc s (2 * i + 2)"

lemma desc_ge: "desc s i \<Longrightarrow> s \<le> i"
  by (induction rule: desc.induct) auto

lemma desc_par: "desc s i \<Longrightarrow> s < i \<Longrightarrow> desc s (par i)"
  by (erule desc.cases) (simp_all add: par_def)

lemma par_lt [simp]: "0 < i \<Longrightarrow> par i < i"
  by (simp add: par_def)

lemma par_le [simp]: "par i \<le> i"
  by (simp add: par_def)

lemma par_neq: "0 < i \<Longrightarrow> par i \<noteq> i"
  by (metis par_lt less_irrefl)

lemma par_split: "0 < i \<Longrightarrow> i = 2 * par i + 1 \<or> i = 2 * par i + 2"
  unfolding par_def by presburger

lemma child_cases: "0 < j \<Longrightarrow> par j = i \<longleftrightarrow> j = i * 2 + 1 \<or> j = i * 2 + 2"
  unfolding par_def by presburger

lemma climb_simps:
  "bheap_climb stop start xs i =
     (if i > start then
        if stop (xs ! par i) (xs ! i) then (xs, i)
        else bheap_climb stop start (swap_at xs (par i) i) (par i)
      else (xs, i))"
  by (simp add: bheap_climb.simps [of stop start xs i] par_def Let_def)

lemma desc_0: "desc 0 i"
proof (induction i rule: less_induct)
  case (less i)
  show ?case
  proof (cases "i = 0")
    case False
    then have d: "desc 0 (par i)" using less.IH [of "par i"] by simp
    from False have "0 < i" by simp
    from par_split [OF this] show ?thesis
    proof
      assume e: "i = 2 * par i + 1"
      show ?thesis by (subst e) (rule desc.left [OF d])
    next
      assume e: "i = 2 * par i + 2"
      show ?thesis by (subst e) (rule desc.right [OF d])
    qed
  qed (simp add: desc.self)
qed

text \<open>Heap everywhere except possibly above \<open>i\<close>, below \<open>i\<close>, or around \<open>i\<close>.\<close>

definition up_ok :: "('a \<Rightarrow> 'a \<Rightarrow> int) \<Rightarrow> 'a list \<Rightarrow> nat \<Rightarrow> bool" where
  "up_ok cmp xs i \<longleftrightarrow>
     (\<forall>j < length xs. 0 < j \<longrightarrow> j \<noteq> i \<longrightarrow> cmp (xs ! par j) (xs ! j) \<le> 0) \<and>
     (\<forall>j < length xs. 0 < j \<longrightarrow> 0 < i \<longrightarrow> par j = i \<longrightarrow> cmp (xs ! par i) (xs ! j) \<le> 0)"

definition dn_ok :: "('a \<Rightarrow> 'a \<Rightarrow> int) \<Rightarrow> 'a list \<Rightarrow> nat \<Rightarrow> bool" where
  "dn_ok cmp xs i \<longleftrightarrow>
     (\<forall>j < length xs. 0 < j \<longrightarrow> par j \<noteq> i \<longrightarrow> cmp (xs ! par j) (xs ! j) \<le> 0) \<and>
     (\<forall>j < length xs. 0 < j \<longrightarrow> 0 < i \<longrightarrow> par j = i \<longrightarrow> cmp (xs ! par i) (xs ! j) \<le> 0)"

definition hole_ok :: "('a \<Rightarrow> 'a \<Rightarrow> int) \<Rightarrow> 'a list \<Rightarrow> nat \<Rightarrow> bool" where
  "hole_ok cmp xs i \<longleftrightarrow>
     (\<forall>j < length xs. 0 < j \<longrightarrow> j \<noteq> i \<longrightarrow> par j \<noteq> i \<longrightarrow> cmp (xs ! par j) (xs ! j) \<le> 0) \<and>
     (\<forall>j < length xs. 0 < j \<longrightarrow> 0 < i \<longrightarrow> par j = i \<longrightarrow> cmp (xs ! par i) (xs ! j) \<le> 0)"

section \<open>The laws of the heap\<close>

text \<open>What the macros require of \<open>_topcmp\<close>: a total preorder, with the sign convention.\<close>

locale topcmp =
  fixes cmp :: "'a \<Rightarrow> 'a \<Rightarrow> int"
  assumes flip: "cmp x y < 0 \<longleftrightarrow> 0 < cmp y x"
    and le_trans: "cmp x y \<le> 0 \<Longrightarrow> cmp y z \<le> 0 \<Longrightarrow> cmp x z \<le> 0"
begin

lemma total: "cmp x y \<le> 0 \<or> cmp y x \<le> 0"
  using flip [of y x] by linarith

lemma not_lt: "\<not> cmp x y < 0 \<Longrightarrow> cmp y x \<le> 0"
  using flip [of x y] by linarith

lemma not_le: "\<not> cmp x y \<le> 0 \<Longrightarrow> cmp y x \<le> 0"
  using total by blast

lemma refl: "cmp x x \<le> 0"
  using total by blast

lemma up_hole: "up_ok cmp xs i \<Longrightarrow> hole_ok cmp xs i"
  by (simp add: up_ok_def hole_ok_def)

lemma dn_hole: "dn_ok cmp xs i \<Longrightarrow> hole_ok cmp xs i"
  by (simp add: dn_ok_def hole_ok_def)

lemma heap_dn: "heap_ok cmp xs \<Longrightarrow> i < length xs \<Longrightarrow> dn_ok cmp xs i"
  by (auto simp: heap_ok_def dn_ok_def intro: le_trans [rotated])

lemma heap_hole: "heap_ok cmp xs \<Longrightarrow> i < length xs \<Longrightarrow> hole_ok cmp xs i"
  by (rule dn_hole) (rule heap_dn)

text \<open>One upward swap turns a hole at \<open>i\<close> into an upward-only defect at its parent.\<close>

lemma swap_up:
  assumes "hole_ok cmp xs i" and "0 < i" and "i < length xs"
    and "cmp (xs ! i) (xs ! par i) \<le> 0"
  shows "up_ok cmp (swap_at xs (par i) i) (par i)"
proof -
  let ?p = "par i" and ?ys = "swap_at xs (par i) i"
  have p: "?p < length xs" "?p \<noteq> i" using assms par_lt [of i] by linarith+
  have nth: "?ys ! k = (if k = ?p then xs ! i else if k = i then xs ! ?p else xs ! k)" for k
    using p assms by (simp add: nth_swap_at)
  have ok: "cmp (xs ! par j) (xs ! j) \<le> 0" if "j < length xs" "0 < j" "j \<noteq> i" "par j \<noteq> i" for j
    using that assms(1) by (simp add: hole_ok_def)
  have ch: "cmp (xs ! ?p) (xs ! j) \<le> 0" if "j < length xs" "0 < j" "par j = i" for j
    using that assms by (simp add: hole_ok_def)
  have sib: "cmp (xs ! ?p) (xs ! j) \<le> 0" if "j < length xs" "0 < j" "j \<noteq> i" "par j = ?p" for j
    using ok [OF that(1-3)] that p by auto
  have "cmp (?ys ! par j) (?ys ! j) \<le> 0" if j: "j < length xs" "0 < j" "j \<noteq> ?p" for j
  proof -
    consider "j = i" | "j \<noteq> i" "par j = ?p" | "par j = i" | "j \<noteq> i" "par j \<noteq> ?p" "par j \<noteq> i"
      by blast
    then show ?thesis
    proof cases
      case 1 then show ?thesis using assms(4) p by (simp add: nth)
    next
      case 2 then show ?thesis
        using j sib le_trans [OF assms(4)] p by (simp add: nth)
    next
      case 3
      then have "j \<noteq> i" using j by auto
      with 3 show ?thesis using j ch [of j] p by (simp add: nth)
    next
      case 4 then show ?thesis using j ok [of j] by (simp add: nth)
    qed
  qed
  moreover have "cmp (?ys ! par ?p) (?ys ! j) \<le> 0"
    if j: "j < length xs" "0 < j" "0 < ?p" "par j = ?p" for j
  proof -
    have pp: "par ?p \<noteq> ?p" "par ?p \<noteq> i" "j \<noteq> ?p"
      using j par_lt [OF j(2)] par_lt [OF j(3)] par_lt [OF assms(2)] by linarith+
    have top: "cmp (xs ! par ?p) (xs ! ?p) \<le> 0" using ok [of ?p] j p pp by simp
    show ?thesis
      using top sib [of j] le_trans [OF top] j pp by (cases "j = i") (auto simp: nth)
  qed
  ultimately show ?thesis by (simp add: up_ok_def)
qed

text \<open>The upward loop repairs an upward-only defect.\<close>

lemma climb_up_ok:
  assumes "up_ok cmp xs i" and "i < length xs" and "desc start i"
    and "0 < start \<Longrightarrow> cmp (xs ! par start) (xs ! i) \<le> 0"
    and stop: "\<And>p x. stop p x \<Longrightarrow> cmp p x \<le> 0" "\<And>p x. \<not> stop p x \<Longrightarrow> cmp x p \<le> 0"
  shows "heap_ok cmp (fst (bheap_climb stop start xs i))"
  using assms
proof (induction stop start xs i rule: bheap_climb.induct)
  case (1 stop start xs i)
  show ?case
  proof (cases "i > start")
    case False
    with 1 have "i = start" using desc_ge by fastforce
    with 1 have "heap_ok cmp xs"
      by (auto simp: heap_ok_def up_ok_def)
    with False show ?thesis by (simp add: climb_simps [of stop start xs i])
  next
    case True
    show ?thesis
    proof (cases "stop (xs ! par i) (xs ! i)")
      case stopped: True
      have "cmp (xs ! par i) (xs ! i) \<le> 0" using "1.prems"(5) stopped by blast
      with "1.prems"(1) have "heap_ok cmp xs"
        by (auto simp: heap_ok_def up_ok_def)
      with True stopped show ?thesis by (simp add: climb_simps [of stop start xs i])
    next
      case False
      let ?ys = "swap_at xs (par i) i"
      have le: "cmp (xs ! i) (xs ! par i) \<le> 0" using "1.prems"(6) False by blast
      have up: "up_ok cmp ?ys (par i)"
        using swap_up [OF up_hole [OF "1.prems"(1)]] True "1.prems"(2) le by simp
      have d: "desc start (par i)" using desc_par "1.prems"(3) True by blast
      have st: "cmp (?ys ! par start) (?ys ! par i) \<le> 0" if "0 < start"
      proof -
        have "par start < start" "start \<le> par i" using that desc_ge [OF d] by auto
        then have "par start \<noteq> par i" "par start \<noteq> i" "par i < length xs"
          using True "1.prems"(2) par_le [of i] by linarith+
        then show ?thesis using "1.prems"(2,4) that True by (simp add: nth_swap_at)
      qed
      have "heap_ok cmp (fst (bheap_climb stop start ?ys (par i)))"
        using "1.IH" [OF True par_def False up _ d] "1.prems" st le_less_trans [OF par_le "1.prems"(2)]
        by simp
      with True False show ?thesis by (simp add: climb_simps [of stop start xs i])
    qed
  qed
qed

text \<open>From a hole, the upward loop to the root either repairs the heap or leaves it as it is.\<close>

lemma climb_hole:
  assumes "hole_ok cmp xs i" and "i < length xs"
    and stop: "\<And>p x. stop p x \<Longrightarrow> cmp p x \<le> 0" "\<And>p x. \<not> stop p x \<Longrightarrow> cmp x p \<le> 0"
  shows "heap_ok cmp (fst (bheap_climb stop 0 xs i))
       \<or> (bheap_climb stop 0 xs i = (xs, i) \<and> dn_ok cmp xs i)"
proof (cases "0 < i \<and> \<not> stop (xs ! par i) (xs ! i)")
  case True
  then have "up_ok cmp (swap_at xs (par i) i) (par i)"
    using swap_up assms by blast
  then have "heap_ok cmp (fst (bheap_climb stop 0 (swap_at xs (par i) i) (par i)))"
    using climb_up_ok [of _ "par i" 0 stop] desc_0 assms(2) stop le_less_trans [OF par_le assms(2)]
    by simp
  with True show ?thesis by (simp add: climb_simps [of stop 0 xs i])
next
  case False
  then have "bheap_climb stop 0 xs i = (xs, i)" by (auto simp: climb_simps [of stop 0 xs i])
  moreover have "dn_ok cmp xs i"
    using False assms by (auto simp: dn_ok_def hole_ok_def)
  ultimately show ?thesis by blast
qed

text \<open>Swapping the smallest child up moves a hole down.\<close>

lemma swap_down:
  assumes "hole_ok cmp xs i" and "c < length xs" and "0 < c" and "par c = i"
    and min: "\<And>j. j < length xs \<Longrightarrow> 0 < j \<Longrightarrow> par j = i \<Longrightarrow> cmp (xs ! c) (xs ! j) \<le> 0"
  shows "hole_ok cmp (swap_at xs i c) c"
proof -
  let ?ys = "swap_at xs i c"
  have i: "i < c" "i < length xs" using assms(2,4) par_lt [OF assms(3)] by linarith+
  have nth: "?ys ! k = (if k = i then xs ! c else if k = c then xs ! i else xs ! k)" for k
    using i assms by (simp add: nth_swap_at)
  have ok: "cmp (xs ! par j) (xs ! j) \<le> 0" if "j < length xs" "0 < j" "j \<noteq> i" "par j \<noteq> i" for j
    using that assms(1) by (simp add: hole_ok_def)
  have ch: "cmp (xs ! par i) (xs ! c) \<le> 0" if "0 < i"
    using that assms by (simp add: hole_ok_def)
  have "cmp (?ys ! par j) (?ys ! j) \<le> 0"
    if j: "j < length xs" "0 < j" "j \<noteq> c" "par j \<noteq> c" for j
  proof -
    consider "j = i" | "par j = i" | "j \<noteq> i" "par j \<noteq> i" by blast
    then show ?thesis
    proof cases
      case 1
      then have "par i \<noteq> i" "par i \<noteq> c" using j i par_neq [of i] by auto
      with 1 show ?thesis using ch j by (simp add: nth)
    next
      case 2
      then have "j \<noteq> i" using j par_neq [of j] by auto
      with 2 show ?thesis using min [of j] j by (simp add: nth)
    next
      case 3 then show ?thesis using ok [of j] j by (simp add: nth)
    qed
  qed
  moreover have "cmp (?ys ! par c) (?ys ! j) \<le> 0"
    if j: "j < length xs" "0 < j" "par j = c" for j
  proof -
    have "j \<noteq> i" "j \<noteq> c" "par j \<noteq> i" using j i par_lt [OF j(2)] by auto
    then show ?thesis using ok [of j] j assms(4) by (simp add: nth)
  qed
  ultimately show ?thesis by (simp add: hole_ok_def)
qed

lemma swap_down_dn:
  assumes "dn_ok cmp xs i" and "c < length xs" and "0 < c" and "par c = i"
    and min: "\<And>j. j < length xs \<Longrightarrow> 0 < j \<Longrightarrow> par j = i \<Longrightarrow> cmp (xs ! c) (xs ! j) \<le> 0"
    and "cmp (xs ! c) (xs ! i) \<le> 0"
  shows "dn_ok cmp (swap_at xs i c) c"
proof -
  have hole: "hole_ok cmp (swap_at xs i c) c"
    using swap_down [OF dn_hole [OF assms(1)] assms(2-4) min] by blast
  moreover have "i < c" "i < length xs" using assms(2,4) par_lt [OF assms(3)] by linarith+
  ultimately have "cmp (swap_at xs i c ! par c) (swap_at xs i c ! c) \<le> 0"
    using assms(2,4,6) by (simp add: nth_swap_at)
  with hole show ?thesis by (auto simp: hole_ok_def dn_ok_def)
qed

lemma min_child:
  assumes "i * 2 + 1 < length xs"
    and "c = i * 2 + 1 \<and> (i * 2 + 2 \<ge> length xs \<or> cmp (xs ! (i * 2 + 1)) (xs ! (i * 2 + 2)) \<le> 0)
       \<or> c = i * 2 + 2 \<and> c < length xs \<and> cmp (xs ! (i * 2 + 2)) (xs ! (i * 2 + 1)) \<le> 0"
  shows "c < length xs \<and> 0 < c \<and> par c = i
       \<and> (\<forall>j < length xs. 0 < j \<longrightarrow> par j = i \<longrightarrow> cmp (xs ! c) (xs ! j) \<le> 0)"
  using assms child_cases [of _ i] by (auto simp: refl)

lemma down_ok:
  assumes "dn_ok cmp xs i"
  shows "heap_ok cmp (bheap_down cmp xs i)"
  using assms
proof (induction "length xs - i" arbitrary: xs i rule: less_induct)
  case less
  let ?l = "i * 2 + 1" and ?r = "i * 2 + 2"
  let ?done = "(?l \<ge> length xs \<or> cmp (xs ! i) (xs ! ?l) \<le> 0)
             \<and> (?r \<ge> length xs \<or> cmp (xs ! i) (xs ! ?r) \<le> 0)"
  show ?case
  proof (cases "i < length xs \<and> \<not> ?done")
    case False
    then have "bheap_down cmp xs i = xs" by (auto simp: bheap_down.simps [of cmp xs i])
    moreover have "cmp (xs ! par j) (xs ! j) \<le> 0" if j: "j < length xs" "0 < j" for j
    proof (cases "par j = i")
      case True
      then have "i < length xs" "j = ?l \<or> j = ?r"
        using j par_lt [of j] child_cases [of j i] by auto
      then show ?thesis using False True j by auto
    next
      case False
      then show ?thesis using less.prems j by (simp add: dn_ok_def)
    qed
    ultimately show ?thesis by (simp add: heap_ok_def)
  next
    case True
    let ?left = "?r \<ge> length xs \<or> cmp (xs ! ?l) (xs ! ?r) \<le> 0"
    define c where "c = (if ?left then ?l else ?r)"
    have lt: "?l < length xs" using True by auto
    have r: "\<not> ?left \<Longrightarrow> cmp (xs ! ?r) (xs ! ?l) \<le> 0" using not_le by blast
    have cs: "c < length xs \<and> 0 < c \<and> par c = i
        \<and> (\<forall>j < length xs. 0 < j \<longrightarrow> par j = i \<longrightarrow> cmp (xs ! c) (xs ! j) \<le> 0)"
      by (rule min_child [OF lt]) (use r in \<open>auto simp: c_def\<close>)
    have "cmp (xs ! ?l) (xs ! i) \<le> 0 \<or> (?r < length xs \<and> cmp (xs ! ?r) (xs ! i) \<le> 0)"
      using True lt not_le [of "xs ! i" "xs ! ?l"] not_le [of "xs ! i" "xs ! ?r"] by linarith
    then have "cmp (xs ! c) (xs ! i) \<le> 0"
      using r le_trans [of "xs ! ?r" "xs ! ?l" "xs ! i"] le_trans [of "xs ! ?l" "xs ! ?r" "xs ! i"]
      by (auto simp: c_def simp del: add_2_eq_Suc' One_nat_def)
    then have dn: "dn_ok cmp (swap_at xs i c) c"
      using swap_down_dn [OF less.prems, of c] cs by blast
    have "bheap_down cmp xs i = bheap_down cmp (swap_at xs i c) c"
      using True by (subst bheap_down.simps) (auto simp: Let_def c_def)
    moreover have "heap_ok cmp (bheap_down cmp (swap_at xs i c) c)"
      using dn cs par_lt [of c] by (intro less.hyps) auto
    ultimately show ?thesis by simp
  qed
qed

lemma leafward_ok:
  assumes "hole_ok cmp xs i" and "i < length xs" and "desc start i"
    and "0 < start \<Longrightarrow> cmp (xs ! par start) (xs ! i) \<le> 0"
    and "bheap_leafward cmp xs i = (ys, k)"
  shows "up_ok cmp ys k \<and> k < length ys \<and> desc start k
       \<and> (0 < start \<longrightarrow> cmp (ys ! par start) (ys ! k) \<le> 0)"
  using assms
proof (induction "length xs - i" arbitrary: xs i rule: less_induct)
  case less
  let ?l = "i * 2 + 1" and ?r = "i * 2 + 2"
  show ?case
  proof (cases "?l < length xs")
    case False
    then have eq: "ys = xs" "k = i"
      using less.prems(5) by (auto simp: bheap_leafward.simps [of cmp xs i])
    have no: "par j \<noteq> i" if "j < length xs" "0 < j" for j
      using that False child_cases [of j i] by auto
    have "up_ok cmp xs i"
      using less.prems(1) no by (simp add: up_ok_def hole_ok_def)
    then show ?thesis using less.prems(2-4) eq by simp
  next
    case True
    let ?left = "?r \<ge> length xs \<or> cmp (xs ! ?l) (xs ! ?r) < 0"
    have r: "\<not> ?left \<Longrightarrow> cmp (xs ! ?r) (xs ! ?l) \<le> 0" using not_lt by blast
    define c where "c = (if ?left then ?l else ?r)"
    have cs: "c < length xs \<and> 0 < c \<and> par c = i
        \<and> (\<forall>j < length xs. 0 < j \<longrightarrow> par j = i \<longrightarrow> cmp (xs ! c) (xs ! j) \<le> 0)"
      by (rule min_child [OF True]) (use r in \<open>auto simp: c_def\<close>)
    have hole: "hole_ok cmp (swap_at xs i c) c"
      using swap_down [OF less.prems(1), of c] cs by blast
    have d: "desc start c"
      using desc.left [OF less.prems(3)] desc.right [OF less.prems(3)] by (simp add: c_def mult.commute)
    have st: "cmp (swap_at xs i c ! par start) (swap_at xs i c ! c) \<le> 0" if "0 < start"
    proof -
      have "par start < start" "start \<le> i" using that desc_ge [OF less.prems(3)] by auto
      then have "par start \<noteq> i" "par start \<noteq> c" using cs par_lt [of c] by auto
      then show ?thesis using less.prems(2,4) cs that by (simp add: nth_swap_at)
    qed
    have "bheap_leafward cmp (swap_at xs i c) c = (ys, k)"
      using less.prems(5) True by (subst (asm) bheap_leafward.simps) (auto simp: Let_def c_def split: if_splits)
    then show ?thesis
      using hole d st cs par_lt [of c] less.prems(2)
      by (intro less.hyps [of "swap_at xs i c" c]) auto
  qed
qed

lemma SIFTUP_ok:
  assumes "hole_ok cmp xs i" and "i < length xs"
    and "0 < i \<Longrightarrow> cmp (xs ! par i) (xs ! i) \<le> 0"
  shows "heap_ok cmp (BHEAP_SIFTUP cmp xs i)"
proof -
  obtain ys k where lw: "bheap_leafward cmp xs i = (ys, k)" by fastforce
  from leafward_ok [OF assms(1,2) desc.self assms(3) lw]
  have "up_ok cmp ys k" "k < length ys" "desc i k" "0 < i \<Longrightarrow> cmp (ys ! par i) (ys ! k) \<le> 0" by auto
  then have "heap_ok cmp (fst (bheap_climb (\<lambda>p x. cmp p x \<le> 0) i ys k))"
    by (rule climb_up_ok) (auto dest: not_le)
  then show ?thesis by (simp add: BHEAP_SIFTUP_def BHEAP_SIFTDOWN_def lw)
qed

text \<open>The root of a heap is a minimum.\<close>

lemma heap_top:
  assumes "heap_ok cmp xs" and "i < length xs"
  shows "cmp (xs ! 0) (xs ! i) \<le> 0"
  using assms(2)
proof (induction i rule: less_induct)
  case (less i)
  show ?case
  proof (cases "i = 0")
    case True
    then show ?thesis by (simp add: refl)
  next
    case False
    then have "par i < i" by simp
    with less have "cmp (xs ! 0) (xs ! par i) \<le> 0" by simp
    moreover have "cmp (xs ! par i) (xs ! i) \<le> 0"
      using assms(1) less.prems False by (simp add: heap_ok_def)
    ultimately show ?thesis by (rule le_trans)
  qed
qed

end

section \<open>The loops permute the elements\<close>

lemma climb_perm:
  "i < length xs \<Longrightarrow> mset (fst (bheap_climb stop start xs i)) = mset xs
     \<and> length (fst (bheap_climb stop start xs i)) = length xs
     \<and> snd (bheap_climb stop start xs i) \<le> i"
proof (induction stop start xs i rule: bheap_climb.induct)
  case (1 stop start xs i)
  have "par i < length xs" using "1.prems" le_less_trans [OF par_le] by blast
  then show ?case
    using 1 by (auto simp: climb_simps [of stop start xs i] par_def [of i]
        intro: le_trans [OF _ par_le])
qed

lemma down_perm:
  "mset (bheap_down cmp xs i) = mset xs \<and> length (bheap_down cmp xs i) = length xs"
proof (induction cmp xs i rule: bheap_down.induct)
  case (1 cmp xs i)
  then show ?case by (subst (1 2) bheap_down.simps) (auto simp: Let_def)
qed

lemma leafward_perm:
  "i < length xs \<Longrightarrow> mset (fst (bheap_leafward cmp xs i)) = mset xs
     \<and> length (fst (bheap_leafward cmp xs i)) = length xs
     \<and> snd (bheap_leafward cmp xs i) < length xs"
proof (induction cmp xs i rule: bheap_leafward.induct)
  case (1 cmp xs i)
  then show ?case by (subst (1 2 3) bheap_leafward.simps) (auto simp: Let_def)
qed

lemma SIFTDOWN_perm:
  "i < length xs \<Longrightarrow> mset (BHEAP_SIFTDOWN cmp xs start i) = mset xs
     \<and> length (BHEAP_SIFTDOWN cmp xs start i) = length xs"
  by (simp add: BHEAP_SIFTDOWN_def climb_perm)

lemma SIFTUP_perm:
  assumes "i < length xs"
  shows "mset (BHEAP_SIFTUP cmp xs i) = mset xs \<and> length (BHEAP_SIFTUP cmp xs i) = length xs"
  using leafward_perm [OF assms, of cmp] SIFTDOWN_perm [of _ "fst (bheap_leafward cmp xs i)" cmp i]
  by (auto simp: BHEAP_SIFTUP_def split: prod.splits)

section \<open>The macros on vectors\<close>

lemma vec_map_live_ok:
  assumes "vec_wf v" and "length (f (vec_list v)) = vec_len v"
  shows "vec_wf (vec_map_live f v)" and "vec_list (vec_map_live f v) = f (vec_list v)"
    and "vec_len (vec_map_live f v) = vec_len v" and "vec_max (vec_map_live f v) = vec_max v"
  using assms vec_wfI [of "vec_map_live f v" "f (vec_list v)"]
  by (auto simp: vec_map_live_def vec_wf_def)

lemma BHEAP_PEEK_ok: "vec_wf v \<Longrightarrow> 0 < vec_len v \<Longrightarrow> BHEAP_PEEK v = Some (vec_list v ! 0)"
  by (simp add: BHEAP_PEEK_def VECTOR_INDEX_live)

text \<open>The vector after \<open>VECTOR_INDEX(_heap, _idx) = VECTOR_POP(_heap)\<close>.\<close>

lemma pop_into:
  assumes "vec_wf v" and "idx < vec_len v"
  obtains w where "VECTOR_POP v = Some (Some (last (vec_list v)), w)" "vec_len w = vec_len v - 1"
    "vec_max w = vec_max v"
    and "vec_wf (w\<lparr>vec_data := (vec_data w)[idx := Some (last (vec_list v))]\<rparr>)"
    and "vec_list (w\<lparr>vec_data := (vec_data w)[idx := Some (last (vec_list v))]\<rparr>)
         = (butlast (vec_list v))[idx := last (vec_list v)]"
proof -
  obtain w where w: "VECTOR_POP v = Some (Some (last (vec_list v)), w)" "vec_wf w"
    "vec_list w = butlast (vec_list v)" "vec_len w = vec_len v - 1" "vec_max w = vec_max v"
    using VECTOR_POP_ok [OF assms(1)] assms(2) by fastforce
  let ?w = "w\<lparr>vec_data := (vec_data w)[idx := Some (last (vec_list v))]\<rparr>"
  have "vec_wf ?w \<and> vec_list ?w = (butlast (vec_list v))[idx := last (vec_list v)]"
    using w vec_take_data [OF w(2)]
    by (intro vec_wfI) (auto simp: vec_wf_def take_update_swap map_update)
  with w that show ?thesis by blast
qed

lemma butlast_update_hole:
  assumes "i < length xs - 1"
  shows "j < length xs - 1 \<Longrightarrow> j \<noteq> i \<Longrightarrow> (butlast xs)[i := last xs] ! j = xs ! j"
  using assms by (simp add: nth_butlast)

lemma mset_butlast_update:
  assumes "i < length xs"
  shows "mset ((butlast xs)[i := last xs]) = mset xs - {#xs ! i#}"
proof (cases "i = length xs - 1")
  case True
  from assms have "xs \<noteq> []" by auto
  with True have "xs ! i = last xs" by (simp add: last_conv_nth)
  with True \<open>xs \<noteq> []\<close> show ?thesis
    by (metis append_butlast_last_id add_diff_cancel_right' length_butlast list_update_beyond
        mset.simps(1) mset.simps(2) mset_append order_refl)
next
  case False
  with assms have i: "i < length (butlast xs)" by simp
  have "mset xs = add_mset (last xs) (mset (butlast xs))"
    using assms by (metis append_butlast_last_id list.size(3) mset.simps(1,2) mset_append
        add_mset_add_single not_less_zero)
  moreover have "butlast xs ! i = xs ! i" using i by (simp add: nth_butlast)
  moreover have "xs ! i \<in># mset (butlast xs)" using i calculation(2) by (metis nth_mem set_mset_mset)
  ultimately show ?thesis using i by (simp add: mset_update_minus)
qed

context topcmp
begin

lemma append_up:
  assumes "heap_ok cmp xs"
  shows "up_ok cmp (xs @ [x]) (length xs)"
proof -
  have old: "cmp ((xs @ [x]) ! par j) ((xs @ [x]) ! j) \<le> 0" if "j < length xs" "0 < j" for j
    using that assms le_less_trans [OF par_le that(1)] by (simp add: heap_ok_def nth_append)
  moreover have "par j \<noteq> length xs" if "j \<le> length xs" "0 < j" for j
    using that par_lt [of j] by linarith
  ultimately show ?thesis by (auto simp: up_ok_def less_Suc_eq_le)
qed

lemma butlast_hole:
  assumes "heap_ok cmp xs" and "i < length xs - 1"
  shows "hole_ok cmp ((butlast xs)[i := last xs]) i"
proof -
  let ?ys = "(butlast xs)[i := last xs]"
  have same: "?ys ! j = xs ! j" if "j < length xs - 1" "j \<noteq> i" for j
    using that assms(2) by (simp add: nth_butlast)
  have lt: "par j < length xs - 1" if "j < length xs - 1" for j
    using that le_less_trans [OF par_le] by blast
  have heap: "cmp (xs ! par j) (xs ! j) \<le> 0" if "j < length xs - 1" "0 < j" for j
    using that assms(1) by (simp add: heap_ok_def)
  have "cmp (?ys ! par i) (?ys ! j) \<le> 0" if j: "j < length xs - 1" "0 < j" "0 < i" "par j = i" for j
  proof -
    have "par i \<noteq> i" "j \<noteq> i" using j par_neq [of i] par_neq [of j] by auto
    moreover have "cmp (xs ! par i) (xs ! j) \<le> 0"
      using le_trans [of "xs ! par i" "xs ! i" "xs ! j"] heap [of i] heap [of j] j assms(2) by simp
    ultimately show ?thesis using same [of j] same [of "par i"] lt [OF assms(2)] j by simp
  qed
  then show ?thesis using same lt heap by (auto simp: hole_ok_def)
qed

lemma PUSH_ok:
  assumes "vec_wf v" and "vec_len v < vec_max v" and "heap_ok cmp (vec_list v)"
  shows "\<exists>w. BHEAP_PUSH cmp v x = Some w \<and> vec_wf w \<and> heap_ok cmp (vec_list w)
           \<and> mset (vec_list w) = add_mset x (mset (vec_list v)) \<and> vec_max w = vec_max v
           \<and> vec_len w = Suc (vec_len v)"
proof -
  obtain u where u: "VECTOR_PUSH v x = Some u" "vec_wf u" "vec_list u = vec_list v @ [x]"
    "vec_len u = Suc (vec_len v)" "vec_max u = vec_max v"
    using VECTOR_PUSH_ok [OF assms(1,2)] by blast
  have len: "length (vec_list v) = vec_len v" using assms(1) by simp
  have up: "up_ok cmp (vec_list u) (vec_len v)"
    using append_up [OF assms(3), of x] len u(3) by simp
  have heap: "heap_ok cmp (fst (bheap_up cmp (vec_list u) (vec_len v)))"
    unfolding bheap_up_def
    by (rule climb_up_ok [OF up]) (use len u(3) desc_0 not_lt in auto)
  have perm: "mset (fst (bheap_up cmp (vec_list u) (vec_len v))) = mset (vec_list u)"
    "length (fst (bheap_up cmp (vec_list u) (vec_len v))) = vec_len u"
    unfolding bheap_up_def using climb_perm [of "vec_len v" "vec_list u"] len u by auto
  show ?thesis
    using u heap perm vec_map_live_ok [OF u(2), of "\<lambda>xs. fst (bheap_up cmp xs (vec_len v))"]
    by (simp add: BHEAP_PUSH_def)
qed

lemma PUSH2_ok:
  assumes "vec_wf v" and "vec_len v < vec_max v" and "heap_ok cmp (vec_list v)"
  shows "\<exists>w. BHEAP_PUSH2 cmp v x = Some w \<and> vec_wf w \<and> heap_ok cmp (vec_list w)
           \<and> mset (vec_list w) = add_mset x (mset (vec_list v)) \<and> vec_max w = vec_max v
           \<and> vec_len w = Suc (vec_len v)"
proof -
  obtain u where u: "VECTOR_PUSH v x = Some u" "vec_wf u" "vec_list u = vec_list v @ [x]"
    "vec_len u = Suc (vec_len v)" "vec_max u = vec_max v"
    using VECTOR_PUSH_ok [OF assms(1,2)] by blast
  have len: "length (vec_list v) = vec_len v" using assms(1) by simp
  have up: "up_ok cmp (vec_list u) (vec_len v)"
    using append_up [OF assms(3), of x] len u(3) by simp
  have heap: "heap_ok cmp (BHEAP_SIFTDOWN cmp (vec_list u) 0 (vec_len v))"
    unfolding BHEAP_SIFTDOWN_def
    by (rule climb_up_ok [OF up]) (use len u(3) desc_0 not_le in auto)
  have perm: "mset (BHEAP_SIFTDOWN cmp (vec_list u) 0 (vec_len v)) = mset (vec_list u)
      \<and> length (BHEAP_SIFTDOWN cmp (vec_list u) 0 (vec_len v)) = vec_len u"
    using SIFTDOWN_perm [of "vec_len v" "vec_list u"] len u by simp
  show ?thesis
    using u heap perm vec_map_live_ok [OF u(2), of "\<lambda>xs. BHEAP_SIFTDOWN cmp xs 0 (vec_len v)"]
    by (simp add: BHEAP_PUSH2_def)
qed

lemma up_down_ok:
  assumes "hole_ok cmp xs i" and "i < length xs"
  shows "heap_ok cmp (let (ys, k) = bheap_up cmp xs i in bheap_down cmp ys k)"
proof -
  obtain ys k where up: "bheap_up cmp xs i = (ys, k)" by fastforce
  have "k < length ys"
    using climb_perm [OF assms(2), of "\<lambda>p x. cmp p x < 0" 0] assms(2) up
    by (simp add: bheap_up_def)
  moreover have "heap_ok cmp ys \<or> dn_ok cmp ys k"
    using climb_hole [OF assms, of "\<lambda>p x. cmp p x < 0"] not_lt up
    by (auto simp: bheap_up_def)
  ultimately have "dn_ok cmp ys k" using heap_dn by blast
  then show ?thesis using down_ok up by simp
qed

lemma up_down_perm:
  assumes "i < length xs"
  shows "mset (let (ys, k) = bheap_up cmp xs i in bheap_down cmp ys k) = mset xs
       \<and> length (let (ys, k) = bheap_up cmp xs i in bheap_down cmp ys k) = length xs"
  using climb_perm [OF assms, of "\<lambda>p x. cmp p x < 0" 0] down_perm [of cmp]
  by (auto simp: bheap_up_def split: prod.splits)

lemma POPINDEX_ok:
  assumes "vec_wf v" and "idx < vec_len v" and "heap_ok cmp (vec_list v)"
  shows "\<exists>w. BHEAP_POPINDEX cmp v idx = Some w \<and> vec_wf w \<and> heap_ok cmp (vec_list w)
           \<and> mset (vec_list w) = mset (vec_list v) - {#vec_list v ! idx#}
           \<and> vec_max w = vec_max v \<and> vec_len w = vec_len v - 1"
proof -
  let ?y = "last (vec_list v)"
  obtain u where u: "VECTOR_POP v = Some (Some ?y, u)" "vec_len u = vec_len v - 1"
    "vec_max u = vec_max v" "vec_wf (u\<lparr>vec_data := (vec_data u)[idx := Some ?y]\<rparr>)"
    "vec_list (u\<lparr>vec_data := (vec_data u)[idx := Some ?y]\<rparr>) = (butlast (vec_list v))[idx := ?y]"
    using pop_into [OF assms(1,2)] by blast
  let ?u = "u\<lparr>vec_data := (vec_data u)[idx := Some ?y]\<rparr>"
  have len: "length (vec_list v) = vec_len v" using assms(1) by simp
  have ms: "mset (vec_list ?u) = mset (vec_list v) - {#vec_list v ! idx#}"
    using mset_butlast_update [of idx "vec_list v"] assms(2) len u(5) by simp
  show ?thesis
  proof (cases "idx \<ge> vec_len v - 1")
    case True
    then have "vec_list ?u = butlast (vec_list v)" using u(5) len by (simp add: list_update_beyond)
    moreover have "heap_ok cmp (butlast (vec_list v))"
      using assms(3) by (auto simp: heap_ok_def nth_butlast le_less_trans [OF par_le])
    ultimately show ?thesis using True u(1-4) ms assms(2) by (auto simp: BHEAP_POPINDEX_def Let_def)
  next
    case False
    then have hole: "hole_ok cmp (vec_list ?u) idx" "idx < length (vec_list ?u)"
      using butlast_hole [OF assms(3), of idx] len u(5) by auto
    note vm = vec_map_live_ok [OF u(4), of "\<lambda>xs. let (ys, k) = bheap_up cmp xs idx in bheap_down cmp ys k"]
    show ?thesis
      using False u(1-4) assms(2) ms vm up_down_ok [OF hole] up_down_perm [OF hole(2)]
      by (simp add: BHEAP_POPINDEX_def Let_def)
  qed
qed

lemma POP_ok:
  assumes "vec_wf v" and "0 < vec_len v" and "heap_ok cmp (vec_list v)"
  shows "\<exists>w. BHEAP_POP cmp v = Some w \<and> vec_wf w \<and> heap_ok cmp (vec_list w)
           \<and> mset (vec_list w) = mset (vec_list v) - {#vec_list v ! 0#}
           \<and> vec_max w = vec_max v \<and> vec_len w = vec_len v - 1"
  unfolding BHEAP_POP_def by (rule POPINDEX_ok [OF assms])

lemma POP2_ok:
  assumes "vec_wf v" and "0 < vec_len v" and "heap_ok cmp (vec_list v)"
  shows "\<exists>w. BHEAP_POP2 cmp v = Some w \<and> vec_wf w \<and> heap_ok cmp (vec_list w)
           \<and> mset (vec_list w) = mset (vec_list v) - {#vec_list v ! 0#}
           \<and> vec_max w = vec_max v \<and> vec_len w = vec_len v - 1"
proof -
  let ?y = "last (vec_list v)"
  obtain u where u: "VECTOR_POP v = Some (Some ?y, u)" "vec_len u = vec_len v - 1"
    "vec_max u = vec_max v" "vec_wf (u\<lparr>vec_data := (vec_data u)[0 := Some ?y]\<rparr>)"
    "vec_list (u\<lparr>vec_data := (vec_data u)[0 := Some ?y]\<rparr>) = (butlast (vec_list v))[0 := ?y]"
    using pop_into [OF assms(1,2)] by blast
  let ?u = "u\<lparr>vec_data := (vec_data u)[0 := Some ?y]\<rparr>"
  have len: "length (vec_list v) = vec_len v" using assms(1) by simp
  have ms: "mset (vec_list ?u) = mset (vec_list v) - {#vec_list v ! 0#}"
    using mset_butlast_update [of 0 "vec_list v"] assms(2) len u(5) by simp
  show ?thesis
  proof (cases "vec_len v = 1")
    case True
    then have "vec_list ?u = []" using u(5) len by (cases "vec_list v") auto
    then show ?thesis using True u(1-4) ms by (auto simp: BHEAP_POP2_def Let_def heap_ok_def)
  next
    case False
    then have hole: "hole_ok cmp (vec_list ?u) 0" "0 < length (vec_list ?u)"
      using butlast_hole [OF assms(3), of 0] len u(5) assms(2) by auto
    note vm = vec_map_live_ok [OF u(4), of "\<lambda>xs. BHEAP_SIFTUP cmp xs 0"]
    show ?thesis
      using False u(1-4) assms(2) ms vm SIFTUP_ok [OF hole] SIFTUP_perm [OF hole(2), of cmp]
      by (simp add: BHEAP_POP2_def Let_def)
  qed
qed

lemma UPDATE_ok:
  assumes "vec_wf v" and "idx < vec_len v" and "hole_ok cmp (vec_list v) idx"
  shows "vec_wf (BHEAP_UPDATE cmp v idx) \<and> heap_ok cmp (vec_list (BHEAP_UPDATE cmp v idx))
       \<and> mset (vec_list (BHEAP_UPDATE cmp v idx)) = mset (vec_list v)
       \<and> vec_max (BHEAP_UPDATE cmp v idx) = vec_max v
       \<and> vec_len (BHEAP_UPDATE cmp v idx) = vec_len v"
proof -
  let ?xs = "vec_list v" and ?ys = "BHEAP_SIFTDOWN cmp (vec_list v) 0 idx"
  have i: "idx < length ?xs" using assms by simp
  have perm: "mset ?ys = mset ?xs \<and> length ?ys = length ?xs" using SIFTDOWN_perm [OF i] by blast
  have cases: "heap_ok cmp ?ys \<or> ?ys = ?xs \<and> dn_ok cmp ?ys idx"
  proof -
    have "heap_ok cmp (fst (bheap_climb (\<lambda>p x. cmp p x \<le> 0) 0 ?xs idx))
        \<or> bheap_climb (\<lambda>p x. cmp p x \<le> 0) 0 ?xs idx = (?xs, idx) \<and> dn_ok cmp ?xs idx"
      by (rule climb_hole [OF assms(3) i]) (auto intro: not_le)
    then show ?thesis by (auto simp: BHEAP_SIFTDOWN_def)
  qed
  then have dn: "dn_ok cmp ?ys idx" using heap_dn perm i by metis
  then have "cmp (?ys ! par idx) (?ys ! idx) \<le> 0" if "0 < idx"
    using that i perm par_neq [OF that] by (simp add: dn_ok_def)
  then have "heap_ok cmp (BHEAP_SIFTUP cmp ?ys idx)"
    using SIFTUP_ok [OF dn_hole [OF dn]] i perm by simp
  moreover have "mset (BHEAP_SIFTUP cmp ?ys idx) = mset ?ys
      \<and> length (BHEAP_SIFTUP cmp ?ys idx) = length ?ys"
    using SIFTUP_perm i perm by metis
  ultimately show ?thesis
    using perm i assms(1)
      vec_map_live_ok [OF assms(1), of "\<lambda>xs. BHEAP_SIFTUP cmp (BHEAP_SIFTDOWN cmp xs 0 idx) idx"]
    by (simp add: BHEAP_UPDATE_def)
qed

lemma change_hole:
  assumes "heap_ok cmp xs" and "i < length xs"
    and agree: "\<And>j k. j < length xs \<Longrightarrow> k < length xs \<Longrightarrow> j \<noteq> i \<Longrightarrow> k \<noteq> i \<Longrightarrow>
                 cmp' (xs ! j) (xs ! k) = cmp (xs ! j) (xs ! k)"
  shows "hole_ok cmp' xs i"
proof -
  have heap: "cmp (xs ! par j) (xs ! j) \<le> 0" if "j < length xs" "0 < j" for j
    using that assms(1) by (simp add: heap_ok_def)
  have lt: "par j < length xs" if "j < length xs" for j
    using that le_less_trans [OF par_le] by blast
  have "cmp' (xs ! par i) (xs ! j) \<le> 0" if j: "j < length xs" "0 < j" "0 < i" "par j = i" for j
  proof -
    have "par i \<noteq> i" "j \<noteq> i" using j par_neq [of i] par_neq [of j] by auto
    moreover have "cmp (xs ! par i) (xs ! j) \<le> 0"
      using le_trans [of "xs ! par i" "xs ! i" "xs ! j"] heap [of i] heap [of j] j assms(2) by simp
    ultimately show ?thesis using agree lt [OF assms(2)] j by simp
  qed
  then show ?thesis using agree lt heap by (auto simp: hole_ok_def)
qed

end

interpretation mintop: topcmp BHEAP_MINTOPCMP
  by unfold_locales (auto simp: BHEAP_MINTOPCMP_def split: if_splits)

interpretation maxtop: topcmp BHEAP_MAXTOPCMP
  by unfold_locales (auto simp: BHEAP_MAXTOPCMP_def split: if_splits)

lemma mset_remove_nth: "i < length xs \<Longrightarrow> mset xs = add_mset (xs ! i) (mset xs - {#xs ! i#})"
  by simp

text \<open>
  C20. A heap of integers under \<open>BHEAP_MINTOPCMP\<close> is a priority queue: the top is a minimum
  of the heap, and \<open>BHEAP_POP\<close> removes exactly it and leaves a heap.
\<close>

theorem heap_pop_min:
  assumes "vec_wf v" "0 < vec_len v" "heap_ok BHEAP_MINTOPCMP (vec_list v)"
  shows "\<exists>x w. BHEAP_PEEK v = Some x \<and> BHEAP_POP BHEAP_MINTOPCMP v = Some w \<and> vec_wf w \<and>
    heap_ok BHEAP_MINTOPCMP (vec_list w) \<and> mset (vec_list v) = add_mset x (mset (vec_list w)) \<and>
    (\<forall>y \<in> set (vec_list w). x \<le> y)"
proof -
  let ?x = "vec_list v ! 0"
  obtain w where w: "BHEAP_POP BHEAP_MINTOPCMP v = Some w" "vec_wf w" "heap_ok BHEAP_MINTOPCMP (vec_list w)"
    "mset (vec_list w) = mset (vec_list v) - {#?x#}"
    using mintop.POP_ok [OF assms] by blast
  have ms: "mset (vec_list v) = add_mset ?x (mset (vec_list w))"
    using mset_remove_nth [of 0 "vec_list v"] assms(1,2) w(4) by simp
  have "?x \<le> y" if "y \<in> set (vec_list w)" for y
  proof -
    have "y \<in> set (vec_list v)" using that ms by (metis in_multiset_in_set insert_iff set_mset_add_mset_insert)
    then obtain i where "i < length (vec_list v)" "y = vec_list v ! i" by (metis in_set_conv_nth)
    then have "BHEAP_MINTOPCMP ?x y \<le> 0" using mintop.heap_top [OF assms(3)] by simp
    then show ?thesis by (simp add: BHEAP_MINTOPCMP_def split: if_splits)
  qed
  then show ?thesis using BHEAP_PEEK_ok [OF assms(1,2)] w ms by blast
qed

theorem heap_pop_min_witness:
  "\<exists>w. BHEAP_POP BHEAP_MINTOPCMP \<lparr>vec_max = 2, vec_len = 2, vec_data = [Some 3, Some 8]\<rparr> = Some w \<and>
     mset (vec_list w) = {#8#}"
proof -
  let ?v = "\<lparr>vec_max = 2, vec_len = 2, vec_data = [Some 3, Some (8::int)]\<rparr>"
  have l: "vec_list ?v = [3, 8]" by (simp add: vec_list_def)
  have "vec_wf ?v" by (simp add: vec_wf_def all_less_two)
  moreover have "heap_ok BHEAP_MINTOPCMP (vec_list ?v)"
    by (auto simp: l heap_ok_def BHEAP_MINTOPCMP_def par_def less_Suc_eq)
  ultimately obtain x w where "BHEAP_PEEK ?v = Some x" "BHEAP_POP BHEAP_MINTOPCMP ?v = Some w"
    "mset (vec_list ?v) = add_mset x (mset (vec_list w))"
    using heap_pop_min [of ?v] by auto
  then show ?thesis by (auto simp: BHEAP_PEEK_def VECTOR_INDEX_def l)
qed

text \<open>
  C21. \<open>BHEAP_POPINDEX\<close> removes exactly the element at the index it is given, wherever it is
  in the heap, and leaves a heap; \<open>BHEAP_PUSH\<close> adds exactly one element.
\<close>

theorem heap_push_popindex:
  assumes "vec_wf v" "heap_ok BHEAP_MINTOPCMP (vec_list v)"
  shows "(vec_len v < vec_max v \<longrightarrow> (\<exists>w. BHEAP_PUSH BHEAP_MINTOPCMP v x = Some w \<and> vec_wf w \<and>
      heap_ok BHEAP_MINTOPCMP (vec_list w) \<and> mset (vec_list w) = add_mset x (mset (vec_list v)))) \<and>
    (i < vec_len v \<longrightarrow> (\<exists>w. BHEAP_POPINDEX BHEAP_MINTOPCMP v i = Some w \<and> vec_wf w \<and>
      heap_ok BHEAP_MINTOPCMP (vec_list w) \<and> mset (vec_list v) = add_mset (vec_list v ! i) (mset (vec_list w))))"
proof (intro conjI impI)
  assume "vec_len v < vec_max v"
  then show "\<exists>w. BHEAP_PUSH BHEAP_MINTOPCMP v x = Some w \<and> vec_wf w \<and>
      heap_ok BHEAP_MINTOPCMP (vec_list w) \<and> mset (vec_list w) = add_mset x (mset (vec_list v))"
    using mintop.PUSH_ok [OF assms(1) _ assms(2)] by blast
next
  assume i: "i < vec_len v"
  then show "\<exists>w. BHEAP_POPINDEX BHEAP_MINTOPCMP v i = Some w \<and> vec_wf w \<and>
      heap_ok BHEAP_MINTOPCMP (vec_list w) \<and> mset (vec_list v) = add_mset (vec_list v ! i) (mset (vec_list w))"
    using mintop.POPINDEX_ok [OF assms(1) i assms(2)] mset_remove_nth [of i "vec_list v"] assms(1) by fastforce
qed

theorem heap_push_popindex_witness:
  "\<exists>w. BHEAP_POPINDEX BHEAP_MINTOPCMP \<lparr>vec_max = 1, vec_len = 1, vec_data = [Some 3]\<rparr> 0 = Some w \<and> vec_list w = []"
proof -
  let ?v = "\<lparr>vec_max = 1, vec_len = 1, vec_data = [Some (3::int)]\<rparr>"
  have "vec_list ?v = [3]" by (simp add: vec_list_def)
  then show ?thesis
    using heap_push_popindex [of ?v 0 0] by (auto simp: vec_wf_def heap_ok_def)
qed

end
