(* ===== verification/Timer.thy ===== *)
theory Timer
  imports Bheap "HOL-Library.Monad_Syntax"
begin

text \<open>
  The timer subsystem, \<open>src/common/timer.c\<close>: an array of timers, a stack of free timer
  ids, and a binary heap of the ids of the timers still to expire, ordered by tick. Ticks are
  \<open>int\<close> (the code's \<open>int64\<close> milliseconds, whose differences do not overflow). A timer
  function is any value of a type \<open>'f\<close>; what it does is a parameter of \<open>do_timer\<close>: the
  list of timer calls it makes, which may depend on the whole state it is called in.
  Logging is left out. A result \<open>None\<close> would be an access outside an array, or, for
  \<open>do_timer\<close>, not returning.
\<close>

unbundle bit_operations_syntax

definition TIMER_ONCE_AUTODEL :: "8 word" where "TIMER_ONCE_AUTODEL = 0x01"
definition TIMER_INTERVAL :: "8 word" where "TIMER_INTERVAL = 0x02"
definition TIMER_REMOVE_HEAP :: "8 word" where "TIMER_REMOVE_HEAP = 0x10"
definition INVALID_TIMER :: int where "INVALID_TIMER = -1"
definition TIMER_MIN_INTERVAL :: int where "TIMER_MIN_INTERVAL = 50"
definition TIMER_MAX_INTERVAL :: int where "TIMER_MAX_INTERVAL = 1000"

lemmas timer_flags = TIMER_ONCE_AUTODEL_def TIMER_INTERVAL_def TIMER_REMOVE_HEAP_def

record 'f TimerData =
  td_tick :: int
  td_func :: "'f option"
  td_type :: "8 word"
  td_interval :: int
  td_id :: int
  td_data :: int

definition timer_zero :: "'f TimerData" where
  "timer_zero = \<lparr>td_tick = 0, td_func = None, td_type = 0, td_interval = 0, td_id = 0, td_data = 0\<rparr>"

text \<open>
  \<open>timer_data_max\<close> is the length of \<open>timer_data\<close>; \<open>free_timer_list\<close> holds the entries
  below \<open>free_timer_list_pos\<close>, the top of the stack first.
\<close>

record 'f timer_state =
  timer_data :: "'f TimerData list"
  timer_data_num :: nat
  free_timer_list :: "nat list"
  free_timer_list_max :: nat
  timer_heap :: "nat vec"

definition timer_start :: "'f timer_state" where
  "timer_start = \<lparr>timer_data = [], timer_data_num = 1, free_timer_list = [],
     free_timer_list_max = 0, timer_heap = VECTOR_INIT\<rparr>"

definition DIFFTICK_MINTOPCMP :: "'f TimerData list \<Rightarrow> nat \<Rightarrow> nat \<Rightarrow> int" where
  "DIFFTICK_MINTOPCMP d tid1 tid2 = td_tick (d ! tid1) - td_tick (d ! tid2)"

interpretation difftick: topcmp "DIFFTICK_MINTOPCMP d" for d
  by unfold_locales (auto simp: DIFFTICK_MINTOPCMP_def)

section \<open>Operations\<close>

definition push_timer_heap :: "'f timer_state \<Rightarrow> nat \<Rightarrow> 'f timer_state option" where
  "push_timer_heap s tid = do {
     v \<leftarrow> VECTOR_ENSURE 0 (timer_heap s) 1 256;
     w \<leftarrow> BHEAP_PUSH (DIFFTICK_MINTOPCMP (timer_data s)) v tid;
     Some (s\<lparr>timer_heap := w\<rparr>)
   }"

text \<open>
  The loop of \<open>acquire_timer\<close> that pops the free list until an id below
  \<open>timer_data_num\<close> shows up or the list is empty.
\<close>

fun acquire_free :: "nat \<Rightarrow> nat list \<Rightarrow> nat \<times> nat list" where
  "acquire_free num [] = (num, [])"
| "acquire_free num (tid # fl) =
     (if tid \<ge> num \<and> fl \<noteq> [] then acquire_free num fl else (tid, fl))"

definition acquire_timer :: "'f timer_state \<Rightarrow> nat \<times> 'f timer_state" where
  "acquire_timer s =
     (let num = timer_data_num s;
          (tid, fl) = acquire_free num (free_timer_list s);
          tid = (if tid \<ge> num
                 then num + arr_find (\<lambda>d. td_type d = 0) (drop num (timer_data s)) else tid);
          dat = (if tid \<ge> num \<and> tid \<ge> length (timer_data s)
                 then timer_data s @ replicate 256 timer_zero else timer_data s)
      in (tid, s\<lparr>free_timer_list := fl, timer_data := dat,
                 timer_data_num := (if tid \<ge> num then tid + 1 else num)\<rparr>))"

text \<open>What \<open>timer_add\<close> and \<open>timer_add_interval\<close> have in common after \<open>acquire_timer\<close>.\<close>

definition timer_store ::
  "'f timer_state \<Rightarrow> nat \<Rightarrow> int \<Rightarrow> 'f \<Rightarrow> int \<Rightarrow> int \<Rightarrow> 8 word \<Rightarrow> int \<Rightarrow> (int \<times> 'f timer_state) option"
where
  "timer_store s tid tick func aid dat type interval =
     (let d = timer_data s ! tid in
      if td_type d \<noteq> 0 \<and> td_type d \<noteq> TIMER_REMOVE_HEAP then Some (INVALID_TIMER, s)
      else if td_func d \<noteq> None then Some (INVALID_TIMER, s)
      else do {
        s' \<leftarrow> push_timer_heap (s\<lparr>timer_data := (timer_data s)[tid :=
               \<lparr>td_tick = tick, td_func = Some func, td_type = type, td_interval = interval,
                td_id = aid, td_data = dat\<rparr>]\<rparr>) tid;
        Some (int tid, s')
      })"

definition timer_add ::
  "int \<Rightarrow> 'f option \<Rightarrow> int \<Rightarrow> int \<Rightarrow> 'f timer_state \<Rightarrow> (int \<times> 'f timer_state) option" where
  "timer_add tick func aid dat s =
     (case func of
        None \<Rightarrow> Some (INVALID_TIMER, s)
      | Some f \<Rightarrow>
          let (tid, s) = acquire_timer s
          in timer_store s tid tick f aid dat TIMER_ONCE_AUTODEL 1000)"

definition timer_add_interval ::
  "int \<Rightarrow> 'f option \<Rightarrow> int \<Rightarrow> int \<Rightarrow> int \<Rightarrow> 'f timer_state \<Rightarrow> (int \<times> 'f timer_state) option" where
  "timer_add_interval tick func aid dat interval s =
     (case func of
        None \<Rightarrow> Some (INVALID_TIMER, s)
      | Some f \<Rightarrow>
          if interval < 1 then Some (INVALID_TIMER, s)
          else let (tid, s) = acquire_timer s
               in timer_store s tid tick f aid dat TIMER_INTERVAL interval)"

definition timer_get :: "int \<Rightarrow> 'f timer_state \<Rightarrow> 'f TimerData option" where
  "timer_get tid s =
     (if \<not> 0 < tid then None
      else if 0 \<le> tid \<and> tid < int (timer_data_num s) then Some (timer_data s ! nat tid) else None)"

definition timer_do_delete ::
  "int \<Rightarrow> 'f option \<Rightarrow> 'f timer_state \<Rightarrow> int \<times> 'f timer_state" where
  "timer_do_delete tid func s =
     (if func = None then (0, s)
      else if tid < 1 \<or> tid \<ge> int (timer_data_num s) then (-1, s)
      else let d = timer_data s ! nat tid in
      if td_func d \<noteq> func then (-2, s)
      else if td_type d = 0 \<or> td_type d = TIMER_REMOVE_HEAP then (-3, s)
      else (0, s\<lparr>timer_data :=
        (timer_data s)[nat tid := d\<lparr>td_func := None, td_type := TIMER_ONCE_AUTODEL\<rparr>]\<rparr>))"

definition timer_settick ::
  "int \<Rightarrow> int \<Rightarrow> 'f timer_state \<Rightarrow> (int \<times> 'f timer_state) option" where
  "timer_settick tid tick s =
     (let heap = vec_list (timer_heap s); i = arr_find (\<lambda>h. int h = tid) heap in
      if i = length heap then Some (-1, s)
      else let t = nat tid; d = timer_data s ! t in
      if td_type d = 0 \<or> td_type d = TIMER_REMOVE_HEAP then Some (-1, s)
      else if td_func d = None then Some (-1, s)
      else let tick = (if tick = -1 then 0 else tick) in
      if td_tick d = tick then Some (tick, s)
      else do {
        v \<leftarrow> BHEAP_POPINDEX (DIFFTICK_MINTOPCMP (timer_data s)) (timer_heap s) i;
        let dat = (timer_data s)[t := d\<lparr>td_tick := tick\<rparr>];
        w \<leftarrow> BHEAP_PUSH (DIFFTICK_MINTOPCMP dat) v t;
        Some (tick, s\<lparr>timer_data := dat, timer_heap := w\<rparr>)
      })"

definition timer_addtick ::
  "int \<Rightarrow> int \<Rightarrow> 'f timer_state \<Rightarrow> (int \<times> 'f timer_state) option" where
  "timer_addtick tid tick s =
     (if tid < 1 \<or> tid \<ge> int (timer_data_num s) then Some (-1, s)
      else timer_settick tid (td_tick (timer_data s ! nat tid) + tick) s)"

text \<open>The calls a timer function can make.\<close>

datatype 'f timer_action =
    TimerAdd int "'f option" int int
  | TimerAddInterval int "'f option" int int int
  | TimerDelete int "'f option"
  | TimerSetTick int int
  | TimerAddTick int int

fun timer_call :: "'f timer_action \<Rightarrow> 'f timer_state \<Rightarrow> 'f timer_state option" where
  "timer_call (TimerAdd tick func aid dat) s = map_option snd (timer_add tick func aid dat s)"
| "timer_call (TimerAddInterval tick func aid dat interval) s =
     map_option snd (timer_add_interval tick func aid dat interval s)"
| "timer_call (TimerDelete tid func) s = Some (snd (timer_do_delete tid func s))"
| "timer_call (TimerSetTick tid tick) s = map_option snd (timer_settick tid tick s)"
| "timer_call (TimerAddTick tid tick) s = map_option snd (timer_addtick tid tick s)"

fun timer_calls :: "'f timer_action list \<Rightarrow> 'f timer_state \<Rightarrow> 'f timer_state option" where
  "timer_calls [] s = Some s"
| "timer_calls (c # cs) s = do { s' \<leftarrow> timer_call c s; timer_calls cs s' }"

type_synonym 'f timer_env =
  "'f \<Rightarrow> nat \<Rightarrow> int \<Rightarrow> int \<Rightarrow> int \<Rightarrow> 'f timer_state \<Rightarrow> 'f timer_action list"

text \<open>
  The body of \<open>do_timer\<close>'s loop for the top timer \<open>tid\<close>: take it off the heap and mark
  it, then \<open>timer_fire\<close> calls its function, then \<open>timer_finish\<close> frees or re-arms it if
  the function left the mark in place.
\<close>

definition timer_take :: "nat \<Rightarrow> 'f timer_state \<Rightarrow> 'f timer_state option" where
  "timer_take tid s = do {
     v \<leftarrow> BHEAP_POP (DIFFTICK_MINTOPCMP (timer_data s)) (timer_heap s);
     Some (s\<lparr>timer_heap := v, timer_data := (timer_data s)[tid := (timer_data s ! tid)
              \<lparr>td_type := td_type (timer_data s ! tid) OR TIMER_REMOVE_HEAP\<rparr>]\<rparr>)
   }"

definition timer_fire ::
  "'f timer_env \<Rightarrow> int \<Rightarrow> int \<Rightarrow> nat \<Rightarrow> 'f timer_state \<Rightarrow> 'f timer_state option" where
  "timer_fire env tick diff tid s =
     (let d = timer_data s ! tid in
      case td_func d of
        None \<Rightarrow> Some s
      | Some f \<Rightarrow>
          timer_calls (env f tid (if diff < -1000 then tick else td_tick d) (td_id d) (td_data d) s) s)"

definition timer_finish :: "int \<Rightarrow> nat \<Rightarrow> 'f timer_state \<Rightarrow> 'f timer_state option" where
  "timer_finish tick tid s =
     (let d = timer_data s ! tid in
      if td_type d AND TIMER_REMOVE_HEAP = 0 then Some s
      else let d = d\<lparr>td_type := td_type d AND NOT TIMER_REMOVE_HEAP\<rparr> in
      if td_type d = TIMER_INTERVAL then
        let d = (if td_tick d - tick < -1000 then d\<lparr>td_tick := tick + td_interval d\<rparr>
                 else d\<lparr>td_tick := td_tick d + td_interval d\<rparr>)
        in push_timer_heap (s\<lparr>timer_data := (timer_data s)[tid := d]\<rparr>) tid
      else Some (s\<lparr>timer_data := (timer_data s)[tid := d\<lparr>td_type := 0, td_func := None\<rparr>],
             free_timer_list_max :=
               (if length (free_timer_list s) \<ge> free_timer_list_max s
                then free_timer_list_max s + 256 else free_timer_list_max s),
             free_timer_list := tid # free_timer_list s\<rparr>))"

partial_function (option) do_timer_loop ::
  "'f timer_env \<Rightarrow> int \<Rightarrow> int \<Rightarrow> 'f timer_state \<Rightarrow> (int \<times> 'f timer_state) option" where
  "do_timer_loop env tick diff s =
     (if vec_len (timer_heap s) > 0 then
        Option.bind (BHEAP_PEEK (timer_heap s)) (\<lambda>tid.
        let diff = td_tick (timer_data s ! tid) - tick in
        if diff > 0 then Some (diff, s)
        else Option.bind (timer_take tid s) (\<lambda>s.
             Option.bind (timer_fire env tick diff tid s) (\<lambda>s.
             Option.bind (timer_finish tick tid s) (do_timer_loop env tick diff))))
      else Some (diff, s))"

definition do_timer :: "'f timer_env \<Rightarrow> int \<Rightarrow> 'f timer_state \<Rightarrow> (int \<times> 'f timer_state) option" where
  "do_timer env tick s = do {
     (diff, s) \<leftarrow> do_timer_loop env tick TIMER_MAX_INTERVAL s;
     Some (cap_value diff TIMER_MIN_INTERVAL TIMER_MAX_INTERVAL, s)
   }"

section \<open>The invariant\<close>

text \<open>
  What holds of the slot \<open>t\<close> with contents \<open>d\<close>, for the set \<open>H\<close> of ids in the heap,
  the set \<open>F\<close> of ids in the free list, and the timer \<open>run\<close> whose function is being
  called, if any. The last clause is the one that matters to users: an armed timer is in the
  heap.
\<close>

definition slot_ok ::
  "nat option \<Rightarrow> nat set \<Rightarrow> nat set \<Rightarrow> nat \<Rightarrow> nat \<Rightarrow> 'f TimerData \<Rightarrow> bool" where
  "slot_ok run H F num t d \<longleftrightarrow>
     (t \<in> H \<longrightarrow> td_type d = TIMER_ONCE_AUTODEL \<or> td_type d = TIMER_INTERVAL) \<and>
     (t \<in> F \<or> num \<le> t \<longrightarrow> td_type d = 0) \<and>
     (td_type d = 0 \<longrightarrow> td_func d = None) \<and>
     (run \<noteq> Some t \<longrightarrow> td_type d = 0 \<or> td_type d = TIMER_ONCE_AUTODEL \<or> td_type d = TIMER_INTERVAL) \<and>
     (run = Some t \<longrightarrow> t \<notin> H \<and> (td_type d = TIMER_ONCE_AUTODEL
        \<or> td_type d = TIMER_ONCE_AUTODEL OR TIMER_REMOVE_HEAP
        \<or> td_type d = TIMER_INTERVAL OR TIMER_REMOVE_HEAP)) \<and>
     (td_type d = TIMER_INTERVAL \<or> td_type d = TIMER_INTERVAL OR TIMER_REMOVE_HEAP
        \<longrightarrow> 1 \<le> td_interval d) \<and>
     (td_type d = TIMER_ONCE_AUTODEL \<or> td_type d = TIMER_INTERVAL \<longrightarrow> td_func d \<noteq> None \<longrightarrow> t \<in> H)"

lemma slot_ok_tick [simp]: "slot_ok run H F num t (d\<lparr>td_tick := x\<rparr>) = slot_ok run H F num t d"
  by (simp add: slot_ok_def)

lemma slot_running:
  assumes "slot_ok (Some t) H F num t d"
  shows "td_type d \<noteq> 0 \<and> td_type d \<noteq> TIMER_REMOVE_HEAP \<and> t \<notin> H \<and> t \<notin> F"
proof -
  have "t \<notin> H" and type: "td_type d = TIMER_ONCE_AUTODEL
      \<or> td_type d = TIMER_ONCE_AUTODEL OR TIMER_REMOVE_HEAP
      \<or> td_type d = TIMER_INTERVAL OR TIMER_REMOVE_HEAP"
    using assms by (simp_all add: slot_ok_def)
  moreover have "td_type d \<noteq> 0" "td_type d \<noteq> TIMER_REMOVE_HEAP"
    using type by (auto simp: timer_flags)
  moreover have "t \<notin> F" using assms \<open>td_type d \<noteq> 0\<close> by (simp add: slot_ok_def)
  ultimately show ?thesis by blast
qed

abbreviation heap_ids :: "'f timer_state \<Rightarrow> nat list" where
  "heap_ids s \<equiv> vec_list (timer_heap s)"

definition timer_inv :: "nat option \<Rightarrow> 'f timer_state \<Rightarrow> bool" where
  "timer_inv run s \<longleftrightarrow>
     (timer_data_num s \<le> length (timer_data s) \<or> timer_data_num s = 1 \<and> timer_data s = []) \<and>
     1 \<le> timer_data_num s \<and>
     vec_wf (timer_heap s) \<and> distinct (heap_ids s) \<and>
     heap_ok (DIFFTICK_MINTOPCMP (timer_data s)) (heap_ids s) \<and>
     distinct (free_timer_list s) \<and>
     (\<forall>t \<in> set (heap_ids s) \<union> set (free_timer_list s) \<union> set_option run.
        1 \<le> t \<and> t < timer_data_num s) \<and>
     (\<forall>t < length (timer_data s).
        slot_ok run (set (heap_ids s)) (set (free_timer_list s)) (timer_data_num s) t (timer_data s ! t))"

lemma timer_inv_start: "timer_inv None timer_start"
  by (simp add: timer_inv_def timer_start_def heap_ok_def)

lemma timer_inv_len:
  assumes "timer_inv run s" and "1 \<le> t" and "t < timer_data_num s"
  shows "t < length (timer_data s)"
  using assms by (auto simp: timer_inv_def)

lemma timer_inv_slot:
  "timer_inv run s \<Longrightarrow> t < length (timer_data s) \<Longrightarrow>
   slot_ok run (set (heap_ids s)) (set (free_timer_list s)) (timer_data_num s) t (timer_data s ! t)"
  by (simp add: timer_inv_def)

lemma heap_ok_tick_cong:
  assumes "\<And>t. t \<in> set xs \<Longrightarrow> td_tick (D ! t) = td_tick (D' ! t)"
  shows "heap_ok (DIFFTICK_MINTOPCMP D) xs = heap_ok (DIFFTICK_MINTOPCMP D') xs"
proof -
  have "DIFFTICK_MINTOPCMP D (xs ! par i) (xs ! i) = DIFFTICK_MINTOPCMP D' (xs ! par i) (xs ! i)"
    if "i < length xs" for i
    using assms that le_less_trans [OF par_le that] by (simp add: DIFFTICK_MINTOPCMP_def)
  then show ?thesis by (simp add: heap_ok_def)
qed

lemma heap_ok_tick_update:
  assumes "t \<notin> set xs \<or> td_tick d = td_tick (D ! t)"
  shows "heap_ok (DIFFTICK_MINTOPCMP (D[t := d])) xs = heap_ok (DIFFTICK_MINTOPCMP D) xs"
proof (rule heap_ok_tick_cong)
  fix u
  assume "u \<in> set xs"
  then show "td_tick (D[t := d] ! u) = td_tick (D ! u)"
    using assms by (cases "t < length D") (auto simp: nth_list_update list_update_beyond)
qed

text \<open>
  Changing one slot, and the membership of its id only, keeps the invariant if the slot is
  right afterwards.
\<close>

lemma timer_inv_update:
  assumes inv: "timer_inv run s" and t: "1 \<le> t" "t < timer_data_num s"
    and run: "\<And>u. u \<noteq> t \<Longrightarrow> run' = Some u \<longleftrightarrow> run = Some u"
    and s': "timer_data s' = (timer_data s)[t := d]" "timer_data_num s' = timer_data_num s"
    and heap: "vec_wf (timer_heap s')" "distinct (heap_ids s')"
      "heap_ok (DIFFTICK_MINTOPCMP (timer_data s')) (heap_ids s')"
      "set (heap_ids s') - {t} = set (heap_ids s) - {t}"
    and free: "distinct (free_timer_list s')" "set (free_timer_list s') - {t} = set (free_timer_list s) - {t}"
    and slot: "slot_ok run' (set (heap_ids s')) (set (free_timer_list s')) (timer_data_num s) t d"
  shows "timer_inv run' s'"
proof -
  have mem: "u \<in> set (heap_ids s') \<longleftrightarrow> u \<in> set (heap_ids s)"
    "u \<in> set (free_timer_list s') \<longleftrightarrow> u \<in> set (free_timer_list s)" if "u \<noteq> t" for u
    using heap(4) free(2) that by blast+
  have other: "slot_ok run' (set (heap_ids s')) (set (free_timer_list s')) (timer_data_num s) u (timer_data s ! u)"
    if "u < length (timer_data s)" "u \<noteq> t" for u
    using timer_inv_slot [OF inv that(1)] mem [OF that(2)] run [OF that(2)] by (simp add: slot_ok_def)
  have "\<forall>u \<in> set (heap_ids s') \<union> set (free_timer_list s') \<union> set_option run'.
      1 \<le> u \<and> u < timer_data_num s"
  proof
    fix u
    assume u: "u \<in> set (heap_ids s') \<union> set (free_timer_list s') \<union> set_option run'"
    show "1 \<le> u \<and> u < timer_data_num s"
    proof (cases "u = t")
      case False
      then have "u \<in> set (heap_ids s) \<union> set (free_timer_list s) \<union> set_option run"
        using u mem run by (auto simp: elem_set)
      then show ?thesis using inv by (simp add: timer_inv_def)
    qed (use t in simp)
  qed
  moreover have "slot_ok run' (set (heap_ids s')) (set (free_timer_list s')) (timer_data_num s) u
      (timer_data s' ! u)" if "u < length (timer_data s)" for u
    using other [OF that] slot s'(1) that by (cases "u = t") simp_all
  ultimately show ?thesis
    using inv heap(1-3) free(1) s' by (auto simp: timer_inv_def)
qed

section \<open>Every operation keeps the invariant\<close>

lemma push_timer_heap_ok:
  assumes "vec_wf (timer_heap s)" and "heap_ok (DIFFTICK_MINTOPCMP (timer_data s)) (heap_ids s)"
  shows "\<exists>w. push_timer_heap s t = Some (s\<lparr>timer_heap := w\<rparr>) \<and> vec_wf w
           \<and> heap_ok (DIFFTICK_MINTOPCMP (timer_data s)) (vec_list w)
           \<and> mset (vec_list w) = add_mset t (mset (heap_ids s))"
proof -
  obtain v where v: "VECTOR_ENSURE 0 (timer_heap s) 1 256 = Some v" "vec_wf v"
    "vec_list v = heap_ids s" "vec_len v < vec_max v"
    using VECTOR_ENSURE_ok [OF assms(1), of 256 0 1] by auto
  with assms(2) obtain w where "BHEAP_PUSH (DIFFTICK_MINTOPCMP (timer_data s)) v t = Some w"
    "vec_wf w" "heap_ok (DIFFTICK_MINTOPCMP (timer_data s)) (vec_list w)"
    "mset (vec_list w) = add_mset t (mset (heap_ids s))"
    using difftick.PUSH_ok [of v "timer_data s" t] by auto
  with v show ?thesis by (auto simp: push_timer_heap_def)
qed

lemma set_add_mset: "mset xs = add_mset a (mset ys) \<Longrightarrow> set xs = insert a (set ys)"
  by (metis set_mset_add_mset_insert set_mset_mset)

lemma distinct_add_mset:
  "mset xs = add_mset a (mset ys) \<Longrightarrow> distinct xs \<longleftrightarrow> a \<notin> set ys \<and> distinct ys"
  by (metis distinct.simps(2) mset.simps(2) mset_eq_imp_distinct_iff)

text \<open>
  An id that \<open>acquire_timer\<close> returns is unused: its slot is allocated and clear, and it is
  neither in the heap nor left in the free list.
\<close>

lemma acquire_timer_ok:
  assumes inv: "timer_inv run s" and acq: "acquire_timer s = (tid, s')"
  shows "timer_inv run s' \<and> 1 \<le> tid \<and> tid < timer_data_num s' \<and> tid \<notin> set (heap_ids s)
       \<and> tid \<notin> set (free_timer_list s') \<and> run \<noteq> Some tid \<and> td_type (timer_data s' ! tid) = 0
       \<and> td_func (timer_data s' ! tid) = None \<and> timer_heap s' = timer_heap s"
proof (cases "free_timer_list s")
  case (Cons t fl)
  have t: "1 \<le> t" "t < timer_data_num s" "t \<notin> set fl" "distinct fl"
    using inv Cons by (auto simp: timer_inv_def)
  have eq: "tid = t" "s' = s\<lparr>free_timer_list := fl\<rparr>"
    using acq Cons t by (auto simp: acquire_timer_def Let_def)
  have len: "t < length (timer_data s)" using timer_inv_len [OF inv t(1,2)] .
  have slot: "slot_ok run (set (heap_ids s)) (set (t # fl)) (timer_data_num s) t (timer_data s ! t)"
    using timer_inv_slot [OF inv len] Cons by simp
  then have facts: "td_type (timer_data s ! t) = 0" "td_func (timer_data s ! t) = None"
    "t \<notin> set (heap_ids s)" "run \<noteq> Some t"
    by (auto simp: slot_ok_def timer_flags)
  moreover have "timer_inv run s'"
    using inv eq Cons by (auto simp: timer_inv_def slot_ok_def)
  ultimately show ?thesis using eq t by simp
next
  case Nil
  let ?n = "timer_data_num s" and ?D = "timer_data s"
  have n: "1 \<le> ?n" "?n \<le> length ?D \<or> ?n = 1 \<and> ?D = []" using inv by (auto simp: timer_inv_def)
  have "arr_find (\<lambda>d. td_type d = 0) (drop ?n ?D) = 0"
  proof (cases "?n < length ?D")
    case True
    then have "td_type (?D ! ?n) = 0" using timer_inv_slot [OF inv True] by (simp add: slot_ok_def)
    with True show ?thesis by (simp add: Cons_nth_drop_Suc [OF True, symmetric])
  qed simp
  then have tid: "tid = ?n" using acq Nil by (auto simp: acquire_timer_def Let_def)
  define D' where "D' = (if ?n \<ge> length ?D then ?D @ replicate 256 timer_zero else ?D)"
  have s': "s' = s\<lparr>timer_data := D', timer_data_num := Suc ?n\<rparr>"
    using acq Nil \<open>arr_find _ _ = 0\<close> by (auto simp: acquire_timer_def Let_def D'_def)
  have len: "Suc ?n \<le> length D'" using n by (auto simp: D'_def)
  have fresh: "?n \<notin> set (heap_ids s)" "run \<noteq> Some ?n" using inv by (auto simp: timer_inv_def)
  have nth: "D' ! t = (if t < length ?D then ?D ! t else timer_zero)" if "t < length D'" for t
    using that by (auto simp: D'_def nth_append split: if_splits)
  have in_heap: "t < length ?D" if "t \<in> set (heap_ids s)" for t
    using inv that timer_inv_len [OF inv, of t] by (auto simp: timer_inv_def)
  have old: "slot_ok run (set (heap_ids s)) {} ?n t (?D ! t)" if "t < length ?D" for t
    using timer_inv_slot [OF inv that] Nil by simp
  have zero: "td_type (D' ! t) = 0 \<and> td_func (D' ! t) = None" if "?n \<le> t" "t < length D'" for t
    using nth [OF that(2)] old [of t] that(1) by (auto simp: slot_ok_def timer_zero_def)
  have "slot_ok run (set (heap_ids s)) {} (Suc ?n) t (D' ! t)" if "t < length D'" for t
  proof (cases "t < ?n")
    case True
    moreover have "0 \<notin> set (heap_ids s)" "run \<noteq> Some 0" using inv by (auto simp: timer_inv_def)
    ultimately show ?thesis using old [of t] nth [OF that] n that
      by (cases "t = 0") (auto simp: slot_ok_def timer_zero_def timer_flags)
  next
    case False
    moreover have "t \<notin> set (heap_ids s)" "run \<noteq> Some t"
      using False inv by (auto simp: timer_inv_def)
    ultimately show ?thesis using zero [of t] that
      by (simp add: slot_ok_def timer_flags)
  qed
  moreover have "heap_ok (DIFFTICK_MINTOPCMP D') (heap_ids s)"
    using inv heap_ok_tick_cong [of "heap_ids s" ?D D'] in_heap nth
    by (auto simp: timer_inv_def D'_def nth_append)
  ultimately have "timer_inv run s'"
    using inv s' Nil len by (auto simp: timer_inv_def less_Suc_eq)
  then show ?thesis using tid s' fresh zero [of ?n] len n Nil by simp
qed

text \<open>Storing into a fresh slot.\<close>

lemma timer_store_ok:
  assumes inv: "timer_inv run s" and t: "1 \<le> tid" "tid < timer_data_num s"
    and fresh: "tid \<notin> set (heap_ids s)" "tid \<notin> set (free_timer_list s)" "run \<noteq> Some tid"
      "td_type (timer_data s ! tid) = 0" "td_func (timer_data s ! tid) = None"
    and type: "type = TIMER_ONCE_AUTODEL \<or> type = TIMER_INTERVAL \<and> 1 \<le> interval"
  shows "\<exists>s'. timer_store s tid tick f aid dat type interval = Some (int tid, s') \<and> timer_inv run s'
           \<and> set (heap_ids s') = insert tid (set (heap_ids s))
           \<and> timer_data s' = (timer_data s)[tid := \<lparr>td_tick = tick, td_func = Some f, td_type = type,
               td_interval = interval, td_id = aid, td_data = dat\<rparr>]"
proof -
  let ?d = "\<lparr>td_tick = tick, td_func = Some f, td_type = type, td_interval = interval,
             td_id = aid, td_data = dat\<rparr>"
  let ?s = "s\<lparr>timer_data := (timer_data s)[tid := ?d]\<rparr>"
  have "heap_ok (DIFFTICK_MINTOPCMP (timer_data ?s)) (heap_ids ?s)"
    using inv fresh(1) by (simp add: timer_inv_def heap_ok_tick_update)
  then obtain w where w: "push_timer_heap ?s tid = Some (?s\<lparr>timer_heap := w\<rparr>)" "vec_wf w"
    "heap_ok (DIFFTICK_MINTOPCMP (timer_data ?s)) (vec_list w)"
    "mset (vec_list w) = add_mset tid (mset (heap_ids s))"
    using push_timer_heap_ok [of ?s tid] inv by (auto simp: timer_inv_def)
  note ms = set_add_mset [OF w(4)] distinct_add_mset [OF w(4)]
  have "timer_inv run (?s\<lparr>timer_heap := w\<rparr>)"
  proof (rule timer_inv_update [OF inv t, where d = ?d])
    show "slot_ok run (set (heap_ids (?s\<lparr>timer_heap := w\<rparr>)))
       (set (free_timer_list (?s\<lparr>timer_heap := w\<rparr>))) (timer_data_num s) tid ?d"
      using type fresh t ms by (auto simp: slot_ok_def timer_flags)
  qed (use inv w ms fresh in \<open>auto simp: timer_inv_def\<close>)
  with w ms fresh show ?thesis by (auto simp: timer_store_def)
qed

lemma timer_add_ok:
  assumes inv: "timer_inv run s"
  shows "\<exists>r s'. timer_add tick func aid dat s = Some (r, s') \<and> timer_inv run s'
           \<and> (func \<noteq> None \<longrightarrow> 1 \<le> r \<and> nat r \<notin> set (heap_ids s)
               \<and> set (heap_ids s') = insert (nat r) (set (heap_ids s))
               \<and> timer_data s' ! nat r = \<lparr>td_tick = tick, td_func = func,
                   td_type = TIMER_ONCE_AUTODEL, td_interval = 1000, td_id = aid, td_data = dat\<rparr>)"
proof (cases func)
  case None
  with inv show ?thesis by (simp add: timer_add_def)
next
  case (Some f)
  obtain tid s1 where acq: "acquire_timer s = (tid, s1)" by fastforce
  note a = acquire_timer_ok [OF inv acq]
  obtain s' where "timer_store s1 tid tick f aid dat TIMER_ONCE_AUTODEL 1000 = Some (int tid, s')"
    "timer_inv run s'" "set (heap_ids s') = insert tid (set (heap_ids s1))"
    "timer_data s' = (timer_data s1)[tid := \<lparr>td_tick = tick, td_func = Some f,
       td_type = TIMER_ONCE_AUTODEL, td_interval = 1000, td_id = aid, td_data = dat\<rparr>]"
    using timer_store_ok [of run s1 tid TIMER_ONCE_AUTODEL 1000 tick f aid dat] a
    by (auto simp del: One_nat_def)
  moreover have "tid < length (timer_data s1)" using timer_inv_len a by blast
  ultimately show ?thesis using Some acq a by (simp add: timer_add_def)
qed

lemma timer_add_interval_ok:
  assumes inv: "timer_inv run s"
  shows "\<exists>r s'. timer_add_interval tick func aid dat interval s = Some (r, s') \<and> timer_inv run s'
           \<and> (func \<noteq> None \<and> 1 \<le> interval \<longrightarrow> 1 \<le> r \<and> nat r \<notin> set (heap_ids s)
               \<and> set (heap_ids s') = insert (nat r) (set (heap_ids s))
               \<and> timer_data s' ! nat r = \<lparr>td_tick = tick, td_func = func,
                   td_type = TIMER_INTERVAL, td_interval = interval, td_id = aid, td_data = dat\<rparr>)"
proof (cases "func = None \<or> interval < 1")
  case True
  with inv show ?thesis by (auto simp: timer_add_interval_def split: option.splits)
next
  case False
  then obtain f where f: "func = Some f" by auto
  obtain tid s1 where acq: "acquire_timer s = (tid, s1)" by fastforce
  note a = acquire_timer_ok [OF inv acq]
  obtain s' where "timer_store s1 tid tick f aid dat TIMER_INTERVAL interval = Some (int tid, s')"
    "timer_inv run s'" "set (heap_ids s') = insert tid (set (heap_ids s1))"
    "timer_data s' = (timer_data s1)[tid := \<lparr>td_tick = tick, td_func = Some f,
       td_type = TIMER_INTERVAL, td_interval = interval, td_id = aid, td_data = dat\<rparr>]"
    using timer_store_ok [of run s1 tid TIMER_INTERVAL interval tick f aid dat] a False by auto
  moreover have "tid < length (timer_data s1)" using timer_inv_len a by blast
  ultimately show ?thesis using f False acq a by (simp add: timer_add_interval_def)
qed

lemma timer_do_delete_inv:
  assumes inv: "timer_inv run s"
  shows "timer_inv run (snd (timer_do_delete tid func s))"
proof -
  let ?t = "nat tid" and ?d = "timer_data s ! nat tid"
  let ?d' = "?d\<lparr>td_func := None, td_type := TIMER_ONCE_AUTODEL\<rparr>"
  show ?thesis
  proof (cases "func \<noteq> None \<and> 1 \<le> tid \<and> tid < int (timer_data_num s) \<and> td_func ?d = func
      \<and> td_type ?d \<noteq> 0 \<and> td_type ?d \<noteq> TIMER_REMOVE_HEAP")
    case False
    then have "snd (timer_do_delete tid func s) = s"
      by (auto simp: timer_do_delete_def Let_def)
    then show ?thesis using inv by simp
  next
    case True
    then have t: "1 \<le> ?t" "?t < timer_data_num s" by auto
    have slot: "slot_ok run (set (heap_ids s)) (set (free_timer_list s)) (timer_data_num s) ?t ?d"
      using timer_inv_slot [OF inv timer_inv_len [OF inv t]] .
    have "timer_inv run (s\<lparr>timer_data := (timer_data s)[?t := ?d']\<rparr>)"
      by (rule timer_inv_update [OF inv t, where run' = run and d = ?d'])
        (use inv slot True in \<open>auto simp: timer_inv_def slot_ok_def timer_flags heap_ok_tick_update\<close>)
    with True show ?thesis by (auto simp: timer_do_delete_def Let_def)
  qed
qed

lemma timer_settick_ok:
  assumes inv: "timer_inv run s"
  shows "\<exists>r s'. timer_settick tid tick s = Some (r, s') \<and> timer_inv run s'
           \<and> set (heap_ids s') = set (heap_ids s)
           \<and> (r \<noteq> -1 \<longrightarrow> nat tid \<in> set (heap_ids s) \<and> 1 \<le> tid
               \<and> timer_data s' = (timer_data s)[nat tid := (timer_data s ! nat tid)\<lparr>td_tick := r\<rparr>])"
proof -
  let ?xs = "heap_ids s" and ?D = "timer_data s" and ?t = "nat tid"
  let ?i = "arr_find (\<lambda>h. int h = tid) ?xs" and ?tick = "if tick = -1 then 0 else tick"
  show ?thesis
  proof (cases "?i = length ?xs \<or> td_type (?D ! ?t) = 0 \<or> td_type (?D ! ?t) = TIMER_REMOVE_HEAP
      \<or> td_func (?D ! ?t) = None")
    case True
    with inv show ?thesis by (auto simp: timer_settick_def Let_def)
  next
    case False
    then have i: "?i < length ?xs" using arr_find_le by (simp add: order_less_le)
    have ti: "int (?xs ! ?i) = tid" using arr_find_nth [OF i] .
    then have xi: "?xs ! ?i = ?t" by auto
    then have mem: "?t \<in> set ?xs" using i by (metis nth_mem)
    have t: "1 \<le> ?t" "?t < timer_data_num s" "1 \<le> tid" using inv mem ti xi by (auto simp: timer_inv_def)
    have len: "?t < length ?D" using timer_inv_len [OF inv t(1,2)] .
    have same: "?D[?t := (?D ! ?t)\<lparr>td_tick := td_tick (?D ! ?t)\<rparr>] = ?D" by simp
    show ?thesis
    proof (cases "td_tick (?D ! ?t) = ?tick")
      case True
      then show ?thesis
        using inv False mem t same by (auto simp: timer_settick_def Let_def)
    next
      case neq: False
      let ?D' = "?D[?t := (?D ! ?t)\<lparr>td_tick := ?tick\<rparr>]"
      obtain v where v: "BHEAP_POPINDEX (DIFFTICK_MINTOPCMP ?D) (timer_heap s) ?i = Some v"
        "vec_wf v" "heap_ok (DIFFTICK_MINTOPCMP ?D) (vec_list v)"
        "mset (vec_list v) = mset ?xs - {#?t#}" "vec_len v < vec_max v"
        using difftick.POPINDEX_ok [of "timer_heap s" ?i ?D] inv i xi
        by (auto simp: timer_inv_def vec_wf_def)
      have ms: "mset ?xs = add_mset ?t (mset (vec_list v))"
        using v(4) mem by (simp add: insert_DiffM)
      have d: "?t \<notin> set (vec_list v)" "distinct (vec_list v)"
        using distinct_add_mset [OF ms] inv by (auto simp: timer_inv_def)
      have "heap_ok (DIFFTICK_MINTOPCMP ?D') (vec_list v)"
        using v(3) d(1) by (simp add: heap_ok_tick_update)
      then obtain w where w: "BHEAP_PUSH (DIFFTICK_MINTOPCMP ?D') v ?t = Some w" "vec_wf w"
        "heap_ok (DIFFTICK_MINTOPCMP ?D') (vec_list w)"
        "mset (vec_list w) = add_mset ?t (mset (vec_list v))"
        using difftick.PUSH_ok [OF v(2,5), of ?D' ?t] by blast
      have set_w: "set (vec_list w) = set ?xs" and dist_w: "distinct (vec_list w)"
        using w(4) ms d set_add_mset [OF w(4)] set_add_mset [OF ms] distinct_add_mset [OF w(4)]
        by auto
      let ?s = "s\<lparr>timer_data := ?D', timer_heap := w\<rparr>"
      have "timer_inv run ?s"
      proof (rule timer_inv_update [OF inv t(1,2), where run' = run and d = "(?D ! ?t)\<lparr>td_tick := ?tick\<rparr>"])
        show "slot_ok run (set (heap_ids ?s)) (set (free_timer_list ?s)) (timer_data_num s) ?t
            ((?D ! ?t)\<lparr>td_tick := ?tick\<rparr>)"
          using timer_inv_slot [OF inv len] set_w by simp
        show "distinct (free_timer_list ?s)" using inv by (simp add: timer_inv_def)
      qed (use w set_w dist_w in simp_all)
      moreover have "timer_settick tid tick s = Some (?tick, ?s)"
        using False neq v(1) w(1) by (auto simp: timer_settick_def Let_def)
      ultimately show ?thesis using mem t set_w by auto
    qed
  qed
qed

lemma timer_addtick_ok:
  assumes inv: "timer_inv run s"
  shows "\<exists>r s'. timer_addtick tid tick s = Some (r, s') \<and> timer_inv run s'
           \<and> set (heap_ids s') = set (heap_ids s)"
  using timer_settick_ok [OF inv] inv unfolding timer_addtick_def by (simp, meson)

lemma timer_call_ok:
  assumes inv: "timer_inv run s"
  shows "\<exists>s'. timer_call c s = Some s' \<and> timer_inv run s'"
proof (cases c)
  case TimerAdd
  then show ?thesis using timer_add_ok [OF inv] by (auto, metis option.simps(9) snd_conv)
next
  case TimerAddInterval
  then show ?thesis using timer_add_interval_ok [OF inv] by (auto, metis option.simps(9) snd_conv)
next
  case TimerDelete
  then show ?thesis using timer_do_delete_inv [OF inv] by auto
next
  case TimerSetTick
  then show ?thesis using timer_settick_ok [OF inv] by (auto, metis option.simps(9) snd_conv)
next
  case TimerAddTick
  then show ?thesis using timer_addtick_ok [OF inv] by (auto, metis option.simps(9) snd_conv)
qed

lemma timer_calls_ok:
  "timer_inv run s \<Longrightarrow> \<exists>s'. timer_calls cs s = Some s' \<and> timer_inv run s'"
proof (induction cs arbitrary: s)
  case (Cons c cs)
  obtain s1 where "timer_call c s = Some s1" "timer_inv run s1"
    using timer_call_ok [OF Cons.prems] by blast
  with Cons.IH show ?case by simp
qed simp

section \<open>The main loop\<close>

lemma timer_take_ok:
  assumes inv: "timer_inv None s" and ne: "0 < vec_len (timer_heap s)"
  defines "t \<equiv> heap_ids s ! 0"
  shows "\<exists>s'. timer_take t s = Some s' \<and> timer_inv (Some t) s'
           \<and> mset (heap_ids s) = add_mset t (mset (heap_ids s'))
           \<and> timer_data s' = (timer_data s)[t := (timer_data s ! t)
               \<lparr>td_type := td_type (timer_data s ! t) OR TIMER_REMOVE_HEAP\<rparr>]"
proof -
  let ?D = "timer_data s"
  let ?d = "(?D ! t)\<lparr>td_type := td_type (?D ! t) OR TIMER_REMOVE_HEAP\<rparr>"
  have wf: "vec_wf (timer_heap s)" using inv by (simp add: timer_inv_def)
  have mem: "t \<in> set (heap_ids s)" using ne wf by (simp add: t_def)
  have t: "1 \<le> t" "t < timer_data_num s" using inv mem by (auto simp: timer_inv_def)
  have slot: "slot_ok None (set (heap_ids s)) (set (free_timer_list s)) (timer_data_num s) t (?D ! t)"
    using timer_inv_slot [OF inv timer_inv_len [OF inv t]] .
  obtain v where v: "BHEAP_POP (DIFFTICK_MINTOPCMP ?D) (timer_heap s) = Some v" "vec_wf v"
    "heap_ok (DIFFTICK_MINTOPCMP ?D) (vec_list v)" "mset (vec_list v) = mset (heap_ids s) - {#t#}"
    using difftick.POP_ok [OF wf ne, of ?D] inv by (auto simp: timer_inv_def t_def)
  have ms: "mset (heap_ids s) = add_mset t (mset (vec_list v))"
    using v(4) mem by (simp add: insert_DiffM)
  have d: "t \<notin> set (vec_list v)" "distinct (vec_list v)" "set (heap_ids s) = insert t (set (vec_list v))"
    using distinct_add_mset [OF ms] set_add_mset [OF ms] inv by (auto simp: timer_inv_def)
  let ?s = "s\<lparr>timer_heap := v, timer_data := ?D[t := ?d]\<rparr>"
  have "timer_inv (Some t) ?s"
  proof (rule timer_inv_update [OF inv t, where d = ?d])
    show "slot_ok (Some t) (set (heap_ids ?s)) (set (free_timer_list ?s)) (timer_data_num s) t ?d"
      using slot d mem by (auto simp: slot_ok_def timer_flags)
  qed (use inv v d in \<open>auto simp: timer_inv_def heap_ok_tick_update\<close>)
  with v(1) ms show ?thesis by (auto simp: timer_take_def)
qed

lemma timer_fire_ok:
  assumes "timer_inv (Some t) s"
  shows "\<exists>s'. timer_fire env tick diff t s = Some s' \<and> timer_inv (Some t) s'"
  using assms timer_calls_ok [OF assms] by (auto simp: timer_fire_def Let_def split: option.split)

lemma timer_finish_ok:
  assumes inv: "timer_inv (Some t) s"
  shows "\<exists>s' d. timer_finish tick t s = Some s' \<and> timer_inv None s'
           \<and> timer_data s' = (timer_data s)[t := d]
           \<and> (heap_ids s' = heap_ids s
              \<or> mset (heap_ids s') = add_mset t (mset (heap_ids s))
                \<and> td_type (timer_data s ! t) = TIMER_INTERVAL OR TIMER_REMOVE_HEAP
                \<and> td_type d = TIMER_INTERVAL
                \<and> (td_tick (timer_data s ! t) \<le> tick \<longrightarrow> td_tick (timer_data s ! t) < td_tick d))"
proof -
  let ?D = "timer_data s" and ?d = "timer_data s ! t"
  have t: "1 \<le> t" "t < timer_data_num s" using inv by (auto simp: timer_inv_def)
  have slot: "slot_ok (Some t) (set (heap_ids s)) (set (free_timer_list s)) (timer_data_num s) t ?d"
    using timer_inv_slot [OF inv timer_inv_len [OF inv t]] .
  then consider (plain) "td_type ?d = TIMER_ONCE_AUTODEL" "t \<notin> set (heap_ids s)" "td_func ?d = None"
    | (once) "td_type ?d = TIMER_ONCE_AUTODEL OR TIMER_REMOVE_HEAP" "t \<notin> set (heap_ids s)"
        "t \<notin> set (free_timer_list s)"
    | (interval) "td_type ?d = TIMER_INTERVAL OR TIMER_REMOVE_HEAP" "t \<notin> set (heap_ids s)"
        "t \<notin> set (free_timer_list s)" "1 \<le> td_interval ?d"
    by (auto simp: slot_ok_def timer_flags)
  then show ?thesis
  proof cases
    case plain
    have "timer_inv None s"
      by (rule timer_inv_update [OF inv t, where d = ?d])
        (use inv slot plain in \<open>auto simp: timer_inv_def slot_ok_def timer_flags\<close>)
    moreover have "timer_finish tick t s = Some s"
      using plain by (simp add: timer_finish_def timer_flags Let_def)
    moreover have "?D = ?D[t := ?d]" by simp
    ultimately show ?thesis by blast
  next
    case once
    define s' where "s' = s\<lparr>timer_data := ?D[t := ?d\<lparr>td_type := 0, td_func := None\<rparr>],
      free_timer_list_max := (if length (free_timer_list s) \<ge> free_timer_list_max s
         then free_timer_list_max s + 256 else free_timer_list_max s),
      free_timer_list := t # free_timer_list s\<rparr>"
    have "timer_inv None s'"
    proof (rule timer_inv_update [OF inv t, where d = "?d\<lparr>td_type := 0, td_func := None\<rparr>"])
      show "slot_ok None (set (heap_ids s')) (set (free_timer_list s')) (timer_data_num s) t
          (?d\<lparr>td_type := 0, td_func := None\<rparr>)"
        using once by (simp add: s'_def slot_ok_def timer_flags)
    qed (use inv once in \<open>auto simp: s'_def timer_inv_def heap_ok_tick_update\<close>)
    moreover have "timer_finish tick t s = Some s'"
      using once by (simp add: timer_finish_def s'_def timer_flags Let_def)
    ultimately show ?thesis by (auto simp: s'_def)
  next
    case interval
    let ?e = "?d\<lparr>td_type := TIMER_INTERVAL, td_tick :=
      (if td_tick ?d - tick < -1000 then tick else td_tick ?d) + td_interval ?d\<rparr>"
    let ?s = "s\<lparr>timer_data := ?D[t := ?e]\<rparr>"
    obtain w where w: "push_timer_heap ?s t = Some (?s\<lparr>timer_heap := w\<rparr>)" "vec_wf w"
      "heap_ok (DIFFTICK_MINTOPCMP (timer_data ?s)) (vec_list w)"
      "mset (vec_list w) = add_mset t (mset (heap_ids s))"
      using push_timer_heap_ok [of ?s t] inv interval
      by (auto simp: timer_inv_def heap_ok_tick_update)
    note ms = set_add_mset [OF w(4)] distinct_add_mset [OF w(4)]
    have "timer_inv None (?s\<lparr>timer_heap := w\<rparr>)"
    proof (rule timer_inv_update [OF inv t, where d = ?e])
      show "slot_ok None (set (heap_ids (?s\<lparr>timer_heap := w\<rparr>)))
          (set (free_timer_list (?s\<lparr>timer_heap := w\<rparr>))) (timer_data_num s) t ?e"
        using interval t ms by (simp add: slot_ok_def timer_flags)
    qed (use inv w ms interval in \<open>auto simp: timer_inv_def\<close>)
    moreover have "timer_finish tick t s = push_timer_heap ?s t"
      using interval by (simp add: timer_finish_def timer_flags Let_def)
    moreover have "td_tick ?d \<le> tick \<longrightarrow> td_tick ?d < td_tick ?e" using interval(4) by auto
    ultimately show ?thesis using w(1,4) interval(1)
      by (intro exI [of _ "?s\<lparr>timer_heap := w\<rparr>"] exI [of _ ?e]) simp
  qed
qed

text \<open>One turn of the loop, for an expired timer.\<close>

definition timer_turn :: "'f timer_env \<Rightarrow> int \<Rightarrow> 'f timer_state \<Rightarrow> 'f timer_state option" where
  "timer_turn env tick s =
     (let tid = heap_ids s ! 0 in do {
        s1 \<leftarrow> timer_take tid s;
        s2 \<leftarrow> timer_fire env tick (td_tick (timer_data s ! tid) - tick) tid s1;
        timer_finish tick tid s2
      })"

lemma do_timer_loop_unfold:
  assumes "vec_wf (timer_heap s)"
  shows "do_timer_loop env tick diff s =
     (if heap_ids s = [] then Some (diff, s)
      else let diff = td_tick (timer_data s ! (heap_ids s ! 0)) - tick in
        if diff > 0 then Some (diff, s)
        else Option.bind (timer_turn env tick s) (do_timer_loop env tick diff))"
proof -
  have "heap_ids s = [] \<longleftrightarrow> vec_len (timer_heap s) = 0"
    by (rule vec_list_empty_iff [OF assms])
  then show ?thesis
    using BHEAP_PEEK_ok [OF assms]
    by (subst do_timer_loop.simps) (auto simp: Let_def timer_turn_def)
qed

lemma timer_turn_ok:
  assumes inv: "timer_inv None s" and ne: "heap_ids s \<noteq> []"
  shows "\<exists>s'. timer_turn env tick s = Some s' \<and> timer_inv None s'"
proof -
  let ?t = "heap_ids s ! 0"
  have "0 < vec_len (timer_heap s)"
    using inv ne vec_list_empty_iff [of "timer_heap s"] by (auto simp: timer_inv_def)
  then obtain s1 where s1: "timer_take ?t s = Some s1" "timer_inv (Some ?t) s1"
    using timer_take_ok [OF inv] by blast
  obtain s2 where s2: "timer_fire env tick (td_tick (timer_data s ! ?t) - tick) ?t s1 = Some s2"
    "timer_inv (Some ?t) s2" using timer_fire_ok [OF s1(2)] by blast
  obtain s3 where "timer_finish tick ?t s2 = Some s3" "timer_inv None s3"
    using timer_finish_ok [OF s2(2)] by blast
  with s1 s2 show ?thesis by (simp add: timer_turn_def Let_def)
qed

text \<open>What holds when the loop is left, from state \<open>s\<close> with the value \<open>diff\<close>.\<close>

definition loop_post :: "int \<Rightarrow> int \<Rightarrow> 'f timer_state \<Rightarrow> int \<times> 'f timer_state \<Rightarrow> bool" where
  "loop_post tick diff s r \<longleftrightarrow> timer_inv None (snd r) \<and>
    (if heap_ids (snd r) \<noteq> []
     then fst r = td_tick (timer_data (snd r) ! (heap_ids (snd r) ! 0)) - tick \<and> 0 < fst r
     else if heap_ids s = [] then fst r = diff else fst r \<le> 0)"

lemma do_timer_loop_post:
  assumes ret: "do_timer_loop env tick diff s = Some r"
  shows "timer_inv None s \<longrightarrow> loop_post tick diff s r"
proof (rule do_timer_loop.raw_induct [where P = "\<lambda>env tick diff s r. timer_inv None s \<longrightarrow>
    loop_post tick diff s r", OF _ ret], rule impI)
  fix loop :: "'a timer_env \<Rightarrow> int \<Rightarrow> int \<Rightarrow> 'a timer_state \<Rightarrow> (int \<times> 'a timer_state) option"
    and env :: "'a timer_env" and tick diff :: int and s :: "'a timer_state" and r
  assume IH: "\<And>env tick diff s r. loop env tick diff s = Some r \<Longrightarrow> timer_inv None s \<longrightarrow>
      loop_post tick diff s r"
    and eq: "(if 0 < vec_len (timer_heap s)
       then Option.bind (BHEAP_PEEK (timer_heap s)) (\<lambda>tid.
         let diff = td_tick (timer_data s ! tid) - tick in
         if 0 < diff then Some (diff, s)
         else Option.bind (timer_take tid s) (\<lambda>s. Option.bind (timer_fire env tick diff tid s)
                (\<lambda>s. Option.bind (timer_finish tick tid s) (loop env tick diff))))
       else Some (diff, s)) = Some r"
    and inv: "timer_inv None s"
  let ?t = "heap_ids s ! 0" and ?diff = "td_tick (timer_data s ! (heap_ids s ! 0)) - tick"
  have wf: "vec_wf (timer_heap s)" using inv by (simp add: timer_inv_def)
  note len = vec_list_empty_iff [OF wf]
  show "loop_post tick diff s r"
  proof (cases "heap_ids s = [] \<or> 0 < ?diff")
    case True
    with eq inv len BHEAP_PEEK_ok [OF wf] show ?thesis
      by (auto simp: Let_def loop_post_def split: if_splits)
  next
    case False
    then obtain s' where s': "timer_turn env tick s = Some s'" "timer_inv None s'"
      using timer_turn_ok [OF inv] by blast
    have "loop env tick ?diff s' = Some r"
      using eq False len BHEAP_PEEK_ok [OF wf] s'(1)
      by (auto simp: Let_def timer_turn_def split: Option.bind_splits)
    then have "loop_post tick ?diff s' r" using IH s'(2) by blast
    then show ?thesis using False by (auto simp: loop_post_def split: if_splits)
  qed
qed

text \<open>
  With timer functions that make no timer calls, the loop ends: what shrinks is the
  number of timers in the heap plus, for interval timers, how far each is behind.
\<close>

definition timer_work :: "int \<Rightarrow> 'f TimerData list \<Rightarrow> nat \<Rightarrow> nat" where
  "timer_work tick D t =
     Suc (if td_type (D ! t) = TIMER_INTERVAL then nat (tick - td_tick (D ! t) + 1) else 0)"

definition heap_work :: "int \<Rightarrow> 'f timer_state \<Rightarrow> nat" where
  "heap_work tick s = sum_mset (image_mset (timer_work tick (timer_data s)) (mset (heap_ids s)))"

lemma timer_turn_work:
  assumes inv: "timer_inv None s" and ne: "heap_ids s \<noteq> []"
    and expired: "td_tick (timer_data s ! (heap_ids s ! 0)) \<le> tick"
    and turn: "timer_turn (\<lambda>_ _ _ _ _ _. []) tick s = Some s'"
  shows "heap_work tick s' < heap_work tick s"
proof -
  let ?t = "heap_ids s ! 0" and ?D = "timer_data s"
  have "0 < vec_len (timer_heap s)"
    using inv ne vec_list_empty_iff [of "timer_heap s"] by (auto simp: timer_inv_def)
  then obtain s1 where s1: "timer_take ?t s = Some s1" "timer_inv (Some ?t) s1"
    "mset (heap_ids s) = add_mset ?t (mset (heap_ids s1))"
    "timer_data s1 = ?D[?t := (?D ! ?t)\<lparr>td_type := td_type (?D ! ?t) OR TIMER_REMOVE_HEAP\<rparr>]"
    using timer_take_ok [OF inv] by blast
  have fire: "timer_fire (\<lambda>_ _ _ _ _ _. []) tick diff ?t s1 = Some s1" for diff
    by (simp add: timer_fire_def Let_def split: option.split)
  obtain d where fin: "timer_finish tick ?t s1 = Some s'" "timer_data s' = (timer_data s1)[?t := d]"
    "heap_ids s' = heap_ids s1
     \<or> mset (heap_ids s') = add_mset ?t (mset (heap_ids s1))
       \<and> td_type (timer_data s1 ! ?t) = TIMER_INTERVAL OR TIMER_REMOVE_HEAP \<and> td_type d = TIMER_INTERVAL
       \<and> (td_tick (timer_data s1 ! ?t) \<le> tick \<longrightarrow> td_tick (timer_data s1 ! ?t) < td_tick d)"
    using timer_finish_ok [OF s1(2), of tick] turn s1(1) fire by (auto simp: timer_turn_def Let_def)
  have mem: "?t \<in> set (heap_ids s)" using ne by simp
  then have t: "1 \<le> ?t" "?t < timer_data_num s" using inv by (auto simp: timer_inv_def)
  have len: "?t < length ?D" using timer_inv_len [OF inv t] .
  have type: "td_type (?D ! ?t) = TIMER_ONCE_AUTODEL \<or> td_type (?D ! ?t) = TIMER_INTERVAL"
    using timer_inv_slot [OF inv len] mem by (simp add: slot_ok_def)
  have notin: "?t \<notin> set (heap_ids s1)"
    using timer_inv_slot [OF s1(2), of ?t] s1(4) len by (simp add: slot_ok_def)
  have D': "timer_data s' = ?D[?t := d]" using fin(2) s1(4) by simp
  have rest: "image_mset (timer_work tick (timer_data s')) (mset (heap_ids s1))
      = image_mset (timer_work tick ?D) (mset (heap_ids s1))"
  proof (rule image_mset_cong)
    fix x
    assume "x \<in># mset (heap_ids s1)"
    then have "x \<noteq> ?t" using notin by auto
    then show "timer_work tick (timer_data s') x = timer_work tick ?D x"
      by (simp add: timer_work_def D')
  qed
  show ?thesis
    using fin(3)
  proof
    assume "heap_ids s' = heap_ids s1"
    then show ?thesis by (simp add: heap_work_def s1(3) rest timer_work_def)
  next
    assume again: "mset (heap_ids s') = add_mset ?t (mset (heap_ids s1))
       \<and> td_type (timer_data s1 ! ?t) = TIMER_INTERVAL OR TIMER_REMOVE_HEAP \<and> td_type d = TIMER_INTERVAL
       \<and> (td_tick (timer_data s1 ! ?t) \<le> tick \<longrightarrow> td_tick (timer_data s1 ! ?t) < td_tick d)"
    then have "td_type (?D ! ?t) = TIMER_INTERVAL" "td_tick (?D ! ?t) < td_tick d"
      using type expired s1(4) len by (auto simp: timer_flags)
    then have "timer_work tick (timer_data s') ?t < timer_work tick ?D ?t"
      using again expired D' len by (simp add: timer_work_def)
    then show ?thesis using again by (simp add: heap_work_def s1(3) rest)
  qed
qed

lemma timer_turn_once:
  assumes inv: "timer_inv None s" and ne: "heap_ids s \<noteq> []"
    and once: "td_type (timer_data s ! (heap_ids s ! 0)) \<noteq> TIMER_INTERVAL"
  shows "\<exists>s'. timer_turn (\<lambda>_ _ _ _ _ _. []) tick s = Some s' \<and> timer_inv None s'
           \<and> mset (heap_ids s) = add_mset (heap_ids s ! 0) (mset (heap_ids s'))"
proof -
  let ?t = "heap_ids s ! 0" and ?D = "timer_data s"
  have "0 < vec_len (timer_heap s)"
    using inv ne vec_list_empty_iff [of "timer_heap s"] by (auto simp: timer_inv_def)
  then obtain s1 where s1: "timer_take ?t s = Some s1" "timer_inv (Some ?t) s1"
    "mset (heap_ids s) = add_mset ?t (mset (heap_ids s1))"
    "timer_data s1 = ?D[?t := (?D ! ?t)\<lparr>td_type := td_type (?D ! ?t) OR TIMER_REMOVE_HEAP\<rparr>]"
    using timer_take_ok [OF inv] by blast
  have mem: "?t \<in> set (heap_ids s)" using ne by simp
  then have t: "1 \<le> ?t" "?t < timer_data_num s" using inv by (auto simp: timer_inv_def)
  have len: "?t < length ?D" using timer_inv_len [OF inv t] .
  have "td_type (?D ! ?t) = TIMER_ONCE_AUTODEL"
    using timer_inv_slot [OF inv len] mem once by (simp add: slot_ok_def)
  then have "td_type (timer_data s1 ! ?t) \<noteq> TIMER_INTERVAL OR TIMER_REMOVE_HEAP"
    using s1(4) len by (simp add: timer_flags)
  then obtain s' where "timer_finish tick ?t s1 = Some s'" "timer_inv None s'" "heap_ids s' = heap_ids s1"
    using timer_finish_ok [OF s1(2), of tick] by blast
  moreover have "timer_fire (\<lambda>_ _ _ _ _ _. []) tick diff ?t s1 = Some s1" for diff
    by (simp add: timer_fire_def Let_def split: option.split)
  ultimately show ?thesis using s1(1,3) by (simp add: timer_turn_def Let_def)
qed

lemma do_timer_loop_returns:
  "timer_inv None s \<Longrightarrow> \<exists>r. do_timer_loop (\<lambda>_ _ _ _ _ _. []) tick diff s = Some r"
proof (induction "heap_work tick s" arbitrary: s diff rule: less_induct)
  case less
  have wf: "vec_wf (timer_heap s)" using less.prems by (simp add: timer_inv_def)
  let ?diff = "td_tick (timer_data s ! (heap_ids s ! 0)) - tick"
  show ?case
  proof (cases "heap_ids s = [] \<or> 0 < ?diff")
    case True
    then show ?thesis by (auto simp: do_timer_loop_unfold [OF wf] Let_def)
  next
    case False
    then obtain s' where s': "timer_turn (\<lambda>_ _ _ _ _ _. []) tick s = Some s'" "timer_inv None s'"
      using timer_turn_ok [OF less.prems] by blast
    have "heap_work tick s' < heap_work tick s"
      using timer_turn_work [OF less.prems _ _ s'(1)] False by simp
    from less.hyps [OF this s'(2)] show ?thesis
      using False s'(1) by (simp add: do_timer_loop_unfold [OF wf] Let_def)
  qed
qed

section \<open>Properties\<close>

text \<open>
  Every state the subsystem can be in: it starts empty, other modules call the timer
  functions in any order, and the main loop runs \<open>do_timer\<close> with some environment.
\<close>

inductive timer_reach :: "'f timer_state \<Rightarrow> bool" where
  start: "timer_reach timer_start"
| call: "timer_reach s \<Longrightarrow> timer_call c s = Some s' \<Longrightarrow> timer_reach s'"
| perform: "timer_reach s \<Longrightarrow> do_timer env tick s = Some (r, s') \<Longrightarrow> timer_reach s'"

lemma do_timer_inv:
  assumes "timer_inv None s" and "do_timer env tick s = Some (r, s')"
  shows "\<exists>diff. r = cap_value diff TIMER_MIN_INTERVAL TIMER_MAX_INTERVAL
           \<and> loop_post tick TIMER_MAX_INTERVAL s (diff, s')"
  using assms do_timer_loop_post [of env tick TIMER_MAX_INTERVAL s]
  by (auto simp: do_timer_def bind_eq_Some_conv)

lemma timer_reach_inv: "timer_reach s \<Longrightarrow> timer_inv None s"
proof (induction rule: timer_reach.induct)
  case start
  show ?case by (rule timer_inv_start)
next
  case (call s c s')
  then show ?case using timer_call_ok [OF call.IH, of c] by auto
next
  case (perform s env tick r s')
  then show ?case using do_timer_inv [OF perform.IH perform.hyps(2)] by (auto simp: loop_post_def)
qed

lemma timer_reach_calls: "timer_reach s \<Longrightarrow> timer_calls cs s = Some s' \<Longrightarrow> timer_reach s'"
  by (induction cs arbitrary: s) (auto simp: bind_eq_Some_conv intro: timer_reach.call)

text \<open>A state for the witnesses: one single-use timer, for tick 3, armed at start-up.\<close>

lemma demo_timer:
  obtains r s where "timer_calls [TimerAdd 3 (Some ()) 0 0] timer_start = Some s" "timer_reach s"
    "1 \<le> r" "set (heap_ids s) = {nat r}" "nat r < length (timer_data s)"
    "timer_data s ! nat r = \<lparr>td_tick = 3, td_func = Some (), td_type = TIMER_ONCE_AUTODEL,
       td_interval = 1000, td_id = 0, td_data = 0\<rparr>"
proof -
  obtain r s where a: "timer_add 3 (Some ()) 0 0 timer_start = Some (r, s)" "timer_inv None s" "1 \<le> r"
    "set (heap_ids s) = insert (nat r) (set (heap_ids (timer_start :: unit timer_state)))"
    "timer_data s ! nat r = \<lparr>td_tick = 3, td_func = Some (), td_type = TIMER_ONCE_AUTODEL,
       td_interval = 1000, td_id = 0, td_data = 0\<rparr>"
    using timer_add_ok [OF timer_inv_start, of 3 "Some ()" 0 0] by auto
  then have "nat r < timer_data_num s" by (auto simp: timer_inv_def)
  then have "nat r < length (timer_data s)" using timer_inv_len [OF a(2)] a(3) by simp
  moreover have "timer_calls [TimerAdd 3 (Some ()) 0 0] timer_start = Some s" using a(1) by simp
  moreover have "set (heap_ids s) = {nat r}" using a(4) by (simp add: timer_start_def)
  ultimately show ?thesis
    using that a(3,5) timer_reach_calls [OF timer_reach.start] by blast
qed

text \<open>
  C1. No timer is lost: in every state the server can reach, a slot that holds a function is
  an id in the heap, the heap holds each id once and is ordered by tick (its root expires
  first), and the slots in the free list are cleared.
\<close>

theorem timer_never_lost:
  assumes "timer_reach s" and "t < length (timer_data s)" and "td_func (timer_data s ! t) \<noteq> None"
  shows "t \<in> set (heap_ids s) \<and> distinct (heap_ids s) \<and> t \<notin> set (free_timer_list s)
       \<and> td_tick (timer_data s ! (heap_ids s ! 0)) \<le> td_tick (timer_data s ! t)"
proof -
  have inv: "timer_inv None s" using timer_reach_inv [OF assms(1)] .
  have slot: "slot_ok None (set (heap_ids s)) (set (free_timer_list s)) (timer_data_num s) t (timer_data s ! t)"
    using timer_inv_slot [OF inv assms(2)] .
  then have mem: "t \<in> set (heap_ids s)" "t \<notin> set (free_timer_list s)"
    using assms(3) by (auto simp: slot_ok_def)
  then obtain i where "i < length (heap_ids s)" "heap_ids s ! i = t" by (auto simp: in_set_conv_nth)
  then have "DIFFTICK_MINTOPCMP (timer_data s) (heap_ids s ! 0) t \<le> 0"
    using difftick.heap_top [of "timer_data s" "heap_ids s" i] inv by (auto simp: timer_inv_def)
  with mem inv show ?thesis by (simp add: timer_inv_def DIFFTICK_MINTOPCMP_def)
qed

theorem timer_never_lost_witness:
  "\<exists>s t. timer_calls [TimerAdd 3 (Some ()) 0 0] timer_start = Some s \<and> t < length (timer_data s)
     \<and> td_func (timer_data s ! t) \<noteq> None \<and> t \<in> set (heap_ids s)"
proof -
  obtain r s where s: "timer_calls [TimerAdd 3 (Some ()) 0 0] timer_start = Some s" "timer_reach s"
    "nat r < length (timer_data s)" "td_func (timer_data s ! nat r) = Some ()"
    using demo_timer by (metis TimerData.select_convs(2))
  with timer_never_lost [OF s(2,3)] show ?thesis by blast
qed

text \<open>
  C13. What \<open>do_timer\<close> leaves behind, whatever the timer functions did: no expired timer is
  in the heap, and the time it asks the main loop to sleep, between 50 and 1000 milliseconds,
  does not go past the next timer (unless that is less than 50 milliseconds away).
\<close>

theorem do_timer_drains:
  assumes "timer_reach s" and "do_timer env tick s = Some (r, s')"
  shows "50 \<le> r \<and> r \<le> 1000
       \<and> (\<forall>t \<in> set (heap_ids s'). tick < td_tick (timer_data s' ! t)
            \<and> r \<le> max 50 (td_tick (timer_data s' ! t) - tick))"
proof -
  obtain diff where r: "r = cap_value diff TIMER_MIN_INTERVAL TIMER_MAX_INTERVAL"
    and post: "loop_post tick TIMER_MAX_INTERVAL s (diff, s')"
    using do_timer_inv [OF timer_reach_inv [OF assms(1)] assms(2)] by blast
  have "tick < td_tick (timer_data s' ! t) \<and> r \<le> max 50 (td_tick (timer_data s' ! t) - tick)"
    if t: "t \<in> set (heap_ids s')" for t
  proof -
    have ne: "heap_ids s' \<noteq> []" using t by auto
    obtain i where i: "i < length (heap_ids s')" "heap_ids s' ! i = t"
      using t by (auto simp: in_set_conv_nth)
    then have "td_tick (timer_data s' ! (heap_ids s' ! 0)) \<le> td_tick (timer_data s' ! t)"
      using difftick.heap_top [of "timer_data s'" "heap_ids s'" i] post
      by (auto simp: loop_post_def timer_inv_def DIFFTICK_MINTOPCMP_def)
    then show ?thesis
      using post ne r by (auto simp: loop_post_def cap_value_def TIMER_MIN_INTERVAL_def TIMER_MAX_INTERVAL_def)
  qed
  then show ?thesis using r by (auto simp: cap_value_def TIMER_MIN_INTERVAL_def TIMER_MAX_INTERVAL_def)
qed

theorem do_timer_drains_witness:
  "\<exists>s r s'. timer_calls [TimerAdd 3 (Some ()) 0 0] timer_start = Some s
     \<and> do_timer (\<lambda>_ _ _ _ _ _. []) 2 s = Some (r, s') \<and> 50 \<le> r \<and> r \<le> 1000"
proof -
  obtain s where s: "timer_calls [TimerAdd 3 (Some ()) 0 0] timer_start = Some s" "timer_reach s"
    using demo_timer by metis
  obtain r s' where d: "do_timer (\<lambda>_ _ _ _ _ _. []) 2 s = Some (r, s')"
    using do_timer_loop_returns [OF timer_reach_inv [OF s(2)], of 2 TIMER_MAX_INTERVAL]
    by (auto simp: do_timer_def)
  from do_timer_drains [OF s(2) d] s(1) d show ?thesis by blast
qed

text \<open>
  C14. \<open>do_timer\<close> ends: with timer functions that make no timer calls of their own, it
  returns from every reachable state, interval timers included, however far behind they are.
\<close>

theorem do_timer_returns:
  assumes "timer_reach s"
  shows "\<exists>r s'. do_timer (\<lambda>_ _ _ _ _ _. []) tick s = Some (r, s')"
  using do_timer_loop_returns [OF timer_reach_inv [OF assms], of tick TIMER_MAX_INTERVAL]
  by (auto simp: do_timer_def)

theorem do_timer_returns_witness:
  "\<exists>s r s'. timer_calls [TimerAddInterval 3 (Some ()) 0 0 7] timer_start = Some s
     \<and> do_timer (\<lambda>_ _ _ _ _ _. []) 100 s = Some (r, s')"
proof -
  obtain s where s: "timer_calls [TimerAddInterval 3 (Some ()) 0 0 7] timer_start = Some s"
    using timer_calls_ok [OF timer_inv_start] by metis
  have "timer_reach s" by (rule timer_reach_calls [OF timer_reach.start s])
  from do_timer_returns [OF this, of 100] s show ?thesis by blast
qed

text \<open>
  Arming a timer never fails and never disturbs another one: \<open>timer_add\<close> returns an id
  that was in nobody's use, puts exactly that id into the heap, and stores what it was given.
\<close>

theorem timer_add_fresh:
  assumes "timer_reach s"
  shows "\<exists>r s'. timer_add tick (Some f) aid dat s = Some (r, s') \<and> 1 \<le> r
           \<and> nat r \<notin> set (heap_ids s) \<and> set (heap_ids s') = insert (nat r) (set (heap_ids s))
           \<and> timer_get r s' = Some \<lparr>td_tick = tick, td_func = Some f,
               td_type = TIMER_ONCE_AUTODEL, td_interval = 1000, td_id = aid, td_data = dat\<rparr>"
proof -
  obtain r s' where a: "timer_add tick (Some f) aid dat s = Some (r, s')" "timer_inv None s'" "1 \<le> r"
    "nat r \<notin> set (heap_ids s)" "set (heap_ids s') = insert (nat r) (set (heap_ids s))"
    "timer_data s' ! nat r = \<lparr>td_tick = tick, td_func = Some f, td_type = TIMER_ONCE_AUTODEL,
       td_interval = 1000, td_id = aid, td_data = dat\<rparr>"
    using timer_add_ok [OF timer_reach_inv [OF assms], of tick "Some f" aid dat] by auto
  then have "nat r < timer_data_num s'" by (auto simp: timer_inv_def)
  with a show ?thesis by (auto simp: timer_get_def)
qed

theorem timer_add_fresh_witness:
  "\<exists>r s'. timer_add 3 (Some ()) 0 0 timer_start = Some (r, s') \<and> 1 \<le> r
     \<and> set (heap_ids s') = {nat r}"
proof -
  have "heap_ids (timer_start :: unit timer_state) = []" by (simp add: timer_start_def)
  with timer_add_fresh [OF timer_reach.start, of 3 "()" 0 0] show ?thesis by auto
qed

text \<open>
  A timer that deletes itself from its own function is never reused: \<open>timer_do_delete\<close>
  overwrites the mark that \<open>do_timer\<close> had set, so the id goes neither back to the heap nor
  to the free list, and its slot keeps the type of an armed timer.
\<close>

theorem timer_self_delete_leaks:
  assumes "timer_inv (Some t) s" and "td_func (timer_data s ! t) = Some f"
  shows "fst (timer_do_delete (int t) (Some f) s) = 0
       \<and> (\<exists>s'. timer_finish tick t (snd (timer_do_delete (int t) (Some f) s)) = Some s'
            \<and> t \<notin> set (heap_ids s') \<and> t \<notin> set (free_timer_list s')
            \<and> td_type (timer_data s' ! t) = TIMER_ONCE_AUTODEL
            \<and> td_func (timer_data s' ! t) = None)"
proof -
  have t: "1 \<le> t" "t < timer_data_num s" using assms(1) by (auto simp: timer_inv_def)
  have len: "t < length (timer_data s)" using timer_inv_len [OF assms(1) t] .
  have "td_type (timer_data s ! t) \<noteq> 0 \<and> td_type (timer_data s ! t) \<noteq> TIMER_REMOVE_HEAP
      \<and> t \<notin> set (heap_ids s) \<and> t \<notin> set (free_timer_list s)"
    by (rule slot_running [OF timer_inv_slot [OF assms(1) len]])
  moreover have "timer_do_delete (int t) (Some f) s = (0, s\<lparr>timer_data := (timer_data s)
      [t := (timer_data s ! t)\<lparr>td_func := None, td_type := TIMER_ONCE_AUTODEL\<rparr>]\<rparr>)"
    using t assms(2) calculation by (simp add: timer_do_delete_def Let_def)
  ultimately show ?thesis
    using len by (simp add: timer_finish_def Let_def) (simp add: timer_flags)
qed

theorem timer_self_delete_leaks_witness:
  "\<exists>t s. timer_inv (Some t) (s :: unit timer_state) \<and> td_func (timer_data s ! t) = Some ()
     \<and> (\<exists>s'. timer_finish 5 t (snd (timer_do_delete (int t) (Some ()) s)) = Some s'
          \<and> t \<notin> set (heap_ids s') \<and> t \<notin> set (free_timer_list s'))"
proof -
  obtain r s where s: "timer_reach s" "set (heap_ids s) = {nat r}" "nat r < length (timer_data s)"
    "td_func (timer_data s ! nat r) = Some ()"
    using demo_timer by (metis TimerData.select_convs(2))
  have inv: "timer_inv None s" by (rule timer_reach_inv [OF s(1)])
  have ne: "heap_ids s \<noteq> []" using s(2) by auto
  have "0 < vec_len (timer_heap s)"
    using inv ne vec_list_empty_iff [of "timer_heap s"] by (auto simp: timer_inv_def)
  moreover have "heap_ids s ! 0 = nat r" using s(2) ne by (metis nth_mem length_greater_0_conv singletonD)
  ultimately obtain s1 where "timer_inv (Some (nat r)) s1"
    "timer_data s1 = (timer_data s)[nat r := (timer_data s ! nat r)
       \<lparr>td_type := td_type (timer_data s ! nat r) OR TIMER_REMOVE_HEAP\<rparr>]"
    using timer_take_ok [OF inv] by auto
  with s(3,4) timer_self_delete_leaks [of "nat r" s1 "()" 5] show ?thesis
    by (intro exI [of _ "nat r"] exI [of _ s1]) auto
qed

text \<open>
  After the last pending timer has expired \<open>do_timer\<close> returns the minimum, 50, not the
  one second its comment announces for an empty heap.
\<close>

theorem do_timer_emptied_returns_min:
  assumes "timer_reach s" and "do_timer env tick s = Some (r, s')"
    and "heap_ids s \<noteq> []" and "heap_ids s' = []"
  shows "r = TIMER_MIN_INTERVAL"
  using do_timer_inv [OF timer_reach_inv [OF assms(1)] assms(2)] assms(3,4)
  by (auto simp: loop_post_def cap_value_def TIMER_MIN_INTERVAL_def TIMER_MAX_INTERVAL_def)

theorem do_timer_emptied_returns_min_witness:
  "\<exists>s r s'. timer_calls [TimerAdd 3 (Some ()) 0 0] timer_start = Some s
     \<and> do_timer (\<lambda>_ _ _ _ _ _. []) 5 s = Some (r, s') \<and> heap_ids s' = [] \<and> r = TIMER_MIN_INTERVAL"
proof -
  let ?env = "\<lambda>_ _ _ _ _ _. []"
  obtain t s where s: "timer_calls [TimerAdd 3 (Some ()) 0 0] timer_start = Some s" "timer_reach s"
    "1 \<le> t" "set (heap_ids s) = {nat t}" "nat t < length (timer_data s)"
    "timer_data s ! nat t = \<lparr>td_tick = 3, td_func = Some (), td_type = TIMER_ONCE_AUTODEL,
       td_interval = 1000, td_id = 0, td_data = 0\<rparr>"
    by (rule demo_timer)
  have inv: "timer_inv None s" by (rule timer_reach_inv [OF s(2)])
  then have "distinct (heap_ids s)" by (simp add: timer_inv_def)
  then have heap: "heap_ids s = [nat t]"
    using s(4) by (cases "heap_ids s"; cases "tl (heap_ids s)") auto
  have once: "td_type (timer_data s ! nat t) \<noteq> TIMER_INTERVAL" using s(6) by (simp add: timer_flags)
  obtain s' where s': "timer_turn ?env 5 s = Some s'" "timer_inv None s'" "heap_ids s' = []"
    using timer_turn_once [OF inv, of 5] heap once by auto
  have "do_timer_loop ?env 5 TIMER_MAX_INTERVAL s = Some (-2, s')"
    using do_timer_loop_unfold [of s ?env 5 TIMER_MAX_INTERVAL] do_timer_loop_unfold [of s' ?env 5 "-2"]
      inv s' heap s(6) by (simp add: timer_inv_def)
  then have d: "do_timer ?env 5 s = Some (TIMER_MIN_INTERVAL, s')"
    by (simp add: do_timer_def cap_value_def TIMER_MIN_INTERVAL_def TIMER_MAX_INTERVAL_def)
  from do_timer_emptied_returns_min [OF s(2) d] s(1) s'(3) heap d show ?thesis by blast
qed

end
