(* ===== verification/MapCell.thy ===== *)
theory MapCell
  imports Prelude
begin

text \<open>
  Map cells and directions, from \<open>src/map/map.c\<close>: the flags of a cell, their conversion
  from and to the ground types of the client's map files, the queries and updates the rest of
  the map server makes, and the invisible walls. The build without \<open>CELL_NOSTACK\<close> (the
  default of \<open>src/config/core.h\<close>). A map whose \<open>cell\<close> pointer is \<open>NULL\<close> has an empty
  cell list. \<open>clif->changemapcell\<close> (a packet to the clients) is left out.
\<close>

record mapcell =
  walkable :: bool
  shootable :: bool
  water :: bool
  mc_npc :: bool
  basilica :: bool
  landprotector :: bool
  novending :: bool
  nochat :: bool
  icewall :: bool
  noicewall :: bool

datatype cell_t =
    CELL_WALKABLE | CELL_SHOOTABLE | CELL_WATER | CELL_NPC | CELL_BASILICA
  | CELL_LANDPROTECTOR | CELL_NOVENDING | CELL_NOCHAT | CELL_ICEWALL | CELL_NOICEWALL

datatype cell_chk =
    CELL_GETTYPE | CELL_CHKWALL | CELL_CHKWATER | CELL_CHKCLIFF
  | CELL_CHKPASS | CELL_CHKREACH | CELL_CHKNOPASS | CELL_CHKNOREACH | CELL_CHKSTACK
  | CELL_CHKNPC | CELL_CHKBASILICA | CELL_CHKLANDPROTECTOR | CELL_CHKNOVENDING
  | CELL_CHKNOCHAT | CELL_CHKICEWALL | CELL_CHKNOICEWALL

record map_data =
  md_xs :: int
  md_ys :: int
  md_cell :: "mapcell list"
  md_iwall_num :: int

definition zero_cell :: mapcell where
  "zero_cell = \<lparr>walkable = False, shootable = False, water = False, mc_npc = False,
     basilica = False, landprotector = False, novending = False, nochat = False,
     icewall = False, noicewall = False\<rparr>"

definition map_gat2cell :: "int \<Rightarrow> mapcell" where
  "map_gat2cell gat =
     (if gat = 0 then zero_cell\<lparr>walkable := True, shootable := True, water := False\<rparr>
      else if gat = 1 then zero_cell\<lparr>walkable := False, shootable := False, water := False\<rparr>
      else if gat = 2 then zero_cell\<lparr>walkable := True, shootable := True, water := False\<rparr>
      else if gat = 3 then zero_cell\<lparr>walkable := True, shootable := True, water := True\<rparr>
      else if gat = 4 then zero_cell\<lparr>walkable := True, shootable := True, water := False\<rparr>
      else if gat = 5 then zero_cell\<lparr>walkable := False, shootable := True, water := False\<rparr>
      else if gat = 6 then zero_cell\<lparr>walkable := True, shootable := True, water := False\<rparr>
      else zero_cell)"

definition map_cell2gat :: "mapcell \<Rightarrow> int" where
  "map_cell2gat c =
     (if walkable c \<and> shootable c \<and> \<not> water c then 0
      else if \<not> walkable c \<and> \<not> shootable c \<and> \<not> water c then 1
      else if walkable c \<and> shootable c \<and> water c then 3
      else if \<not> walkable c \<and> shootable c \<and> \<not> water c then 5
      else 1)"

definition c_bool :: "bool \<Rightarrow> int" where
  "c_bool b = (if b then 1 else 0)"

definition cell_index :: "map_data \<Rightarrow> int \<Rightarrow> int \<Rightarrow> nat" where
  "cell_index md x y = nat (x + y * md_xs md)"

fun map_getcellp :: "map_data \<Rightarrow> int \<Rightarrow> int \<Rightarrow> cell_chk \<Rightarrow> int" where
  "map_getcellp md x y cellchk =
     (if x < 0 \<or> x \<ge> md_xs md - 1 \<or> y < 0 \<or> y \<ge> md_ys md - 1
      then c_bool (cellchk = CELL_CHKNOPASS)
      else let c = md_cell md ! cell_index md x y in
        (case cellchk of
           CELL_GETTYPE \<Rightarrow> map_cell2gat c
         | CELL_CHKWALL \<Rightarrow> c_bool (\<not> walkable c \<and> \<not> shootable c)
         | CELL_CHKWATER \<Rightarrow> c_bool (water c)
         | CELL_CHKCLIFF \<Rightarrow> c_bool (\<not> walkable c \<and> shootable c)
         | CELL_CHKNPC \<Rightarrow> c_bool (mc_npc c)
         | CELL_CHKBASILICA \<Rightarrow> c_bool (basilica c)
         | CELL_CHKLANDPROTECTOR \<Rightarrow> c_bool (landprotector c)
         | CELL_CHKNOVENDING \<Rightarrow> c_bool (novending c)
         | CELL_CHKNOCHAT \<Rightarrow> c_bool (nochat c)
         | CELL_CHKICEWALL \<Rightarrow> c_bool (icewall c)
         | CELL_CHKNOICEWALL \<Rightarrow> c_bool (noicewall c)
         | CELL_CHKPASS \<Rightarrow> c_bool (walkable c)
         | CELL_CHKREACH \<Rightarrow> c_bool (walkable c)
         | CELL_CHKNOPASS \<Rightarrow> c_bool (\<not> walkable c)
         | CELL_CHKNOREACH \<Rightarrow> c_bool (\<not> walkable c)
         | CELL_CHKSTACK \<Rightarrow> 0))"

declare map_getcellp.simps [simp del]

definition map_getcell :: "map_data list \<Rightarrow> int \<Rightarrow> int \<Rightarrow> int \<Rightarrow> cell_chk \<Rightarrow> int" where
  "map_getcell ml m x y cellchk =
     (if m < 0 \<or> m \<ge> int (length ml) then 0 else map_getcellp (ml ! nat m) x y cellchk)"

fun set_cell_flag :: "cell_t \<Rightarrow> bool \<Rightarrow> mapcell \<Rightarrow> mapcell" where
  "set_cell_flag CELL_WALKABLE flag c = c\<lparr>walkable := flag\<rparr>"
| "set_cell_flag CELL_SHOOTABLE flag c = c\<lparr>shootable := flag\<rparr>"
| "set_cell_flag CELL_WATER flag c = c\<lparr>water := flag\<rparr>"
| "set_cell_flag CELL_NPC flag c = c\<lparr>mc_npc := flag\<rparr>"
| "set_cell_flag CELL_BASILICA flag c = c\<lparr>basilica := flag\<rparr>"
| "set_cell_flag CELL_LANDPROTECTOR flag c = c\<lparr>landprotector := flag\<rparr>"
| "set_cell_flag CELL_NOVENDING flag c = c\<lparr>novending := flag\<rparr>"
| "set_cell_flag CELL_NOCHAT flag c = c\<lparr>nochat := flag\<rparr>"
| "set_cell_flag CELL_ICEWALL flag c = c\<lparr>icewall := flag\<rparr>"
| "set_cell_flag CELL_NOICEWALL flag c = c\<lparr>noicewall := flag\<rparr>"

text \<open>\<open>map_setcell\<close> and \<open>map_setgatcell\<close> on one map of the list, with the common guard.\<close>

definition on_cell ::
  "(mapcell \<Rightarrow> mapcell) \<Rightarrow> map_data list \<Rightarrow> int \<Rightarrow> int \<Rightarrow> int \<Rightarrow> map_data list" where
  "on_cell f ml m x y =
     (if m < 0 \<or> m \<ge> int (length ml) then ml
      else let md = ml ! nat m in
        if x < 0 \<or> x \<ge> md_xs md \<or> y < 0 \<or> y \<ge> md_ys md then ml
        else let j = cell_index md x y
             in ml[nat m := md\<lparr>md_cell := (md_cell md)[j := f (md_cell md ! j)]\<rparr>])"

definition map_setcell ::
  "map_data list \<Rightarrow> int \<Rightarrow> int \<Rightarrow> int \<Rightarrow> cell_t \<Rightarrow> bool \<Rightarrow> map_data list" where
  "map_setcell ml m x y cell flag = on_cell (set_cell_flag cell flag) ml m x y"

definition map_setgatcell :: "map_data list \<Rightarrow> int \<Rightarrow> int \<Rightarrow> int \<Rightarrow> int \<Rightarrow> map_data list" where
  "map_setgatcell ml m x y gat =
     (let cell = map_gat2cell gat
      in on_cell (\<lambda>c. c\<lparr>walkable := walkable cell, shootable := shootable cell, water := water cell\<rparr>)
           ml m x y)"

section \<open>Directions\<close>

text \<open>\<open>dirx\<close> and \<open>diry\<close>: the unit step of each of the eight directions, north first, counter-clockwise.\<close>

definition dirx :: "int list" where "dirx = [0, -1, -1, -1, 0, 1, 1, 1]"
definition diry :: "int list" where "diry = [1, 1, 0, -1, -1, -1, 0, 1]"

definition map_check_dir :: "int \<Rightarrow> int \<Rightarrow> int" where
  "map_check_dir s_dir t_dir =
     (if s_dir = t_dir then 0
      else if s_dir = 0 \<and> (t_dir = 7 \<or> t_dir = 1 \<or> t_dir = 0) then 0
      else if s_dir = 1 \<and> (t_dir = 0 \<or> t_dir = 2 \<or> t_dir = 1) then 0
      else if s_dir = 2 \<and> (t_dir = 1 \<or> t_dir = 3 \<or> t_dir = 2) then 0
      else if s_dir = 3 \<and> (t_dir = 2 \<or> t_dir = 4 \<or> t_dir = 3) then 0
      else if s_dir = 4 \<and> (t_dir = 3 \<or> t_dir = 5 \<or> t_dir = 4) then 0
      else if s_dir = 5 \<and> (t_dir = 4 \<or> t_dir = 6 \<or> t_dir = 5) then 0
      else if s_dir = 6 \<and> (t_dir = 5 \<or> t_dir = 7 \<or> t_dir = 6) then 0
      else if s_dir = 7 \<and> (t_dir = 6 \<or> t_dir = 0 \<or> t_dir = 7) then 0
      else 1)"

text \<open>
  \<open>map_calc_dir\<close> for a source at \<open>(sx, sy)\<close>; \<open>knockback_left\<close> is the battle
  configuration flag, \<open>own_dir\<close> what \<open>unit->getdir\<close> returns.
\<close>

definition map_calc_dir :: "bool \<Rightarrow> int \<Rightarrow> int \<Rightarrow> int \<Rightarrow> int \<Rightarrow> int \<Rightarrow> int" where
  "map_calc_dir knockback_left own_dir sx sy x y =
     (let dx = x - sx; dy = y - sy in
      if dx = 0 \<and> dy = 0 then (if knockback_left then 6 else own_dir)
      else if dx \<ge> 0 \<and> dy \<ge> 0 then
        (if dx * 2 < dy \<or> dx = 0 then 0 else if dx > dy * 2 + 1 \<or> dy = 0 then 6 else 7)
      else if dx \<ge> 0 \<and> dy \<le> 0 then
        (if dx * 2 < - dy \<or> dx = 0 then 4 else if dx > - dy * 2 + 1 \<or> dy = 0 then 6 else 5)
      else if dx \<le> 0 \<and> dy \<le> 0 then
        (if dx * 2 > dy \<or> dx = 0 then 4 else if dx < dy * 2 - 1 \<or> dy = 0 then 2 else 3)
      else
        (if - dx * 2 < dy \<or> dx = 0 then 0 else if - dx > dy * 2 + 1 \<or> dy = 0 then 2 else 1))"

section \<open>Invisible walls\<close>

record iwall_data =
  iw_name :: string
  iw_m :: int
  iw_x :: int
  iw_y :: int
  iw_size :: int
  iw_dir :: int
  iw_shootable :: bool

definition map_iwall_nextxy :: "int \<Rightarrow> int \<Rightarrow> int \<Rightarrow> int \<Rightarrow> int \<times> int" where
  "map_iwall_nextxy x y dir pos =
     (to_int16 (if dir = 0 \<or> dir = 4 then x else if dir > 0 \<and> dir < 4 then x - pos else x + pos),
      to_int16 (if dir = 2 \<or> dir = 6 then y else if dir > 2 \<and> dir < 6 then y - pos else y + pos))"

text \<open>
  The loop of \<open>map_iwall_set\<close>: \<open>i\<close> cells are done, \<open>n\<close> remain; stop at the first
  cell that is not walkable. Returns the maps and the number of cells taken.
\<close>

fun iwall_build ::
  "map_data list \<Rightarrow> int \<Rightarrow> int \<Rightarrow> int \<Rightarrow> int \<Rightarrow> bool \<Rightarrow> nat \<Rightarrow> nat \<Rightarrow> map_data list \<times> nat" where
  "iwall_build ml m x y dir sh i 0 = (ml, i)"
| "iwall_build ml m x y dir sh i (Suc n) =
     (let (x1, y1) = map_iwall_nextxy x y dir (int i) in
      if map_getcell ml m x1 y1 CELL_CHKNOREACH \<noteq> 0 then (ml, i)
      else iwall_build
        (map_setcell (map_setcell ml m x1 y1 CELL_WALKABLE False) m x1 y1 CELL_SHOOTABLE sh)
        m x y dir sh (Suc i) n)"

type_synonym iwall_db = "string \<rightharpoonup> iwall_data"

text \<open>\<open>safestrncpy\<close> into the 50 bytes of \<open>wall_name\<close>.\<close>

definition iwall_name :: "string \<Rightarrow> string" where
  "iwall_name s = take 49 s"

text \<open>
  A name is never \<open>NULL\<close> here. The number of the map indexes an array: one that is no map is an
  access outside it, \<open>None\<close>.
\<close>

definition map_iwall_set ::
  "map_data list \<Rightarrow> iwall_db \<Rightarrow> int \<Rightarrow> int \<Rightarrow> int \<Rightarrow> int \<Rightarrow> int \<Rightarrow> bool \<Rightarrow> string
   \<Rightarrow> (bool \<times> map_data list \<times> iwall_db) option" where
  "map_iwall_set ml db m x y sz dir sh wall_name =
     (if sz < 1 then Some (False, ml, db)
      else if db wall_name \<noteq> None then Some (False, ml, db)
      else if map_getcell ml m x y CELL_CHKNOREACH \<noteq> 0 then Some (False, ml, db)
      else if m < 0 \<or> m \<ge> int (length ml) then None
      else let (ml', i) = iwall_build ml m x y dir sh 0 (nat sz);
               w = \<lparr>iw_name = iwall_name wall_name, iw_m = m, iw_x = x, iw_y = y,
                    iw_size = to_int16 (int i), iw_dir = dir, iw_shootable = sh\<rparr>
           in Some (True, ml'[nat m := (ml' ! nat m)\<lparr>md_iwall_num := md_iwall_num (ml' ! nat m) + 1\<rparr>],
                db(iw_name w \<mapsto> w)))"

fun iwall_clear :: "map_data list \<Rightarrow> iwall_data \<Rightarrow> nat \<Rightarrow> nat \<Rightarrow> map_data list" where
  "iwall_clear ml w i 0 = ml"
| "iwall_clear ml w i (Suc n) =
     (let (x1, y1) = map_iwall_nextxy (iw_x w) (iw_y w) (iw_dir w) (int i) in
      iwall_clear
        (map_setcell (map_setcell ml (iw_m w) x1 y1 CELL_SHOOTABLE True) (iw_m w) x1 y1 CELL_WALKABLE True)
        w (Suc i) n)"

definition map_iwall_remove ::
  "map_data list \<Rightarrow> iwall_db \<Rightarrow> string \<Rightarrow> map_data list \<times> iwall_db" where
  "map_iwall_remove ml db wall_name =
     (case db wall_name of
        None \<Rightarrow> (ml, db)
      | Some w \<Rightarrow>
          let ml' = iwall_clear ml w 0 (nat (iw_size w))
          in (ml'[nat (iw_m w) := (ml' ! nat (iw_m w))
                \<lparr>md_iwall_num := md_iwall_num (ml' ! nat (iw_m w)) - 1\<rparr>],
              db(iw_name w := None)))"

section \<open>Cells\<close>

definition map_wf :: "map_data \<Rightarrow> bool" where
  "map_wf md \<longleftrightarrow> 0 \<le> md_xs md \<and> 0 \<le> md_ys md \<and> int (length (md_cell md)) = md_xs md * md_ys md"

definition in_map :: "map_data list \<Rightarrow> int \<Rightarrow> int \<Rightarrow> int \<Rightarrow> bool" where
  "in_map ml m x y \<longleftrightarrow> 0 \<le> m \<and> m < int (length ml) \<and> 0 \<le> x \<and> x < md_xs (ml ! nat m)
     \<and> 0 \<le> y \<and> y < md_ys (ml ! nat m)"

definition inner :: "map_data list \<Rightarrow> int \<Rightarrow> int \<Rightarrow> int \<Rightarrow> bool" where
  "inner ml m x y \<longleftrightarrow> in_map ml m x y \<and> x < md_xs (ml ! nat m) - 1 \<and> y < md_ys (ml ! nat m) - 1"

definition cell_at :: "map_data list \<Rightarrow> int \<Rightarrow> int \<Rightarrow> int \<Rightarrow> mapcell" where
  "cell_at ml m x y = md_cell (ml ! nat m) ! cell_index (ml ! nat m) x y"

definition maps_wf :: "map_data list \<Rightarrow> bool" where
  "maps_wf ml \<longleftrightarrow> (\<forall>md \<in> set ml. map_wf md)"

definition cell_view :: "mapcell \<Rightarrow> cell_chk \<Rightarrow> int" where
  "cell_view c cellchk = map_getcellp \<lparr>md_xs = 2, md_ys = 2, md_cell = [c], md_iwall_num = 0\<rparr> 0 0 cellchk"

lemma map_getcell_inner: "inner ml m x y \<Longrightarrow> map_getcell ml m x y k = cell_view (cell_at ml m x y) k"
  by (cases k)
    (auto simp: inner_def in_map_def map_getcell_def cell_view_def map_getcellp.simps cell_at_def
      cell_index_def Let_def)

lemma map_getcell_not_inner:
  "\<not> inner ml m x y \<Longrightarrow> k \<noteq> CELL_CHKNOPASS \<Longrightarrow> map_getcell ml m x y k = 0"
  by (auto simp: inner_def in_map_def map_getcell_def map_getcellp.simps Let_def c_bool_def)

lemma cell_index_inj:
  assumes "0 \<le> x" "x < w" "0 \<le> y" "0 \<le> x'" "x' < w" "0 \<le> y'"
    and "nat (x + y * w) = nat (x' + y' * w)"
  shows "x = x' \<and> y = y'"
proof -
  have w: "0 < w" using assms by linarith
  have "0 \<le> y * w" "0 \<le> y' * w" using assms w by simp_all
  then have e: "x + y * w = x' + y' * w" using assms by linarith
  have "(x + y * w) mod w = x" "(x' + y' * w) mod w = x'" using assms by simp_all
  then have "x = x'" using e by simp
  then show ?thesis using e w by simp
qed

lemma cell_index_lt:
  assumes "map_wf md" "0 \<le> x" "x < md_xs md" "0 \<le> y" "y < md_ys md"
  shows "cell_index md x y < length (md_cell md)"
proof -
  have "x + y * md_xs md < md_xs md * (y + 1)" using assms by (simp add: algebra_simps)
  also have "\<dots> \<le> md_xs md * md_ys md" using assms by (intro mult_left_mono) auto
  finally show ?thesis using assms by (simp add: cell_index_def map_wf_def nat_less_iff)
qed

lemma on_cell_frame [simp]:
  "length (on_cell f ml m x y) = length ml"
  "md_xs (on_cell f ml m x y ! k) = md_xs (ml ! k)"
  "md_ys (on_cell f ml m x y ! k) = md_ys (ml ! k)"
  "md_iwall_num (on_cell f ml m x y ! k) = md_iwall_num (ml ! k)"
  "length (md_cell (on_cell f ml m x y ! k)) = length (md_cell (ml ! k))"
  by (cases "k = nat m"; auto simp: on_cell_def Let_def nth_list_update)+

lemma in_map_on_cell [simp]: "in_map (on_cell f ml m x y) = in_map ml"
  by (auto simp: in_map_def fun_eq_iff)

lemma inner_on_cell [simp]: "inner (on_cell f ml m x y) = inner ml"
  by (auto simp: inner_def fun_eq_iff)

lemma maps_wf_iff: "maps_wf ml \<longleftrightarrow> (\<forall>k < length ml. map_wf (ml ! k))"
  by (simp add: maps_wf_def all_set_conv_all_nth)

lemma maps_wf_on_cell [simp]: "maps_wf (on_cell f ml m x y) = maps_wf ml"
  by (simp add: maps_wf_iff map_wf_def)

lemma on_cell_out: "\<not> in_map ml m x y \<Longrightarrow> on_cell f ml m x y = ml"
  by (auto simp: on_cell_def in_map_def Let_def)

lemma md_cell_on_cell:
  "in_map ml m x y \<Longrightarrow> md_cell (on_cell f ml m x y ! k) =
     (if k = nat m then (md_cell (ml ! k))[cell_index (ml ! k) x y := f (cell_at ml m x y)]
      else md_cell (ml ! k))"
  by (auto simp: on_cell_def in_map_def Let_def nth_list_update cell_at_def)

lemma cell_index_on_cell [simp]:
  "cell_index (on_cell f ml m x y ! k) x' y' = cell_index (ml ! k) x' y'"
  by (simp add: cell_index_def)

lemma cell_index_eq:
  "in_map ml m x y \<Longrightarrow> in_map ml m x' y' \<Longrightarrow>
   cell_index (ml ! nat m) x y = cell_index (ml ! nat m) x' y' \<longleftrightarrow> x = x' \<and> y = y'"
  using cell_index_inj [of x "md_xs (ml ! nat m)" y x' y']
  by (auto simp: cell_index_def in_map_def)

lemma cell_index_in_map:
  "maps_wf ml \<Longrightarrow> in_map ml m x y \<Longrightarrow> cell_index (ml ! nat m) x y < length (md_cell (ml ! nat m))"
  by (rule cell_index_lt) (auto simp: maps_wf_iff in_map_def)

lemma cell_at_on_cell:
  assumes "maps_wf ml" "in_map ml m' x' y'"
  shows "cell_at (on_cell f ml m x y) m' x' y' =
    (if m = m' \<and> x = x' \<and> y = y' then f (cell_at ml m' x' y') else cell_at ml m' x' y')"
proof -
  consider "\<not> in_map ml m x y" | "in_map ml m x y" "m \<noteq> m'" | "in_map ml m x y" "m = m'" by blast
  then show ?thesis
  proof cases
    case 1
    then show ?thesis using assms by (auto simp: on_cell_out)
  next
    case 2
    then have "nat m \<noteq> nat m'" using assms by (auto simp: in_map_def)
    then show ?thesis using 2 by (simp add: cell_at_def md_cell_on_cell)
  next
    case 3
    then show ?thesis
      using assms cell_index_in_map [OF assms(1)] cell_index_eq [of ml m x y x' y']
      unfolding cell_at_def [of "on_cell f ml m x y"]
      by (auto simp: md_cell_on_cell nth_list_update cell_at_def)
  qed
qed

text \<open>The query that reads back what \<open>map_setcell\<close> writes.\<close>

fun chk_of :: "cell_t \<Rightarrow> cell_chk" where
  "chk_of CELL_WALKABLE = CELL_CHKPASS"
| "chk_of CELL_SHOOTABLE = CELL_CHKCLIFF"
| "chk_of CELL_WATER = CELL_CHKWATER"
| "chk_of CELL_NPC = CELL_CHKNPC"
| "chk_of CELL_BASILICA = CELL_CHKBASILICA"
| "chk_of CELL_LANDPROTECTOR = CELL_CHKLANDPROTECTOR"
| "chk_of CELL_NOVENDING = CELL_CHKNOVENDING"
| "chk_of CELL_NOCHAT = CELL_CHKNOCHAT"
| "chk_of CELL_ICEWALL = CELL_CHKICEWALL"
| "chk_of CELL_NOICEWALL = CELL_CHKNOICEWALL"

lemma cell_view_set:
  "t \<noteq> CELL_SHOOTABLE \<Longrightarrow> cell_view (set_cell_flag t flag c) (chk_of t) = c_bool flag"
  by (cases t) (auto simp: cell_view_def map_getcellp.simps cell_index_def)

text \<open>
  \<open>map_gat2cell\<close> and \<open>map_cell2gat\<close> are inverse up to the ground types the client
  distinguishes: converting a cell made from any type to a type and back gives the same cell,
  and the four types that carry information survive unchanged.
\<close>

theorem gat_roundtrip:
  "map_gat2cell (map_cell2gat (map_gat2cell g)) = map_gat2cell g \<and>
   (g \<in> {0, 1, 3, 5} \<longrightarrow> map_cell2gat (map_gat2cell g) = g)"
  by (auto simp: map_gat2cell_def map_cell2gat_def zero_cell_def)

theorem gat_roundtrip_witness: "map_cell2gat (map_gat2cell 5) = 5"
  using gat_roundtrip [of 5] by simp

text \<open>
  \<open>map_setcell\<close> writes one flag of one cell: the query of that flag then returns it
  (shootability, which has no query of its own, apart), and every query of every other cell
  of every map returns what it did.
\<close>

theorem setcell_getcell:
  assumes "maps_wf ml" "inner ml m x y" "t \<noteq> CELL_SHOOTABLE"
  shows "map_getcell (map_setcell ml m x y t flag) m x y (chk_of t) = c_bool flag \<and>
    (\<forall>m' x' y' k. (m', x', y') \<noteq> (m, x, y) \<longrightarrow>
       map_getcell (map_setcell ml m x y t flag) m' x' y' k = map_getcell ml m' x' y' k)"
proof (intro conjI allI impI)
  have i: "in_map ml m x y" using assms by (simp add: inner_def)
  show "map_getcell (map_setcell ml m x y t flag) m x y (chk_of t) = c_bool flag"
    using assms i by (simp add: map_setcell_def map_getcell_inner cell_at_on_cell cell_view_set)
next
  fix m' x' y' k assume d: "(m', x', y') \<noteq> (m, x, y)"
  show "map_getcell (map_setcell ml m x y t flag) m' x' y' k = map_getcell ml m' x' y' k"
  proof (cases "inner ml m' x' y'")
    case True
    then have "in_map ml m' x' y'" by (simp add: inner_def)
    then show ?thesis
      using True d assms(1) by (auto simp: map_setcell_def map_getcell_inner cell_at_on_cell)
  next
    case False
    then show ?thesis
      by (auto simp: map_setcell_def map_getcell_def map_getcellp.simps Let_def inner_def in_map_def)
  qed
qed

theorem setcell_getcell_witness:
  "let md = \<lparr>md_xs = 3, md_ys = 3, md_cell = replicate 9 zero_cell, md_iwall_num = 0\<rparr>
   in map_getcell (map_setcell [md] 0 1 1 CELL_NPC True) 0 1 1 CELL_CHKNPC = 1"
  using setcell_getcell [of "[\<lparr>md_xs = 3, md_ys = 3, md_cell = replicate 9 zero_cell, md_iwall_num = 0\<rparr>]"
      0 1 1 CELL_NPC True]
  by (simp add: maps_wf_def map_wf_def inner_def in_map_def c_bool_def Let_def)

section \<open>Directions\<close>

definition cheb :: "int \<Rightarrow> int \<Rightarrow> int" where
  "cheb dx dy = max \<bar>dx\<bar> \<bar>dy\<bar>"

text \<open>The direction as a function of the offset alone, when there is one.\<close>

definition offset_dir :: "int \<Rightarrow> int \<Rightarrow> int" where
  "offset_dir dx dy =
     (if 2 * \<bar>dx\<bar> < \<bar>dy\<bar> \<or> dx = 0 then (if 0 < dy then 0 else 4)
      else if 2 * \<bar>dy\<bar> + 1 < \<bar>dx\<bar> \<or> dy = 0 then (if 0 < dx then 6 else 2)
      else if 0 < dx then (if 0 < dy then 7 else 5) else if 0 < dy then 1 else 3)"

lemma map_calc_dir_offset:
  assumes "(x, y) \<noteq> (sx, sy)"
  shows "map_calc_dir kl own sx sy x y = offset_dir (x - sx) (y - sy)"
proof -
  define dx dy where "dx = x - sx" and "dy = y - sy"
  have nz: "dx \<noteq> 0 \<or> dy \<noteq> 0" using assms by (auto simp: dx_def dy_def)
  have "map_calc_dir kl own sx sy x y = offset_dir dx dy"
    if "\<bar>dx\<bar> = a" "\<bar>dy\<bar> = b" "dx = a \<or> dx = - a" "dy = b \<or> dy = - b" "0 \<le> a" "0 \<le> b" for a b
    using that nz
    unfolding map_calc_dir_def offset_dir_def Let_def dx_def [symmetric] dy_def [symmetric]
    by (elim disjE) (simp_all split del: if_split, (simp split: if_split; linarith)+)
  then show ?thesis unfolding dx_def dy_def by (metis abs_ge_zero abs_of_nonneg abs_of_neg linorder_not_le minus_minus)
qed

lemma offset_dir_closer:
  assumes "dx \<noteq> 0 \<or> dy \<noteq> 0"
  shows "cheb (dx - dirx ! nat (offset_dir dx dy)) (dy - diry ! nat (offset_dir dx dy)) = cheb dx dy - 1"
proof -
  consider "dx = 0" | "dy = 0" | "0 < dx" "0 < dy" | "0 < dx" "dy < 0" | "dx < 0" "0 < dy" | "dx < 0" "dy < 0"
    by linarith
  then show ?thesis
    using assms by cases (simp_all add: offset_dir_def dirx_def diry_def cheb_def, auto simp: max_def)
qed

lemma offset_dir_range: "0 \<le> offset_dir dx dy \<and> offset_dir dx dy < 8"
  by (simp add: offset_dir_def)

text \<open>
  \<open>map_calc_dir\<close> names a direction that leads to the cell: one step along
  \<open>dirx\<close>/\<open>diry\<close> of the result brings the source one cell nearer (in the distance
  walking uses), whichever octant the cell is in.
\<close>

theorem calc_dir_closer:
  assumes "(x, y) \<noteq> (sx, sy)"
  shows "let d = map_calc_dir kl own sx sy x y in
    0 \<le> d \<and> d < 8 \<and>
    cheb (x - (sx + dirx ! nat d)) (y - (sy + diry ! nat d)) = cheb (x - sx) (y - sy) - 1"
  using offset_dir_closer [of "x - sx" "y - sy"] offset_dir_range assms
  by (auto simp: map_calc_dir_offset Let_def algebra_simps)

theorem calc_dir_closer_witness:
  "map_calc_dir True 0 10 10 17 5 = 5 \<and> cheb (17 - (10 + 1)) (5 - (10 - 1)) = 6"
  using calc_dir_closer [of 17 5 10 10 True 0]
  by (simp add: map_calc_dir_def Let_def cheb_def dirx_def diry_def)

text \<open>
  \<open>map_check_dir\<close> accepts exactly the directions at most one eighth of a turn apart,
  so it is symmetric.
\<close>

theorem check_dir_iff:
  assumes "s \<in> {0..7}" "t \<in> {0..7}"
  shows "(map_check_dir s t = 0 \<longleftrightarrow> (s - t) mod 8 \<in> {0, 1, 7}) \<and> map_check_dir s t = map_check_dir t s"
proof -
  have "s \<in> {0, 1, 2, 3, 4, 5, 6, 7}" "t \<in> {0, 1, 2, 3, 4, 5, 6, 7}" using assms by auto
  then show ?thesis by (auto simp: map_check_dir_def)
qed

theorem check_dir_iff_witness: "map_check_dir 7 0 = 0 \<and> map_check_dir 0 2 = 1"
  using check_dir_iff [of 7 0] check_dir_iff [of 0 2] by (simp add: map_check_dir_def)

section \<open>Invisible walls\<close>

definition wall_part :: "int \<Rightarrow> int \<Rightarrow> int \<Rightarrow> nat \<Rightarrow> nat \<Rightarrow> (int \<times> int) set" where
  "wall_part x y dir i k = {map_iwall_nextxy x y dir (int j) |j. i \<le> j \<and> j < k}"

lemma wall_part_empty [simp]: "wall_part x y dir i i = {}"
  by (auto simp: wall_part_def)

lemma wall_part_head:
  "i < k \<Longrightarrow> wall_part x y dir i k = insert (map_iwall_nextxy x y dir (int i)) (wall_part x y dir (Suc i) k)"
  by (auto simp: wall_part_def) (metis Suc_leI le_less)+

definition same_shape :: "map_data list \<Rightarrow> map_data list \<Rightarrow> bool" where
  "same_shape ml ml' \<longleftrightarrow> length ml' = length ml \<and> maps_wf ml' = maps_wf ml \<and>
     (\<forall>k. md_xs (ml' ! k) = md_xs (ml ! k) \<and> md_ys (ml' ! k) = md_ys (ml ! k) \<and>
          md_iwall_num (ml' ! k) = md_iwall_num (ml ! k))"

lemma same_shape_setcell [simp]: "same_shape ml (map_setcell ml m x y t flag)"
  by (simp add: same_shape_def map_setcell_def)

lemma same_shape_refl [simp]: "same_shape ml ml"
  by (simp add: same_shape_def)

lemma same_shape_trans: "same_shape a b \<Longrightarrow> same_shape b c \<Longrightarrow> same_shape a c"
  by (simp add: same_shape_def)

lemma same_shape_in_map: "same_shape ml ml' \<Longrightarrow> in_map ml' = in_map ml"
  by (auto simp: same_shape_def in_map_def fun_eq_iff)

lemma same_shape_inner: "same_shape ml ml' \<Longrightarrow> inner ml' = inner ml"
  by (auto simp: same_shape_in_map inner_def fun_eq_iff) (simp_all add: same_shape_def)

lemma setcell2:
  fixes ml m x1 y1 t1 b1 t2 b2
  defines "s \<equiv> map_setcell (map_setcell ml m x1 y1 t1 b1) m x1 y1 t2 b2"
  shows "same_shape ml s"
    and "maps_wf ml \<Longrightarrow> in_map ml m' x' y' \<Longrightarrow> cell_at s m' x' y' =
      (if m' = m \<and> (x', y') = (x1, y1)
       then set_cell_flag t2 b2 (set_cell_flag t1 b1 (cell_at ml m' x' y')) else cell_at ml m' x' y')"
  unfolding s_def
  by (blast intro: same_shape_trans same_shape_setcell)
    (auto simp: map_setcell_def cell_at_on_cell)

definition wall_cell :: "bool \<Rightarrow> mapcell \<Rightarrow> mapcell" where
  "wall_cell sh c = c\<lparr>walkable := False, shootable := sh\<rparr>"

definition open_cell :: "mapcell \<Rightarrow> mapcell" where
  "open_cell c = c\<lparr>shootable := True, walkable := True\<rparr>"

lemma iwall_build_shape:
  "iwall_build ml m x y dir sh i n = (ml', k) \<Longrightarrow> same_shape ml ml' \<and> i \<le> k \<and> k \<le> i + n"
proof (induction ml m x y dir sh i n rule: iwall_build.induct)
  case (2 ml m x y dir sh i n)
  then show ?case
    by (fastforce simp: Let_def split: prod.splits if_splits intro: same_shape_trans setcell2(1))
qed simp

lemma iwall_build_cells:
  assumes "iwall_build ml m x y dir sh i n = (ml', k)" "maps_wf ml"
  shows "(\<forall>m' x' y'. in_map ml m' x' y' \<longrightarrow> cell_at ml' m' x' y' =
      (if m' = m \<and> (x', y') \<in> wall_part x y dir i k then wall_cell sh (cell_at ml m' x' y')
       else cell_at ml m' x' y')) \<and>
    (\<forall>(x', y') \<in> wall_part x y dir i k. inner ml m x' y' \<longrightarrow> walkable (cell_at ml m x' y')) \<and>
    (k < i + n \<longrightarrow> (case map_iwall_nextxy x y dir (int k) of (x', y') \<Rightarrow>
        map_getcell ml' m x' y' CELL_CHKNOREACH \<noteq> 0))"
  using assms
proof (induction ml m x y dir sh i n rule: iwall_build.induct)
  case (1 ml m x y dir sh i)
  then show ?case by auto
next
  case (2 ml m x y dir sh i n)
  obtain x1 y1 where xy: "map_iwall_nextxy x y dir (int i) = (x1, y1)" by (metis surj_pair)
  show ?case
  proof (cases "map_getcell ml m x1 y1 CELL_CHKNOREACH \<noteq> 0")
    case True
    then show ?thesis using "2.prems" xy by auto
  next
    case False
    define s where "s = map_setcell (map_setcell ml m x1 y1 CELL_WALKABLE False) m x1 y1 CELL_SHOOTABLE sh"
    have b: "iwall_build s m x y dir sh (Suc i) n = (ml', k)"
      using "2.prems" xy False by (simp add: s_def)
    have sh: "same_shape ml s" and w: "maps_wf s"
      using setcell2(1) "2.prems"(2) by (auto simp: s_def same_shape_def)
    have ik: "i < k" using iwall_build_shape [OF b] by simp
    have c: "cell_at s m' x' y' = (if m' = m \<and> (x', y') = (x1, y1) then wall_cell sh (cell_at ml m' x' y')
        else cell_at ml m' x' y')" if "in_map ml m' x' y'" for m' x' y'
      unfolding s_def by (simp add: setcell2(2) [OF "2.prems"(2) that] wall_cell_def)
    have wk: "inner ml m x1 y1 \<longrightarrow> walkable (cell_at ml m x1 y1)"
      using False by (auto simp: map_getcell_inner cell_view_def map_getcellp.simps cell_index_def c_bool_def
          split: if_splits)
    have ww: "walkable (wall_cell sh c) = False" "wall_cell sh (wall_cell sh c) = wall_cell sh c" for c
      by (simp_all add: wall_cell_def)
    note ih = "2.IH" [OF xy [symmetric] refl False b [unfolded s_def], folded s_def, OF w]
    have ih1: "cell_at ml' m' x' y' =
      (if m' = m \<and> (x', y') \<in> wall_part x y dir (Suc i) k then wall_cell sh (cell_at s m' x' y')
       else cell_at s m' x' y')" if "in_map ml m' x' y'" for m' x' y'
      using ih that by (simp add: same_shape_in_map [OF sh])
    have ih2: "walkable (cell_at s m x' y')" if "(x', y') \<in> wall_part x y dir (Suc i) k" "inner ml m x' y'" for x' y'
      using ih that by (auto simp: same_shape_inner [OF sh])
    have "walkable (cell_at ml m x' y')" if "(x', y') \<in> wall_part x y dir (Suc i) k" "inner ml m x' y'" for x' y'
      using ih2 [OF that] c [of m x' y'] that(2) by (auto simp: inner_def ww split: if_splits)
    then show ?thesis
      using ih ih1 c wk xy by (auto simp: wall_part_head [OF ik] ww)
  qed
qed

lemma iwall_clear_shape: "same_shape ml (iwall_clear ml w i n)"
proof (induction ml w i n rule: iwall_clear.induct)
  case (2 ml w i n)
  obtain x1 y1 where xy: "map_iwall_nextxy (iw_x w) (iw_y w) (iw_dir w) (int i) = (x1, y1)" by (metis surj_pair)
  show ?case
    using same_shape_trans [OF setcell2(1) "2.IH" [OF xy [symmetric] refl]] xy by simp
qed simp

lemma iwall_clear_cells:
  "maps_wf ml \<Longrightarrow> in_map ml m' x' y' \<Longrightarrow> cell_at (iwall_clear ml w i n) m' x' y' =
   (if m' = iw_m w \<and> (x', y') \<in> wall_part (iw_x w) (iw_y w) (iw_dir w) i (i + n)
    then open_cell (cell_at ml m' x' y') else cell_at ml m' x' y')"
proof (induction ml w i n rule: iwall_clear.induct)
  case (2 ml w i n)
  obtain x1 y1 where xy: "map_iwall_nextxy (iw_x w) (iw_y w) (iw_dir w) (int i) = (x1, y1)" by (metis surj_pair)
  define s where "s = map_setcell (map_setcell ml (iw_m w) x1 y1 CELL_SHOOTABLE True) (iw_m w) x1 y1 CELL_WALKABLE True"
  have sh: "same_shape ml s" and w: "maps_wf s"
    using setcell2(1) "2.prems"(1) by (auto simp: s_def same_shape_def)
  have c: "cell_at s m' x' y' = (if m' = iw_m w \<and> (x', y') = (x1, y1) then open_cell (cell_at ml m' x' y')
      else cell_at ml m' x' y')"
    unfolding s_def by (simp add: setcell2(2) [OF "2.prems"] open_cell_def)
  have "cell_at (iwall_clear s w (Suc i) n) m' x' y' =
      (if m' = iw_m w \<and> (x', y') \<in> wall_part (iw_x w) (iw_y w) (iw_dir w) (Suc i) (Suc i + n)
       then open_cell (cell_at s m' x' y') else cell_at s m' x' y')"
    unfolding s_def
    by (rule "2.IH" [OF xy [symmetric] refl])
      (use w "2.prems"(2) in \<open>auto simp: same_shape_in_map [OF sh] s_def [symmetric]\<close>)
  then show ?case
    using c xy by (auto simp: s_def [symmetric] wall_part_head [of i "Suc (i + n)"] open_cell_def)
qed simp

lemma nth_update_view: "(\<And>x. f (g x) = f x) \<Longrightarrow> f (xs[j := g (xs ! j)] ! k) = f (xs ! k)"
  by (cases "j < length xs"; cases "k = j") (auto simp: list_update_beyond)

lemma with_num_nth [simp]:
  "md_xs (ml[j := (ml ! j)\<lparr>md_iwall_num := v\<rparr>] ! k) = md_xs (ml ! k)"
  "md_ys (ml[j := (ml ! j)\<lparr>md_iwall_num := v\<rparr>] ! k) = md_ys (ml ! k)"
  "md_cell (ml[j := (ml ! j)\<lparr>md_iwall_num := v\<rparr>] ! k) = md_cell (ml ! k)"
  by (rule nth_update_view [where g = "\<lambda>md. md\<lparr>md_iwall_num := v\<rparr>"]; simp)+

lemma with_num [simp]:
  "cell_at (ml[j := (ml ! j)\<lparr>md_iwall_num := v\<rparr>]) m x y = cell_at ml m x y"
  "in_map (ml[j := (ml ! j)\<lparr>md_iwall_num := v\<rparr>]) m x y = in_map ml m x y"
  "inner (ml[j := (ml ! j)\<lparr>md_iwall_num := v\<rparr>]) m x y = inner ml m x y"
  "maps_wf (ml[j := (ml ! j)\<lparr>md_iwall_num := v\<rparr>]) = maps_wf ml"
  by (simp_all add: cell_at_def cell_index_def in_map_def inner_def maps_wf_iff map_wf_def)

lemma map_getcell_num [simp]:
  "map_getcell (ml[nat m := (ml ! nat m)\<lparr>md_iwall_num := v\<rparr>]) m' x y k = map_getcell ml m' x y k"
  by (simp add: map_getcell_def map_getcellp.simps cell_index_def)

lemma map_getcell_cong:
  assumes "length ml' = length ml" "\<forall>k. md_xs (ml' ! k) = md_xs (ml ! k) \<and> md_ys (ml' ! k) = md_ys (ml ! k)"
    and "inner ml m x y \<Longrightarrow> cell_at ml' m x y = cell_at ml m x y"
  shows "map_getcell ml' m x y k = map_getcell ml m x y k"
proof -
  have i: "inner ml' m x y = inner ml m x y" using assms(1,2) by (simp add: inner_def in_map_def)
  show ?thesis
  proof (cases "inner ml m x y")
    case True
    then show ?thesis using assms(3) i by (simp add: map_getcell_inner)
  next
    case False
    then show ?thesis
      using assms(1,2) by (auto simp: map_getcell_def map_getcellp.simps inner_def in_map_def Let_def)
  qed
qed

text \<open>What a successful \<open>map_iwall_set\<close> is made of.\<close>

lemma map_iwall_setD:
  assumes "map_iwall_set ml db m x y sz dir sh nm = Some (True, ml', db')"
  obtains mb k where "iwall_build ml m x y dir sh 0 (nat sz) = (mb, k)" "1 \<le> sz" "db nm = None" "0 \<le> m" "m < int (length ml)"
    "ml' = mb[nat m := (mb ! nat m)\<lparr>md_iwall_num := md_iwall_num (mb ! nat m) + 1\<rparr>]"
    "db' = db(iwall_name nm \<mapsto> \<lparr>iw_name = iwall_name nm, iw_m = m, iw_x = x, iw_y = y,
       iw_size = to_int16 (int k), iw_dir = dir, iw_shootable = sh\<rparr>)"
  using assms by (auto simp: map_iwall_set_def Let_def split: if_splits prod.splits)

lemma iwall_name_short: "length s \<le> 49 \<Longrightarrow> iwall_name s = s"
  by (simp add: iwall_name_def)

lemma open_wall: "walkable c \<Longrightarrow> shootable c \<Longrightarrow> open_cell (wall_cell sh c) = c"
  by (simp add: open_cell_def wall_cell_def)

text \<open>
  C22. A wall that was set is really there: every query of a cell outside it is as before, and
  a cell of it that the server can query blocks movement and has the requested
  shootability. The wall ends where it was asked to, or at the first cell that was blocked.
\<close>

theorem iwall_set_blocks:
  assumes "maps_wf ml" "map_iwall_set ml db m x y sz dir sh nm = Some (True, ml', db')"
  shows "\<exists>k. k \<le> nat sz \<and>
    (\<forall>m' x' y' q. m' \<noteq> m \<or> (x', y') \<notin> wall_part x y dir 0 k \<longrightarrow>
       map_getcell ml' m' x' y' q = map_getcell ml m' x' y' q) \<and>
    (\<forall>(x', y') \<in> wall_part x y dir 0 k. inner ml m x' y' \<longrightarrow>
       map_getcell ml m x' y' CELL_CHKPASS = 1 \<and> map_getcell ml' m x' y' CELL_CHKPASS = 0 \<and>
       map_getcell ml' m x' y' CELL_CHKCLIFF = c_bool sh) \<and>
    (k = nat sz \<or> (case map_iwall_nextxy x y dir (int k) of (x', y') \<Rightarrow>
       map_getcell ml' m x' y' CELL_CHKNOREACH = 1))"
proof -
  obtain mb k where b: "iwall_build ml m x y dir sh 0 (nat sz) = (mb, k)"
    and ml': "ml' = mb[nat m := (mb ! nat m)\<lparr>md_iwall_num := md_iwall_num (mb ! nat m) + 1\<rparr>]"
    using map_iwall_setD [OF assms(2)] by metis
  note sh = iwall_build_shape [OF b]
  note c = iwall_build_cells [OF b assms(1)]
  have ss: "same_shape ml mb" using sh by simp
  have gc: "map_getcell ml' m' x' y' q = map_getcell mb m' x' y' q" for m' x' y' q
    by (simp add: ml')
  have out: "map_getcell mb m' x' y' q = map_getcell ml m' x' y' q"
    if "m' \<noteq> m \<or> (x', y') \<notin> wall_part x y dir 0 k" for m' x' y' q
    by (rule map_getcell_cong) (use c that ss in \<open>auto simp: inner_def same_shape_def\<close>)
  have inn: "map_getcell ml m x' y' CELL_CHKPASS = 1 \<and> map_getcell mb m x' y' CELL_CHKPASS = 0 \<and>
       map_getcell mb m x' y' CELL_CHKCLIFF = c_bool sh"
    if "(x', y') \<in> wall_part x y dir 0 k" "inner ml m x' y'" for x' y'
  proof -
    have "in_map ml m x' y'" using that by (simp add: inner_def)
    then have "cell_at mb m x' y' = wall_cell sh (cell_at ml m x' y')" using c that by auto
    then show ?thesis
      using c that same_shape_inner [OF ss]
      by (auto simp: map_getcell_inner cell_view_def map_getcellp.simps cell_index_def wall_cell_def c_bool_def)
  qed
  have no: "map_getcell mb m x' y' CELL_CHKNOREACH \<noteq> 0 \<Longrightarrow> map_getcell mb m x' y' CELL_CHKNOREACH = 1" for x' y'
    by (auto simp: map_getcell_def map_getcellp.simps c_bool_def Let_def split: if_splits)
  show ?thesis
    by (rule exI [of _ k], unfold gc) (use sh c out inn no in \<open>auto split: prod.splits\<close>)
qed

text \<open>
  C16. Setting an invisible wall and removing it by name undoes it, whatever the direction and
  however the wall was cut short: every query of every cell, the wall count of every map and
  the database of walls are as before. The name must fit its 50 bytes and the size asked for a
  \<open>short\<close>, and cells of the map that can be walked on must be cells that can be shot through.
\<close>

theorem iwall_set_remove:
  assumes "maps_wf ml" "map_iwall_set ml db m x y sz dir sh nm = Some (True, ml', db')"
    and "sz < 32768" "length nm \<le> 49"
    and "\<forall>x y. inner ml m x y \<and> walkable (cell_at ml m x y) \<longrightarrow> shootable (cell_at ml m x y)"
  shows "\<exists>ml''. map_iwall_remove ml' db' nm = (ml'', db) \<and>
    (\<forall>m x y q. map_getcell ml'' m x y q = map_getcell ml m x y q) \<and>
    (\<forall>k. md_iwall_num (ml'' ! k) = md_iwall_num (ml ! k))"
proof -
  obtain mb k where b: "iwall_build ml m x y dir sh 0 (nat sz) = (mb, k)" and sz: "1 \<le> sz"
    and none: "db nm = None" and inm: "0 \<le> m" "m < int (length ml)"
    and ml': "ml' = mb[nat m := (mb ! nat m)\<lparr>md_iwall_num := md_iwall_num (mb ! nat m) + 1\<rparr>]"
    and db': "db' = db(iwall_name nm \<mapsto> \<lparr>iw_name = iwall_name nm, iw_m = m, iw_x = x, iw_y = y,
       iw_size = to_int16 (int k), iw_dir = dir, iw_shootable = sh\<rparr>)"
    using map_iwall_setD [OF assms(2)] by metis
  define w where "w = \<lparr>iw_name = nm, iw_m = m, iw_x = x, iw_y = y, iw_size = int k, iw_dir = dir, iw_shootable = sh\<rparr>"
  note sh = iwall_build_shape [OF b]
  have "int k \<le> sz" using sh sz by linarith
  then have d: "db' = db(nm \<mapsto> w)" using assms by (simp add: db' w_def iwall_name_short)
  define mc where "mc = iwall_clear ml' w 0 k"
  define me where "me = mc[nat m := (mc ! nat m)\<lparr>md_iwall_num := md_iwall_num (mc ! nat m) - 1\<rparr>]"
  have rm: "map_iwall_remove ml' db' nm = (me, db)"
    using none by (auto simp: map_iwall_remove_def d mc_def me_def w_def Let_def)
  have sm: "same_shape ml mb" using sh by simp
  have sc: "same_shape ml' mc" by (simp add: mc_def iwall_clear_shape)
  have wf': "maps_wf ml'" using assms(1) sm by (simp add: ml' same_shape_def)
  have "md_iwall_num (me ! j) = md_iwall_num (ml ! j)" for j
    using sm sc inm
    by (cases "j = nat m") (auto simp: me_def same_shape_def ml' nth_list_update nat_less_iff)
  moreover have "map_getcell me m' x' y' q = map_getcell ml m' x' y' q" for m' x' y' q
  proof -
    have "cell_at mc m' x' y' = cell_at ml m' x' y'" if i: "inner ml m' x' y'"
    proof -
      have im: "in_map ml m' x' y'" using i by (simp add: inner_def)
      have im': "in_map ml' m' x' y'" using im by (simp add: ml' same_shape_in_map [OF sm])
      have c1: "cell_at ml' m' x' y' = (if m' = m \<and> (x', y') \<in> wall_part x y dir 0 k
          then wall_cell sh (cell_at ml m' x' y') else cell_at ml m' x' y')"
        using iwall_build_cells [OF b assms(1)] im by (simp add: ml')
      have c2: "cell_at mc m' x' y' = (if m' = m \<and> (x', y') \<in> wall_part x y dir 0 k
          then open_cell (cell_at ml' m' x' y') else cell_at ml' m' x' y')"
        using iwall_clear_cells [OF wf' im', of w 0 k] by (simp add: mc_def w_def)
      have wk: "walkable (cell_at ml m x' y')" if "(x', y') \<in> wall_part x y dir 0 k" "m' = m"
        using iwall_build_cells [OF b assms(1)] that i by auto
      then have "shootable (cell_at ml m x' y')" if "(x', y') \<in> wall_part x y dir 0 k" "m' = m"
        using assms(5) that i by auto
      then show ?thesis using c1 c2 wk by (auto simp: open_wall)
    qed
    moreover have "length mc = length ml"
      "\<forall>j. md_xs (mc ! j) = md_xs (ml ! j) \<and> md_ys (mc ! j) = md_ys (ml ! j)"
    proof -
      show "length mc = length ml" using sm sc by (simp add: same_shape_def ml')
      have "md_xs (ml' ! j) = md_xs (mb ! j) \<and> md_ys (ml' ! j) = md_ys (mb ! j)" for j
        by (simp add: ml')
      then show "\<forall>j. md_xs (mc ! j) = md_xs (ml ! j) \<and> md_ys (mc ! j) = md_ys (ml ! j)"
        using sm sc by (simp add: same_shape_def)
    qed
    ultimately have "map_getcell mc m' x' y' q = map_getcell ml m' x' y' q"
      by (intro map_getcell_cong) auto
    then show ?thesis by (simp add: me_def)
  qed
  ultimately show ?thesis using rm by blast
qed

text \<open>A small open map for the witnesses, and a wall on it.\<close>

definition open_map :: "map_data list" where
  "open_map = [\<lparr>md_xs = 4, md_ys = 4, md_cell = replicate 16 (map_gat2cell 0), md_iwall_num = 0\<rparr>]"

lemma open_map_wf: "maps_wf open_map"
  by (simp add: open_map_def maps_wf_def map_wf_def)

lemma open_map_shootable: "inner open_map 0 x y \<longrightarrow> shootable (cell_at open_map 0 x y)"
proof
  assume "inner open_map 0 x y"
  then have "in_map open_map 0 x y" by (simp add: inner_def)
  then have "cell_index (open_map ! 0) x y < 16"
    using cell_index_in_map [OF open_map_wf] by (force simp: open_map_def)
  then show "shootable (cell_at open_map 0 x y)"
    by (simp add: cell_at_def open_map_def map_gat2cell_def)
qed

lemma open_map_reach: "map_getcell open_map 0 1 1 CELL_CHKNOREACH = 0"
proof -
  have "inner open_map 0 1 1" by (simp add: inner_def in_map_def open_map_def)
  moreover have "cell_at open_map 0 1 1 = map_gat2cell 0"
    by (simp add: cell_at_def cell_index_def open_map_def)
  ultimately show ?thesis
    by (simp add: map_getcell_inner cell_view_def map_getcellp.simps cell_index_def map_gat2cell_def c_bool_def)
qed

lemma open_map_wall:
  obtains ml' db' where "map_iwall_set open_map Map.empty 0 1 1 2 7 False nm = Some (True, ml', db')"
proof -
  have "map_option fst (map_iwall_set open_map Map.empty 0 1 1 2 7 False nm) = Some True"
    unfolding map_iwall_set_def by (simp add: open_map_reach split_beta Let_def del: iwall_build.simps) (auto simp: open_map_def)
  then show thesis using that by (cases "map_iwall_set open_map Map.empty 0 1 1 2 7 False nm") auto
qed

theorem iwall_set_blocks_witness:
  "\<exists>ml' db'. map_iwall_set open_map Map.empty 0 1 1 2 7 False ''w'' = Some (True, ml', db') \<and>
     (\<exists>k \<le> 2. k = 2 \<or> (case map_iwall_nextxy 1 1 7 (int k) of (x', y') \<Rightarrow>
       map_getcell ml' 0 x' y' CELL_CHKNOREACH = 1))"
proof -
  obtain ml' db' where s: "map_iwall_set open_map Map.empty 0 1 1 2 7 False ''w'' = Some (True, ml', db')"
    by (rule open_map_wall)
  obtain k where "k \<le> nat 2" "k = nat 2 \<or> (case map_iwall_nextxy 1 1 7 (int k) of (x', y') \<Rightarrow>
       map_getcell ml' 0 x' y' CELL_CHKNOREACH = 1)"
    using iwall_set_blocks [OF open_map_wf s] by blast
  then have "\<exists>k \<le> 2. k = 2 \<or> (case map_iwall_nextxy 1 1 7 (int k) of (x', y') \<Rightarrow>
       map_getcell ml' 0 x' y' CELL_CHKNOREACH = 1)"
    by (intro exI [of _ k]) simp
  then show ?thesis using s by blast
qed

theorem iwall_set_remove_witness:
  "\<exists>ml' db' ml''. map_iwall_set open_map Map.empty 0 1 1 2 7 False ''w'' = Some (True, ml', db') \<and>
     map_iwall_remove ml' db' ''w'' = (ml'', Map.empty)"
proof -
  obtain ml' db' where s: "map_iwall_set open_map Map.empty 0 1 1 2 7 False ''w'' = Some (True, ml', db')"
    by (rule open_map_wall)
  have "\<exists>ml''. map_iwall_remove ml' db' ''w'' = (ml'', Map.empty)"
  proof -
    have h: "\<forall>x y. inner open_map 0 x y \<and> walkable (cell_at open_map 0 x y) \<longrightarrow>
        shootable (cell_at open_map 0 x y)" by (intro allI impI) (blast intro: open_map_shootable [rule_format])
    have n: "(2::int) < 32768" "length ''w'' \<le> 49" by simp_all
    show ?thesis
      using iwall_set_remove [OF open_map_wf s n h] by (elim exE conjE, intro exI)
  qed
  then show ?thesis using s by blast
qed

text \<open>
  The database keeps a wall under the name cut to 49 characters while both operations
  look the full name up: a wall with a longer name can never be removed by that name, and
  setting it again is not refused as a duplicate.
\<close>

theorem iwall_long_name_stuck:
  assumes "map_iwall_set ml Map.empty m x y sz dir sh nm = Some (True, ml', db')" "49 < length nm"
  shows "map_iwall_remove ml' db' nm = (ml', db') \<and> db' nm = None \<and> dom db' = {take 49 nm}"
proof -
  have "nm \<noteq> take 49 nm" using assms(2) by (metis length_take min.absorb4 less_irrefl)
  moreover obtain w where "db' = [iwall_name nm \<mapsto> w]"
    by (rule map_iwall_setD [OF assms(1)]) blast
  ultimately have "db' nm = None \<and> dom db' = {take 49 nm}" by (simp add: iwall_name_def)
  then show ?thesis by (simp add: map_iwall_remove_def)
qed

theorem iwall_long_name_stuck_witness:
  "\<exists>ml' db'. map_iwall_set open_map Map.empty 0 1 1 2 7 False (replicate 50 CHR ''w'') = Some (True, ml', db') \<and>
     map_iwall_remove ml' db' (replicate 50 CHR ''w'') = (ml', db')"
proof -
  obtain ml' db' where s: "map_iwall_set open_map Map.empty 0 1 1 2 7 False (replicate 50 CHR ''w'') = Some (True, ml', db')"
    by (rule open_map_wall)
  have "map_iwall_remove ml' db' (replicate 50 CHR ''w'') = (ml', db')"
    using iwall_long_name_stuck [OF s] by simp
  then show ?thesis using s by blast
qed

end
