(* ===== verification/Path.thy ===== *)
theory Path
  imports MapCell "HOL-Library.Monad_Syntax"
begin

text \<open>
  Lines and distances, from \<open>src/map/path.c\<close>: knock-back, the line of sight of a ranged
  attack, the straight walk of \<open>path_search\<close> with \<open>flag & 1\<close>, and the square distance
  (the build without \<open>CIRCULAR_AREA\<close>). The A* search is in \<open>Astar\<close>. The block list
  argument \<open>bl\<close> is only passed on to \<open>getcellp\<close>, which does not read it without
  \<open>CELL_NOSTACK\<close>. A parameter \<open>md\<close> is the map, \<open>cell\<close> the obstruction asked for.
\<close>

unbundle bit_operations_syntax

definition MAX_WALKPATH :: nat where "MAX_WALKPATH = 32"

text \<open>\<open>walk_choices\<close>: the walking direction of a step; \<open>255\<close> is the \<open>-1\<close> of an \<open>unsigned char\<close>.\<close>

definition walk_choices :: "int list list" where
  "walk_choices = [[1, 0, 7], [2, 255, 6], [3, 4, 5]]"

definition walk_choice :: "int \<Rightarrow> int \<Rightarrow> int option" where
  "walk_choice dx dy =
     (if \<bar>dx\<bar> \<le> 1 \<and> \<bar>dy\<bar> \<le> 1 then Some (walk_choices ! nat (- dy + 1) ! nat (dx + 1)) else None)"

definition map_of_id :: "map_data list \<Rightarrow> int \<Rightarrow> map_data option" where
  "map_of_id ml m =
     (if m < 0 \<or> m \<ge> int (length ml) then None
      else if md_cell (ml ! nat m) = [] then None else Some (ml ! nat m))"

section \<open>Knock-back\<close>

text \<open>The loop of \<open>path_blownpos\<close>, \<open>count\<close> cells to go.\<close>

fun blown_loop :: "map_data \<Rightarrow> int \<Rightarrow> int \<Rightarrow> int \<Rightarrow> int \<Rightarrow> nat \<Rightarrow> int \<times> int" where
  "blown_loop md dx dy x0 y0 0 = (x0, y0)"
| "blown_loop md dx dy x0 y0 (Suc n) =
     (if \<not> (dx \<noteq> 0 \<or> dy \<noteq> 0) then (x0, y0)
      else if map_getcellp md (x0 + dx) (y0 + dy) CELL_CHKPASS = 0 then (x0, y0)
      else blown_loop md dx dy (to_int16 (x0 + dx)) (to_int16 (y0 + dy)) n)"

definition unit_of :: "int \<Rightarrow> int" where
  "unit_of d = (if 0 < d then 1 else if d < 0 then -1 else 0)"

definition path_blownpos ::
  "map_data list \<Rightarrow> int \<Rightarrow> int \<Rightarrow> int \<Rightarrow> int \<Rightarrow> int \<Rightarrow> int \<Rightarrow> int" where
  "path_blownpos ml m x0 y0 dx dy cnt =
     (case map_of_id ml m of
        None \<Rightarrow> -1
      | Some md \<Rightarrow>
          let cnt = (if cnt > 25 then 25 else cnt);
              bad = (dx > 1 \<or> dx < -1 \<or> dy > 1 \<or> dy < -1);
              dx = (if bad then unit_of dx else dx);
              dy = (if bad then unit_of dy else dy);
              (x, y) = blown_loop md dx dy x0 y0 (nat cnt)
          in (push_bit 16 x) OR y)"

section \<open>Line of sight\<close>

record shootpath_data =
  sp_rx :: int
  sp_ry :: int
  sp_len :: nat
  sp_x :: "int list"
  sp_y :: "int list"

text \<open>One turn of the loop of \<open>path_search_long\<close>: the new position and the new remainders.\<close>

definition long_step ::
  "int \<Rightarrow> int \<Rightarrow> int \<Rightarrow> int \<times> int \<times> int \<times> int \<Rightarrow> int \<times> int \<times> int \<times> int" where
  "long_step dx dy weight = (\<lambda>(x0, y0, wx, wy).
     let wx = wx + dx; wy = wy + dy;
         (wx, x0) = (if wx \<ge> weight then (wx - weight, to_int16 (x0 + 1)) else (wx, x0));
         (wy, y0) = (if wy \<ge> weight then (wy - weight, to_int16 (y0 + 1))
                     else if wy < 0 then (wy + weight, to_int16 (y0 - 1)) else (wy, y0))
     in (x0, y0, wx, wy))"

definition sp_store :: "int \<Rightarrow> int \<Rightarrow> shootpath_data \<Rightarrow> shootpath_data" where
  "sp_store x y spd =
     (if sp_len spd < MAX_WALKPATH
      then spd\<lparr>sp_x := (sp_x spd)[sp_len spd := x], sp_y := (sp_y spd)[sp_len spd := y],
               sp_len := sp_len spd + 1\<rparr>
      else spd)"

partial_function (option) long_loop ::
  "map_data \<Rightarrow> cell_chk \<Rightarrow> int \<Rightarrow> int \<Rightarrow> int \<Rightarrow> int \<Rightarrow> int
   \<Rightarrow> int \<times> int \<times> int \<times> int \<Rightarrow> shootpath_data \<Rightarrow> (bool \<times> shootpath_data) option" where
  "long_loop md cell dx dy weight x1 y1 s spd =
     (case s of (x0, y0, wx, wy) \<Rightarrow>
        if x0 \<noteq> x1 \<or> y0 \<noteq> y1 then
          (case long_step dx dy weight s of (x, y, vx, vy) \<Rightarrow>
             let spd = sp_store x y spd in
             if map_getcellp md x y cell \<noteq> 0 then Some (False, spd)
             else long_loop md cell dx dy weight x1 y1 (x, y, vx, vy) spd)
        else Some (True, spd))"

definition path_search_long ::
  "map_data list \<Rightarrow> shootpath_data \<Rightarrow> int \<Rightarrow> int \<Rightarrow> int \<Rightarrow> int \<Rightarrow> int \<Rightarrow> cell_chk
   \<Rightarrow> (bool \<times> shootpath_data) option" where
  "path_search_long ml spd m x0 y0 x1 y1 cell =
     (case map_of_id ml m of
        None \<Rightarrow> Some (False, spd)
      | Some md \<Rightarrow>
          let dx = x1 - x0;
              (x0, x1, y0, y1, dx) =
                (if dx < 0 then (x1, x0, y1, y0, - dx) else (x0, x1, y0, y1, dx));
              dy = y1 - y0;
              spd = spd\<lparr>sp_rx := 0, sp_ry := 0, sp_len := 1, sp_x := (sp_x spd)[0 := x0],
                        sp_y := (sp_y spd)[0 := y0]\<rparr>;
              (weight, spd) = (if dx > \<bar>dy\<bar> then (dx, spd\<lparr>sp_ry := 1\<rparr>)
                               else (\<bar>y1 - y0\<bar>, spd\<lparr>sp_rx := 1\<rparr>))
          in long_loop md cell dx dy weight x1 y1 (x0, y0, 0, 0) spd)"

section \<open>The straight walk\<close>

record walkpath_data =
  path_len :: nat
  path_pos :: nat
  wpath :: "int list"

text \<open>
  The loop of the easy search. \<open>None\<close>: \<open>walk_choices\<close> is indexed outside its range. The
  result is the number of steps, where the walk ended, and the path written.
\<close>

function easy_loop ::
  "map_data \<Rightarrow> cell_chk \<Rightarrow> int \<Rightarrow> int \<Rightarrow> nat \<Rightarrow> int \<Rightarrow> int \<Rightarrow> int \<Rightarrow> int \<Rightarrow> int list
   \<Rightarrow> (nat \<times> int \<times> int \<times> int list) option" where
  "easy_loop md cell x1 y1 i x y dx dy p =
     (if i < MAX_WALKPATH then
        (case walk_choice dx dy of
           None \<Rightarrow> None
         | Some d \<Rightarrow>
             let p = p[i := d]; x = x + dx; y = y + dy;
                 dx = (if x = x1 then 0 else dx);
                 dy = (if y = y1 then 0 else dy)
             in if dx = 0 \<and> dy = 0 then Some (i + 1, x, y, p)
                else if map_getcellp md x y cell \<noteq> 0 then Some (i + 1, x, y, p)
                else easy_loop md cell x1 y1 (i + 1) x y dx dy p)
      else Some (i, x, y, p))"
  by pat_completeness auto
termination
  by (relation "measure (\<lambda>(md, cell, x1, y1, i, x, y, dx, dy, p). MAX_WALKPATH - i)") auto

declare easy_loop.simps [simp del]

definition easy_search ::
  "map_data \<Rightarrow> cell_chk \<Rightarrow> walkpath_data \<Rightarrow> int \<Rightarrow> int \<Rightarrow> int \<Rightarrow> int \<Rightarrow> (bool \<times> walkpath_data) option" where
  "easy_search md cell wpd x0 y0 x1 y1 =
     (let dx = (if x1 - x0 \<noteq> 0 then if x1 - x0 < 0 then -1 else 1 else 0);
          dy = (if y1 - y0 \<noteq> 0 then if y1 - y0 < 0 then -1 else 1 else 0)
      in case easy_loop md cell x1 y1 0 x0 y0 dx dy (wpath wpd) of
           None \<Rightarrow> None
         | Some (i, x, y, p) \<Rightarrow>
             if x = x1 \<and> y = y1 then Some (True, wpd\<lparr>path_len := i, path_pos := 0, wpath := p\<rparr>)
             else Some (False, wpd\<lparr>wpath := p\<rparr>))"

section \<open>Distances\<close>

definition check_distance :: "int \<Rightarrow> int \<Rightarrow> int \<Rightarrow> bool" where
  "check_distance dx dy dist =
     (let dx = (if dx < 0 then - dx else dx);
          dy = (if dy < 0 then - dy else dy)
      in (if dx < dy then dy else dx) \<le> dist)"

definition distance :: "int \<Rightarrow> int \<Rightarrow> int" where
  "distance dx dy =
     (let dx = (if dx < 0 then - dx else dx);
          dy = (if dy < 0 then - dy else dy)
      in (if dx < dy then dy else dx))"

definition check_distance_bl :: "int \<times> int \<Rightarrow> int \<times> int \<Rightarrow> int \<Rightarrow> bool" where
  "check_distance_bl p q d = check_distance (fst p - fst q) (snd p - snd q) d"

definition distance_bl :: "int \<times> int \<Rightarrow> int \<times> int \<Rightarrow> int" where
  "distance_bl p q = distance (fst p - fst q) (snd p - snd q)"

section \<open>Walks\<close>

text \<open>
  The specification of a walk: a list of directions taken from a cell, every cell reached
  except possibly the last being free (\<open>walk\<close>), and, for \<open>strict_walk\<close>, every cell free and
  no corner of a blocked cell cut.
\<close>

definition step_to :: "int \<Rightarrow> int \<times> int \<Rightarrow> int \<times> int" where
  "step_to d p = (fst p + dirx ! nat d, snd p + diry ! nat d)"

fun walk_end :: "int list \<Rightarrow> int \<times> int \<Rightarrow> int \<times> int" where
  "walk_end [] p = p"
| "walk_end (d # ds) p = walk_end ds (step_to d p)"

definition free :: "map_data \<Rightarrow> cell_chk \<Rightarrow> int \<times> int \<Rightarrow> bool" where
  "free md cell p \<longleftrightarrow> map_getcellp md (fst p) (snd p) cell = 0"

fun free_walk :: "map_data \<Rightarrow> cell_chk \<Rightarrow> int list \<Rightarrow> int \<times> int \<Rightarrow> bool" where
  "free_walk md cell [] p \<longleftrightarrow> True"
| "free_walk md cell (d # ds) p \<longleftrightarrow>
     0 \<le> d \<and> d < 8 \<and> free md cell (step_to d p) \<and> free_walk md cell ds (step_to d p)"

definition cuts_no_corner :: "map_data \<Rightarrow> cell_chk \<Rightarrow> int \<Rightarrow> int \<times> int \<Rightarrow> bool" where
  "cuts_no_corner md cell d p \<longleftrightarrow>
     (dirx ! nat d = 0 \<or> free md cell (fst p + dirx ! nat d, snd p)) \<and>
     (diry ! nat d = 0 \<or> free md cell (fst p, snd p + diry ! nat d))"

fun strict_walk :: "map_data \<Rightarrow> cell_chk \<Rightarrow> int list \<Rightarrow> int \<times> int \<Rightarrow> bool" where
  "strict_walk md cell [] p \<longleftrightarrow> True"
| "strict_walk md cell (d # ds) p \<longleftrightarrow>
     0 \<le> d \<and> d < 8 \<and> free md cell (step_to d p) \<and> cuts_no_corner md cell d p \<and>
     strict_walk md cell ds (step_to d p)"

lemma walk_end_append: "walk_end (ds @ [d]) p = step_to d (walk_end ds p)"
  by (induction ds arbitrary: p) auto

lemma free_walk_append:
  "free_walk md cell (ds @ [d]) p \<longleftrightarrow>
   free_walk md cell ds p \<and> 0 \<le> d \<and> d < 8 \<and> free md cell (step_to d (walk_end ds p))"
  by (induction ds arbitrary: p) auto

lemma strict_walk_append:
  "strict_walk md cell (ds @ [d]) p \<longleftrightarrow>
   strict_walk md cell ds p \<and> 0 \<le> d \<and> d < 8 \<and> free md cell (step_to d (walk_end ds p)) \<and>
   cuts_no_corner md cell d (walk_end ds p)"
  by (induction ds arbitrary: p) auto

text \<open>A unit step has a direction, and that direction is the step.\<close>

lemma walk_choice_step:
  assumes "\<bar>dx\<bar> \<le> 1" "\<bar>dy\<bar> \<le> 1" "dx \<noteq> 0 \<or> dy \<noteq> 0"
  obtains d where "walk_choice dx dy = Some d" "0 \<le> d" "d < 8" "dirx ! nat d = dx" "diry ! nat d = dy"
proof -
  have "dx \<in> {-1, 0, 1}" "dy \<in> {-1, 0, 1}" using assms by auto
  then show thesis using assms that by (auto simp: walk_choice_def walk_choices_def dirx_def diry_def)
qed

section \<open>Knock-back stops at walls\<close>

lemma unit_of_id: "-1 \<le> d \<Longrightarrow> d \<le> 1 \<Longrightarrow> unit_of d = d"
  by (auto simp: unit_of_def)

definition slid :: "map_data \<Rightarrow> int \<Rightarrow> int \<Rightarrow> int \<Rightarrow> int \<Rightarrow> nat \<Rightarrow> int \<times> int \<Rightarrow> nat \<Rightarrow> bool" where
  "slid md dx dy x0 y0 n p k \<longleftrightarrow> k \<le> n \<and> p = (x0 + int k * dx, y0 + int k * dy) \<and>
     0 \<le> fst p \<and> 0 \<le> snd p \<and> fst p < 32768 \<and> snd p < 32768 \<and>
     (\<forall>j. 1 \<le> j \<and> j \<le> k \<longrightarrow> map_getcellp md (x0 + int j * dx) (y0 + int j * dy) CELL_CHKPASS \<noteq> 0) \<and>
     (k = n \<or> (dx = 0 \<and> dy = 0) \<or>
      map_getcellp md (x0 + int (k + 1) * dx) (y0 + int (k + 1) * dy) CELL_CHKPASS = 0)"

lemma slid_Suc:
  assumes "slid md dx dy (x0 + dx) (y0 + dy) n p k"
    and "map_getcellp md (x0 + dx) (y0 + dy) CELL_CHKPASS \<noteq> 0"
  shows "slid md dx dy x0 y0 (Suc n) p (Suc k)"
proof -
  have sh: "x0 + dx + int j * dx = x0 + int (Suc j) * dx" "y0 + dy + int j * dy = y0 + int (Suc j) * dy" for j
    by (simp_all add: algebra_simps)
  note s = assms(1) [unfolded slid_def sh]
  have "map_getcellp md (x0 + int j * dx) (y0 + int j * dy) CELL_CHKPASS \<noteq> 0" if jk: "1 \<le> j" "j \<le> Suc k" for j
  proof (cases "j = 1")
    case False
    then have "j = Suc (j - 1)" "1 \<le> j - 1" "j - 1 \<le> k" using jk by auto
    then show ?thesis using s by metis
  qed (use assms(2) in simp)
  moreover have "Suc (k + 1) = Suc k + 1" by simp
  ultimately show ?thesis using s unfolding slid_def by auto
qed

lemma blown_loop_spec:
  assumes "0 \<le> x0" "x0 < 32768" "0 \<le> y0" "y0 < 32768" "md_xs md \<le> 32768" "md_ys md \<le> 32768"
  shows "\<exists>k. slid md dx dy x0 y0 n (blown_loop md dx dy x0 y0 n) k"
  using assms
proof (induction md dx dy x0 y0 n rule: blown_loop.induct)
  case (1 md dx dy x0 y0)
  then show ?case by (intro exI [of _ 0]) (simp add: slid_def)
next
  case (2 md dx dy x0 y0 n)
  show ?case
  proof (cases "(dx \<noteq> 0 \<or> dy \<noteq> 0) \<and> map_getcellp md (x0 + dx) (y0 + dy) CELL_CHKPASS \<noteq> 0")
    case False
    then show ?thesis using "2.prems" by (intro exI [of _ 0]) (auto simp: slid_def)
  next
    case True
    then have r: "0 \<le> x0 + dx" "x0 + dx < md_xs md" "0 \<le> y0 + dy" "y0 + dy < md_ys md"
      by (auto simp: map_getcellp.simps c_bool_def split: if_splits)
    then have w: "to_int16 (x0 + dx) = x0 + dx" "to_int16 (y0 + dy) = y0 + dy"
      using "2.prems" by simp_all
    obtain k where "slid md dx dy (x0 + dx) (y0 + dy) n (blown_loop md dx dy (x0 + dx) (y0 + dy) n) k"
      using "2.IH" True r "2.prems" unfolding w by fastforce
    then have "slid md dx dy x0 y0 (Suc n) (blown_loop md dx dy (x0 + dx) (y0 + dy) n) (Suc k)"
      using True by (intro slid_Suc) simp_all
    then show ?thesis using True w by (intro exI [of _ "Suc k"]) simp
  qed
qed

lemma pack_xy: "0 \<le> (y::int) \<Longrightarrow> y < 65536 \<Longrightarrow> (push_bit 16 x) OR y = x * 65536 + y"
proof -
  assume "0 \<le> y" "y < 65536"
  then have "y = take_bit 16 y" by (simp add: take_bit_eq_mod)
  then have "\<not> bit (push_bit 16 x) n \<or> \<not> bit y n" for n
    by (metis bit_push_bit_iff bit_take_bit_iff linorder_not_less)
  then have "push_bit 16 x OR y = push_bit 16 x + y" by (rule disjunctive_add [symmetric])
  then show ?thesis by (simp add: push_bit_eq_mult)
qed

text \<open>
  C19. A knocked-back unit slides in a straight line: it ends \<open>k\<close> cells away in the
  (normalised) direction, every cell it crossed can be walked on, \<open>k\<close> is at most the
  requested number and at most 25, and it only stops short of that in front of a cell that
  cannot be walked on.
\<close>

theorem blownpos_slides:
  assumes "map_of_id ml m = Some md" "md_xs md \<le> 32768" "md_ys md \<le> 32768"
    and "0 \<le> x0" "x0 < 32768" "0 \<le> y0" "y0 < 32768"
  shows "\<exists>k \<le> nat (min cnt 25).
     path_blownpos ml m x0 y0 dx dy cnt =
       (x0 + int k * unit_of dx) * 65536 + (y0 + int k * unit_of dy) \<and>
     (\<forall>j. 1 \<le> j \<and> j \<le> k \<longrightarrow>
       map_getcellp md (x0 + int j * unit_of dx) (y0 + int j * unit_of dy) CELL_CHKPASS = 1) \<and>
     (k = nat (min cnt 25) \<or> (dx = 0 \<and> dy = 0) \<or>
       map_getcellp md (x0 + int (k + 1) * unit_of dx) (y0 + int (k + 1) * unit_of dy) CELL_CHKPASS = 0)"
proof -
  let ?u = "unit_of dx" and ?v = "unit_of dy" and ?n = "nat (min cnt 25)"
  obtain k where k: "slid md ?u ?v x0 y0 ?n (blown_loop md ?u ?v x0 y0 ?n) k"
    using blown_loop_spec [OF assms(4-7) assms(2,3)] by blast
  have n: "nat (if cnt > 25 then 25 else cnt) = ?n" by auto
  have bl: "path_blownpos ml m x0 y0 dx dy cnt =
      (case blown_loop md ?u ?v x0 y0 ?n of (x, y) \<Rightarrow> (push_bit 16 x) OR y)"
    using unit_of_id [of dx] unit_of_id [of dy]
    unfolding path_blownpos_def Let_def n by (auto simp: assms(1) not_less)
  have z: "?u = 0 \<and> ?v = 0 \<longleftrightarrow> dx = 0 \<and> dy = 0" by (auto simp: unit_of_def)
  have one: "map_getcellp md a b CELL_CHKPASS \<noteq> 0 \<longleftrightarrow> map_getcellp md a b CELL_CHKPASS = 1" for a b
    by (auto simp: map_getcellp.simps c_bool_def)
  show ?thesis
    using k unfolding slid_def z one by (intro exI [of _ k]) (auto simp: bl pack_xy)
qed

lemma open_map_free:
  assumes "0 \<le> x" "x < 3" "0 \<le> y" "y < 3"
  shows "map_getcellp (open_map ! 0) x y CELL_CHKNOPASS = 0"
proof -
  have "in_map open_map 0 x y" using assms by (simp add: in_map_def open_map_def)
  then have "cell_index (open_map ! 0) x y < 16"
    using cell_index_in_map [OF open_map_wf] by (force simp: open_map_def)
  then show ?thesis
    using assms by (simp add: map_getcellp.simps open_map_def map_gat2cell_def c_bool_def)
qed

theorem blownpos_slides_witness:
  "path_blownpos open_map 0 1 1 5 0 9 = 2 * 65536 + 1"
proof -
  have "map_of_id open_map 0 = Some (open_map ! 0)" by (simp add: map_of_id_def open_map_def)
  then obtain k where k: "path_blownpos open_map 0 1 1 5 0 9 = (1 + int k * unit_of 5) * 65536 + (1 + int k * unit_of 0)"
    "\<forall>j. 1 \<le> j \<and> j \<le> k \<longrightarrow> map_getcellp (open_map ! 0) (1 + int j * unit_of 5) (1 + int j * unit_of 0) CELL_CHKPASS = 1"
    "k = 9 \<or> map_getcellp (open_map ! 0) (1 + int (k + 1) * unit_of 5) (1 + int (k + 1) * unit_of 0) CELL_CHKPASS = 0"
    using blownpos_slides [of open_map 0 "open_map ! 0" 1 1 9 5 0] by (auto simp: open_map_def)
  have b: "map_getcellp (open_map ! 0) 2 1 CELL_CHKPASS = 1" "map_getcellp (open_map ! 0) 3 1 CELL_CHKPASS = 0"
    by (simp_all add: map_getcellp.simps open_map_def cell_index_def map_gat2cell_def c_bool_def)
  have "k < 2" using k(2) [rule_format, of 2] b by (cases "2 \<le> k") (auto simp: unit_of_def)
  moreover have "k \<noteq> 0" using k(3) b by (cases k) (auto simp: unit_of_def)
  ultimately have "k = 1" by simp
  then show ?thesis using k(1) by (simp add: unit_of_def)
qed

section \<open>The line of sight\<close>

text \<open>The cells of the line: the \<open>k\<close>-th of \<open>w\<close>, both coordinates rounded down.\<close>

definition line_cell :: "int \<Rightarrow> int \<Rightarrow> int \<Rightarrow> int \<Rightarrow> int \<Rightarrow> int \<Rightarrow> int \<times> int" where
  "line_cell x0 y0 dx dy w k = (x0 + (k * dx) div w, y0 + (k * dy) div w)"

text \<open>The state of the loop after \<open>k\<close> turns.\<close>

definition long_state :: "int \<Rightarrow> int \<Rightarrow> int \<Rightarrow> int \<Rightarrow> int \<Rightarrow> int \<Rightarrow> int \<times> int \<times> int \<times> int" where
  "long_state x0 y0 dx dy w k =
     (x0 + (k * dx) div w, y0 + (k * dy) div w, (k * dx) mod w, (k * dy) mod w)"

lemma add_div_mod_step:
  fixes a d w :: int
  assumes "0 < w" "\<bar>d\<bar> \<le> w"
  shows "(a + d) div w = a div w + (if a mod w + d \<ge> w then 1 else if a mod w + d < 0 then -1 else 0)"
    and "(a + d) mod w = a mod w + d - (if a mod w + d \<ge> w then w else if a mod w + d < 0 then - w else 0)"
proof -
  let ?c = "(if a mod w + d \<ge> w then 1 else if a mod w + d < 0 then -1 else 0) :: int"
  have e: "a + d = w * (a div w + ?c) + (a mod w + d - w * ?c)"
    by (simp add: distrib_left)
  have "0 \<le> r + d - w * c \<and> r + d - w * c < w"
    if "0 \<le> r" "r < w" "c = (if r + d \<ge> w then 1 else if r + d < 0 then -1 else 0)" for r c
    using that assms by auto
  from this [of "a mod w" ?c]
  have r: "0 \<le> a mod w + d - w * ?c" "a mod w + d - w * ?c < w" using assms by auto
  have "(a + d) div w = a div w + ?c"
    by (rule int_div_pos_eq [OF e r])
  then show "(a + d) div w = a div w + (if a mod w + d \<ge> w then 1 else if a mod w + d < 0 then -1 else 0)" .
  have "(a + d) mod w = a mod w + d - w * ?c"
    by (rule int_mod_pos_eq [OF e r])
  then show "(a + d) mod w = a mod w + d - (if a mod w + d \<ge> w then w else if a mod w + d < 0 then - w else 0)"
    by auto
qed

lemma line_between:
  fixes k d w :: int
  assumes "0 < w" "\<bar>d\<bar> \<le> w" "0 \<le> k" "k \<le> w"
  shows "min 0 d \<le> (k * d) div w \<and> (k * d) div w \<le> max 0 d"
proof (cases "0 \<le> d")
  case True
  have "k * d \<le> w * d" using assms True by (intro mult_right_mono)
  then have "(k * d) div w \<le> (w * d) div w" using assms by (intro zdiv_mono1)
  moreover have "0 \<le> (k * d) div w" using assms True by (simp add: pos_imp_zdiv_nonneg_iff)
  ultimately show ?thesis using assms True by simp
next
  case False
  have "w * d \<le> k * d" using assms False by (intro mult_right_mono_neg) auto
  then have "(w * d) div w \<le> (k * d) div w" using assms by (intro zdiv_mono1)
  moreover have "k * d \<le> 0" using assms False by (simp add: mult_nonneg_nonpos)
  then have "(k * d) div w \<le> 0" using assms by (metis div_0 zdiv_mono1)
  ultimately show ?thesis using assms False by simp
qed

lemma long_step_state:
  assumes "0 < w" "0 \<le> dx" "dx \<le> w" "\<bar>dy\<bar> \<le> w" "0 \<le> k" "k < w"
    and "-32768 \<le> x0" "x0 + dx < 32768" "-32768 \<le> y0" "y0 < 32768" "-32768 \<le> y0 + dy" "y0 + dy < 32768"
  shows "long_step dx dy w (long_state x0 y0 dx dy w k) = long_state x0 y0 dx dy w (k + 1)"
proof -
  have kx: "(k + 1) * dx = k * dx + dx" "(k + 1) * dy = k * dy + dy" by (simp_all add: distrib_right)
  note sx = add_div_mod_step [of w dx "k * dx"] and sy = add_div_mod_step [of w dy "k * dy"]
  have m: "0 \<le> (k * dx) mod w" using assms by simp
  have bx: "min 0 dx \<le> ((k + 1) * dx) div w \<and> ((k + 1) * dx) div w \<le> max 0 dx"
    and by1: "min 0 dy \<le> ((k + 1) * dy) div w \<and> ((k + 1) * dy) div w \<le> max 0 dy"
    using assms by (intro line_between; simp)+
  define X Y r q where d: "X = (k * dx) div w" "Y = (k * dy) div w" "r = (k * dx) mod w" "q = (k * dy) mod w"
  have x1: "r + dx \<ge> w \<Longrightarrow> to_int16 (x0 + X + 1) = x0 + X + 1"
    and y1: "q + dy \<ge> w \<Longrightarrow> to_int16 (y0 + Y + 1) = y0 + Y + 1"
    and y2: "q + dy < 0 \<Longrightarrow> to_int16 (y0 + Y - 1) = y0 + Y - 1"
    using sx(1) sy(1) bx by1 assms unfolding kx d [symmetric]
    by (simp_all add: max_def min_def split: if_splits)
  have "\<not> r + dx < 0" using m assms(2) unfolding d by linarith
  then have "(k * dx + dx) div w = (if r + dx \<ge> w then X + 1 else X)"
    "(k * dx + dx) mod w = (if r + dx \<ge> w then r + dx - w else r + dx)"
    using sx assms by (auto simp: d [symmetric])
  moreover have "(k * dy + dy) div w = (if q + dy \<ge> w then Y + 1 else if q + dy < 0 then Y - 1 else Y)"
    "(k * dy + dy) mod w = (if q + dy \<ge> w then q + dy - w else if q + dy < 0 then q + dy + w else q + dy)"
    using sy assms by (auto simp: d [symmetric])
  ultimately show ?thesis
    using x1 y1 y2 assms(1)
    unfolding long_step_def long_state_def kx d [symmetric] by (simp add: Let_def add.assoc)
qed

lemma long_state_0: "long_state x0 y0 dx dy w 0 = (x0, y0, 0, 0)"
  by (simp add: long_state_def)

text \<open>The major axis moves by one cell each turn, so the loop ends after \<open>w\<close> turns and not before.\<close>

lemma line_end_iff:
  assumes "0 < w" "w = max dx \<bar>dy\<bar>" "0 \<le> dx" "0 \<le> k" "k \<le> w"
  shows "line_cell x0 y0 dx dy w k = (x0 + dx, y0 + dy) \<longleftrightarrow> k = w"
proof
  assume e: "line_cell x0 y0 dx dy w k = (x0 + dx, y0 + dy)"
  consider "w = dx" | "w = dy" | "w = - dy" using assms by linarith
  then show "k = w"
  proof cases
    case 3
    then have "k * dy = w * (- k)" by (simp add: algebra_simps)
    then have "(k * dy) div w = - k" using assms(1) by (simp only: nonzero_mult_div_cancel_left [of w "- k"])
    then show ?thesis using e 3 by (simp add: line_cell_def)
  qed (use e assms in \<open>auto simp: line_cell_def\<close>)
qed (use assms in \<open>simp add: line_cell_def\<close>)

text \<open>What \<open>spd\<close> holds after \<open>k\<close> turns: the first cells of the line, at most 32 of them.\<close>

definition rec_ok :: "(int \<Rightarrow> int \<times> int) \<Rightarrow> shootpath_data \<Rightarrow> nat \<Rightarrow> bool" where
  "rec_ok line spd k \<longleftrightarrow> sp_len spd = min MAX_WALKPATH (k + 1) \<and>
     length (sp_x spd) = MAX_WALKPATH \<and> length (sp_y spd) = MAX_WALKPATH \<and>
     (\<forall>i < sp_len spd. (sp_x spd ! i, sp_y spd ! i) = line (int i))"

lemma rec_ok_store:
  "rec_ok line spd k \<Longrightarrow> line (int k + 1) = (x, y) \<Longrightarrow> rec_ok line (sp_store x y spd) (Suc k)"
  by (auto simp: rec_ok_def sp_store_def nth_list_update less_Suc_eq add.commute)

lemma long_loop_spec:
  assumes w: "0 < w" "w = max dx \<bar>dy\<bar>" "0 \<le> dx"
    and r: "-32768 \<le> x0" "x0 + dx < 32768" "-32768 \<le> y0" "y0 < 32768" "-32768 \<le> y0 + dy" "y0 + dy < 32768"
    and "int k \<le> w" "rec_ok (line_cell x0 y0 dx dy w) spd k"
  shows "\<exists>n ok spd'. long_loop md cell dx dy w (x0 + dx) (y0 + dy) (long_state x0 y0 dx dy w (int k)) spd = Some (ok, spd') \<and>
    k \<le> n \<and> int n \<le> w \<and> rec_ok (line_cell x0 y0 dx dy w) spd' n \<and>
    (\<forall>j. k < j \<and> j < n \<longrightarrow> free md cell (line_cell x0 y0 dx dy w (int j))) \<and>
    (ok \<longrightarrow> int n = w \<and> (k < n \<longrightarrow> free md cell (line_cell x0 y0 dx dy w (int n)))) \<and>
    (\<not> ok \<longrightarrow> k < n \<and> \<not> free md cell (line_cell x0 y0 dx dy w (int n)))"
  using assms(10-)
proof (induction "nat w - k" arbitrary: k spd rule: less_induct)
  case less
  let ?line = "line_cell x0 y0 dx dy w" and ?st = "\<lambda>k. long_state x0 y0 dx dy w k"
  have st: "?st k = (fst (?line k), snd (?line k), (k * dx) mod w, (k * dy) mod w)" for k
    by (simp add: long_state_def line_cell_def)
  have fin: "fst (?line (int k)) \<noteq> x0 + dx \<or> snd (?line (int k)) \<noteq> y0 + dy \<longleftrightarrow> int k \<noteq> w"
    using line_end_iff [OF w, of "int k" x0 y0] less.prems(1) by (auto simp: prod_eq_iff)
  show ?case
  proof (cases "int k = w")
    case True
    then show ?thesis
      using fin less.prems(2) by (intro exI [of _ k] exI [of _ True] exI [of _ spd])
        (auto simp: long_loop.simps st)
  next
    case False
    then have k: "int k < w" using less.prems(1) by simp
    obtain x y where xy: "?line (int k + 1) = (x, y)" by (metis surj_pair)
    define spd1 where "spd1 = sp_store x y spd"
    have ls: "long_step dx dy w (?st (int k)) = ?st (int k + 1)"
      using w k r by (intro long_step_state) auto
    have rk: "rec_ok ?line spd1 (Suc k)" using rec_ok_store [OF less.prems(2) xy] by (simp add: spd1_def)
    have un: "long_loop md cell dx dy w (x0 + dx) (y0 + dy) (?st (int k)) spd =
        (if free md cell (x, y) then long_loop md cell dx dy w (x0 + dx) (y0 + dy) (?st (int k + 1)) spd1
         else Some (False, spd1))"
      using fin False xy ls [unfolded st]
      by (subst long_loop.simps) (simp add: st Let_def free_def spd1_def)
    show ?thesis
    proof (cases "free md cell (x, y)")
      case f: False
      then show ?thesis
        using un rk k xy by (intro exI [of _ "Suc k"] exI [of _ False] exI [of _ spd1]) (auto simp: add.commute)
    next
      case f: True
      have "nat w - Suc k < nat w - k" "int (Suc k) \<le> w" using k by auto
      from less.hyps [OF this rk] obtain n ok spd' where
        l: "long_loop md cell dx dy w (x0 + dx) (y0 + dy) (?st (int k + 1)) spd1 = Some (ok, spd')" and
        n: "Suc k \<le> n" "int n \<le> w" "rec_ok ?line spd' n" and
        fr: "\<forall>j. Suc k < j \<and> j < n \<longrightarrow> free md cell (?line (int j))" and
        ok: "ok \<longrightarrow> int n = w \<and> (Suc k < n \<longrightarrow> free md cell (?line (int n)))"
        "\<not> ok \<longrightarrow> Suc k < n \<and> \<not> free md cell (?line (int n))"
        by (auto simp: add.commute)
      have f1: "free md cell (?line (int j))" if "j = Suc k" for j using that f xy by (simp add: add.commute)
      have "free md cell (?line (int j))" if "k < j" "j < n" for j
        using fr f1 [of j] that by (cases "j = Suc k") auto
      moreover have "free md cell (?line (int n))" if ok
        using ok that n f1 [of n] by (cases "n = Suc k") auto
      ultimately show ?thesis
        using un f l n ok by (intro exI [of _ n] exI [of _ ok] exI [of _ spd']) auto
    qed
  qed
qed

text \<open>
  C17. The incremental line of \<open>path_search_long\<close> is the exact one: the loop always ends, and
  the attack is possible exactly when no cell of the line drawn from the left end, both
  coordinates rounded down, is blocked; \<open>spd\<close> then holds the first (at most 32) cells of it.
\<close>

theorem search_long_line:
  assumes "map_of_id ml m = Some md"
    and "-32768 \<le> x0" "x0 < 32768" "-32768 \<le> y0" "y0 < 32768"
    and "-32768 \<le> x1" "x1 < 32768" "-32768 \<le> y1" "y1 < 32768"
    and "length (sp_x spd) = MAX_WALKPATH" "length (sp_y spd) = MAX_WALKPATH"
    and "(ax, ay, bx, by) = (if x1 < x0 then (x1, y1, x0, y0) else (x0, y0, x1, y1))"
    and "w = max (bx - ax) \<bar>by - ay\<bar>"
  shows "\<exists>ok spd'. path_search_long ml spd m x0 y0 x1 y1 cell = Some (ok, spd') \<and>
    (ok \<longleftrightarrow> (\<forall>j \<in> {1..w}. free md cell (line_cell ax ay (bx - ax) (by - ay) w j))) \<and>
    (ok \<longrightarrow> sp_len spd' = min MAX_WALKPATH (nat w + 1)) \<and>
    (\<forall>i < sp_len spd'. (sp_x spd' ! i, sp_y spd' ! i) = line_cell ax ay (bx - ax) (by - ay) w (int i))"
proof -
  let ?dx = "bx - ax" and ?dy = "by - ay"
  let ?line = "line_cell ax ay ?dx ?dy w"
  define spd0 where "spd0 = spd\<lparr>sp_rx := if ?dx > \<bar>?dy\<bar> then 0 else 1, sp_ry := if ?dx > \<bar>?dy\<bar> then 1 else 0,
    sp_len := 1, sp_x := (sp_x spd)[0 := ax], sp_y := (sp_y spd)[0 := ay]\<rparr>"
  have ab: "0 \<le> ?dx" "-32768 \<le> ax" "bx < 32768" "-32768 \<le> ay" "ay < 32768" "-32768 \<le> by" "by < 32768"
    using assms(2-9,12) by (auto split: if_splits)
  have ps: "path_search_long ml spd m x0 y0 x1 y1 cell = long_loop md cell ?dx ?dy w bx by (ax, ay, 0, 0) spd0"
    using assms(1,12,13) by (cases spd) (auto simp: path_search_long_def spd0_def Let_def max_def split: if_splits)
  have r0: "rec_ok ?line spd0 0"
    using assms(10,11) by (simp add: rec_ok_def spd0_def MAX_WALKPATH_def line_cell_def)
  show ?thesis
  proof (cases "0 < w")
    case False
    then have "w = 0" "ax = bx" "ay = by" using ab assms(13) by auto
    then show ?thesis
      using r0 by (intro exI [of _ True] exI [of _ spd0]) (simp add: ps long_loop.simps rec_ok_def)
  next
    case True
    obtain n ok spd' where l: "long_loop md cell ?dx ?dy w bx by (ax, ay, 0, 0) spd0 = Some (ok, spd')"
      and n: "int n \<le> w" "rec_ok ?line spd' n" "\<forall>j. 0 < j \<and> j < n \<longrightarrow> free md cell (?line (int j))"
      "ok \<longrightarrow> int n = w \<and> (0 < n \<longrightarrow> free md cell (?line (int n)))" "\<not> ok \<longrightarrow> 0 < n \<and> \<not> free md cell (?line (int n))"
      using long_loop_spec [OF True assms(13) ab(1), of ax ay 0 spd0 md cell] ab r0 True
      by (auto simp: long_state_0)
    have all: "(\<forall>j \<in> {1..w}. free md cell (?line j)) \<longleftrightarrow> (\<forall>j. 0 < j \<and> int j \<le> w \<longrightarrow> free md cell (?line (int j)))"
    proof (intro iffI ballI allI impI)
      fix j :: int assume a: "\<forall>j. 0 < j \<and> int j \<le> w \<longrightarrow> free md cell (?line (int j))" and j: "j \<in> {1..w}"
      have "0 < nat j \<and> int (nat j) \<le> w" using j by auto
      with a have "free md cell (?line (int (nat j)))" by blast
      then show "free md cell (?line j)" using j by simp
    qed auto
    have "ok \<longleftrightarrow> (\<forall>j. 0 < j \<and> int j \<le> w \<longrightarrow> free md cell (?line (int j)))"
    proof
      assume ok
      then show "\<forall>j. 0 < j \<and> int j \<le> w \<longrightarrow> free md cell (?line (int j))"
        using n by (metis le_neq_implies_less of_nat_le_iff)
    next
      assume "\<forall>j. 0 < j \<and> int j \<le> w \<longrightarrow> free md cell (?line (int j))"
      then show ok using n by blast
    qed
    moreover have "ok \<longrightarrow> sp_len spd' = min MAX_WALKPATH (nat w + 1)" using n by (auto simp: rec_ok_def)
    moreover have "\<forall>i < sp_len spd'. (sp_x spd' ! i, sp_y spd' ! i) = ?line (int i)"
      using n(2) by (simp add: rec_ok_def)
    ultimately show ?thesis
      unfolding ps all using l by (intro exI [of _ ok] exI [of _ spd']) simp
  qed
qed

theorem search_long_line_witness:
  "\<exists>spd'. path_search_long open_map
     \<lparr>sp_rx = 0, sp_ry = 0, sp_len = 0, sp_x = replicate 32 0, sp_y = replicate 32 0\<rparr>
     0 2 0 0 1 CELL_CHKNOPASS = Some (True, spd') \<and> sp_len spd' = 3"
proof -
  have "free (open_map ! 0) CELL_CHKNOPASS (line_cell 0 1 (2 - 0) (0 - 1) 2 j)" if "j \<in> {1..2}" for j
  proof -
    have lc: "line_cell 0 1 (2 - 0) (0 - 1) 2 1 = (1, 0)" "line_cell 0 1 (2 - 0) (0 - 1) 2 2 = (2, 0)"
      by (simp_all add: line_cell_def)
    have "j = 1 \<or> j = 2" using that by auto
    then show ?thesis
      using open_map_free [of 1 0] open_map_free [of 2 0] by (elim disjE) (simp_all only: lc free_def fst_conv snd_conv)
  qed
  then have fr: "\<forall>j \<in> {1..2}. free (open_map ! 0) CELL_CHKNOPASS (line_cell 0 1 (2 - 0) (0 - 1) 2 j)"
    by blast
  have mi: "map_of_id open_map 0 = Some (open_map ! 0)" by (simp add: map_of_id_def open_map_def)
  from search_long_line [OF mi, of 2 0 0 1
        "\<lparr>sp_rx = 0, sp_ry = 0, sp_len = 0, sp_x = replicate 32 0, sp_y = replicate 32 0\<rparr>" 0 1 2 0 2 CELL_CHKNOPASS]
  obtain ok spd' where "path_search_long open_map
     \<lparr>sp_rx = 0, sp_ry = 0, sp_len = 0, sp_x = replicate 32 0, sp_y = replicate 32 0\<rparr>
     0 2 0 0 1 CELL_CHKNOPASS = Some (ok, spd')"
    "ok \<longleftrightarrow> (\<forall>j \<in> {1..2}. free (open_map ! 0) CELL_CHKNOPASS (line_cell 0 1 (2 - 0) (0 - 1) 2 j))"
    "ok \<longrightarrow> sp_len spd' = 3"
    by (auto simp: MAX_WALKPATH_def)
  then show ?thesis using fr by (intro exI [of _ spd']) simp
qed

section \<open>The straight walk\<close>

text \<open>Where the straight walk is after \<open>j\<close> steps: diagonally first, then along one axis.\<close>

definition easy_cell :: "int \<Rightarrow> int \<Rightarrow> int \<Rightarrow> int \<Rightarrow> nat \<Rightarrow> int \<times> int" where
  "easy_cell x0 y0 x1 y1 j =
     (x0 + sgn (x1 - x0) * min (int j) \<bar>x1 - x0\<bar>, y0 + sgn (y1 - y0) * min (int j) \<bar>y1 - y0\<bar>)"

definition easy_dir :: "int \<Rightarrow> int \<Rightarrow> nat \<Rightarrow> int" where
  "easy_dir a b j = (if int j < \<bar>b - a\<bar> then sgn (b - a) else 0)"

lemma easy_cell_step:
  "easy_cell x0 y0 x1 y1 (Suc j) =
     (fst (easy_cell x0 y0 x1 y1 j) + easy_dir x0 x1 j, snd (easy_cell x0 y0 x1 y1 j) + easy_dir y0 y1 j)"
  by (auto simp: easy_cell_def easy_dir_def min_def algebra_simps)

lemma axis_end: "a + sgn (b - a) * min (int j) \<bar>b - a\<bar> = b \<longleftrightarrow> \<bar>b - a\<bar> \<le> int j"
  by (auto simp: sgn_if min_def)

lemma easy_cell_end:
  "easy_cell x0 y0 x1 y1 j = (x1, y1) \<longleftrightarrow> max \<bar>x1 - x0\<bar> \<bar>y1 - y0\<bar> \<le> int j"
  by (simp add: easy_cell_def axis_end)

lemma easy_dir_Suc: "(if fst (easy_cell x0 y0 x1 y1 (Suc j)) = x1 then 0 else easy_dir x0 x1 j) = easy_dir x0 x1 (Suc j)"
  "(if snd (easy_cell x0 y0 x1 y1 (Suc j)) = y1 then 0 else easy_dir y0 y1 j) = easy_dir y0 y1 (Suc j)"
  using axis_end [of x0 x1 "Suc j"] axis_end [of y0 y1 "Suc j"]
  by (auto simp: easy_cell_def easy_dir_def)

lemma easy_dir_0: "easy_dir a b j = 0 \<longleftrightarrow> \<bar>b - a\<bar> \<le> int j"
  by (auto simp: easy_dir_def sgn_if)

lemma easy_dir_unit: "\<bar>easy_dir a b j\<bar> \<le> 1"
  by (simp add: easy_dir_def sgn_if)

lemma take_update_Suc: "i < length xs \<Longrightarrow> take (Suc i) (xs[i := x]) = take i xs @ [x]"
  by (simp add: take_Suc_conv_app_nth)

lemma easy_loop_spec:
  fixes x0 y0 x1 y1
  defines "w \<equiv> max \<bar>x1 - x0\<bar> \<bar>y1 - y0\<bar>" and "c \<equiv> easy_cell x0 y0 x1 y1"
  assumes "int i < w" "length p = MAX_WALKPATH" "i \<le> MAX_WALKPATH" "free md cell (x1, y1)"
    and "walk_end (take i p) (x0, y0) = c i" "free_walk md cell (take i p) (x0, y0)"
  shows "\<exists>n x y p'. easy_loop md cell x1 y1 i (fst (c i)) (snd (c i)) (easy_dir x0 x1 i) (easy_dir y0 y1 i) p
      = Some (n, x, y, p') \<and>
    ((x, y) = (x1, y1) \<longleftrightarrow> w \<le> int MAX_WALKPATH \<and> (\<forall>j. i < j \<and> int j < w \<longrightarrow> free md cell (c j))) \<and>
    ((x, y) = (x1, y1) \<longrightarrow> int n = w \<and> walk_end (take n p') (x0, y0) = (x1, y1) \<and>
       free_walk md cell (take n p') (x0, y0))"
  using assms(3-)
proof (induction "MAX_WALKPATH - i" arbitrary: i p rule: less_induct)
  case less
  have end_iff: "c j = (x1, y1) \<longleftrightarrow> w \<le> int j" for j by (simp add: c_def w_def easy_cell_end)
  show ?case
  proof (cases "i < MAX_WALKPATH")
    case False
    then have i: "i = MAX_WALKPATH" using less.prems(3) by simp
    have "c i \<noteq> (x1, y1)" using end_iff [of i] less.prems(1) by simp
    then show ?thesis
      using i less.prems(1) by (subst easy_loop.simps) auto
  next
    case True
    have "easy_dir x0 x1 i \<noteq> 0 \<or> easy_dir y0 y1 i \<noteq> 0"
      using less.prems(1) by (auto simp: easy_dir_0 w_def)
    then obtain d where d: "walk_choice (easy_dir x0 x1 i) (easy_dir y0 y1 i) = Some d" "0 \<le> d" "d < 8"
      "dirx ! nat d = easy_dir x0 x1 i" "diry ! nat d = easy_dir y0 y1 i"
      using walk_choice_step [OF easy_dir_unit easy_dir_unit] by metis
    define q where "q = p[i := d]"
    have q: "length q = MAX_WALKPATH" "take (Suc i) q = take i p @ [d]"
      using less.prems(2) True by (simp_all add: q_def take_update_Suc)
    have st: "step_to d (c i) = c (Suc i)"
      using d by (simp add: step_to_def c_def easy_cell_step)
    have we: "walk_end (take (Suc i) q) (x0, y0) = c (Suc i)"
      using less.prems(5) st by (simp add: q(2) walk_end_append)
    have fw: "free_walk md cell (take (Suc i) q) (x0, y0) \<longleftrightarrow> free md cell (c (Suc i))"
      using less.prems(5,6) d st by (simp add: q(2) free_walk_append)
    have stop: "easy_dir x0 x1 (Suc i) = 0 \<and> easy_dir y0 y1 (Suc i) = 0 \<longleftrightarrow> w \<le> int (Suc i)"
      by (simp add: easy_dir_0 w_def)
    have un: "easy_loop md cell x1 y1 i (fst (c i)) (snd (c i)) (easy_dir x0 x1 i) (easy_dir y0 y1 i) p =
      (if w \<le> int (Suc i) \<or> \<not> free md cell (c (Suc i)) then Some (Suc i, fst (c (Suc i)), snd (c (Suc i)), q)
       else easy_loop md cell x1 y1 (Suc i) (fst (c (Suc i))) (snd (c (Suc i)))
              (easy_dir x0 x1 (Suc i)) (easy_dir y0 y1 (Suc i)) q)"
      using True d(1) stop easy_dir_Suc [of x0 y0 x1 y1 i] easy_cell_step [of x0 y0 x1 y1 i]
      by (subst easy_loop.simps) (auto simp: Let_def q_def c_def free_def)
    consider "w \<le> int (Suc i)" | "\<not> w \<le> int (Suc i)" "\<not> free md cell (c (Suc i))"
      | "\<not> w \<le> int (Suc i)" "free md cell (c (Suc i))" by blast
    then show ?thesis
    proof cases
      case 1
      then have "w = int (Suc i)" "c (Suc i) = (x1, y1)" using less.prems(1) end_iff [of "Suc i"] by auto
      then show ?thesis using un we fw less.prems(4) True by auto
    next
      case 2
      then have "c (Suc i) \<noteq> (x1, y1)" using end_iff [of "Suc i"] by simp
      then show ?thesis using un 2 by (auto simp: prod_eq_iff intro!: exI [of _ "Suc i"])
    next
      case 3
      have "(\<forall>j. Suc i < j \<and> int j < w \<longrightarrow> free md cell (c j)) \<longleftrightarrow> (\<forall>j. i < j \<and> int j < w \<longrightarrow> free md cell (c j))"
        using 3(2) by (metis Suc_lessI less_Suc_eq not_less_eq)
      then show ?thesis
        using less.hyps [of "Suc i" q] 3 True q we fw less.prems(4) un by simp
    qed
  qed
qed

lemma easy_search_ok:
  assumes "(x0, y0) \<noteq> (x1, y1)" "free md cell (x1, y1)" "length (wpath wpd) = MAX_WALKPATH"
    and "w = max \<bar>x1 - x0\<bar> \<bar>y1 - y0\<bar>"
  shows "\<exists>ok wpd'. easy_search md cell wpd x0 y0 x1 y1 = Some (ok, wpd') \<and>
    (ok \<longleftrightarrow> w \<le> 32 \<and> (\<forall>j. 0 < j \<and> int j < w \<longrightarrow> free md cell (easy_cell x0 y0 x1 y1 j))) \<and>
    (ok \<longrightarrow> int (path_len wpd') = w \<and> path_pos wpd' = 0 \<and>
       walk_end (take (path_len wpd') (wpath wpd')) (x0, y0) = (x1, y1) \<and>
       free_walk md cell (take (path_len wpd') (wpath wpd')) (x0, y0))"
proof -
  have d: "easy_dir a b 0 = (if b - a \<noteq> 0 then if b - a < 0 then -1 else 1 else 0)" for a b
    by (auto simp: easy_dir_def)
  have c0: "easy_cell x0 y0 x1 y1 0 = (x0, y0)" by (simp add: easy_cell_def)
  have "0 < w" using assms(1,4) by auto
  then have "\<exists>n x y p'. easy_loop md cell x1 y1 0 x0 y0 (easy_dir x0 x1 0) (easy_dir y0 y1 0) (wpath wpd)
      = Some (n, x, y, p') \<and>
    ((x, y) = (x1, y1) \<longleftrightarrow> w \<le> 32 \<and> (\<forall>j. 0 < j \<and> int j < w \<longrightarrow> free md cell (easy_cell x0 y0 x1 y1 j))) \<and>
    ((x, y) = (x1, y1) \<longrightarrow> int n = w \<and> walk_end (take n p') (x0, y0) = (x1, y1) \<and>
       free_walk md cell (take n p') (x0, y0))"
    using easy_loop_spec [of 0 x1 x0 y1 y0 "wpath wpd" md cell] assms(2-4) unfolding c0
    by (simp add: MAX_WALKPATH_def)
  then obtain n x y p' where
    l: "easy_loop md cell x1 y1 0 x0 y0 (easy_dir x0 x1 0) (easy_dir y0 y1 0) (wpath wpd) = Some (n, x, y, p')"
    and s: "(x, y) = (x1, y1) \<longleftrightarrow> w \<le> 32 \<and> (\<forall>j. 0 < j \<and> int j < w \<longrightarrow> free md cell (easy_cell x0 y0 x1 y1 j))"
    "(x, y) = (x1, y1) \<longrightarrow> int n = w \<and> walk_end (take n p') (x0, y0) = (x1, y1) \<and>
       free_walk md cell (take n p') (x0, y0)"
    by blast
  have e: "easy_search md cell wpd x0 y0 x1 y1 =
      (if (x, y) = (x1, y1) then Some (True, wpd\<lparr>path_len := n, path_pos := 0, wpath := p'\<rparr>)
       else Some (False, wpd\<lparr>wpath := p'\<rparr>))"
    unfolding easy_search_def Let_def d [symmetric] l by simp
  show ?thesis using s unfolding e by (cases "(x, y) = (x1, y1)") auto
qed

text \<open>
  C18. The straight walk: it succeeds exactly when the target is at most 32 steps away and
  the cells of the straight path before it are free; then the path written leads from the
  start to the target over free cells, in the least possible number of steps.
\<close>

theorem easy_search_walks:
  assumes "(x0, y0) \<noteq> (x1, y1)" "free md cell (x1, y1)" "length (wpath wpd) = MAX_WALKPATH"
    and "w = max \<bar>x1 - x0\<bar> \<bar>y1 - y0\<bar>"
  shows "\<exists>ok wpd'. easy_search md cell wpd x0 y0 x1 y1 = Some (ok, wpd') \<and>
    (ok \<longleftrightarrow> w \<le> 32 \<and> (\<forall>j. 0 < j \<and> int j < w \<longrightarrow> free md cell (easy_cell x0 y0 x1 y1 j))) \<and>
    (ok \<longrightarrow> int (path_len wpd') = w \<and> path_pos wpd' = 0 \<and>
       walk_end (take (path_len wpd') (wpath wpd')) (x0, y0) = (x1, y1) \<and>
       free_walk md cell (take (path_len wpd') (wpath wpd')) (x0, y0))"
  using assms by (rule easy_search_ok)

theorem easy_search_walks_witness:
  "\<exists>wpd'. easy_search (open_map ! 0) CELL_CHKNOPASS \<lparr>path_len = 0, path_pos = 0, wpath = replicate 32 0\<rparr> 0 0 2 1
     = Some (True, wpd') \<and> path_len wpd' = 2"
proof -
  have f: "free (open_map ! 0) CELL_CHKNOPASS (2, 1)" "free (open_map ! 0) CELL_CHKNOPASS (1, 1)"
    by (simp_all add: free_def open_map_free)
  have "easy_cell 0 0 2 1 1 = (1, 1)" by (simp add: easy_cell_def)
  then have "\<forall>j. 0 < j \<and> int j < 2 \<longrightarrow> free (open_map ! 0) CELL_CHKNOPASS (easy_cell 0 0 2 1 j)"
    using f(2) by (metis One_nat_def Suc_lessI less_one linorder_not_less not_less_eq of_nat_less_iff of_nat_numeral numeral_2_eq_2)
  then show ?thesis
    using easy_search_walks [of 0 0 2 1 "open_map ! 0" CELL_CHKNOPASS
        "\<lparr>path_len = 0, path_pos = 0, wpath = replicate 32 0\<rparr>" 2] f(1)
    by (auto simp: MAX_WALKPATH_def)
qed

section \<open>Distances\<close>

lemma distance_cheb: "distance dx dy = cheb dx dy" "check_distance dx dy d \<longleftrightarrow> cheb dx dy \<le> d"
  by (auto simp: distance_def check_distance_def cheb_def Let_def max_def)

lemma cheb_laws:
  "cheb dx dy = 0 \<longleftrightarrow> dx = 0 \<and> dy = 0"
  "cheb (a + c) (b + d) \<le> cheb a b + cheb c d"
  "cheb (- a) (- b) = cheb a b"
  by (auto simp: cheb_def)

text \<open>
  \<open>distance_bl\<close> is a metric on cells, \<open>check_distance_bl\<close> decides its balls, and it
  is the number of steps of the straight walk.
\<close>

theorem distance_metric:
  "(distance_bl p q = 0 \<longleftrightarrow> p = q) \<and> distance_bl p q = distance_bl q p \<and>
   distance_bl p r \<le> distance_bl p q + distance_bl q r \<and>
   (check_distance_bl p q d \<longleftrightarrow> distance_bl p q \<le> d) \<and>
   distance_bl p q = cheb (fst q - fst p) (snd q - snd p)"
  using cheb_laws(2) [of "fst p - fst q" "fst q - fst r" "snd p - snd q" "snd q - snd r"]
    cheb_laws(3) [of "fst p - fst q" "snd p - snd q"]
  by (auto simp: distance_bl_def check_distance_bl_def distance_cheb cheb_laws(1) prod_eq_iff)

end
