(* ===== verification/Astar.thy ===== *)
theory Astar
  imports Path Bheap
begin

text \<open>
  The A* search of \<open>src/map/path.c\<close>. Nodes live in an array \<open>tp\<close> of 1024 slots, a cell
  \<open>(x, y)\<close> in slot \<open>calc_index x y\<close>; a pointer to a node is its slot. The open set is a
  binary heap of slots ordered by \<open>f_cost\<close>. The cost fields are \<open>short\<close>s and stores into
  them wrap. A result \<open>None\<close> is a read outside an array or a loop that does not end.
\<close>

definition MOVE_COST :: int where "MOVE_COST = 10"
definition MOVE_DIAGONAL_COST :: int where "MOVE_DIAGONAL_COST = 14"
definition SET_OPEN :: int where "SET_OPEN = 0"
definition SET_CLOSED :: int where "SET_CLOSED = 1"
definition DIR_NORTH :: "8 word" where "DIR_NORTH = 1"
definition DIR_WEST :: "8 word" where "DIR_WEST = 2"
definition DIR_SOUTH :: "8 word" where "DIR_SOUTH = 4"
definition DIR_EAST :: "8 word" where "DIR_EAST = 8"

lemmas path_consts = MOVE_COST_def MOVE_DIAGONAL_COST_def SET_OPEN_def SET_CLOSED_def

record path_node =
  pn_parent :: "nat option"
  pn_x :: int
  pn_y :: int
  g_cost :: int
  f_cost :: int
  pn_flag :: int

definition path_zero :: path_node where
  "path_zero = \<lparr>pn_parent = None, pn_x = 0, pn_y = 0, g_cost = 0, f_cost = 0, pn_flag = 0\<rparr>"

definition NODE_MINTOPCMP :: "path_node list \<Rightarrow> nat \<Rightarrow> nat \<Rightarrow> int" where
  "NODE_MINTOPCMP tp i j = f_cost (tp ! i) - f_cost (tp ! j)"

interpretation node: topcmp "NODE_MINTOPCMP tp" for tp
  by unfold_locales (auto simp: NODE_MINTOPCMP_def)

definition calc_index :: "int \<Rightarrow> int \<Rightarrow> nat" where
  "calc_index x y = nat ((x + y * 32) AND 1023)"

definition heuristic :: "int \<Rightarrow> int \<Rightarrow> int \<Rightarrow> int \<Rightarrow> int" where
  "heuristic x0 y0 x1 y1 = MOVE_COST * (\<bar>x1 - x0\<bar> + \<bar>y1 - y0\<bar>)"

definition heap_push_node :: "path_node list \<Rightarrow> nat vec \<Rightarrow> nat \<Rightarrow> nat vec option" where
  "heap_push_node tp heap node = do {
     v \<leftarrow> VECTOR_ENSURE 0 heap 1 256;
     BHEAP_PUSH2 (NODE_MINTOPCMP tp) v node
   }"

definition heap_update_node :: "path_node list \<Rightarrow> nat vec \<Rightarrow> nat \<Rightarrow> int \<times> nat vec" where
  "heap_update_node tp heap node =
     (let i = arr_find (\<lambda>n. n = node) (vec_list heap) in
      if i = vec_len heap then (1, heap)
      else (0, BHEAP_UPDATE (NODE_MINTOPCMP tp) heap i))"

type_synonym astate = "nat vec \<times> path_node list"

definition add_path ::
  "astate \<Rightarrow> int \<Rightarrow> int \<Rightarrow> int \<Rightarrow> nat \<Rightarrow> int \<Rightarrow> (int \<times> astate) option" where
  "add_path s x y g parent h_cost =
     (let (heap, tp) = s; i = calc_index x y; n = tp ! i in
      if pn_x n = x \<and> pn_y n = y then
        (if g < g_cost n then
           let n = n\<lparr>g_cost := to_int16 g, pn_parent := Some parent, f_cost := to_int16 (g + h_cost)\<rparr>;
               tp = tp[i := n]
           in if pn_flag n = SET_CLOSED then do {
                heap \<leftarrow> heap_push_node tp heap i;
                Some (0, heap, tp[i := n\<lparr>pn_flag := SET_OPEN\<rparr>])
              }
              else
                (let (e, heap) = heap_update_node tp heap i in
                 if e \<noteq> 0 then Some (1, heap, tp)
                 else Some (0, heap, tp[i := n\<lparr>pn_flag := SET_OPEN\<rparr>]))
         else Some (0, s))
      else if pn_x n \<noteq> 0 \<or> pn_y n \<noteq> 0 then Some (1, s)
      else
        let n = n\<lparr>pn_x := x, pn_y := y, g_cost := to_int16 g, pn_parent := Some parent,
                  f_cost := to_int16 (g + h_cost), pn_flag := SET_OPEN\<rparr>;
            tp = tp[i := n]
        in do { heap \<leftarrow> heap_push_node tp heap i; Some (0, heap, tp) })"

text \<open>
  The neighbours in the order the code processes them: the directions that must be allowed,
  the step, its cost. For a diagonal step the target cell itself is tested as well.
\<close>

definition neighbours :: "(8 word \<times> int \<times> int \<times> int) list" where
  "neighbours =
     [(DIR_SOUTH OR DIR_EAST, 1, -1, MOVE_DIAGONAL_COST),
      (DIR_EAST, 1, 0, MOVE_COST),
      (DIR_NORTH OR DIR_EAST, 1, 1, MOVE_DIAGONAL_COST),
      (DIR_NORTH, 0, 1, MOVE_COST),
      (DIR_NORTH OR DIR_WEST, -1, 1, MOVE_DIAGONAL_COST),
      (DIR_WEST, -1, 0, MOVE_COST),
      (DIR_SOUTH OR DIR_WEST, -1, -1, MOVE_DIAGONAL_COST),
      (DIR_SOUTH, 0, -1, MOVE_COST)]"

definition allowed_dirs :: "map_data \<Rightarrow> cell_chk \<Rightarrow> int \<Rightarrow> int \<Rightarrow> int \<Rightarrow> int \<Rightarrow> 8 word" where
  "allowed_dirs md cell xs ys x y =
     (if y < ys \<and> map_getcellp md x (y + 1) cell = 0 then DIR_NORTH else 0) OR
     (if y > 0 \<and> map_getcellp md x (y - 1) cell = 0 then DIR_SOUTH else 0) OR
     (if x < xs \<and> map_getcellp md (x + 1) y cell = 0 then DIR_EAST else 0) OR
     (if x > 0 \<and> map_getcellp md (x - 1) y cell = 0 then DIR_WEST else 0)"

definition chk_dir :: "8 word \<Rightarrow> 8 word \<Rightarrow> bool" where
  "chk_dir allowed d \<longleftrightarrow> (allowed AND d) = d"

fun expand ::
  "map_data \<Rightarrow> cell_chk \<Rightarrow> int \<Rightarrow> int \<Rightarrow> nat \<Rightarrow> int \<Rightarrow> int \<Rightarrow> int \<Rightarrow> 8 word
   \<Rightarrow> (8 word \<times> int \<times> int \<times> int) list \<Rightarrow> int \<Rightarrow> astate \<Rightarrow> (int \<times> astate) option" where
  "expand md cell x1 y1 current x y g allowed [] e s = Some (e, s)"
| "expand md cell x1 y1 current x y g allowed ((d, dx, dy, cost) # ns) e s =
     (if chk_dir allowed d \<and>
         (dx \<noteq> 0 \<and> dy \<noteq> 0 \<longrightarrow> map_getcellp md (x + dx) (y + dy) cell = 0)
      then do {
        (e', s) \<leftarrow> add_path s (x + dx) (y + dy) (g + cost) current (heuristic (x + dx) (y + dy) x1 y1);
        expand md cell x1 y1 current x y g allowed ns (e + e') s
      }
      else expand md cell x1 y1 current x y g allowed ns e s)"

text \<open>The main loop: \<open>Some None\<close> when no path is found, the goal's slot and the nodes otherwise.\<close>

partial_function (option) astar_loop ::
  "map_data \<Rightarrow> cell_chk \<Rightarrow> int \<Rightarrow> int \<Rightarrow> int \<Rightarrow> int \<Rightarrow> astate \<Rightarrow> (nat \<times> path_node list) option option" where
  "astar_loop md cell xs ys x1 y1 s =
     (case s of (heap, tp) \<Rightarrow>
        if vec_len heap = 0 then Some None
        else do {
          current \<leftarrow> BHEAP_PEEK heap;
          heap \<leftarrow> BHEAP_POP2 (NODE_MINTOPCMP tp) heap;
          let n = tp ! current; x = pn_x n; y = pn_y n; g = g_cost n;
              tp = tp[current := n\<lparr>pn_flag := SET_CLOSED\<rparr>]
          in if x = x1 \<and> y = y1 then Some (Some (current, tp))
             else do {
               (e, s) \<leftarrow> expand md cell x1 y1 current x y g (allowed_dirs md cell xs ys x y) neighbours 0 (heap, tp);
               if e \<noteq> 0 then Some None else astar_loop md cell xs ys x1 y1 s
             }
        })"

partial_function (option) chain_len :: "path_node list \<Rightarrow> nat \<Rightarrow> nat \<Rightarrow> nat option" where
  "chain_len tp it len =
     (case pn_parent (tp ! it) of None \<Rightarrow> Some len | Some p \<Rightarrow> chain_len tp p (len + 1))"

text \<open>The last loop writes the directions backwards; the argument is the number of steps left.\<close>

fun write_path :: "path_node list \<Rightarrow> nat \<Rightarrow> nat \<Rightarrow> int list \<Rightarrow> int list option" where
  "write_path tp it 0 p = Some p"
| "write_path tp it (Suc j) p =
     (case pn_parent (tp ! it) of
        None \<Rightarrow> None
      | Some q \<Rightarrow> do {
          d \<leftarrow> walk_choice (pn_x (tp ! it) - pn_x (tp ! q)) (pn_y (tp ! it) - pn_y (tp ! q));
          write_path tp q j (p[j := d])
        })"

definition astar_search ::
  "map_data \<Rightarrow> cell_chk \<Rightarrow> walkpath_data \<Rightarrow> int \<Rightarrow> int \<Rightarrow> int \<Rightarrow> int \<Rightarrow> (bool \<times> walkpath_data) option" where
  "astar_search md cell wpd x0 y0 x1 y1 =
     (let xs = md_xs md - 1; ys = md_ys md - 1;
          i = calc_index x0 y0;
          tp = (replicate 1024 path_zero)[i := \<lparr>pn_parent = None, pn_x = x0, pn_y = y0, g_cost = 0,
                  f_cost = to_int16 (heuristic x0 y0 x1 y1), pn_flag = SET_OPEN\<rparr>]
      in do {
        heap \<leftarrow> heap_push_node tp VECTOR_INIT i;
        r \<leftarrow> astar_loop md cell xs ys x1 y1 (heap, tp);
        (case r of
           None \<Rightarrow> Some (False, wpd)
         | Some (current, tp) \<Rightarrow> do {
             len \<leftarrow> chain_len tp current 0;
             if len > MAX_WALKPATH then Some (False, wpd)
             else do {
               p \<leftarrow> write_path tp current len (wpath wpd);
               Some (True, wpd\<lparr>path_len := len, path_pos := 0, wpath := p\<rparr>)
             }
           })
      })"

definition path_search ::
  "map_data list \<Rightarrow> walkpath_data \<Rightarrow> int \<Rightarrow> int \<Rightarrow> int \<Rightarrow> int \<Rightarrow> int \<Rightarrow> int \<Rightarrow> cell_chk
   \<Rightarrow> (bool \<times> walkpath_data) option" where
  "path_search ml wpd m x0 y0 x1 y1 flag cell =
     (case map_of_id ml m of
        None \<Rightarrow> Some (False, wpd)
      | Some md \<Rightarrow>
          if x0 < 0 \<or> x0 \<ge> md_xs md \<or> y0 < 0 \<or> y0 \<ge> md_ys md then Some (False, wpd)
          else if x1 < 0 \<or> x1 \<ge> md_xs md \<or> y1 < 0 \<or> y1 \<ge> md_ys md \<or> map_getcellp md x1 y1 cell \<noteq> 0
          then Some (False, wpd)
          else if x0 = x1 \<and> y0 = y1 then Some (True, wpd\<lparr>path_len := 0, path_pos := 0\<rparr>)
          else if flag AND 1 \<noteq> 0 then easy_search md cell wpd x0 y0 x1 y1
          else astar_search md cell wpd x0 y0 x1 y1)"

section \<open>The nodes\<close>

text \<open>A slot is taken once it holds a cell other than \<open>(0, 0)\<close>, as the code tests.\<close>

definition taken :: "path_node list \<Rightarrow> nat \<Rightarrow> bool" where
  "taken tp i \<longleftrightarrow> pn_x (tp ! i) \<noteq> 0 \<or> pn_y (tp ! i) \<noteq> 0"

definition pos_of :: "path_node list \<Rightarrow> nat \<Rightarrow> int \<times> int" where
  "pos_of tp i = (pn_x (tp ! i), pn_y (tp ! i))"

definition slots :: "path_node list \<Rightarrow> nat set" where
  "slots tp = {i. i < 1024 \<and> taken tp i}"

definition legal_step :: "map_data \<Rightarrow> cell_chk \<Rightarrow> int \<times> int \<Rightarrow> int \<times> int \<Rightarrow> bool" where
  "legal_step md cell p q \<longleftrightarrow>
     (\<exists>d. walk_choice (fst q - fst p) (snd q - snd p) = Some d \<and> 0 \<le> d \<and> d < 8 \<and> step_to d p = q \<and>
       free md cell q \<and> cuts_no_corner md cell d p)"

definition node_ok :: "map_data \<Rightarrow> cell_chk \<Rightarrow> int \<times> int \<Rightarrow> path_node list \<Rightarrow> nat \<Rightarrow> bool" where
  "node_ok md cell p0 tp i \<longleftrightarrow>
     calc_index (fst (pos_of tp i)) (snd (pos_of tp i)) = i \<and>
     0 \<le> g_cost (tp ! i) \<and> g_cost (tp ! i) + 14 \<le> 14 * int (card (slots tp)) \<and>
     pn_flag (tp ! i) \<in> {SET_OPEN, SET_CLOSED} \<and>
     (case pn_parent (tp ! i) of
        None \<Rightarrow> pos_of tp i = p0 \<and> g_cost (tp ! i) = 0
      | Some p \<Rightarrow> p \<in> slots tp \<and> g_cost (tp ! p) + 10 \<le> g_cost (tp ! i) \<and>
                  legal_step md cell (pos_of tp p) (pos_of tp i))"

definition nodes_ok :: "map_data \<Rightarrow> cell_chk \<Rightarrow> int \<times> int \<Rightarrow> path_node list \<Rightarrow> bool" where
  "nodes_ok md cell p0 tp \<longleftrightarrow> length tp = 1024 \<and>
     (\<forall>i < 1024. if taken tp i then node_ok md cell p0 tp i else tp ! i = path_zero)"

definition open_ok :: "path_node list \<Rightarrow> nat vec \<Rightarrow> bool" where
  "open_ok tp heap \<longleftrightarrow> vec_wf heap \<and> heap_ok (NODE_MINTOPCMP tp) (vec_list heap) \<and>
     distinct (vec_list heap) \<and> set (vec_list heap) = {i \<in> slots tp. pn_flag (tp ! i) = SET_OPEN}"

lemma calc_index_lt [simp]: "calc_index x y < 1024"
proof -
  have "(x + y * 32) AND 1023 = take_bit 10 (x + y * 32)" by (simp add: take_bit_eq_mask mask_eq_exp_minus_1)
  then have "0 \<le> (x + y * 32) AND 1023 \<and> (x + y * 32) AND 1023 < 1024"
    by (simp add: take_bit_eq_mod)
  then show ?thesis by (simp add: calc_index_def nat_less_iff)
qed

lemma finite_slots [simp]: "finite (slots tp)"
  by (simp add: slots_def)

lemma slots_lt: "i \<in> slots tp \<Longrightarrow> i < 1024"
  by (simp add: slots_def)

lemma card_slots: "card (slots tp) \<le> 1024"
proof -
  have "slots tp \<subseteq> {..<1024}" by (auto simp: slots_def)
  then show ?thesis using card_mono [of "{..<1024}" "slots tp"] by simp
qed

lemma nodes_okD: "nodes_ok md cell p0 tp \<Longrightarrow> i \<in> slots tp \<Longrightarrow> node_ok md cell p0 tp i"
  by (simp add: nodes_ok_def slots_def)

lemma nodes_ok_zero: "nodes_ok md cell p0 tp \<Longrightarrow> i < 1024 \<Longrightarrow> i \<notin> slots tp \<Longrightarrow> tp ! i = path_zero"
  by (simp add: nodes_ok_def slots_def)

lemma legal_step_neq: "legal_step md cell p q \<Longrightarrow> q \<noteq> p"
  by (cases p) (auto simp: legal_step_def walk_choice_def walk_choices_def)

text \<open>Storing a node reached by a legal step, on a free slot or on its own with a lower cost.\<close>

lemma nodes_ok_store:
  assumes ok: "nodes_ok md cell p0 tp" and c: "c \<in> slots tp"
    and n: "(pn_x n, pn_y n) \<noteq> (0, 0)" "pn_parent n = Some c" "i = calc_index (pn_x n) (pn_y n)"
      "pn_flag n \<in> {SET_OPEN, SET_CLOSED}"
    and g: "g_cost (tp ! c) + 10 \<le> g_cost n" "g_cost n \<le> g_cost (tp ! c) + 14"
    and l: "legal_step md cell (pos_of tp c) (pn_x n, pn_y n)"
    and old: "i \<in> slots tp \<Longrightarrow> pos_of tp i = (pn_x n, pn_y n) \<and> g_cost n < g_cost (tp ! i)"
  shows "nodes_ok md cell p0 (tp[i := n])" and "slots (tp[i := n]) = insert i (slots tp)" and "i \<noteq> c"
proof -
  have i: "i < 1024" "length tp = 1024" using ok n(3) by (simp_all add: nodes_ok_def)
  show ic: "i \<noteq> c" using old c l legal_step_neq by fastforce
  show sl: "slots (tp[i := n]) = insert i (slots tp)"
    using i n(1) by (auto simp: slots_def taken_def nth_list_update)
  have cd: "card (slots tp) \<le> card (slots (tp[i := n]))"
    by (simp add: sl card_insert_le)
  have pos: "pos_of (tp[i := n]) j = (if j = i then (pn_x n, pn_y n) else pos_of tp j)" for j
    using i by (simp add: pos_of_def)
  have "node_ok md cell p0 (tp[i := n]) j" if j: "j \<in> slots tp" "j \<noteq> i" for j
  proof -
    have nj: "node_ok md cell p0 tp j" using nodes_okD [OF ok j(1)] .
    have "g_cost (tp ! i) \<ge> g_cost n" "pos_of tp i = (pn_x n, pn_y n)" if "i \<in> slots tp"
      using old [OF that] by simp_all
    then show ?thesis using nj j cd i by (auto simp: node_ok_def pos sl nth_list_update split: option.splits)
  qed
  moreover have "node_ok md cell p0 (tp[i := n]) i"
  proof -
    have nc: "node_ok md cell p0 tp c" using nodes_okD [OF ok c] .
    have "g_cost n + 14 \<le> 14 * int (card (slots (tp[i := n])))"
    proof (cases "i \<in> slots tp")
      case True
      then have "g_cost (tp ! i) + 14 \<le> 14 * int (card (slots tp))" "g_cost n < g_cost (tp ! i)"
        using nodes_okD [OF ok True] old by (auto simp: node_ok_def)
      moreover have "card (slots (tp[i := n])) = card (slots tp)" using True by (simp add: sl insert_absorb)
      ultimately show ?thesis by simp
    next
      case False
      then have "card (slots (tp[i := n])) = Suc (card (slots tp))" by (simp add: sl)
      then show ?thesis using nc g by (simp add: node_ok_def)
    qed
    moreover have "tp[i := n] ! i = n" "tp[i := n] ! c = tp ! c" using i ic by simp_all
    moreover have "0 \<le> g_cost n" using nc g unfolding node_ok_def by linarith
    moreover have "calc_index (pn_x n) (pn_y n) = i" using n(3) by simp
    ultimately show ?thesis
      unfolding node_ok_def pos using n(2,4) g(1) l c ic by (simp add: sl)
  qed
  moreover have "tp[i := n] ! j = path_zero" if "j < 1024" "j \<notin> slots (tp[i := n])" for j
    using that nodes_ok_zero [OF ok] i by (auto simp: sl)
  ultimately have "j < 1024 \<Longrightarrow> if taken (tp[i := n]) j then node_ok md cell p0 (tp[i := n]) j
      else tp[i := n] ! j = path_zero" for j
    using sl by (cases "j \<in> slots (tp[i := n])"; cases "j = i") (auto simp: slots_def)
  then show "nodes_ok md cell p0 (tp[i := n])"
    using i by (simp add: nodes_ok_def)
qed

text \<open>Changing a node's flag.\<close>

lemma nodes_ok_flag:
  assumes "nodes_ok md cell p0 tp" "c \<in> slots tp" "fl \<in> {SET_OPEN, SET_CLOSED}"
  shows "nodes_ok md cell p0 (tp[c := (tp ! c)\<lparr>pn_flag := fl\<rparr>])"
    and "slots (tp[c := (tp ! c)\<lparr>pn_flag := fl\<rparr>]) = slots tp"
proof -
  let ?tp = "tp[c := (tp ! c)\<lparr>pn_flag := fl\<rparr>]"
  have c: "c < 1024" "length tp = 1024" using assms by (simp_all add: nodes_ok_def slots_def)
  have nth: "pn_x (?tp ! j) = pn_x (tp ! j)" "pn_y (?tp ! j) = pn_y (tp ! j)" "g_cost (?tp ! j) = g_cost (tp ! j)"
    "pn_parent (?tp ! j) = pn_parent (tp ! j)" for j
    using c by (simp_all add: nth_list_update)
  show sl: "slots ?tp = slots tp" by (simp add: slots_def taken_def nth)
  have "node_ok md cell p0 ?tp j" if "j \<in> slots tp" for j
    using nodes_okD [OF assms(1) that] assms(3) c
    by (auto simp: node_ok_def nth pos_of_def sl nth_list_update split: option.splits)
  then show "nodes_ok md cell p0 ?tp"
    using c sl nodes_ok_zero [OF assms(1)] assms(2) by (auto simp: nodes_ok_def slots_def nth_list_update)
qed

section \<open>The open set\<close>

lemma heap_ok_cong:
  "(\<And>i. i \<in> set xs \<Longrightarrow> f_cost (tp' ! i) = f_cost (tp ! i)) \<Longrightarrow>
   heap_ok (NODE_MINTOPCMP tp') xs = heap_ok (NODE_MINTOPCMP tp) xs"
proof -
  assume "\<And>i. i \<in> set xs \<Longrightarrow> f_cost (tp' ! i) = f_cost (tp ! i)"
  moreover have "j < length xs \<Longrightarrow> par j < length xs" for j using le_less_trans [OF par_le] by blast
  ultimately show ?thesis by (simp add: heap_ok_def NODE_MINTOPCMP_def)
qed

lemma heap_ok_Nil: "heap_ok cmp []"
  by (simp add: heap_ok_def)

lemma heap_push_node_ok:
  assumes "vec_wf heap" "heap_ok (NODE_MINTOPCMP tp) (vec_list heap)"
  shows "\<exists>w. heap_push_node tp heap i = Some w \<and> vec_wf w \<and> heap_ok (NODE_MINTOPCMP tp) (vec_list w) \<and>
    mset (vec_list w) = add_mset i (mset (vec_list heap)) \<and> vec_len w = Suc (vec_len heap)"
proof -
  obtain v where v: "VECTOR_ENSURE 0 heap 1 256 = Some v" "vec_wf v" "vec_list v = vec_list heap"
    "vec_len v = vec_len heap" "1 + vec_len v \<le> vec_max v"
    using VECTOR_ENSURE_ok [OF assms(1), of 256 0 1] by auto
  then show ?thesis
    using node.PUSH2_ok [of v tp i] assms(2) by (auto simp: heap_push_node_def)
qed

lemma set_of_mset_add: "mset xs = add_mset i (mset ys) \<Longrightarrow> set xs = insert i (set ys) \<and> (distinct xs \<longleftrightarrow> i \<notin> set ys \<and> distinct ys)"
  by (metis distinct.simps(2) list.set(2) mset.simps(2) mset_eq_imp_distinct_iff mset_eq_setD)

lemma open_ok_push:
  assumes "open_ok tp heap" "i \<notin> set (vec_list heap)" "i \<in> slots tp'" "pn_flag (tp' ! i) = SET_OPEN"
    and "slots tp' = insert i (slots tp)" "\<And>j. j \<noteq> i \<Longrightarrow> tp' ! j = tp ! j"
    and "f_cost (tp1 ! i) = f_cost (tp' ! i)" "\<And>j. j \<noteq> i \<Longrightarrow> tp1 ! j = tp ! j"
  shows "\<exists>w. heap_push_node tp1 heap i = Some w \<and> open_ok tp' w \<and> vec_len w = Suc (vec_len heap)"
proof -
  have "heap_ok (NODE_MINTOPCMP tp1) (vec_list heap)"
    using assms(1,2,8) heap_ok_cong [of "vec_list heap" tp1 tp] by (metis open_ok_def)
  then obtain w where w: "heap_push_node tp1 heap i = Some w" "vec_wf w" "heap_ok (NODE_MINTOPCMP tp1) (vec_list w)"
    "mset (vec_list w) = add_mset i (mset (vec_list heap))" "vec_len w = Suc (vec_len heap)"
    using heap_push_node_ok [of heap tp1 i] assms(1) by (auto simp: open_ok_def)
  have "heap_ok (NODE_MINTOPCMP tp') (vec_list w)"
    using w(3) heap_ok_cong [of "vec_list w" tp' tp1] assms(6-8) by metis
  moreover have "set (vec_list w) = insert i (set (vec_list heap))" "distinct (vec_list w)"
    using set_of_mset_add [OF w(4)] assms(1,2) by (auto simp: open_ok_def)
  moreover have "insert i {j \<in> slots tp. pn_flag (tp ! j) = SET_OPEN} = {j \<in> slots tp'. pn_flag (tp' ! j) = SET_OPEN}"
    using assms(2-6) by (auto simp: open_ok_def) (metis)+
  ultimately show ?thesis using w assms(1) by (auto simp: open_ok_def)
qed

lemma open_ok_update:
  assumes "open_ok tp heap" "i \<in> set (vec_list heap)" "slots tp' = slots tp" "pn_flag (tp' ! i) = SET_OPEN"
    and "\<And>j. j \<noteq> i \<Longrightarrow> tp' ! j = tp ! j" "f_cost (tp1 ! i) = f_cost (tp' ! i)" "\<And>j. j \<noteq> i \<Longrightarrow> tp1 ! j = tp ! j"
  shows "\<exists>w. heap_update_node tp1 heap i = (0, w) \<and> open_ok tp' w \<and> vec_len w = vec_len heap"
proof -
  let ?xs = "vec_list heap"
  define k where "k = arr_find (\<lambda>n. n = i) ?xs"
  have wf: "vec_wf heap" and d: "distinct ?xs" using assms(1) by (simp_all add: open_ok_def)
  have k: "k < length ?xs" "?xs ! k = i"
    using assms(2) arr_find_lt_iff [of "\<lambda>n. n = i" ?xs] arr_find_nth [of "\<lambda>n. n = i" ?xs]
    by (auto simp: k_def)
  have "hole_ok (NODE_MINTOPCMP tp1) ?xs k"
  proof (rule node.change_hole)
    show "heap_ok (NODE_MINTOPCMP tp) ?xs" using assms(1) by (simp add: open_ok_def)
    fix a b assume "a < length ?xs" "b < length ?xs" "a \<noteq> k" "b \<noteq> k"
    then have "?xs ! a \<noteq> i" "?xs ! b \<noteq> i" using d k by (auto simp: nth_eq_iff_index_eq)
    then show "NODE_MINTOPCMP tp1 (?xs ! a) (?xs ! b) = NODE_MINTOPCMP tp (?xs ! a) (?xs ! b)"
      using assms(7) by (simp add: NODE_MINTOPCMP_def)
  qed (rule k(1))
  then have u: "vec_wf (BHEAP_UPDATE (NODE_MINTOPCMP tp1) heap k)"
    "heap_ok (NODE_MINTOPCMP tp1) (vec_list (BHEAP_UPDATE (NODE_MINTOPCMP tp1) heap k))"
    "mset (vec_list (BHEAP_UPDATE (NODE_MINTOPCMP tp1) heap k)) = mset ?xs"
    "vec_len (BHEAP_UPDATE (NODE_MINTOPCMP tp1) heap k) = vec_len heap"
    using node.UPDATE_ok [OF wf, of k tp1] k wf by auto
  let ?w = "BHEAP_UPDATE (NODE_MINTOPCMP tp1) heap k"
  have "heap_update_node tp1 heap i = (0, ?w)"
    using k(1) wf by (simp add: heap_update_node_def k_def [symmetric])
  moreover have "heap_ok (NODE_MINTOPCMP tp') (vec_list ?w)"
    using u(2) heap_ok_cong [of "vec_list ?w" tp' tp1] assms(5-7) by metis
  moreover have "set (vec_list ?w) = set ?xs" "distinct (vec_list ?w)"
    using u(3) d mset_eq_setD mset_eq_imp_distinct_iff by blast+
  moreover have "{j \<in> slots tp. pn_flag (tp ! j) = SET_OPEN} = {j \<in> slots tp'. pn_flag (tp' ! j) = SET_OPEN}"
    using assms by (auto simp: open_ok_def) (metis)+
  ultimately show ?thesis using u assms(1) by (auto simp: open_ok_def)
qed

section \<open>Work left\<close>

text \<open>
  What bounds the loop: a node's cost only falls, a free slot weighs more than any cost, and
  each of these outweighs the entry it may add to the open set.
\<close>

definition weight :: "path_node list \<Rightarrow> nat \<Rightarrow> nat" where
  "weight tp i = (if taken tp i then nat (g_cost (tp ! i)) else 20000)"

definition work :: "nat vec \<Rightarrow> path_node list \<Rightarrow> nat" where
  "work heap tp = 2 * (\<Sum>i<1024. weight tp i) + vec_len heap"

lemma weight_sum_less:
  assumes "i < 1024" "\<And>j. j \<noteq> i \<Longrightarrow> tp' ! j = tp ! j" "weight tp' i < weight tp i"
  shows "(\<Sum>j<1024. weight tp' j) < (\<Sum>j<1024. weight tp j)"
proof (rule sum_strict_mono_ex1)
  show "\<forall>j \<in> {..<1024}. weight tp' j \<le> weight tp j"
    using assms(2,3) by (metis le_refl less_imp_le weight_def taken_def)
  show "\<exists>j \<in> {..<1024}. weight tp' j < weight tp j" using assms by blast
qed simp

section \<open>One neighbour\<close>

definition state_ok :: "map_data \<Rightarrow> cell_chk \<Rightarrow> int \<times> int \<Rightarrow> astate \<Rightarrow> bool" where
  "state_ok md cell p0 s \<longleftrightarrow> nodes_ok md cell p0 (snd s) \<and> open_ok (snd s) (fst s)"

text \<open>The node being expanded is in slot \<open>c\<close>, at \<open>p\<close> with cost \<open>g\<close>.\<close>

definition at_slot :: "astate \<Rightarrow> nat \<Rightarrow> int \<times> int \<Rightarrow> int \<Rightarrow> bool" where
  "at_slot s c p g \<longleftrightarrow> c \<in> slots (snd s) \<and> pos_of (snd s) c = p \<and> g_cost (snd s ! c) = g"

lemma add_path_ok:
  assumes ok: "state_ok md cell p0 s" and c: "at_slot s c p g"
    and l: "legal_step md cell p (x, y)" and cost: "g + 10 \<le> g'" "g' \<le> g + 14"
  shows "\<exists>e s'. add_path s x y g' c h = Some (e, s') \<and> 0 \<le> e \<and> state_ok md cell p0 s' \<and> at_slot s' c p g \<and>
    work (fst s') (snd s') \<le> work (fst s) (snd s)"
proof -
  obtain heap tp where s: "s = (heap, tp)" by (cases s)
  have ok': "nodes_ok md cell p0 tp" "open_ok tp heap" and c': "c \<in> slots tp" "pos_of tp c = p" "g_cost (tp ! c) = g"
    using ok c by (simp_all add: s state_ok_def at_slot_def)
  define i where "i = calc_index x y"
  have i: "i < 1024" "length tp = 1024" using ok'(1) by (simp_all add: i_def nodes_ok_def)
  have g: "0 \<le> g" "g + 14 \<le> 14336"
  proof -
    have "g + 14 \<le> 14 * int (card (slots tp))" "0 \<le> g"
      using nodes_okD [OF ok'(1) c'(1)] c'(3) by (auto simp: node_ok_def)
    then show "0 \<le> g" "g + 14 \<le> 14336" using card_slots [of tp] by linarith+
  qed
  then have g16: "to_int16 g' = g'" using cost by simp
  have zero: "g_cost (tp ! i) = 0" if "i \<notin> slots tp"
    using nodes_ok_zero [OF ok'(1) i(1) that] by (simp add: path_zero_def)
  have free_zero: "pn_x (tp ! i) = 0 \<and> pn_y (tp ! i) = 0" if "i \<notin> slots tp"
    using that i by (simp add: slots_def taken_def)
  have len: "vec_len heap = length (vec_list heap)" using ok'(2) by (simp add: open_ok_def)
  consider (keep) "pn_x (tp ! i) = x \<and> pn_y (tp ! i) = y" "\<not> g' < g_cost (tp ! i)"
    | (better) "pn_x (tp ! i) = x \<and> pn_y (tp ! i) = y" "g' < g_cost (tp ! i)"
    | (other) "\<not> (pn_x (tp ! i) = x \<and> pn_y (tp ! i) = y)" "pn_x (tp ! i) \<noteq> 0 \<or> pn_y (tp ! i) \<noteq> 0"
    | (fresh) "\<not> (pn_x (tp ! i) = x \<and> pn_y (tp ! i) = y)" "pn_x (tp ! i) = 0 \<and> pn_y (tp ! i) = 0"
    by blast
  then show ?thesis
  proof cases
    case keep
    then show ?thesis using ok c by (simp add: add_path_def s Let_def i_def [symmetric])
  next
    case other
    then show ?thesis using ok c by (auto simp: add_path_def s Let_def i_def [symmetric])
  next
    case better
    have isl: "i \<in> slots tp" using better zero cost g by fastforce
    then have nz: "(x, y) \<noteq> (0, 0)" using better(1) by (auto simp: slots_def taken_def)
    define n1 where "n1 = (tp ! i)\<lparr>g_cost := g', pn_parent := Some c, f_cost := to_int16 (g' + h)\<rparr>"
    define n where "n = n1\<lparr>pn_flag := SET_OPEN\<rparr>"
    define tp1 where "tp1 = tp[i := n1]"
    define tp' where "tp' = tp[i := n]"
    have tp1i: "tp1[i := n] = tp'" "tp1 ! i = n1" "tp' ! i = n" "\<And>j. j \<noteq> i \<Longrightarrow> tp1 ! j = tp ! j"
      "\<And>j. j \<noteq> i \<Longrightarrow> tp' ! j = tp ! j"
      using i by (simp_all add: tp1_def tp'_def)
    have st: "nodes_ok md cell p0 tp'" "slots tp' = insert i (slots tp)" "i \<noteq> c"
      unfolding tp'_def
      by (rule nodes_ok_store [OF ok'(1) c'(1), where n = n and i = i];
          use better nz l c' cost in \<open>simp add: n_def n1_def i_def pos_of_def\<close>)+
    have w: "weight tp' i < weight tp i"
      using isl better(2) st(2) g cost tp1i(3)
      by (auto simp: weight_def slots_def n_def n1_def taken_def)
    have ws: "(\<Sum>j<1024. weight tp' j) < (\<Sum>j<1024. weight tp j)"
      by (rule weight_sum_less [OF i(1) tp1i(5) w])
    have at: "at_slot (heap', tp') c p g" for heap'
      using c' st(2,3) tp1i(5) by (simp add: at_slot_def pos_of_def)
    have fl: "pn_flag (tp ! i) \<in> {SET_OPEN, SET_CLOSED}"
      using nodes_okD [OF ok'(1) isl] by (simp add: node_ok_def)
    show ?thesis
    proof (cases "pn_flag (tp ! i) = SET_CLOSED")
      case True
      then have "i \<notin> set (vec_list heap)" using ok'(2) by (simp add: open_ok_def path_consts)
      then obtain v where "heap_push_node tp1 heap i = Some v" "open_ok tp' v" "vec_len v = Suc (vec_len heap)"
        using open_ok_push [OF ok'(2), of i tp' tp1] st(2) tp1i by (auto simp: n_def)
      then show ?thesis
        using better True st at ws tp1i g16
        by (simp add: add_path_def s Let_def i_def [symmetric] n1_def [symmetric] tp1_def [symmetric]
            n_def [symmetric] state_ok_def work_def) (simp add: n1_def)
    next
      case False
      then have "i \<in> set (vec_list heap)" using ok'(2) fl isl by (simp add: open_ok_def)
      moreover have "slots tp' = slots tp" using st(2) isl by (simp add: insert_absorb)
      ultimately obtain v where "heap_update_node tp1 heap i = (0, v)" "open_ok tp' v" "vec_len v = vec_len heap"
        using open_ok_update [OF ok'(2), of i tp' tp1] tp1i by (auto simp: n_def)
      then show ?thesis
        using better False st at ws tp1i g16
        by (simp add: add_path_def s Let_def i_def [symmetric] n1_def [symmetric] tp1_def [symmetric]
            n_def [symmetric] state_ok_def work_def) (simp add: n1_def)
    qed
  next
    case fresh
    then have isl: "i \<notin> slots tp" by (simp add: slots_def taken_def)
    have nz: "(x, y) \<noteq> (0, 0)" using fresh by auto
    define n where "n = (tp ! i)\<lparr>pn_x := x, pn_y := y, g_cost := g', pn_parent := Some c,
      f_cost := to_int16 (g' + h), pn_flag := SET_OPEN\<rparr>"
    define tp' where "tp' = tp[i := n]"
    have tpi: "tp' ! i = n" "\<And>j. j \<noteq> i \<Longrightarrow> tp' ! j = tp ! j"
      using i by (simp_all add: tp'_def)
    have st: "nodes_ok md cell p0 tp'" "slots tp' = insert i (slots tp)" "i \<noteq> c"
      unfolding tp'_def
      by (rule nodes_ok_store [OF ok'(1) c'(1), where n = n and i = i]; use isl nz l c' cost in \<open>simp add: n_def i_def\<close>)+
    have w: "weight tp' i < weight tp i"
      using isl i st(2) g cost tpi(1) nz by (auto simp: weight_def slots_def n_def taken_def)
    have ws: "(\<Sum>j<1024. weight tp' j) < (\<Sum>j<1024. weight tp j)"
      by (rule weight_sum_less [OF i(1) tpi(2) w])
    have "i \<notin> set (vec_list heap)" using ok'(2) isl by (simp add: open_ok_def)
    then obtain v where "heap_push_node tp' heap i = Some v" "open_ok tp' v" "vec_len v = Suc (vec_len heap)"
      using open_ok_push [OF ok'(2), of i tp' tp'] st(2) tpi by (auto simp: n_def)
    moreover have "at_slot (v, tp') c p g"
      using c' st(2,3) tpi(2) by (simp add: at_slot_def pos_of_def)
    ultimately show ?thesis
      using fresh st ws g16 by (auto simp: add_path_def s Let_def i_def [symmetric] tp'_def n_def state_ok_def work_def)
  qed
qed

section \<open>One turn of the loop\<close>

lemma chk_dir_or: "chk_dir a (d OR e) \<longleftrightarrow> chk_dir a d \<and> chk_dir a e"
  by (auto simp: chk_dir_def bit_eq_iff bit_simps)

lemma chk_dir_allowed:
  "chk_dir (allowed_dirs md cell xs ys x y) DIR_NORTH \<Longrightarrow> map_getcellp md x (y + 1) cell = 0"
  "chk_dir (allowed_dirs md cell xs ys x y) DIR_SOUTH \<Longrightarrow> map_getcellp md x (y - 1) cell = 0"
  "chk_dir (allowed_dirs md cell xs ys x y) DIR_EAST \<Longrightarrow> map_getcellp md (x + 1) y cell = 0"
  "chk_dir (allowed_dirs md cell xs ys x y) DIR_WEST \<Longrightarrow> map_getcellp md (x - 1) y cell = 0"
  by (auto simp: chk_dir_def allowed_dirs_def DIR_NORTH_def DIR_SOUTH_def DIR_EAST_def DIR_WEST_def
      split: if_splits)

lemma legal_stepI:
  assumes "\<bar>dx\<bar> \<le> 1" "\<bar>dy\<bar> \<le> 1" "dx \<noteq> 0 \<or> dy \<noteq> 0" "free md cell (x + dx, y + dy)"
    and "dx \<noteq> 0 \<Longrightarrow> free md cell (x + dx, y)" "dy \<noteq> 0 \<Longrightarrow> free md cell (x, y + dy)"
  shows "legal_step md cell (x, y) (x + dx, y + dy)"
proof -
  obtain d where "walk_choice dx dy = Some d" "0 \<le> d" "d < 8" "dirx ! nat d = dx" "diry ! nat d = dy"
    using walk_choice_step [OF assms(1-3)] by metis
  then show ?thesis using assms by (auto simp: legal_step_def step_to_def cuts_no_corner_def)
qed

lemma neighbours_legal:
  assumes "(d, dx, dy, cost) \<in> set neighbours" "chk_dir (allowed_dirs md cell xs ys x y) d"
    and "dx \<noteq> 0 \<and> dy \<noteq> 0 \<longrightarrow> map_getcellp md (x + dx) (y + dy) cell = 0"
  shows "legal_step md cell (x, y) (x + dx, y + dy) \<and> 10 \<le> cost \<and> cost \<le> 14"
proof
  show "10 \<le> cost \<and> cost \<le> 14" using assms(1) by (auto simp: neighbours_def path_consts)
  show "legal_step md cell (x, y) (x + dx, y + dy)"
    by (rule legal_stepI)
      (use assms in \<open>auto simp: neighbours_def chk_dir_or free_def dest: chk_dir_allowed\<close>)
qed

lemma expand_ok:
  assumes "set ns \<subseteq> set neighbours" "state_ok md cell p0 s" "at_slot s c (x, y) g"
  shows "\<exists>e' s'. expand md cell x1 y1 c x y g (allowed_dirs md cell xs ys x y) ns e s = Some (e', s') \<and>
    state_ok md cell p0 s' \<and> work (fst s') (snd s') \<le> work (fst s) (snd s)"
  using assms
proof (induction ns arbitrary: e s)
  case (Cons a ns)
  obtain d dx dy cost where a: "a = (d, dx, dy, cost)" by (cases a)
  show ?case
  proof (cases "chk_dir (allowed_dirs md cell xs ys x y) d \<and>
      (dx \<noteq> 0 \<and> dy \<noteq> 0 \<longrightarrow> map_getcellp md (x + dx) (y + dy) cell = 0)")
    case False
    then have "expand md cell x1 y1 c x y g (allowed_dirs md cell xs ys x y) (a # ns) e s =
        expand md cell x1 y1 c x y g (allowed_dirs md cell xs ys x y) ns e s"
      by (simp only: a expand.simps if_False)
    then show ?thesis using Cons.IH [of s e] Cons.prems by simp
  next
    case True
    have lg: "legal_step md cell (x, y) (x + dx, y + dy)" "10 \<le> cost" "cost \<le> 14"
      using neighbours_legal [of d dx dy cost md cell xs ys x y] Cons.prems(1) True by (auto simp: a)
    let ?h = "heuristic (x + dx) (y + dy) x1 y1"
    obtain e' s' where s': "add_path s (x + dx) (y + dy) (g + cost) c ?h = Some (e', s')" "state_ok md cell p0 s'"
      "at_slot s' c (x, y) g" "work (fst s') (snd s') \<le> work (fst s) (snd s)"
      using add_path_ok [OF Cons.prems(2,3) lg(1), of "g + cost" ?h] lg by auto
    have "expand md cell x1 y1 c x y g (allowed_dirs md cell xs ys x y) (a # ns) e s =
        expand md cell x1 y1 c x y g (allowed_dirs md cell xs ys x y) ns (e + e') s'"
      using True s'(1) by (simp add: a)
    then show ?thesis using Cons.IH [of s' "e + e'"] Cons.prems(1) s' by fastforce
  qed
qed auto

lemma astar_loop_ok:
  assumes "state_ok md cell p0 s"
  shows "\<exists>r. astar_loop md cell xs ys x1 y1 s = Some r \<and>
    (\<forall>c tp. r = Some (c, tp) \<longrightarrow> nodes_ok md cell p0 tp \<and> c \<in> slots tp \<and> pos_of tp c = (x1, y1))"
  using assms
proof (induction "work (fst s) (snd s)" arbitrary: s rule: less_induct)
  case less
  obtain heap tp where s: "s = (heap, tp)" by (cases s)
  have ok: "nodes_ok md cell p0 tp" "open_ok tp heap" using less.prems by (simp_all add: s state_ok_def)
  have wf: "vec_wf heap" "heap_ok (NODE_MINTOPCMP tp) (vec_list heap)" "distinct (vec_list heap)"
    using ok(2) by (simp_all add: open_ok_def)
  show ?case
  proof (cases "vec_len heap = 0")
    case True
    then show ?thesis by (simp add: s astar_loop.simps)
  next
    case False
    define c where "c = vec_list heap ! 0"
    obtain w where w: "BHEAP_POP2 (NODE_MINTOPCMP tp) heap = Some w" "vec_wf w"
      "heap_ok (NODE_MINTOPCMP tp) (vec_list w)" "mset (vec_list w) = mset (vec_list heap) - {#c#}"
      "vec_len w = vec_len heap - 1"
      using node.POP2_ok [OF wf(1) _ wf(2)] False by (auto simp: c_def)
    have pk: "BHEAP_PEEK heap = Some c" using BHEAP_PEEK_ok [OF wf(1)] False by (simp add: c_def)
    have ch: "c \<in> set (vec_list heap)" using False wf(1) by (simp add: c_def)
    then have cs: "c \<in> slots tp" using ok(2) by (auto simp: open_ok_def)
    have add: "mset (vec_list heap) = add_mset c (mset (vec_list w))" using w(4) ch by simp
    define tp' where "tp' = tp[c := (tp ! c)\<lparr>pn_flag := SET_CLOSED\<rparr>]"
    have cl: "c < length tp" using ok(1) cs by (simp add: nodes_ok_def slots_def)
    have nth: "tp' ! j = (if j = c then (tp ! c)\<lparr>pn_flag := SET_CLOSED\<rparr> else tp ! j)" for j
      using cl by (simp add: tp'_def)
    have nok: "nodes_ok md cell p0 tp'" and sl: "slots tp' = slots tp"
      unfolding tp'_def using nodes_ok_flag [OF ok(1) cs, of SET_CLOSED] by simp_all
    have "heap_ok (NODE_MINTOPCMP tp') (vec_list w)"
      using w(3) heap_ok_cong [of "vec_list w" tp' tp] by (simp add: nth)
    moreover have "set (vec_list heap) = insert c (set (vec_list w))" "c \<notin> set (vec_list w)" "distinct (vec_list w)"
      using set_of_mset_add [OF add] wf(3) by auto
    moreover have "{i \<in> slots tp'. pn_flag (tp' ! i) = SET_OPEN} = {i \<in> slots tp. pn_flag (tp ! i) = SET_OPEN} - {c}"
      by (auto simp: sl nth path_consts)
    ultimately have ook: "open_ok tp' w" using ok(2) w(2) by (auto simp: open_ok_def)
    have "weight tp' j = weight tp j" for j by (auto simp: weight_def taken_def nth)
    then have wk: "work w tp' < work heap tp" using w(5) False by (simp add: work_def)
    have st: "state_ok md cell p0 (w, tp')" using nok ook by (simp add: state_ok_def)
    have pos: "pn_x (tp ! c) = fst (pos_of tp' c)" "pn_y (tp ! c) = snd (pos_of tp' c)"
      by (simp_all add: pos_of_def nth)
    show ?thesis
    proof (cases "pn_x (tp ! c) = x1 \<and> pn_y (tp ! c) = y1")
      case True
      then have "astar_loop md cell xs ys x1 y1 s = Some (Some (c, tp'))"
        using False pk w(1) by (simp add: s astar_loop.simps tp'_def)
      then show ?thesis using nok cs sl pos True by (auto simp: prod_eq_iff)
    next
      case nf: False
      have at: "at_slot (w, tp') c (pn_x (tp ! c), pn_y (tp ! c)) (g_cost (tp ! c))"
        using cs sl pos by (simp add: at_slot_def nth)
      obtain e s' where e: "expand md cell x1 y1 c (pn_x (tp ! c)) (pn_y (tp ! c)) (g_cost (tp ! c))
          (allowed_dirs md cell xs ys (pn_x (tp ! c)) (pn_y (tp ! c))) neighbours 0 (w, tp') = Some (e, s')"
        "state_ok md cell p0 s'" "work (fst s') (snd s') \<le> work w tp'"
        using expand_ok [OF subset_refl st at] by fastforce
      have un: "astar_loop md cell xs ys x1 y1 s = (if e \<noteq> 0 then Some None else astar_loop md cell xs ys x1 y1 s')"
        using False pk w(1) nf e(1)
        by (subst astar_loop.simps) (auto simp: s Let_def tp'_def)
      show ?thesis
      proof (cases "e = 0")
        case True
        have "work (fst s') (snd s') < work (fst s) (snd s)" using e(3) wk by (simp add: s)
        then show ?thesis using less.hyps [of s'] e(2) un True by simp
      qed (use un in simp)
    qed
  qed
qed

section \<open>Reading the path back\<close>

lemma chain_walk:
  assumes "nodes_ok md cell p0 tp" "c \<in> slots tp"
  shows "\<exists>ds. (\<forall>l. chain_len tp c l = Some (l + length ds)) \<and> strict_walk md cell ds p0 \<and>
    walk_end ds p0 = pos_of tp c \<and>
    (\<forall>p. length ds \<le> length p \<longrightarrow> write_path tp c (length ds) p = Some (ds @ drop (length ds) p))"
  using assms(2)
proof (induction "nat (g_cost (tp ! c))" arbitrary: c rule: less_induct)
  case less
  have n: "node_ok md cell p0 tp c" by (rule nodes_okD [OF assms(1) less.prems])
  show ?case
  proof (cases "pn_parent (tp ! c)")
    case None
    then show ?thesis using n by (intro exI [of _ "[]"]) (auto simp: node_ok_def chain_len.simps)
  next
    case (Some q)
    then have q: "q \<in> slots tp" "g_cost (tp ! q) + 10 \<le> g_cost (tp ! c)"
      "legal_step md cell (pos_of tp q) (pos_of tp c)" using n by (simp_all add: node_ok_def)
    have "0 \<le> g_cost (tp ! q)" using nodes_okD [OF assms(1) q(1)] by (simp add: node_ok_def)
    then have "nat (g_cost (tp ! q)) < nat (g_cost (tp ! c))" using q(2) by linarith
    from less.hyps [OF this q(1)] obtain ds where
      ds: "\<forall>l. chain_len tp q l = Some (l + length ds)" "strict_walk md cell ds p0" "walk_end ds p0 = pos_of tp q"
      "\<forall>p. length ds \<le> length p \<longrightarrow> write_path tp q (length ds) p = Some (ds @ drop (length ds) p)" by blast
    obtain d where d: "walk_choice (fst (pos_of tp c) - fst (pos_of tp q)) (snd (pos_of tp c) - snd (pos_of tp q)) = Some d"
      "0 \<le> d" "d < 8" "step_to d (pos_of tp q) = pos_of tp c" "free md cell (pos_of tp c)"
      "cuts_no_corner md cell d (pos_of tp q)" using q(3) unfolding legal_step_def by blast
    have "write_path tp c (length (ds @ [d])) p = Some ((ds @ [d]) @ drop (length (ds @ [d])) p)"
      if l: "length (ds @ [d]) \<le> length p" for p
    proof -
      have "drop (length ds) (p[length ds := d]) = d # drop (Suc (length ds)) p"
        using l by (simp add: Cons_nth_drop_Suc [symmetric])
      then show ?thesis using ds(4) [rule_format, of "p[length ds := d]"] d(1) l Some by (simp add: pos_of_def)
    qed
    moreover have "chain_len tp c l = Some (l + length (ds @ [d]))" for l
      using ds(1) Some by (simp add: chain_len.simps [of tp c])
    ultimately show ?thesis
      using ds d by (intro exI [of _ "ds @ [d]"]) (auto simp: walk_end_append strict_walk_append)
  qed
qed

lemma astar_start_ok:
  assumes "(x0, y0) \<noteq> (0, 0)"
    and "tp = (replicate 1024 path_zero)[calc_index x0 y0 := \<lparr>pn_parent = None, pn_x = x0, pn_y = y0, g_cost = 0,
           f_cost = f, pn_flag = SET_OPEN\<rparr>]"
  shows "\<exists>heap. heap_push_node tp VECTOR_INIT (calc_index x0 y0) = Some heap \<and>
    state_ok md cell (x0, y0) (heap, tp)"
proof -
  let ?i = "calc_index x0 y0"
  define n where "n = \<lparr>pn_parent = None, pn_x = x0, pn_y = y0, g_cost = 0, f_cost = f, pn_flag = SET_OPEN\<rparr>"
  have nth: "tp ! j = (if j = ?i then n else path_zero)" if "j < 1024" for j
    using that by (simp add: assms(2) n_def)
  have sl: "slots tp = {?i}"
    using assms(1) by (auto simp: slots_def taken_def nth n_def path_zero_def split: if_splits)
  have len: "length tp = 1024" by (simp add: assms(2))
  have ni: "tp ! ?i = n" by (rule trans [OF nth]) simp_all
  have "node_ok md cell (x0, y0) tp ?i"
    by (simp add: node_ok_def pos_of_def ni sl) (simp add: n_def pos_of_def ni)
  moreover have "taken tp j \<longleftrightarrow> j = ?i" if "j < 1024" for j using sl that by (auto simp: slots_def)
  ultimately have "nodes_ok md cell (x0, y0) tp"
    using len nth by (auto simp: nodes_ok_def)
  moreover obtain heap where "heap_push_node tp VECTOR_INIT ?i = Some heap" "vec_wf heap"
    "heap_ok (NODE_MINTOPCMP tp) (vec_list heap)" "mset (vec_list heap) = {#?i#}"
    using heap_push_node_ok [of VECTOR_INIT tp ?i, OF _ heap_ok_Nil [folded vec_wf_INIT(2)]] by auto
  moreover have "vec_list heap = [?i]" using calculation(5) by simp
  moreover have "pn_flag (tp ! ?i) = SET_OPEN" by (simp add: ni n_def)
  ultimately show ?thesis using sl by (auto simp: state_ok_def open_ok_def)
qed

lemma astar_search_ok:
  assumes "(x0, y0) \<noteq> (0, 0)" "length (wpath wpd) = MAX_WALKPATH"
  shows "\<exists>ok wpd'. astar_search md cell wpd x0 y0 x1 y1 = Some (ok, wpd') \<and>
    (ok \<longrightarrow> path_len wpd' \<le> MAX_WALKPATH \<and> path_pos wpd' = 0 \<and>
       walk_end (take (path_len wpd') (wpath wpd')) (x0, y0) = (x1, y1) \<and>
       strict_walk md cell (take (path_len wpd') (wpath wpd')) (x0, y0))"
proof -
  define tp where "tp = (replicate 1024 path_zero)[calc_index x0 y0 := \<lparr>pn_parent = None, pn_x = x0, pn_y = y0,
    g_cost = 0, f_cost = to_int16 (heuristic x0 y0 x1 y1), pn_flag = SET_OPEN\<rparr>]"
  obtain heap where h: "heap_push_node tp VECTOR_INIT (calc_index x0 y0) = Some heap"
    "state_ok md cell (x0, y0) (heap, tp)"
    using astar_start_ok [OF assms(1) tp_def] by blast
  obtain r where r: "astar_loop md cell (md_xs md - 1) (md_ys md - 1) x1 y1 (heap, tp) = Some r"
    "\<forall>c tp. r = Some (c, tp) \<longrightarrow> nodes_ok md cell (x0, y0) tp \<and> c \<in> slots tp \<and> pos_of tp c = (x1, y1)"
    using astar_loop_ok [OF h(2)] by blast
  show ?thesis
  proof (cases r)
    case None
    then show ?thesis using h r by (auto simp: astar_search_def tp_def [symmetric])
  next
    case (Some ct)
    obtain c tp' where ct: "ct = (c, tp')" by (cases ct)
    then have n: "nodes_ok md cell (x0, y0) tp'" "c \<in> slots tp'" "pos_of tp' c = (x1, y1)"
      using r(2) Some by auto
    obtain ds where ds: "\<forall>l. chain_len tp' c l = Some (l + length ds)" "strict_walk md cell ds (x0, y0)"
      "walk_end ds (x0, y0) = (x1, y1)"
      "\<forall>p. length ds \<le> length p \<longrightarrow> write_path tp' c (length ds) p = Some (ds @ drop (length ds) p)"
      using chain_walk [OF n(1,2)] n(3) by auto
    show ?thesis
      using h r Some ct ds assms(2)
      by (auto simp: astar_search_def tp_def [symmetric] not_le)
  qed
qed

text \<open>
  C3. A path the A* search reports can be walked: following its directions from the start
  leads to the target through free cells only, never cutting the corner of a blocked cell, in
  at most 32 steps. The start must not be the cell \<open>(0, 0)\<close>, which the node array cannot
  tell from a free slot.
\<close>

theorem path_search_sound:
  assumes "map_of_id ml m = Some md" "(x0, y0) \<noteq> (0, 0)" "flag AND 1 = 0" "length (wpath wpd) = MAX_WALKPATH"
    and "path_search ml wpd m x0 y0 x1 y1 flag cell = Some (True, wpd')"
  shows "path_len wpd' \<le> MAX_WALKPATH \<and> path_pos wpd' = 0 \<and>
    walk_end (take (path_len wpd') (wpath wpd')) (x0, y0) = (x1, y1) \<and>
    strict_walk md cell (take (path_len wpd') (wpath wpd')) (x0, y0)"
proof (cases "(x0, y0) = (x1, y1)")
  case True
  then show ?thesis using assms by (auto simp: path_search_def split: if_splits)
next
  case False
  then have "astar_search md cell wpd x0 y0 x1 y1 = Some (True, wpd')"
    using assms(1,3,5) by (auto simp: path_search_def split: if_splits)
  then show ?thesis using astar_search_ok [OF assms(2,4), of md cell x1 y1] by auto
qed

lemma some_pair: "(\<exists>a b. x = Some (a, b)) \<longleftrightarrow> x \<noteq> None"
  by (cases x) auto

text \<open>
  C15. From every start but the cell (0, 0) the search returns, whatever the map, the target and the
  kind of search, easy or A*. That start is excluded because the node array cannot tell it from a
  free slot, and the loop that counts the steps of a path may then not end.
\<close>

theorem path_search_returns:
  assumes "(x0, y0) \<noteq> (0, 0)" "length (wpath wpd) = MAX_WALKPATH"
  shows "\<exists>ok wpd'. path_search ml wpd m x0 y0 x1 y1 flag cell = Some (ok, wpd')"
proof (cases "map_of_id ml m")
  case None
  then show ?thesis by (auto simp: path_search_def)
next
  case (Some md)
  show ?thesis
  proof (cases "(x0, y0) = (x1, y1) \<or> map_getcellp md x1 y1 cell \<noteq> 0")
    case True
    then show ?thesis using Some by (auto simp: path_search_def)
  next
    case False
    have a: "\<exists>ok wpd'. astar_search md cell wpd x0 y0 x1 y1 = Some (ok, wpd')"
      using astar_search_ok [OF assms, of md cell x1 y1] by blast
    have "\<exists>ok wpd'. easy_search md cell wpd x0 y0 x1 y1 = Some (ok, wpd')"
      using easy_search_ok [of x0 y0 x1 y1 md cell wpd] assms(2) False by (auto simp: free_def)
    with a show ?thesis unfolding path_search_def Some some_pair by (simp del: not_None_eq)
  qed
qed

declare astar_loop.simps [code] chain_len.simps [code]

theorem path_search_sound_witness:
  "\<exists>wpd'. path_search open_map \<lparr>path_len = 0, path_pos = 0, wpath = replicate 32 0\<rparr> 0 1 1 2 2 0 CELL_CHKNOPASS
      = Some (True, wpd') \<and>
    walk_end (take (path_len wpd') (wpath wpd')) (1, 1) = (2, 2) \<and>
    strict_walk (open_map ! 0) CELL_CHKNOPASS (take (path_len wpd') (wpath wpd')) (1, 1)"
proof -
  let ?r = "path_search open_map \<lparr>path_len = 0, path_pos = 0, wpath = replicate 32 0\<rparr> 0 1 1 2 2 0 CELL_CHKNOPASS"
  have "map_option fst ?r = Some True" by code_simp
  then obtain wpd' where r: "?r = Some (True, wpd')" by (cases ?r) auto
  have m: "map_of_id open_map 0 = Some (open_map ! 0)" by (simp add: map_of_id_def open_map_def)
  show ?thesis
    using path_search_sound [OF m _ _ _ r] r by (intro exI [of _ wpd']) (simp add: MAX_WALKPATH_def)
qed

theorem path_search_returns_witness:
  "path_search open_map \<lparr>path_len = 0, path_pos = 0, wpath = replicate 32 0\<rparr> 0 1 1 2 2 0 CELL_CHKNOPASS \<noteq> None"
  using path_search_returns [of 1 1 "\<lparr>path_len = 0, path_pos = 0, wpath = replicate 32 0\<rparr>" open_map 0 2 2 0 CELL_CHKNOPASS]
  by (auto simp: MAX_WALKPATH_def)

section \<open>A search from the origin\<close>

text \<open>\<open>n\<close> parent links from slot \<open>i\<close>.\<close>

fun follow :: "path_node list \<Rightarrow> nat \<Rightarrow> nat \<Rightarrow> nat option" where
  "follow tp 0 i = Some i"
| "follow tp (Suc n) i = (case pn_parent (tp ! i) of None \<Rightarrow> None | Some p \<Rightarrow> follow tp n p)"

lemma chain_len_ge: "chain_len tp i l = Some r \<Longrightarrow> l \<le> r"
  by (erule chain_len.raw_induct [rotated, where P = "\<lambda>tp i l r. l \<le> r"])
    (fastforce split: option.splits dest: Suc_leD)

lemma chain_len_follow: "follow tp n i = Some j \<Longrightarrow> chain_len tp i l = chain_len tp j (l + n)"
proof (induction n arbitrary: i l)
  case (Suc n)
  then obtain p where "pn_parent (tp ! i) = Some p" "follow tp n p = Some j" by (auto split: option.splits)
  then show ?case using Suc.IH [of p "l + 1"] by (simp add: chain_len.simps [of tp i])
qed simp

lemma chain_len_cycle:
  assumes "follow tp n i = Some i" "0 < n"
  shows "chain_len tp i l = None"
proof (rule ccontr)
  assume "chain_len tp i l \<noteq> None"
  then obtain r where r: "chain_len tp i l = Some r" by blast
  have "chain_len tp i l = chain_len tp i (l + k * n)" for k
  proof (induction k)
    case (Suc k)
    then show ?case using chain_len_follow [OF assms(1), of "l + k * n"] by (simp add: ac_simps)
  qed simp
  from this [of "Suc r"] have "l + Suc r * n \<le> r" using r chain_len_ge by metis
  moreover obtain m where "n = Suc m" using assms(2) by (cases n) auto
  ultimately show False by simp
qed

lemma follow_update:
  assumes "\<And>k j. k < n \<Longrightarrow> follow tp k i = Some j \<Longrightarrow> j \<noteq> a"
  shows "follow (tp[a := x]) n i = follow tp n i"
  using assms
proof (induction n arbitrary: i)
  case (Suc n)
  have "i \<noteq> a" using Suc.prems [of 0 i] by simp
  moreover have "follow (tp[a := x]) n p = follow tp n p" if "pn_parent (tp ! i) = Some p" for p
    by (rule Suc.IH) (use Suc.prems [of "Suc k" for k] that in auto)
  ultimately show ?case by (auto split: option.splits)
qed simp

text \<open>
  C23. Why the start must not be \<open>(0, 0)\<close>: its slot counts as free, so the cell \<open>(0, 32)\<close>,
  which has the same index, takes it over without an error. If it was reached from the start,
  the parent links of that node then form a cycle, and the loop that measures the path never
  ends.
\<close>

theorem start_at_origin_lost:
  assumes "length tp = 1024" "pn_x (tp ! 0) = 0" "pn_y (tp ! 0) = 0"
    and "vec_wf heap" "heap_ok (NODE_MINTOPCMP tp) (vec_list heap)" "0 \<notin> set (vec_list heap)"
    and "follow tp n c = Some 0" "\<forall>k j. k < n \<longrightarrow> follow tp k c = Some j \<longrightarrow> j \<noteq> 0"
  shows "\<exists>heap' tp'. add_path (heap, tp) 0 32 g c h = Some (0, heap', tp') \<and>
    pos_of tp' 0 = (0, 32) \<and> (\<forall>l. chain_len tp' 0 l = None)"
proof -
  have i: "calc_index 0 32 = 0" by (simp add: calc_index_def)
  define nd where "nd = (tp ! 0)\<lparr>pn_x := 0, pn_y := 32, g_cost := to_int16 g, pn_parent := Some c,
    f_cost := to_int16 (g + h), pn_flag := SET_OPEN\<rparr>"
  define tp' where "tp' = tp[0 := nd]"
  have "heap_ok (NODE_MINTOPCMP tp') (vec_list heap)"
    using assms(5,6) heap_ok_cong [of "vec_list heap" tp' tp] by (metis tp'_def nth_list_update_neq)
  then obtain w where "heap_push_node tp' heap 0 = Some w"
    using heap_push_node_ok [of heap tp' 0] assms(4) by auto
  then have a: "add_path (heap, tp) 0 32 g c h = Some (0, w, tp')"
    using assms(2,3) by (simp add: add_path_def i Let_def tp'_def nd_def)
  have n0: "tp' ! 0 = nd" using assms(1) by (simp add: tp'_def)
  have "follow tp' (Suc n) 0 = follow tp' n c" by (simp add: n0) (simp add: nd_def)
  also have "\<dots> = follow tp n c"
    unfolding tp'_def by (rule follow_update) (use assms(8) in blast)
  finally have "follow tp' (Suc n) 0 = Some 0" using assms(7) by simp
  then have "chain_len tp' 0 l = None" for l using chain_len_cycle by blast
  moreover have "pos_of tp' 0 = (0, 32)" by (simp add: pos_of_def n0 nd_def)
  ultimately show ?thesis using a by blast
qed

theorem start_at_origin_lost_witness:
  "\<exists>heap' tp'. add_path (VECTOR_INIT, (replicate 1024 path_zero)
       [1 := \<lparr>pn_parent = Some 0, pn_x = 0, pn_y = 31, g_cost = 310, f_cost = 320, pn_flag = SET_CLOSED\<rparr>])
       0 32 320 1 0 = Some (0, heap', tp') \<and> (\<forall>l. chain_len tp' 0 l = None)"
proof -
  let ?n = "\<lparr>pn_parent = Some 0, pn_x = 0, pn_y = 31, g_cost = 310, f_cost = 320, pn_flag = SET_CLOSED\<rparr>"
  let ?tp = "(replicate 1024 path_zero)[1 := ?n]"
  have n: "?tp ! 0 = path_zero" "?tp ! Suc 0 = ?n" by simp_all
  obtain heap' tp' where "add_path (VECTOR_INIT, ?tp) 0 32 320 1 0 = Some (0, heap', tp')"
    "\<forall>l. chain_len tp' 0 l = None"
    using start_at_origin_lost [of ?tp VECTOR_INIT 1 1 320 0] by (auto simp: n path_zero_def heap_ok_def)
  then show ?thesis by blast
qed

end
