(* ===== verification/Inventory.thy ===== *)
theory Inventory
  imports Prelude
begin

text \<open>
  Items and what a character carries, from \<open>src/map/pc.c\<close> and \<open>src/map/itemdb.c\<close>: zeny,
  the inventory and the cart. A character is a record of the fields of
  \<open>map_session_data\<close> the modelled operations read or write; \<open>sd->status.inventory\<close> and
  the other item arrays are lists of fixed length, an empty slot being the all-zero item.
  Notifications to clients and logging are left out. The contents of the item database, the
  clock, and the three calls out of this part of the program that change the character
  (\<open>pc_equipitem\<close>, \<open>pc_unequipitem\<close>, \<open>pc_rental_expire\<close>) are fields of \<open>pc_env\<close>.
\<close>

unbundle bit_operations_syntax

definition MAX_INVENTORY :: nat where "MAX_INVENTORY = 100"
definition MAX_CART :: nat where "MAX_CART = 100"
definition MAX_AMOUNT :: int where "MAX_AMOUNT = 30000"
definition MAX_ZENY :: int where "MAX_ZENY = 2147483647"
definition MAX_SLOTS :: nat where "MAX_SLOTS = 4"
definition IBT_ACCOUNT :: int where "IBT_ACCOUNT = 1"
definition IBT_GUILD :: int where "IBT_GUILD = 2"
definition IBT_PARTY :: int where "IBT_PARTY = 3"
definition IBT_CHARACTER :: int where "IBT_CHARACTER = 4"
definition EQP_AMMO :: int where "EQP_AMMO = 32768"

lemmas pc_limits = MAX_INVENTORY_def MAX_CART_def MAX_AMOUNT_def MAX_ZENY_def
lemmas bound_types = IBT_ACCOUNT_def IBT_GUILD_def IBT_PARTY_def IBT_CHARACTER_def

record item =
  i_id :: int
  i_nameid :: int
  i_amount :: int
  i_equip :: int
  i_identify :: int
  i_refine :: int
  i_attribute :: int
  i_card :: "int list"
  i_expire_time :: int
  i_favorite :: int
  i_bound :: int
  i_unique_id :: int

definition zero_item :: item where
  "zero_item = \<lparr>i_id = 0, i_nameid = 0, i_amount = 0, i_equip = 0, i_identify = 0, i_refine = 0,
     i_attribute = 0, i_card = [0, 0, 0, 0], i_expire_time = 0, i_favorite = 0, i_bound = 0, i_unique_id = 0\<rparr>"

datatype item_types =
    IT_HEALING | IT_UNKNOWN | IT_USABLE | IT_ETC | IT_WEAPON | IT_ARMOR | IT_CARD | IT_PETEGG
  | IT_PETARMOR | IT_UNKNOWN2 | IT_AMMO | IT_RESTRICTEDCONSUME | IT_CASH

record item_data =
  d_type :: item_types
  d_weight :: int
  d_slot :: nat
  d_trade_restriction :: int
  d_autoequip :: bool
  d_force_serial :: bool
  stack_amount :: int
  stack_inventory :: bool
  stack_cart :: bool
  stack_storage :: bool
  stack_guildstorage :: bool
  gm_lv_trade_override :: int

datatype storage_flag = STORAGE_FLAG_CLOSED | STORAGE_FLAG_NORMAL | STORAGE_FLAG_GUILD

record map_session_data =
  sd_account_id :: int
  sd_char_id :: int
  sd_partner_id :: int
  sd_party_id :: int
  sd_guild_id :: int
  sd_zeny :: int
  sd_inventory :: "item list"
  sd_inventory_data :: "item_data option list"
  sd_uniqueitem_counter :: int
  sd_weight :: int
  sd_max_weight :: int
  sd_cart :: "item list"
  sd_cart_num :: int
  sd_cart_weight :: int
  sd_cart_weight_max :: int
  sd_storage :: "item list"
  sd_storage_amount :: int
  sd_storage_flag :: storage_flag
  sd_group_level :: int
  perm_trade :: bool
  perm_trade_bound :: bool
  perm_at_trade :: bool
  sd_npc_id :: int
  sd_vending :: bool
  sd_buyingstore :: bool
  sd_trading :: bool
  sd_deal_locked :: int
  sd_trade_partner :: int
  deal_item :: "(int \<times> int) list"
  deal_zeny :: int
  deal_weight :: int
  sd_guild_invite :: int
  sd_party_invite :: int
  sd_adopt_invite :: int
  bl_m :: int
  bl_x :: int
  bl_y :: int

record pc_env =
  e_search :: "int \<Rightarrow> item_data"
  e_exists :: "int \<Rightarrow> bool"
  e_now :: int
  e_equipitem :: "nat \<Rightarrow> map_session_data \<Rightarrow> map_session_data"
  e_unequipitem :: "nat \<Rightarrow> map_session_data \<Rightarrow> map_session_data"
  e_rental_expire :: "nat \<Rightarrow> map_session_data \<Rightarrow> map_session_data"

section \<open>The item database\<close>

fun itemdb_isstackable2 :: "item_data \<Rightarrow> bool" where
  "itemdb_isstackable2 d = (case d_type d of
     IT_WEAPON \<Rightarrow> False | IT_ARMOR \<Rightarrow> False | IT_PETEGG \<Rightarrow> False | IT_PETARMOR \<Rightarrow> False | _ \<Rightarrow> True)"

declare itemdb_isstackable2.simps [simp del]

definition itr_blocks :: "int \<Rightarrow> item_data \<Rightarrow> int \<Rightarrow> bool" where
  "itr_blocks itr d gmlv \<longleftrightarrow> \<not> ((d_trade_restriction d AND itr) = 0 \<or> gmlv \<ge> gm_lv_trade_override d)"

definition itemdb_cantrade_sub :: "item_data \<Rightarrow> int \<Rightarrow> int \<Rightarrow> bool" where
  "itemdb_cantrade_sub d gmlv gmlv2 =
     ((d_trade_restriction d AND 2) = 0 \<or> gmlv \<ge> gm_lv_trade_override d \<or> gmlv2 \<ge> gm_lv_trade_override d)"

definition itemdb_canpartnertrade_sub :: "item_data \<Rightarrow> int \<Rightarrow> int \<Rightarrow> bool" where
  "itemdb_canpartnertrade_sub d gmlv gmlv2 =
     ((d_trade_restriction d AND 4) \<noteq> 0 \<or> gmlv \<ge> gm_lv_trade_override d \<or> gmlv2 \<ge> gm_lv_trade_override d)"

definition itemdb_cancartstore_sub :: "item_data \<Rightarrow> int \<Rightarrow> int \<Rightarrow> bool" where
  "itemdb_cancartstore_sub d gmlv unused = (\<not> itr_blocks 16 d gmlv)"

definition itemdb_canstore_sub :: "item_data \<Rightarrow> int \<Rightarrow> int \<Rightarrow> bool" where
  "itemdb_canstore_sub d gmlv unused = (\<not> itr_blocks 32 d gmlv)"

definition itemdb_canguildstore_sub :: "item_data \<Rightarrow> int \<Rightarrow> int \<Rightarrow> bool" where
  "itemdb_canguildstore_sub d gmlv unused = (\<not> itr_blocks 64 d gmlv)"

definition itemdb_isspecial :: "int \<Rightarrow> bool" where
  "itemdb_isspecial i = (i = 255 \<or> i = 254 \<or> i = to_int16 65280)"

definition itemdb_isrestricted ::
  "pc_env \<Rightarrow> item \<Rightarrow> int \<Rightarrow> int \<Rightarrow> (item_data \<Rightarrow> int \<Rightarrow> int \<Rightarrow> bool) \<Rightarrow> bool" where
  "itemdb_isrestricted env it gmlv gmlv2 func =
     (let d = e_search env (i_nameid it) in
      if \<not> func d gmlv gmlv2 then False
      else if d_slot d = 0 \<or> itemdb_isspecial (i_card it ! 0) then True
      else (\<forall>i \<in> set [0..<d_slot d]. i_card it ! i = 0 \<or> func (e_search env (i_card it ! i)) gmlv gmlv2))"

definition itemdb_unique_id :: "map_session_data \<Rightarrow> int \<times> map_session_data" where
  "itemdb_unique_id sd =
     ((push_bit 32 (sd_char_id sd)) OR sd_uniqueitem_counter sd,
      sd\<lparr>sd_uniqueitem_counter := to_uint32 (sd_uniqueitem_counter sd + 1)\<rparr>)"

section \<open>Zeny\<close>

definition pc_payzeny :: "int \<Rightarrow> map_session_data \<Rightarrow> int \<times> map_session_data" where
  "pc_payzeny zeny sd =
     (let zeny = cap_value zeny (- MAX_ZENY) MAX_ZENY in
      if zeny < 0 then (1, sd)
      else if sd_zeny sd < zeny then (1, sd)
      else (0, sd\<lparr>sd_zeny := sd_zeny sd - zeny\<rparr>))"

definition pc_getzeny :: "int \<Rightarrow> map_session_data \<Rightarrow> int \<times> map_session_data" where
  "pc_getzeny zeny sd =
     (let zeny = cap_value zeny (- MAX_ZENY) MAX_ZENY in
      if zeny < 0 then (1, sd)
      else let zeny = (if zeny > MAX_ZENY - sd_zeny sd then MAX_ZENY - sd_zeny sd else zeny)
           in (0, sd\<lparr>sd_zeny := sd_zeny sd + zeny\<rparr>))"

section \<open>The inventory\<close>

definition pc_inventoryblank :: "map_session_data \<Rightarrow> nat" where
  "pc_inventoryblank sd = length (filter (\<lambda>it. i_nameid it = 0) (sd_inventory sd))"

text \<open>\<open>INDEX_NOT_FOUND\<close> is \<open>None\<close>.\<close>

definition pc_search_inventory :: "int \<Rightarrow> map_session_data \<Rightarrow> nat option" where
  "pc_search_inventory item_id sd =
     (let i = arr_find (\<lambda>it. i_nameid it = item_id \<and> (i_amount it > 0 \<or> item_id = 0)) (sd_inventory sd)
      in if i < MAX_INVENTORY then Some i else None)"

datatype additem_check = ADDITEM_EXIST | ADDITEM_NEW | ADDITEM_OVERAMOUNT

definition pc_checkadditem :: "pc_env \<Rightarrow> int \<Rightarrow> int \<Rightarrow> map_session_data \<Rightarrow> additem_check" where
  "pc_checkadditem env nameid amount sd =
     (if amount > MAX_AMOUNT then ADDITEM_OVERAMOUNT
      else let d = e_search env nameid in
        if \<not> itemdb_isstackable2 d then ADDITEM_NEW
        else if stack_inventory d \<and> amount > stack_amount d then ADDITEM_OVERAMOUNT
        else let i = arr_find (\<lambda>it. i_nameid it = nameid) (sd_inventory sd) in
          if i < MAX_INVENTORY then
            (if amount > MAX_AMOUNT - i_amount (sd_inventory sd ! i) \<or>
                (stack_inventory d \<and> amount > stack_amount d - i_amount (sd_inventory sd ! i))
             then ADDITEM_OVERAMOUNT else ADDITEM_EXIST)
          else ADDITEM_NEW)"

definition stacks_with :: "item \<Rightarrow> item \<Rightarrow> bool" where
  "stacks_with it s \<longleftrightarrow> i_nameid s = i_nameid it \<and> i_bound s = i_bound it \<and> i_expire_time s = 0 \<and>
     i_unique_id s = i_unique_id it \<and> i_card s = i_card it"

text \<open>
  The end of \<open>pc_additem\<close>, once the item is in slot \<open>i\<close>; \<open>w\<close> is its weight. An item
  that must be told apart gets a number of its own.
\<close>

definition additem_serial :: "item \<Rightarrow> item_data \<Rightarrow> nat \<Rightarrow> map_session_data \<Rightarrow> map_session_data" where
  "additem_serial it d i sd =
     (if (\<not> itemdb_isstackable2 d \<or> d_force_serial d \<or> d_type d = IT_CASH) \<and> i_unique_id it = 0
      then let (u, sd) = itemdb_unique_id sd
           in sd\<lparr>sd_inventory := (sd_inventory sd)[i := (sd_inventory sd ! i)\<lparr>i_unique_id := u\<rparr>]\<rparr>
      else sd)"

definition additem_finish ::
  "pc_env \<Rightarrow> item \<Rightarrow> item_data \<Rightarrow> int \<Rightarrow> nat \<Rightarrow> map_session_data \<Rightarrow> map_session_data" where
  "additem_finish env it d w i sd =
     (let sd = additem_serial it d i sd;
          sd = sd\<lparr>sd_weight := to_uint32 (sd_weight sd + w)\<rparr>;
          sd = (if d_autoequip d then e_equipitem env i sd else sd)
      in if i_expire_time it \<noteq> 0 \<and> e_now env > i_expire_time it then e_rental_expire env i sd else sd)"

definition pc_additem :: "pc_env \<Rightarrow> item \<Rightarrow> int \<Rightarrow> map_session_data \<Rightarrow> int \<times> map_session_data" where
  "pc_additem env it amount sd =
     (if i_nameid it \<le> 0 \<or> amount \<le> 0 then (1, sd)
      else if amount > MAX_AMOUNT then (5, sd)
      else let d = e_search env (i_nameid it) in
        if stack_inventory d \<and> amount > stack_amount d then (7, sd)
        else let w = to_uint32 (d_weight d * amount) in
        if to_uint32 (sd_weight sd + w) > sd_max_weight sd then (2, sd)
        else if i_bound it = IBT_PARTY \<and> sd_party_id sd = 0 then (7, sd)
        else if i_bound it = IBT_GUILD \<and> sd_guild_id sd = 0 then (7, sd)
        else
          let i = (if itemdb_isstackable2 d \<and> i_expire_time it = 0
                   then arr_find (stacks_with it) (sd_inventory sd) else MAX_INVENTORY)
          in if i < MAX_INVENTORY then
               let s = sd_inventory sd ! i in
               if amount > MAX_AMOUNT - i_amount s \<or> (stack_inventory d \<and> amount > stack_amount d - i_amount s)
               then (5, sd)
               else (0, additem_finish env it d w i
                      (sd\<lparr>sd_inventory := (sd_inventory sd)[i := s\<lparr>i_amount := i_amount s + amount\<rparr>]\<rparr>))
             else (case pc_search_inventory 0 sd of
                 None \<Rightarrow> (4, sd)
               | Some i \<Rightarrow>
                   (0, additem_finish env it d w i
                      (sd\<lparr>sd_inventory := (sd_inventory sd)[i := it\<lparr>i_equip := 0, i_favorite := 0, i_amount := amount\<rparr>],
                          sd_inventory_data := (sd_inventory_data sd)[i := Some d]\<rparr>))))"

definition pc_delitem :: "pc_env \<Rightarrow> nat \<Rightarrow> int \<Rightarrow> map_session_data \<Rightarrow> int \<times> map_session_data" where
  "pc_delitem env n amount sd =
     (if \<not> n < MAX_INVENTORY then (1, sd)
      else let s = sd_inventory sd ! n in
        (case sd_inventory_data sd ! n of
           None \<Rightarrow> (1, sd)
         | Some d \<Rightarrow>
             if i_nameid s = 0 \<or> amount \<le> 0 \<or> i_amount s < amount then (1, sd)
             else
               let s' = s\<lparr>i_amount := i_amount s - amount\<rparr>;
                   sd = sd\<lparr>sd_inventory := (sd_inventory sd)[n := s'],
                           sd_weight := to_uint32 (sd_weight sd - d_weight d * amount)\<rparr>
               in if i_amount s' \<le> 0 then
                    let sd = (if i_equip s' \<noteq> 0 then e_unequipitem env n sd else sd)
                    in (0, sd\<lparr>sd_inventory := (sd_inventory sd)[n := zero_item],
                              sd_inventory_data := (sd_inventory_data sd)[n := None]\<rparr>)
                  else (0, sd)))"

section \<open>The cart\<close>

definition pc_cart_additem :: "pc_env \<Rightarrow> item \<Rightarrow> int \<Rightarrow> map_session_data \<Rightarrow> int \<times> map_session_data" where
  "pc_cart_additem env it amount sd =
     (if i_nameid it \<le> 0 \<or> amount \<le> 0 then (1, sd)
      else let d = e_search env (i_nameid it) in
        if stack_cart d \<and> amount > stack_amount d then (1, sd)
        else if \<not> itemdb_isrestricted env it (sd_group_level sd) 0 itemdb_cancartstore_sub \<or>
                (i_bound it > IBT_ACCOUNT \<and> \<not> perm_trade_bound sd) then (1, sd)
        else let w = to_int32 (d_weight d * amount) in
        if w + sd_cart_weight sd > sd_cart_weight_max sd then (1, sd)
        else
          let i = (if itemdb_isstackable2 d \<and> i_expire_time it = 0
                   then arr_find (\<lambda>s. i_nameid s = i_nameid it \<and> i_bound s = i_bound it \<and> i_card s = i_card it)
                          (sd_cart sd)
                   else MAX_CART)
          in if i < MAX_CART \<and> i_unique_id it = i_unique_id (sd_cart sd ! i) then
               let s = sd_cart sd ! i in
               if amount > MAX_AMOUNT - i_amount s \<or> (stack_cart d \<and> amount > stack_amount d - i_amount s)
               then (2, sd)
               else (0, sd\<lparr>sd_cart := (sd_cart sd)[i := s\<lparr>i_amount := i_amount s + amount, i_favorite := 0\<rparr>],
                           sd_cart_weight := sd_cart_weight sd + w\<rparr>)
             else
               let i = arr_find (\<lambda>s. i_nameid s = 0) (sd_cart sd) in
               if i = MAX_CART then (2, sd)
               else (0, sd\<lparr>sd_cart := (sd_cart sd)[i := it\<lparr>i_amount := amount, i_favorite := 0\<rparr>],
                           sd_cart_num := sd_cart_num sd + 1,
                           sd_cart_weight := sd_cart_weight sd + w\<rparr>))"

definition pc_cart_delitem :: "pc_env \<Rightarrow> nat \<Rightarrow> int \<Rightarrow> map_session_data \<Rightarrow> int \<times> map_session_data" where
  "pc_cart_delitem env n amount sd =
     (if \<not> n < MAX_INVENTORY then (1, sd)
      else let s = sd_cart sd ! n in
        if i_nameid s = 0 \<or> i_amount s < amount \<or> \<not> e_exists env (i_nameid s) then (1, sd)
        else let d = e_search env (i_nameid s);
                 s' = s\<lparr>i_amount := i_amount s - amount\<rparr>;
                 sd = sd\<lparr>sd_cart_weight := sd_cart_weight sd - to_int32 (d_weight d * amount)\<rparr>
             in if i_amount s' \<le> 0
                then (0, sd\<lparr>sd_cart := (sd_cart sd)[n := zero_item], sd_cart_num := sd_cart_num sd - 1\<rparr>)
                else (0, sd\<lparr>sd_cart := (sd_cart sd)[n := s']\<rparr>))"

definition pc_putitemtocart :: "pc_env \<Rightarrow> int \<Rightarrow> int \<Rightarrow> map_session_data \<Rightarrow> int \<times> map_session_data" where
  "pc_putitemtocart env idx amount sd =
     (if idx < 0 \<or> idx \<ge> int MAX_INVENTORY then (1, sd)
      else let it = sd_inventory sd ! nat idx in
        if i_nameid it = 0 \<or> amount < 1 \<or> i_amount it < amount \<or> sd_vending sd then (1, sd)
        else let (flag, sd) = pc_cart_additem env it amount sd in
          if flag = 0 then pc_delitem env (nat idx) amount sd else (flag, sd))"

definition pc_cartitem_amount :: "int \<Rightarrow> int \<Rightarrow> map_session_data \<Rightarrow> int" where
  "pc_cartitem_amount idx amount sd =
     (if \<not> (idx \<ge> 0 \<and> idx < int MAX_CART) then -1
      else let it = sd_cart sd ! nat idx in
        if i_nameid it = 0 \<or> i_amount it = 0 then -1 else i_amount it - amount)"

definition pc_getitemfromcart :: "pc_env \<Rightarrow> int \<Rightarrow> int \<Rightarrow> map_session_data \<Rightarrow> int \<times> map_session_data" where
  "pc_getitemfromcart env idx amount sd =
     (if idx < 0 \<or> idx \<ge> int MAX_CART then (1, sd)
      else let it = sd_cart sd ! nat idx in
        if i_nameid it = 0 \<or> amount < 1 \<or> i_amount it < amount \<or> sd_vending sd then (1, sd)
        else let (flag, sd) = pc_additem env it amount sd in
          if flag = 0 then pc_cart_delitem env (nat idx) amount sd else (flag, sd))"

section \<open>Counting items\<close>

text \<open>How many pieces of item \<open>k\<close> an array of slots holds.\<close>

definition total :: "int \<Rightarrow> item list \<Rightarrow> int" where
  "total k items = sum_list (map (\<lambda>it. if i_nameid it = k then i_amount it else 0) items)"

definition slot_ok :: "item \<Rightarrow> bool" where
  "slot_ok it \<longleftrightarrow> (i_nameid it = 0 \<and> i_amount it = 0) \<or>
     (0 < i_nameid it \<and> 0 < i_amount it \<and> i_amount it \<le> MAX_AMOUNT)"

definition slots_ok :: "item list \<Rightarrow> bool" where
  "slots_ok items \<longleftrightarrow> (\<forall>it \<in> set items. slot_ok it)"

definition same_slots :: "item list \<Rightarrow> item list \<Rightarrow> bool" where
  "same_slots xs ys \<longleftrightarrow> length ys = length xs \<and>
     (\<forall>j < length xs. i_nameid (ys ! j) = i_nameid (xs ! j) \<and> i_amount (ys ! j) = i_amount (xs ! j) \<and>
        i_expire_time (ys ! j) = i_expire_time (xs ! j))"

lemma sum_list_update_int: "i < length xs \<Longrightarrow> sum_list (xs[i := x]) = sum_list xs - xs ! i + (x :: int)"
  by (induction xs arbitrary: i) (auto split: nat.splits)

lemma total_update:
  "i < length xs \<Longrightarrow> total k (xs[i := x]) =
     total k xs - (if i_nameid (xs ! i) = k then i_amount (xs ! i) else 0) + (if i_nameid x = k then i_amount x else 0)"
  by (simp add: total_def map_update sum_list_update_int)

lemma zero_item_sel [simp]: "i_nameid zero_item = 0" "i_amount zero_item = 0"
  by (simp_all add: zero_item_def)

lemma slot_ok_zero [simp]: "slot_ok zero_item"
  by (simp add: slot_ok_def)

lemma slots_ok_nth: "slots_ok xs \<Longrightarrow> i < length xs \<Longrightarrow> slot_ok (xs ! i)"
  by (simp add: slots_ok_def)

lemma slots_ok_update: "slots_ok xs \<Longrightarrow> slot_ok x \<Longrightarrow> slots_ok (xs[i := x])"
  unfolding slots_ok_def using set_update_subset_insert by fastforce

lemma same_slots_refl [simp]: "same_slots xs xs"
  by (simp add: same_slots_def)

lemma same_slots_trans: "same_slots a b \<Longrightarrow> same_slots b c \<Longrightarrow> same_slots a c"
  by (simp add: same_slots_def)

lemma same_slots_total: "same_slots xs ys \<Longrightarrow> total k ys = total k xs"
proof -
  assume "same_slots xs ys"
  then have "map (\<lambda>it. if i_nameid it = k then i_amount it else 0) ys =
      map (\<lambda>it. if i_nameid it = k then i_amount it else 0) xs"
    by (intro nth_equalityI) (auto simp: same_slots_def)
  then show ?thesis by (simp add: total_def)
qed

lemma same_slots_ok: "same_slots xs ys \<Longrightarrow> slots_ok xs \<Longrightarrow> slots_ok ys"
  by (auto simp: same_slots_def slots_ok_def all_set_conv_all_nth slot_ok_def)

lemma same_slots_update:
  "i_nameid x = i_nameid (xs ! i) \<Longrightarrow> i_amount x = i_amount (xs ! i) \<Longrightarrow>
   i_expire_time x = i_expire_time (xs ! i) \<Longrightarrow> same_slots xs (xs[i := x])"
  by (cases "i < length xs") (auto simp: same_slots_def nth_list_update)

section \<open>What the operations keep\<close>

text \<open>The fields the inventory operations never touch.\<close>

definition pc_frame :: "map_session_data \<Rightarrow> map_session_data" where
  "pc_frame sd = sd\<lparr>sd_inventory := [], sd_inventory_data := [], sd_uniqueitem_counter := 0,
     sd_weight := 0, sd_max_weight := 0\<rparr>"

lemma pc_frame_sel:
  assumes "pc_frame sd' = pc_frame sd"
  shows "sd_zeny sd' = sd_zeny sd" "sd_cart sd' = sd_cart sd" "sd_storage sd' = sd_storage sd" "sd_storage_amount sd' = sd_storage_amount sd"
    "deal_item sd' = deal_item sd" "deal_zeny sd' = deal_zeny sd" "sd_guild_id sd' = sd_guild_id sd" "sd_trade_partner sd' = sd_trade_partner sd"
    "sd_trading sd' = sd_trading sd" "sd_deal_locked sd' = sd_deal_locked sd" "sd_account_id sd' = sd_account_id sd" "sd_storage_flag sd' = sd_storage_flag sd"
    "sd_cart_num sd' = sd_cart_num sd" "sd_vending sd' = sd_vending sd" "sd_group_level sd' = sd_group_level sd" "perm_trade_bound sd' = perm_trade_bound sd"
  using arg_cong [OF assms, of sd_zeny] arg_cong [OF assms, of sd_cart] arg_cong [OF assms, of sd_storage] arg_cong [OF assms, of sd_storage_amount]
    arg_cong [OF assms, of deal_item] arg_cong [OF assms, of deal_zeny] arg_cong [OF assms, of sd_guild_id] arg_cong [OF assms, of sd_trade_partner]
    arg_cong [OF assms, of sd_trading] arg_cong [OF assms, of sd_deal_locked] arg_cong [OF assms, of sd_account_id] arg_cong [OF assms, of sd_storage_flag]
    arg_cong [OF assms, of sd_cart_num] arg_cong [OF assms, of sd_vending] arg_cong [OF assms, of sd_group_level] arg_cong [OF assms, of perm_trade_bound]
  by (simp_all add: pc_frame_def)

text \<open>What is assumed of equipping: it neither moves nor counts items, nor changes when they expire.\<close>

definition keeps_items :: "(nat \<Rightarrow> map_session_data \<Rightarrow> map_session_data) \<Rightarrow> bool" where
  "keeps_items f \<longleftrightarrow> (\<forall>i sd. pc_frame (f i sd) = pc_frame sd \<and> same_slots (sd_inventory sd) (sd_inventory (f i sd)) \<and>
     sd_inventory_data (f i sd) = sd_inventory_data sd)"

definition env_ok :: "pc_env \<Rightarrow> bool" where
  "env_ok env \<longleftrightarrow> keeps_items (e_equipitem env) \<and> keeps_items (e_unequipitem env)"

definition inv_ok :: "map_session_data \<Rightarrow> bool" where
  "inv_ok sd \<longleftrightarrow> length (sd_inventory sd) = MAX_INVENTORY \<and> length (sd_inventory_data sd) = MAX_INVENTORY \<and>
     slots_ok (sd_inventory sd) \<and>
     (\<forall>n < MAX_INVENTORY. sd_inventory_data sd ! n = None \<longleftrightarrow> i_nameid (sd_inventory sd ! n) = 0)"

definition not_expired :: "pc_env \<Rightarrow> item \<Rightarrow> bool" where
  "not_expired env it \<longleftrightarrow> i_expire_time it = 0 \<or> e_now env \<le> i_expire_time it"

definition fresh :: "pc_env \<Rightarrow> item list \<Rightarrow> bool" where
  "fresh env items \<longleftrightarrow> (\<forall>it \<in> set items. not_expired env it)"

lemma fresh_same: "same_slots xs ys \<Longrightarrow> fresh env xs \<Longrightarrow> fresh env ys"
  by (auto simp: fresh_def same_slots_def all_set_conv_all_nth not_expired_def)

lemma fresh_update: "fresh env xs \<Longrightarrow> not_expired env x \<Longrightarrow> fresh env (xs[i := x])"
  unfolding fresh_def using set_update_subset_insert by fastforce

lemma fresh_nth: "fresh env xs \<Longrightarrow> i < length xs \<Longrightarrow> not_expired env (xs ! i)"
  by (simp add: fresh_def)

lemma not_expired_upd [simp]:
  "not_expired env (it\<lparr>i_amount := a\<rparr>) = not_expired env it"
  "not_expired env zero_item"
  by (simp_all add: not_expired_def zero_item_def)

lemma additem_finish_ok:
  assumes "env_ok env" "not_expired env it"
  shows "pc_frame (additem_finish env it d w i sd) = pc_frame sd \<and>
    same_slots (sd_inventory sd) (sd_inventory (additem_finish env it d w i sd)) \<and>
    sd_inventory_data (additem_finish env it d w i sd) = sd_inventory_data sd"
proof -
  define sd1 where "sd1 = additem_serial it d i sd"
  define sd2 where "sd2 = sd1\<lparr>sd_weight := to_uint32 (sd_weight sd1 + w)\<rparr>"
  have 1: "pc_frame sd1 = pc_frame sd \<and> same_slots (sd_inventory sd) (sd_inventory sd1) \<and>
      sd_inventory_data sd1 = sd_inventory_data sd"
    by (auto simp: sd1_def additem_serial_def itemdb_unique_id_def pc_frame_def intro!: same_slots_update)
  have 2: "pc_frame sd2 = pc_frame sd \<and> same_slots (sd_inventory sd) (sd_inventory sd2) \<and>
      sd_inventory_data sd2 = sd_inventory_data sd"
    using 1 by (simp add: sd2_def pc_frame_def)
  have "additem_finish env it d w i sd = (if d_autoequip d then e_equipitem env i sd2 else sd2)"
    using assms(2) by (auto simp: additem_finish_def not_expired_def sd1_def sd2_def Let_def)
  then show ?thesis
    using 2 assms(1) by (auto simp: env_ok_def keeps_items_def intro: same_slots_trans)
qed

lemma pc_search_blank:
  assumes "pc_search_inventory 0 sd = Some i" "length (sd_inventory sd) = MAX_INVENTORY"
  shows "i < MAX_INVENTORY \<and> i_nameid (sd_inventory sd ! i) = 0"
proof -
  let ?p = "\<lambda>it. i_nameid it = 0 \<and> (i_amount it > 0 \<or> (0::int) = 0)"
  have "i = arr_find ?p (sd_inventory sd)" "i < length (sd_inventory sd)"
    using assms by (auto simp: pc_search_inventory_def Let_def split: if_splits)
  then show ?thesis using arr_find_nth [of ?p "sd_inventory sd"] assms(2) by auto
qed

text \<open>Adding never takes anything out of a slot.\<close>

definition slots_grow :: "item list \<Rightarrow> item list \<Rightarrow> bool" where
  "slots_grow xs ys \<longleftrightarrow> length ys = length xs \<and> (\<forall>j < length xs. i_amount (xs ! j) \<le> i_amount (ys ! j) \<and>
     (i_nameid (xs ! j) \<noteq> 0 \<longrightarrow> i_nameid (ys ! j) = i_nameid (xs ! j)))"

lemma slots_grow_same: "slots_grow xs ys \<Longrightarrow> same_slots ys zs \<Longrightarrow> slots_grow xs zs"
  by (simp add: slots_grow_def same_slots_def)

lemma inv_ok_same:
  assumes "inv_ok sd" "same_slots (sd_inventory sd) (sd_inventory sd')" "sd_inventory_data sd' = sd_inventory_data sd"
  shows "inv_ok sd'"
  using assms same_slots_ok [OF assms(2)] by (simp add: inv_ok_def same_slots_def)

lemma pc_additem_ok:
  assumes env: "env_ok env" and ok: "inv_ok sd" and ex: "not_expired env it"
    and a: "pc_additem env it amount sd = (flag, sd')"
  shows "flag \<noteq> 0 \<Longrightarrow> sd' = sd"
    and "flag = 0 \<Longrightarrow> inv_ok sd' \<and> pc_frame sd' = pc_frame sd \<and> slots_grow (sd_inventory sd) (sd_inventory sd') \<and>
      0 < i_nameid it \<and> 0 < amount \<and>
      (fresh env (sd_inventory sd) \<longrightarrow> fresh env (sd_inventory sd')) \<and>
      total k (sd_inventory sd') = total k (sd_inventory sd) + (if k = i_nameid it then amount else 0)"
proof -
  define d where "d = e_search env (i_nameid it)"
  define w where "w = to_uint32 (d_weight d * amount)"
  define i where "i = (if itemdb_isstackable2 d \<and> i_expire_time it = 0
                   then arr_find (stacks_with it) (sd_inventory sd) else MAX_INVENTORY)"
  define s where "s = sd_inventory sd ! i"
  define m where "m = sd\<lparr>sd_inventory := (sd_inventory sd)[i := s\<lparr>i_amount := i_amount s + amount\<rparr>]\<rparr>"
  define new where "new j = sd\<lparr>sd_inventory := (sd_inventory sd)[j := it\<lparr>i_equip := 0, i_favorite := 0, i_amount := amount\<rparr>],
                          sd_inventory_data := (sd_inventory_data sd)[j := Some d]\<rparr>" for j
  have len: "length (sd_inventory sd) = MAX_INVENTORY" "length (sd_inventory_data sd) = MAX_INVENTORY"
    using ok by (simp_all add: inv_ok_def)
  consider (fail) "flag \<noteq> 0" "sd' = sd"
    | (merge) "flag = 0" "i < MAX_INVENTORY" "0 < i_nameid it" "0 < amount" "amount \<le> MAX_AMOUNT - i_amount s"
        "sd' = additem_finish env it d w i m"
    | (fresh) j where "flag = 0" "pc_search_inventory 0 sd = Some j" "0 < i_nameid it" "0 < amount" "amount \<le> MAX_AMOUNT"
        "sd' = additem_finish env it d w j (new j)"
    using a unfolding pc_additem_def Let_def d_def [symmetric] w_def [symmetric] i_def [symmetric]
      s_def [symmetric] m_def [symmetric] new_def [symmetric]
    by (auto simp: not_le not_less split: if_splits option.splits)
  note cases = this
  show "flag \<noteq> 0 \<Longrightarrow> sd' = sd" using cases by cases auto
  assume f: "flag = 0"
  have main: "inv_ok sd' \<and> pc_frame sd' = pc_frame sd \<and> slots_grow (sd_inventory sd) (sd_inventory sd') \<and>
      (fresh env (sd_inventory sd) \<longrightarrow> fresh env (sd_inventory sd')) \<and>
      total k (sd_inventory sd') = total k (sd_inventory sd) + (if k = i_nameid it then amount else 0)"
    if "sd' = additem_finish env it d w j n" "inv_ok n" "pc_frame n = pc_frame sd"
      "slots_grow (sd_inventory sd) (sd_inventory n)" "fresh env (sd_inventory sd) \<longrightarrow> fresh env (sd_inventory n)"
      "total k (sd_inventory n) = total k (sd_inventory sd) + (if k = i_nameid it then amount else 0)" for j n
    using that additem_finish_ok [OF env ex, of d w j n] inv_ok_same slots_grow_same same_slots_total fresh_same by metis
  from cases show "inv_ok sd' \<and> pc_frame sd' = pc_frame sd \<and> slots_grow (sd_inventory sd) (sd_inventory sd') \<and>
      0 < i_nameid it \<and> 0 < amount \<and>
      (fresh env (sd_inventory sd) \<longrightarrow> fresh env (sd_inventory sd')) \<and>
      total k (sd_inventory sd') = total k (sd_inventory sd) + (if k = i_nameid it then amount else 0)"
  proof cases
    case fail
    then show ?thesis using f by simp
  next
    case merge
    have "i = arr_find (stacks_with it) (sd_inventory sd)" using merge(2) by (auto simp: i_def split: if_splits)
    then have st: "stacks_with it s"
      using arr_find_nth [of "stacks_with it" "sd_inventory sd"] merge(2) len by (simp add: s_def)
    then have nm: "i_nameid s = i_nameid it" by (simp add: stacks_with_def)
    have so: "slot_ok s" using slots_ok_nth [of "sd_inventory sd" i] ok merge(2) len by (simp add: inv_ok_def s_def)
    have "slots_ok ((sd_inventory sd)[i := s\<lparr>i_amount := i_amount s + amount\<rparr>])"
      using ok so nm merge(3-5) by (intro slots_ok_update) (auto simp: inv_ok_def slot_ok_def)
    then have "inv_ok m" using ok nm merge(2,3) len by (auto simp: inv_ok_def m_def nth_list_update s_def)
    moreover have "slots_grow (sd_inventory sd) (sd_inventory m)"
      using merge(2,4) len by (auto simp: slots_grow_def m_def nth_list_update s_def)
    moreover have "fresh env (sd_inventory sd) \<longrightarrow> fresh env (sd_inventory m)"
      using fresh_nth [of env "sd_inventory sd" i] merge(2) len by (simp add: m_def s_def fresh_update)
    moreover have "total k (sd_inventory m) = total k (sd_inventory sd) + (if k = i_nameid it then amount else 0)"
      using merge(2) len nm by (simp add: m_def total_update s_def [symmetric])
    ultimately show ?thesis using main [OF merge(6)] merge(3,4) by (simp add: m_def pc_frame_def)
  next
    case fresh
    have j: "j < MAX_INVENTORY" "i_nameid (sd_inventory sd ! j) = 0"
      using pc_search_blank [OF fresh(2) len(1)] by auto
    have so: "slot_ok (sd_inventory sd ! j)" using slots_ok_nth [of "sd_inventory sd" j] ok j len by (simp add: inv_ok_def)
    then have z: "i_amount (sd_inventory sd ! j) = 0" using j(2) by (auto simp: slot_ok_def)
    have "slots_ok ((sd_inventory sd)[j := it\<lparr>i_equip := 0, i_favorite := 0, i_amount := amount\<rparr>])"
      using ok fresh(3-5) by (intro slots_ok_update) (auto simp: inv_ok_def slot_ok_def)
    then have "inv_ok (new j)" using ok fresh(3) len j by (auto simp: inv_ok_def new_def nth_list_update)
    moreover have "slots_grow (sd_inventory sd) (sd_inventory (new j))"
      using fresh(4) z j len by (auto simp: slots_grow_def new_def nth_list_update)
    moreover have "fresh env (sd_inventory sd) \<longrightarrow> fresh env (sd_inventory (new j))"
      using ex by (simp add: new_def fresh_update not_expired_def)
    moreover have "total k (sd_inventory (new j)) = total k (sd_inventory sd) + (if k = i_nameid it then amount else 0)"
      using j len z by (simp add: new_def total_update)
    ultimately show ?thesis using main [OF fresh(6)] fresh(3,4) by (simp add: new_def pc_frame_def)
  qed
qed

lemma pc_delitem_ok:
  assumes env: "env_ok env" and ok: "inv_ok sd" and n: "n < MAX_INVENTORY"
    and a: "0 < amount" "amount \<le> i_amount (sd_inventory sd ! n)"
  shows "\<exists>sd'. pc_delitem env n amount sd = (0, sd') \<and> inv_ok sd' \<and> pc_frame sd' = pc_frame sd \<and>
    (fresh env (sd_inventory sd) \<longrightarrow> fresh env (sd_inventory sd')) \<and>
    (\<forall>j < MAX_INVENTORY. i_amount (sd_inventory sd' ! j) = i_amount (sd_inventory sd ! j) - (if j = n then amount else 0)) \<and>
    (\<forall>k. total k (sd_inventory sd') = total k (sd_inventory sd) - (if k = i_nameid (sd_inventory sd ! n) then amount else 0))"
proof -
  let ?s = "sd_inventory sd ! n"
  have len: "length (sd_inventory sd) = MAX_INVENTORY" "length (sd_inventory_data sd) = MAX_INVENTORY"
    using ok by (simp_all add: inv_ok_def)
  have so: "slot_ok ?s" using slots_ok_nth [of "sd_inventory sd" n] ok n len by (simp add: inv_ok_def)
  then have nz: "0 < i_nameid ?s" "i_amount ?s \<le> MAX_AMOUNT" using a by (auto simp: slot_ok_def)
  then obtain d where d: "sd_inventory_data sd ! n = Some d" using ok n by (fastforce simp: inv_ok_def)
  define s' where "s' = ?s\<lparr>i_amount := i_amount ?s - amount\<rparr>"
  define sd1 where "sd1 = sd\<lparr>sd_inventory := (sd_inventory sd)[n := s'], sd_weight := to_uint32 (sd_weight sd - d_weight d * amount)\<rparr>"
  define sd2 where "sd2 = (if i_equip s' \<noteq> 0 then e_unequipitem env n sd1 else sd1)"
  define sd' where "sd' = (if i_amount s' \<le> 0 then sd2\<lparr>sd_inventory := (sd_inventory sd2)[n := zero_item],
      sd_inventory_data := (sd_inventory_data sd2)[n := None]\<rparr> else sd1)"
  have r: "pc_delitem env n amount sd = (0, sd')"
    using n d nz a by (simp add: pc_delitem_def Let_def s'_def [symmetric] sd1_def [symmetric] sd2_def sd'_def)
  have f2: "pc_frame sd2 = pc_frame sd" "same_slots (sd_inventory sd1) (sd_inventory sd2)"
    "sd_inventory_data sd2 = sd_inventory_data sd"
  proof -
    have "keeps_items (e_unequipitem env)" using env by (simp add: env_ok_def)
    then have "pc_frame (e_unequipitem env n sd1) = pc_frame sd1"
      "same_slots (sd_inventory sd1) (sd_inventory (e_unequipitem env n sd1))"
      "sd_inventory_data (e_unequipitem env n sd1) = sd_inventory_data sd1"
      by (simp_all add: keeps_items_def)
    moreover have "pc_frame sd1 = pc_frame sd" "sd_inventory_data sd1 = sd_inventory_data sd"
      by (simp_all add: sd1_def pc_frame_def)
    ultimately show "pc_frame sd2 = pc_frame sd" "same_slots (sd_inventory sd1) (sd_inventory sd2)"
      "sd_inventory_data sd2 = sd_inventory_data sd" by (simp_all add: sd2_def)
  qed
  have am1: "i_amount (sd_inventory sd1 ! j) = i_amount (sd_inventory sd ! j) - (if j = n then amount else 0)"
    "i_nameid (sd_inventory sd1 ! j) = i_nameid (sd_inventory sd ! j)" if "j < MAX_INVENTORY" for j
    using that len n by (auto simp: sd1_def s'_def nth_list_update)
  have fr1: "fresh env (sd_inventory sd1)" if "fresh env (sd_inventory sd)"
    using that fresh_nth [OF that, of n] n len by (simp add: sd1_def s'_def fresh_update)
  have t1: "total k (sd_inventory sd1) = total k (sd_inventory sd) - (if k = i_nameid ?s then amount else 0)" for k
    using n len by (simp add: sd1_def total_update s'_def)
  show ?thesis
  proof (cases "i_amount s' \<le> 0")
    case True
    then have all: "amount = i_amount ?s" using a by (simp add: s'_def)
    have len2: "length (sd_inventory sd2) = MAX_INVENTORY" using f2(2) len by (simp add: same_slots_def sd1_def)
    have n2: "i_nameid (sd_inventory sd2 ! j) = i_nameid (sd_inventory sd ! j)"
      "i_amount (sd_inventory sd2 ! j) = i_amount (sd_inventory sd1 ! j)" if "j < MAX_INVENTORY" for j
      using f2(2) len am1(2) that by (auto simp: same_slots_def sd1_def)
    have inv': "sd_inventory sd' = (sd_inventory sd2)[n := zero_item]" using True by (simp add: sd'_def)
    have "slot_ok (sd_inventory sd' ! j)" if j: "j < MAX_INVENTORY" for j
    proof (cases "j = n")
      case False
      have "slot_ok (sd_inventory sd ! j)" using slots_ok_nth [of "sd_inventory sd" j] ok j len by (simp add: inv_ok_def)
      then show ?thesis using False n2 [OF j] am1 [OF j] by (simp add: inv' slot_ok_def)
    qed (use len2 n in \<open>simp add: inv'\<close>)
    then have "slots_ok (sd_inventory sd')" using len2 by (auto simp: slots_ok_def all_set_conv_all_nth inv')
    then have "inv_ok sd'"
      using ok True len len2 n2(1) f2(3) n by (auto simp: inv_ok_def sd'_def nth_list_update)
    moreover have "pc_frame sd' = pc_frame sd" using f2(1) True by (simp add: sd'_def pc_frame_def)
    moreover have "i_amount (sd_inventory sd' ! j) = i_amount (sd_inventory sd ! j) - (if j = n then amount else 0)"
      if "j < MAX_INVENTORY" for j
      using that len2 n2(2) am1(1) all by (auto simp: inv' nth_list_update)
    moreover have "fresh env (sd_inventory sd) \<longrightarrow> fresh env (sd_inventory sd')"
      using fr1 fresh_same [OF f2(2)] by (simp add: inv' fresh_update)
    moreover have "total k (sd_inventory sd') = total k (sd_inventory sd) - (if k = i_nameid ?s then amount else 0)" for k
    proof -
      have "total k (sd_inventory sd') = total k (sd_inventory sd1) -
          (if i_nameid (sd_inventory sd2 ! n) = k then i_amount (sd_inventory sd2 ! n) else 0)"
        using len2 n same_slots_total [OF f2(2), of k] by (simp add: inv' total_update)
      then show ?thesis using t1 n2 [OF n] am1 [OF n] all by simp
    qed
    ultimately show ?thesis using r by blast
  next
    case False
    then have e: "sd' = sd1" by (simp add: sd'_def)
    have "slots_ok (sd_inventory sd1)"
      using ok False nz a by (auto simp: sd1_def inv_ok_def intro!: slots_ok_update) (auto simp: slot_ok_def s'_def)
    then have "inv_ok sd1" using ok len n am1(2) by (auto simp: inv_ok_def sd1_def)
    moreover have "pc_frame sd1 = pc_frame sd" by (simp add: sd1_def pc_frame_def)
    ultimately show ?thesis using r e am1(1) t1 fr1 by auto
  qed
qed

section \<open>The cart\<close>

definition cart_ok :: "map_session_data \<Rightarrow> bool" where
  "cart_ok sd \<longleftrightarrow> length (sd_cart sd) = MAX_CART \<and> slots_ok (sd_cart sd)"

text \<open>Two ways an item enters an array of slots.\<close>

lemma stack_into:
  assumes "slots_ok xs" "i < length xs" "i_nameid (xs ! i) = i_nameid it" "0 < i_nameid it"
    and "0 < amount" "amount \<le> MAX_AMOUNT - i_amount (xs ! i)"
    and "i_nameid x = i_nameid (xs ! i)" "i_amount x = i_amount (xs ! i) + amount"
  shows "slots_ok (xs[i := x])" "total k (xs[i := x]) = total k xs + (if k = i_nameid it then amount else 0)"
  using assms slots_ok_nth [OF assms(1,2)]
  by (auto simp: total_update slot_ok_def intro!: slots_ok_update)

lemma put_into:
  assumes "slots_ok xs" "i < length xs" "i_nameid (xs ! i) = 0" "0 < i_nameid it"
    and "0 < amount" "amount \<le> MAX_AMOUNT"
    and "i_nameid x = i_nameid it" "i_amount x = amount"
  shows "slots_ok (xs[i := x])" "total k (xs[i := x]) = total k xs + (if k = i_nameid it then amount else 0)"
  using assms slots_ok_nth [OF assms(1,2)]
  by (auto simp: total_update slot_ok_def intro!: slots_ok_update)

lemma take_from:
  assumes "slots_ok xs" "i < length xs" "0 < amount" "amount \<le> i_amount (xs ! i)"
    and "x = (if i_amount (xs ! i) - amount \<le> 0 then zero_item else (xs ! i)\<lparr>i_amount := i_amount (xs ! i) - amount\<rparr>)"
  shows "slots_ok (xs[i := x])"
    "total k (xs[i := x]) = total k xs - (if k = i_nameid (xs ! i) then amount else 0)"
  using assms slots_ok_nth [OF assms(1,2)]
  by (auto simp: total_update slot_ok_def intro!: slots_ok_update)

lemma pc_cart_additem_ok:
  assumes ok: "cart_ok sd" and a: "pc_cart_additem env it amount sd = (flag, sd')" and am: "amount \<le> MAX_AMOUNT"
  shows "flag \<noteq> 0 \<Longrightarrow> sd' = sd"
    and "flag = 0 \<Longrightarrow> cart_ok sd' \<and>
      (\<exists>c n w. sd' = sd\<lparr>sd_cart := c, sd_cart_num := n, sd_cart_weight := w\<rparr>) \<and>
      total k (sd_cart sd') = total k (sd_cart sd) + (if k = i_nameid it then amount else 0)"
proof -
  define d where "d = e_search env (i_nameid it)"
  define w where "w = to_int32 (d_weight d * amount)"
  let ?p = "\<lambda>s. i_nameid s = i_nameid it \<and> i_bound s = i_bound it \<and> i_card s = i_card it"
  define i where "i = (if itemdb_isstackable2 d \<and> i_expire_time it = 0 then arr_find ?p (sd_cart sd) else MAX_CART)"
  define j where "j = arr_find (\<lambda>s. i_nameid s = 0) (sd_cart sd)"
  have len: "length (sd_cart sd) = MAX_CART" and so: "slots_ok (sd_cart sd)" using ok by (simp_all add: cart_ok_def)
  define m where "m = sd\<lparr>sd_cart := (sd_cart sd)[i := (sd_cart sd ! i)\<lparr>i_amount := i_amount (sd_cart sd ! i) + amount, i_favorite := 0\<rparr>],
           sd_cart_weight := sd_cart_weight sd + w\<rparr>"
  define new where "new = sd\<lparr>sd_cart := (sd_cart sd)[j := it\<lparr>i_amount := amount, i_favorite := 0\<rparr>],
           sd_cart_num := sd_cart_num sd + 1, sd_cart_weight := sd_cart_weight sd + w\<rparr>"
  consider (fail) "flag \<noteq> 0" "sd' = sd"
    | (merge) "flag = 0" "i < MAX_CART" "0 < i_nameid it" "0 < amount" "amount \<le> MAX_AMOUNT - i_amount (sd_cart sd ! i)"
        "sd' = m"
    | (fresh) "flag = 0" "j \<noteq> MAX_CART" "0 < i_nameid it" "0 < amount" "sd' = new"
    using a unfolding pc_cart_additem_def Let_def d_def [symmetric] w_def [symmetric] i_def [symmetric] j_def [symmetric]
      m_def [symmetric] new_def [symmetric]
    by (auto simp: not_le not_less split: if_splits)
  note cases = this
  show "flag \<noteq> 0 \<Longrightarrow> sd' = sd" using cases by cases auto
  assume f: "flag = 0"
  from cases show "cart_ok sd' \<and> (\<exists>c n w. sd' = sd\<lparr>sd_cart := c, sd_cart_num := n, sd_cart_weight := w\<rparr>) \<and>
      total k (sd_cart sd') = total k (sd_cart sd) + (if k = i_nameid it then amount else 0)"
  proof cases
    case fail
    then show ?thesis using f by simp
  next
    case merge
    have "i = arr_find ?p (sd_cart sd)" using merge(2) by (auto simp: i_def split: if_splits)
    then have "?p (sd_cart sd ! i)" using arr_find_nth [of ?p "sd_cart sd"] merge(2) len by simp
    then have nm: "i_nameid (sd_cart sd ! i) = i_nameid it" by simp
    have fr: "\<exists>c n w. sd' = sd\<lparr>sd_cart := c, sd_cart_num := n, sd_cart_weight := w\<rparr>"
      by (rule exI, rule exI [of _ "sd_cart_num sd"], rule exI) (simp add: merge(6) m_def)
    show ?thesis
      using stack_into [OF so _ nm merge(3-5), of "(sd_cart sd ! i)\<lparr>i_amount := i_amount (sd_cart sd ! i) + amount, i_favorite := 0\<rparr>"]
        merge(2,6) len fr by (simp add: cart_ok_def m_def)
  next
    case fresh
    have j: "j < length (sd_cart sd)" using fresh(2) arr_find_le [of "\<lambda>s. i_nameid s = 0" "sd_cart sd"] len
      by (simp add: j_def)
    then have "i_nameid (sd_cart sd ! j) = 0" using arr_find_nth [of "\<lambda>s. i_nameid s = 0" "sd_cart sd"] by (simp add: j_def)
    then show ?thesis
      using put_into [OF so j _ fresh(3,4) am, of "it\<lparr>i_amount := amount, i_favorite := 0\<rparr>"] fresh(5) len
      by (auto simp: cart_ok_def new_def)
  qed
qed

lemma pc_cart_delitem_ok:
  assumes ok: "cart_ok sd" and n: "n < MAX_CART" and a: "0 < amount" "amount \<le> i_amount (sd_cart sd ! n)"
    and e: "e_exists env (i_nameid (sd_cart sd ! n))"
  shows "\<exists>c m w. pc_cart_delitem env n amount sd = (0, sd\<lparr>sd_cart := c, sd_cart_num := m, sd_cart_weight := w\<rparr>) \<and>
    cart_ok (sd\<lparr>sd_cart := c, sd_cart_num := m, sd_cart_weight := w\<rparr>) \<and>
    (\<forall>k. total k c = total k (sd_cart sd) - (if k = i_nameid (sd_cart sd ! n) then amount else 0))"
proof -
  let ?s = "sd_cart sd ! n"
  have len: "length (sd_cart sd) = MAX_CART" and so: "slots_ok (sd_cart sd)" using ok by (simp_all add: cart_ok_def)
  have "slot_ok ?s" using slots_ok_nth [OF so] n len by simp
  then have nz: "i_nameid ?s \<noteq> 0" using a by (auto simp: slot_ok_def)
  define x where "x = (if i_amount ?s - amount \<le> 0 then zero_item else ?s\<lparr>i_amount := i_amount ?s - amount\<rparr>)"
  have t: "slots_ok ((sd_cart sd)[n := x])"
    "total k ((sd_cart sd)[n := x]) = total k (sd_cart sd) - (if k = i_nameid ?s then amount else 0)" for k
    using take_from [OF so _ a x_def] n len by simp_all
  define m where "m = (if i_amount ?s - amount \<le> 0 then sd_cart_num sd - 1 else sd_cart_num sd)"
  define w where "w = sd_cart_weight sd - to_int32 (d_weight (e_search env (i_nameid ?s)) * amount)"
  have "n < MAX_INVENTORY" using n by (simp add: pc_limits)
  then have "pc_cart_delitem env n amount sd = (0, sd\<lparr>sd_cart := (sd_cart sd)[n := x], sd_cart_num := m, sd_cart_weight := w\<rparr>)"
    using nz a e by (simp add: pc_cart_delitem_def Let_def x_def m_def w_def)
  moreover have "cart_ok (sd\<lparr>sd_cart := (sd_cart sd)[n := x], sd_cart_num := m, sd_cart_weight := w\<rparr>)"
    using t(1) len by (simp add: cart_ok_def)
  ultimately show ?thesis using t(2) by blast
qed

section \<open>Moving items\<close>

text \<open>
  The pattern every transfer of the map server follows: add to the destination, then, if that
  succeeded, delete from the source. Its two sides promise that a refused addition changes
  nothing, that each touches its own array only, and that a deletion of what is there succeeds.
\<close>

locale item_move =
  fixes inv :: "'s \<Rightarrow> bool" and good :: "item \<Rightarrow> bool"
    and src :: "'s \<Rightarrow> item list" and dst :: "'s \<Rightarrow> item list" and rest :: "'s \<Rightarrow> 'r"
    and add :: "item \<Rightarrow> int \<Rightarrow> 's \<Rightarrow> int \<times> 's" and del :: "nat \<Rightarrow> int \<Rightarrow> 's \<Rightarrow> int \<times> 's"
  assumes src_slots: "inv s \<Longrightarrow> slots_ok (src s)"
    and add_fails: "inv s \<Longrightarrow> good it \<Longrightarrow> a \<le> MAX_AMOUNT \<Longrightarrow> add it a s = (f, s') \<Longrightarrow> f \<noteq> 0 \<Longrightarrow> s' = s"
    and add_adds: "inv s \<Longrightarrow> good it \<Longrightarrow> a \<le> MAX_AMOUNT \<Longrightarrow> add it a s = (0, s') \<Longrightarrow>
      inv s' \<and> src s' = src s \<and> rest s' = rest s \<and> (\<forall>k. total k (dst s') = total k (dst s) + (if k = i_nameid it then a else 0))"
    and del_dels: "inv s \<Longrightarrow> n < length (src s) \<Longrightarrow> 0 < a \<Longrightarrow> a \<le> i_amount (src s ! n) \<Longrightarrow> good (src s ! n) \<Longrightarrow>
      \<exists>s'. del n a s = (0, s') \<and> inv s' \<and> dst s' = dst s \<and> rest s' = rest s \<and>
        (\<forall>k. total k (src s') = total k (src s) - (if k = i_nameid (src s ! n) then a else 0))"
begin

lemma amount_le: "inv s \<Longrightarrow> n < length (src s) \<Longrightarrow> a \<le> i_amount (src s ! n) \<Longrightarrow> a \<le> MAX_AMOUNT"
  using slots_ok_nth [OF src_slots, of s n] by (auto simp: slot_ok_def pc_limits)

lemma move:
  assumes "inv s" "n < length (src s)" "0 < a" "a \<le> i_amount (src s ! n)" "good (src s ! n)"
    and "add (src s ! n) a s = (f, s1)" "s2 = (if f = 0 then snd (del n a s1) else s1)"
  shows "inv s2 \<and> rest s2 = rest s \<and> (\<forall>k. total k (src s2) + total k (dst s2) = total k (src s) + total k (dst s)) \<and>
    (f \<noteq> 0 \<longrightarrow> s2 = s) \<and> (f = 0 \<longrightarrow> fst (del n a s1) = 0 \<and>
      total (i_nameid (src s ! n)) (dst s2) = total (i_nameid (src s ! n)) (dst s) + a)"
proof (cases "f = 0")
  case False
  then show ?thesis using add_fails [OF assms(1,5) amount_le [OF assms(1,2,4)] assms(6)] assms(1,7) by simp
next
  case True
  then have s1: "inv s1" "src s1 = src s" "rest s1 = rest s"
    "\<forall>k. total k (dst s1) = total k (dst s) + (if k = i_nameid (src s ! n) then a else 0)"
    using add_adds [OF assms(1,5) amount_le [OF assms(1,2,4)]] assms(6) by blast+
  then obtain s' where "del n a s1 = (0, s')" "inv s'" "dst s' = dst s1" "rest s' = rest s1"
    "\<forall>k. total k (src s') = total k (src s1) - (if k = i_nameid (src s1 ! n) then a else 0)"
    using del_dels [of s1 n a] assms(2-5) by auto
  then show ?thesis using True assms(7) s1 by simp
qed

end

definition carries :: "pc_env \<Rightarrow> map_session_data \<Rightarrow> bool" where
  "carries env sd \<longleftrightarrow> env_ok env \<and> inv_ok sd \<and> cart_ok sd"

lemma cart_ok_frame: "pc_frame sd' = pc_frame sd \<Longrightarrow> cart_ok sd' = cart_ok sd"
  using pc_frame_sel(2) [of sd' sd] by (simp add: cart_ok_def)

lemma inv_ok_cart_upd [simp]: "inv_ok (sd\<lparr>sd_cart := c, sd_cart_num := n, sd_cart_weight := w\<rparr>) = inv_ok sd"
  by (simp add: inv_ok_def)

interpretation to_cart: item_move "carries env" "not_expired env" sd_inventory sd_cart sd_storage
  "pc_cart_additem env" "pc_delitem env" for env
proof (unfold_locales, goal_cases)
  case (1 s)
  then show ?case by (simp add: carries_def inv_ok_def)
next
  case (2 s it a f s')
  then show ?case using pc_cart_additem_ok(1) by (auto simp: carries_def)
next
  case (3 s it a s')
  then have all: "cart_ok s' \<and> (\<exists>c n w. s' = s\<lparr>sd_cart := c, sd_cart_num := n, sd_cart_weight := w\<rparr>) \<and>
      total k (sd_cart s') = total k (sd_cart s) + (if k = i_nameid it then a else 0)" for k
    using pc_cart_additem_ok(2) [of s env it a 0 s' k] by (simp add: carries_def)
  then obtain c n w where "s' = s\<lparr>sd_cart := c, sd_cart_num := n, sd_cart_weight := w\<rparr>" by blast
  then show ?case using 3(1) all by (simp add: carries_def)
next
  case (4 s n a)
  then obtain s' where "pc_delitem env n a s = (0, s')" "inv_ok s'" "pc_frame s' = pc_frame s"
    "\<forall>k. total k (sd_inventory s') = total k (sd_inventory s) - (if k = i_nameid (sd_inventory s ! n) then a else 0)"
    using pc_delitem_ok [of env s n a] by (auto simp: carries_def inv_ok_def)
  then show ?case using 4(1) cart_ok_frame [of s' s] pc_frame_sel(2,3) [of s' s] by (auto simp: carries_def)
qed

interpretation from_cart: item_move "carries env" "\<lambda>it. not_expired env it \<and> e_exists env (i_nameid it)"
  sd_cart sd_inventory sd_storage "pc_additem env" "pc_cart_delitem env" for env
proof (unfold_locales, goal_cases)
  case (1 s)
  then show ?case by (simp add: carries_def cart_ok_def)
next
  case (2 s it a f s')
  then show ?case using pc_additem_ok(1) by (auto simp: carries_def)
next
  case (3 s it a s')
  then have "inv_ok s' \<and> pc_frame s' = pc_frame s \<and>
      total k (sd_inventory s') = total k (sd_inventory s) + (if k = i_nameid it then a else 0)" for k
    using pc_additem_ok(2) [of env s it a 0 s' k] by (auto simp: carries_def)
  then show ?case using 3(1) cart_ok_frame [of s' s] pc_frame_sel(2,3) [of s' s] by (auto simp: carries_def)
next
  case (4 s n a)
  then obtain c m w where "pc_cart_delitem env n a s = (0, s\<lparr>sd_cart := c, sd_cart_num := m, sd_cart_weight := w\<rparr>)"
    "cart_ok (s\<lparr>sd_cart := c, sd_cart_num := m, sd_cart_weight := w\<rparr>)"
    "\<forall>k. total k c = total k (sd_cart s) - (if k = i_nameid (sd_cart s ! n) then a else 0)"
    using pc_cart_delitem_ok [of s n a env] by (auto simp: carries_def cart_ok_def)
  then show ?case using 4(1) by (auto simp: carries_def)
qed

text \<open>Everything a character carries, inventory and cart together.\<close>

definition carried :: "int \<Rightarrow> map_session_data \<Rightarrow> int" where
  "carried k sd = total k (sd_inventory sd) + total k (sd_cart sd)"


text \<open>A character and a database for the witnesses: ten apples in the first slot.\<close>

definition apple_data :: item_data where
  "apple_data = \<lparr>d_type = IT_HEALING, d_weight = 20, d_slot = 0, d_trade_restriction = 0, d_autoequip = False,
     d_force_serial = False, stack_amount = 0, stack_inventory = False, stack_cart = False, stack_storage = False,
     stack_guildstorage = False, gm_lv_trade_override = 0\<rparr>"

definition apple :: item where
  "apple = zero_item\<lparr>i_nameid := 512, i_amount := 10, i_identify := 1\<rparr>"

definition apple_env :: pc_env where
  "apple_env = \<lparr>e_search = \<lambda>_. apple_data, e_exists = \<lambda>_. True, e_now = 0, e_equipitem = \<lambda>_ sd. sd,
     e_unequipitem = \<lambda>_ sd. sd, e_rental_expire = \<lambda>_ sd. sd\<rparr>"

definition pc_start :: "int \<Rightarrow> map_session_data" where
  "pc_start aid = \<lparr>sd_account_id = aid, sd_char_id = aid, sd_partner_id = 0, sd_party_id = 0, sd_guild_id = 0,
     sd_zeny = 1000, sd_inventory = replicate 100 zero_item, sd_inventory_data = replicate 100 None,
     sd_uniqueitem_counter = 0, sd_weight = 0, sd_max_weight = 20000, sd_cart = replicate 100 zero_item,
     sd_cart_num = 0, sd_cart_weight = 0, sd_cart_weight_max = 80000, sd_storage = replicate 600 zero_item,
     sd_storage_amount = 0, sd_storage_flag = STORAGE_FLAG_CLOSED, sd_group_level = 0, perm_trade = True,
     perm_trade_bound = False, perm_at_trade = False, sd_npc_id = 0, sd_vending = False, sd_buyingstore = False,
     sd_trading = False, sd_deal_locked = 0, sd_trade_partner = 0, deal_item = replicate 10 (0, 0), deal_zeny = 0,
     deal_weight = 0, sd_guild_invite = 0, sd_party_invite = 0, sd_adopt_invite = 0, bl_m = 0, bl_x = 50, bl_y = 50\<rparr>"

definition pc_apples :: "int \<Rightarrow> map_session_data" where
  "pc_apples aid = (pc_start aid)\<lparr>sd_inventory := (replicate 100 zero_item)[0 := apple],
     sd_inventory_data := (replicate 100 None)[0 := Some apple_data], sd_weight := 200\<rparr>"

lemma apple_env_ok: "env_ok apple_env"
  by (simp add: env_ok_def keeps_items_def apple_env_def)

lemma slots_ok_empty [simp]: "slots_ok (replicate n zero_item)"
  by (simp add: slots_ok_def)

lemma pc_start_carries: "carries apple_env (pc_start aid)" "carries apple_env (pc_apples aid)"
proof -
  have "slots_ok ((replicate 100 zero_item)[0 := apple])"
    by (intro slots_ok_update) (simp_all add: slot_ok_def apple_def MAX_AMOUNT_def)
  moreover have "((replicate 100 None)[0 := Some apple_data] ! n = None) = (i_nameid ((replicate 100 zero_item)[0 := apple] ! n) = 0)"
    if "n < 100" for n using that by (cases "n = 0") (simp_all add: apple_def)
  ultimately show "carries apple_env (pc_start aid)" "carries apple_env (pc_apples aid)"
    using apple_env_ok by (simp_all add: carries_def inv_ok_def cart_ok_def pc_start_def pc_apples_def pc_limits)
qed

lemma pc_apples_fresh: "it \<in> set (sd_inventory (pc_apples aid)) \<union> set (sd_cart (pc_apples aid)) \<Longrightarrow> not_expired apple_env it"
proof -
  assume "it \<in> set (sd_inventory (pc_apples aid)) \<union> set (sd_cart (pc_apples aid))"
  moreover have "set ((replicate 100 zero_item)[0 := apple]) \<subseteq> insert apple (set (replicate 100 zero_item))"
    by (rule set_update_subset_insert)
  ultimately have "it = apple \<or> it = zero_item" by (auto simp: pc_apples_def pc_start_def)
  then show ?thesis by (auto simp: not_expired_def apple_def zero_item_def)
qed


text \<open>
  The cart stacks a permanent item on a rental one: the inventory compares the rental's
  expiry time before it stacks, \<open>pc_cart_additem\<close> does not, so the permanent pieces put
  into the cart take over the expiry time of the rental stack they meet first.
\<close>

theorem cart_merges_into_rental:
  assumes i: "i < MAX_CART" and len: "length (sd_cart sd) = MAX_CART"
    and same: "i_nameid (sd_cart sd ! i) = i_nameid it" "i_bound (sd_cart sd ! i) = i_bound it"
      "i_card (sd_cart sd ! i) = i_card it" "i_unique_id (sd_cart sd ! i) = i_unique_id it"
    and first: "\<forall>j < i. i_nameid (sd_cart sd ! j) \<noteq> i_nameid it"
    and rental: "i_expire_time it = 0" "i_expire_time (sd_cart sd ! i) \<noteq> 0"
    and stackable: "itemdb_isstackable2 (e_search env (i_nameid it))"
    and added: "fst (pc_cart_additem env it a sd) = 0"
  shows "i_amount (sd_cart (snd (pc_cart_additem env it a sd)) ! i) = i_amount (sd_cart sd ! i) + a \<and>
    i_expire_time (sd_cart (snd (pc_cart_additem env it a sd)) ! i) = i_expire_time (sd_cart sd ! i)"
proof -
  let ?p = "\<lambda>s. i_nameid s = i_nameid it \<and> i_bound s = i_bound it \<and> i_card s = i_card it"
  have p: "?p (sd_cart sd ! i)" using same by simp
  have "arr_find ?p (sd_cart sd) = i"
  proof (rule linorder_cases [of "arr_find ?p (sd_cart sd)" i])
    assume "arr_find ?p (sd_cart sd) < i"
    then show ?thesis using arr_find_nth [of ?p "sd_cart sd"] first i len by fastforce
  next
    assume "i < arr_find ?p (sd_cart sd)"
    then show ?thesis using arr_find_before [of i ?p "sd_cart sd"] p by simp
  qed
  then show ?thesis
    using added i len same rental stackable by (auto simp: pc_cart_additem_def Let_def split: if_splits)
qed

definition rental_cart :: map_session_data where
  "rental_cart = (pc_apples 1)\<lparr>sd_cart := (replicate 100 zero_item)[0 := apple\<lparr>i_amount := 1, i_expire_time := 9999\<rparr>],
     sd_cart_num := 1\<rparr>"

theorem cart_merges_into_rental_witness:
  "i_amount (sd_cart (snd (pc_cart_additem apple_env apple 10 rental_cart)) ! 0) = 11 \<and>
   i_expire_time (sd_cart (snd (pc_cart_additem apple_env apple 10 rental_cart)) ! 0) = 9999"
proof -
  have s: "sd_cart rental_cart ! 0 = apple\<lparr>i_amount := 1, i_expire_time := 9999\<rparr>" "length (sd_cart rental_cart) = MAX_CART"
    by (simp_all add: rental_cart_def MAX_CART_def)
  have "fst (pc_cart_additem apple_env apple 10 rental_cart) = 0" by code_simp
  moreover have "itemdb_isstackable2 (e_search apple_env (i_nameid apple))" by code_simp
  moreover have "i_nameid apple = 512" "i_expire_time apple = 0" by (simp_all add: apple_def zero_item_def)
  ultimately show ?thesis
    using cart_merges_into_rental [of 0 rental_cart apple apple_env 10] by (simp add: s MAX_CART_def)
qed

text \<open>
  Taking an item the database does not know out of the cart duplicates it: \<open>pc_additem\<close>
  accepts it (\<open>itemdb->search\<close> answers with a placeholder) and \<open>pc_cart_delitem\<close> then
  refuses to remove it.
\<close>

theorem cart_unknown_item_duplicated:
  assumes ok: "carries env sd" and idx: "idx < MAX_CART" and it: "sd_cart sd ! idx = it"
    and "i_nameid it \<noteq> 0" "0 < a" "a \<le> i_amount it" "\<not> sd_vending sd" "not_expired env it"
    and unknown: "\<not> e_exists env (i_nameid it)"
    and added: "fst (pc_additem env it a sd) = 0"
  shows "fst (pc_getitemfromcart env (int idx) a sd) = 1 \<and>
    carried k (snd (pc_getitemfromcart env (int idx) a sd)) = carried k sd + (if k = i_nameid it then a else 0)"
proof -
  obtain s1 where s1: "pc_additem env it a sd = (0, s1)" using added by (metis prod.collapse)
  then have fr: "pc_frame s1 = pc_frame sd"
    "total k (sd_inventory s1) = total k (sd_inventory sd) + (if k = i_nameid it then a else 0)"
    using pc_additem_ok(2) [of env sd it a 0 s1 k] ok assms(8) by (auto simp: carries_def)
  have "sd_cart s1 = sd_cart sd" using pc_frame_sel(2) [OF fr(1)] .
  moreover have "fst (pc_cart_delitem env idx a s1) = 1 \<and> snd (pc_cart_delitem env idx a s1) = s1"
    using calculation unknown it by (auto simp: pc_cart_delitem_def Let_def)
  ultimately show ?thesis using assms(4-7) idx it s1 fr(2) by (simp add: pc_getitemfromcart_def carried_def Let_def)
qed

definition ghost_env :: pc_env where
  "ghost_env = apple_env\<lparr>e_exists := \<lambda>_. False\<rparr>"

definition ghost_cart :: map_session_data where
  "ghost_cart = (pc_start 1)\<lparr>sd_cart := (replicate 100 zero_item)[0 := apple], sd_cart_num := 1\<rparr>"

theorem cart_unknown_item_duplicated_witness:
  "fst (pc_getitemfromcart ghost_env 0 10 ghost_cart) = 1 \<and>
   carried 512 (snd (pc_getitemfromcart ghost_env 0 10 ghost_cart)) = 20"
proof -
  have "slots_ok ((replicate 100 zero_item)[0 := apple])"
    by (intro slots_ok_update) (simp_all add: slot_ok_def apple_def MAX_AMOUNT_def)
  then have "carries ghost_env ghost_cart"
    using pc_start_carries(1) [of 1]
    by (simp add: carries_def ghost_env_def ghost_cart_def env_ok_def inv_ok_def cart_ok_def pc_limits)
  moreover have "fst (pc_additem ghost_env apple 10 ghost_cart) = 0" by code_simp
  moreover have "carried 512 ghost_cart = 10" by code_simp
  moreover have "sd_cart ghost_cart ! 0 = apple" "\<not> sd_vending ghost_cart" "\<not> e_exists ghost_env 512"
    by (simp_all add: ghost_cart_def ghost_env_def pc_start_def)
  moreover have "i_nameid apple = 512" "i_amount apple = 10" "not_expired ghost_env apple"
    by (simp_all add: apple_def not_expired_def zero_item_def)
  ultimately show ?thesis
    using cart_unknown_item_duplicated [of ghost_env ghost_cart 0 apple 10 512] by (simp add: MAX_CART_def)
qed

end
