(* ===== verification/Storage.thy ===== *)
theory Storage
  imports Inventory
begin

text \<open>
  The account storage and the guild storage, \<open>src/map/storage.c\<close>. The account storage is
  the fields \<open>sd_storage\<close>, \<open>sd_storage_amount\<close> and \<open>sd_storage_flag\<close> of the character;
  guild storages live in a map from guild numbers, as in \<open>gstorage->db\<close>. Saving to the
  character server reads the state and is left out, except for the \<open>dirty\<close> flag it
  depends on. \<open>qsort\<close> is an argument of the operations that sort: the C library fixes
  neither the algorithm nor the order of equal elements.
\<close>

definition MAX_STORAGE :: nat where "MAX_STORAGE = 600"
definition MAX_GUILD_STORAGE :: nat where "MAX_GUILD_STORAGE = 600"

record guild_storage =
  gs_dirty :: bool
  gs_guild_id :: int
  gs_status :: bool
  gs_amount :: int
  gs_items :: "item list"
  gs_lock :: bool

type_synonym gstorage_db = "int \<Rightarrow> guild_storage option"

section \<open>Sorting and opening\<close>

definition storage_comp_item :: "item \<Rightarrow> item \<Rightarrow> int" where
  "storage_comp_item i1 i2 =
     (if i_nameid i1 = i_nameid i2 then 0
      else if i_nameid i1 = 0 \<or> i_amount i1 = 0 then 1
      else if i_nameid i2 = 0 \<or> i_amount i2 = 0 then -1
      else i_nameid i1 - i_nameid i2)"

type_synonym qsort_fun = "(item \<Rightarrow> item \<Rightarrow> int) \<Rightarrow> item list \<Rightarrow> item list"

definition storage_sortitem :: "qsort_fun \<Rightarrow> bool \<Rightarrow> item list \<Rightarrow> item list" where
  "storage_sortitem qsort client_sort_storage items =
     (if client_sort_storage then qsort storage_comp_item items else items)"

definition storage_storageopen :: "qsort_fun \<Rightarrow> bool \<Rightarrow> map_session_data \<Rightarrow> int \<times> map_session_data" where
  "storage_storageopen qsort conf sd =
     (if sd_storage_flag sd \<noteq> STORAGE_FLAG_CLOSED then (1, sd)
      else if \<not> perm_trade sd then (1, sd)
      else (0, sd\<lparr>sd_storage_flag := STORAGE_FLAG_NORMAL,
                  sd_storage := storage_sortitem qsort conf (sd_storage sd)\<rparr>))"

definition storage_storageclose :: "map_session_data \<Rightarrow> map_session_data" where
  "storage_storageclose sd = sd\<lparr>sd_storage_flag := STORAGE_FLAG_CLOSED\<rparr>"

definition storage_storage_quit :: "map_session_data \<Rightarrow> map_session_data" where
  "storage_storage_quit sd = sd\<lparr>sd_storage_flag := STORAGE_FLAG_CLOSED\<rparr>"

section \<open>The account storage\<close>

definition compare_item :: "item \<Rightarrow> item \<Rightarrow> bool" where
  "compare_item a b =
     (if i_nameid a = i_nameid b \<and> i_identify a = i_identify b \<and> i_refine a = i_refine b \<and>
         i_attribute a = i_attribute b \<and> i_expire_time a = i_expire_time b \<and> i_bound a = i_bound b \<and>
         i_unique_id a = i_unique_id b
      then list_all (\<lambda>i. i_card a ! i = i_card b ! i) [0..<MAX_SLOTS] else False)"

definition storage_additem :: "pc_env \<Rightarrow> item \<Rightarrow> int \<Rightarrow> map_session_data \<Rightarrow> int \<times> map_session_data" where
  "storage_additem env it amount sd =
     (if i_nameid it \<le> 0 \<or> amount \<le> 0 then (1, sd)
      else let d = e_search env (i_nameid it) in
        if stack_storage d \<and> amount > stack_amount d then (1, sd)
        else if \<not> itemdb_isrestricted env it (sd_group_level sd) 0 itemdb_canstore_sub then (1, sd)
        else if i_bound it > IBT_ACCOUNT \<and> \<not> perm_trade_bound sd then (1, sd)
        else
          let i = (if itemdb_isstackable2 d then arr_find (\<lambda>s. compare_item s it) (sd_storage sd) else MAX_STORAGE)
          in if i < MAX_STORAGE then
               let s = sd_storage sd ! i in
               if amount > MAX_AMOUNT - i_amount s \<or> (stack_storage d \<and> amount > stack_amount d - i_amount s)
               then (1, sd)
               else (0, sd\<lparr>sd_storage := (sd_storage sd)[i := s\<lparr>i_amount := i_amount s + amount\<rparr>]\<rparr>)
             else
               let i = arr_find (\<lambda>s. i_nameid s = 0) (sd_storage sd) in
               if i \<ge> MAX_STORAGE then (1, sd)
               else (0, sd\<lparr>sd_storage := (sd_storage sd)[i := it\<lparr>i_amount := amount\<rparr>],
                           sd_storage_amount := sd_storage_amount sd + 1\<rparr>))"

definition storage_delitem :: "nat \<Rightarrow> int \<Rightarrow> map_session_data \<Rightarrow> int \<times> map_session_data" where
  "storage_delitem n amount sd =
     (if \<not> n < MAX_STORAGE then (1, sd)
      else let s = sd_storage sd ! n in
        if i_nameid s = 0 \<or> i_amount s < amount then (1, sd)
        else let s' = s\<lparr>i_amount := i_amount s - amount\<rparr> in
          if i_amount s' = 0
          then (0, sd\<lparr>sd_storage := (sd_storage sd)[n := zero_item], sd_storage_amount := sd_storage_amount sd - 1\<rparr>)
          else (0, sd\<lparr>sd_storage := (sd_storage sd)[n := s']\<rparr>))"

definition storage_storageadd :: "pc_env \<Rightarrow> int \<Rightarrow> int \<Rightarrow> map_session_data \<Rightarrow> int \<times> map_session_data" where
  "storage_storageadd env index amount sd =
     (if sd_storage_amount sd > int MAX_STORAGE then (0, sd)
      else if index < 0 \<or> index \<ge> int MAX_INVENTORY then (0, sd)
      else let it = sd_inventory sd ! nat index in
        if i_nameid it \<le> 0 then (0, sd)
        else if amount < 1 \<or> amount > i_amount it then (0, sd)
        else let (f, sd) = storage_additem env it amount sd in
          (1, if f = 0 then snd (pc_delitem env (nat index) amount sd) else sd))"

definition storage_storageget :: "pc_env \<Rightarrow> int \<Rightarrow> int \<Rightarrow> map_session_data \<Rightarrow> int \<times> map_session_data" where
  "storage_storageget env index amount sd =
     (if index < 0 \<or> index \<ge> int MAX_STORAGE then (0, sd)
      else let it = sd_storage sd ! nat index in
        if i_nameid it \<le> 0 then (0, sd)
        else if amount < 1 \<or> amount > i_amount it then (0, sd)
        else let (f, sd) = pc_additem env it amount sd in
          (1, if f = 0 then snd (storage_delitem (nat index) amount sd) else sd))"

definition storage_storageaddfromcart :: "pc_env \<Rightarrow> int \<Rightarrow> int \<Rightarrow> map_session_data \<Rightarrow> int \<times> map_session_data" where
  "storage_storageaddfromcart env index amount sd =
     (if sd_storage_amount sd > int MAX_STORAGE then (0, sd)
      else if index < 0 \<or> index \<ge> int MAX_CART then (0, sd)
      else let it = sd_cart sd ! nat index in
        if i_nameid it \<le> 0 then (0, sd)
        else if amount < 1 \<or> amount > i_amount it then (0, sd)
        else let (f, sd) = storage_additem env it amount sd in
          (1, if f = 0 then snd (pc_cart_delitem env (nat index) amount sd) else sd))"

definition storage_storagegettocart :: "pc_env \<Rightarrow> int \<Rightarrow> int \<Rightarrow> map_session_data \<Rightarrow> int \<times> map_session_data" where
  "storage_storagegettocart env index amount sd =
     (if index < 0 \<or> index \<ge> int MAX_STORAGE then (0, sd)
      else let it = sd_storage sd ! nat index in
        if i_nameid it \<le> 0 then (0, sd)
        else if amount < 1 \<or> amount > i_amount it then (0, sd)
        else let (f, sd) = pc_cart_additem env it amount sd in
          (1, if f = 0 then snd (storage_delitem (nat index) amount sd) else sd))"

section \<open>The guild storage\<close>

definition storage_guild_storageopen ::
  "qsort_fun \<Rightarrow> bool \<Rightarrow> map_session_data \<Rightarrow> gstorage_db \<Rightarrow> int \<times> map_session_data \<times> gstorage_db" where
  "storage_guild_storageopen qsort conf sd db =
     (if sd_guild_id sd \<le> 0 then (2, sd, db)
      else if sd_storage_flag sd \<noteq> STORAGE_FLAG_CLOSED then (1, sd, db)
      else if \<not> perm_trade sd then (1, sd, db)
      else (case db (sd_guild_id sd) of
          None \<Rightarrow> (0, sd, db)
        | Some gstor \<Rightarrow>
            if gs_status gstor then (1, sd, db)
            else if gs_lock gstor then (1, sd, db)
            else (0, sd\<lparr>sd_storage_flag := STORAGE_FLAG_GUILD\<rparr>,
                  db(sd_guild_id sd \<mapsto> gstor\<lparr>gs_status := True,
                       gs_items := storage_sortitem qsort conf (gs_items gstor)\<rparr>))))"

definition guild_storage_additem ::
  "pc_env \<Rightarrow> map_session_data \<Rightarrow> item \<Rightarrow> int \<Rightarrow> guild_storage \<Rightarrow> int \<times> guild_storage" where
  "guild_storage_additem env sd it amount stor =
     (if i_nameid it \<le> 0 \<or> amount \<le> 0 then (1, stor)
      else let d = e_search env (i_nameid it) in
        if stack_guildstorage d \<and> amount > stack_amount d then (1, stor)
        else if \<not> itemdb_isrestricted env it (sd_group_level sd) 0 itemdb_canguildstore_sub \<or> i_expire_time it \<noteq> 0
        then (1, stor)
        else if i_bound it \<noteq> 0 \<and> i_bound it \<noteq> IBT_GUILD \<and> \<not> perm_trade_bound sd then (1, stor)
        else
          let i = (if itemdb_isstackable2 d then arr_find (\<lambda>s. compare_item s it) (gs_items stor) else MAX_GUILD_STORAGE)
          in if i < MAX_GUILD_STORAGE then
               let s = gs_items stor ! i in
               if amount > MAX_AMOUNT - i_amount s \<or> (stack_guildstorage d \<and> amount > stack_amount d - i_amount s)
               then (1, stor)
               else (0, stor\<lparr>gs_items := (gs_items stor)[i := s\<lparr>i_amount := i_amount s + amount\<rparr>], gs_dirty := True\<rparr>)
             else
               let i = arr_find (\<lambda>s. i_nameid s = 0) (gs_items stor) in
               if i \<ge> MAX_GUILD_STORAGE then (1, stor)
               else (0, stor\<lparr>gs_items := (gs_items stor)[i := it\<lparr>i_amount := amount\<rparr>],
                             gs_amount := to_int16 (gs_amount stor + 1), gs_dirty := True\<rparr>))"

definition guild_storage_delitem :: "nat \<Rightarrow> int \<Rightarrow> guild_storage \<Rightarrow> int \<times> guild_storage" where
  "guild_storage_delitem n amount stor =
     (if \<not> n < MAX_GUILD_STORAGE then (1, stor)
      else let s = gs_items stor ! n in
        if i_nameid s = 0 \<or> i_amount s < amount then (1, stor)
        else let s' = s\<lparr>i_amount := i_amount s - amount\<rparr> in
          if i_amount s' = 0
          then (0, stor\<lparr>gs_items := (gs_items stor)[n := zero_item], gs_amount := to_int16 (gs_amount stor - 1), gs_dirty := True\<rparr>)
          else (0, stor\<lparr>gs_items := (gs_items stor)[n := s'], gs_dirty := True\<rparr>))"

definition storage_guild_storageclose :: "map_session_data \<Rightarrow> gstorage_db \<Rightarrow> map_session_data \<times> gstorage_db" where
  "storage_guild_storageclose sd db =
     (case db (sd_guild_id sd) of
        None \<Rightarrow> (sd, db)
      | Some stor \<Rightarrow>
          (sd\<lparr>sd_storage_flag := STORAGE_FLAG_CLOSED\<rparr>,
           if gs_status stor then db(sd_guild_id sd \<mapsto> stor\<lparr>gs_status := False\<rparr>) else db))"

definition storage_guild_storage_quit :: "map_session_data \<Rightarrow> gstorage_db \<Rightarrow> map_session_data \<times> gstorage_db" where
  "storage_guild_storage_quit sd db =
     (case db (sd_guild_id sd) of
        None \<Rightarrow> (sd, db)
      | Some stor \<Rightarrow>
          (sd\<lparr>sd_storage_flag := STORAGE_FLAG_CLOSED\<rparr>, db(sd_guild_id sd \<mapsto> stor\<lparr>gs_status := False\<rparr>)))"

definition storage_guild_storageadd ::
  "pc_env \<Rightarrow> int \<Rightarrow> int \<Rightarrow> map_session_data \<Rightarrow> gstorage_db \<Rightarrow> int \<times> map_session_data \<times> gstorage_db" where
  "storage_guild_storageadd env index amount sd db =
     (case db (sd_guild_id sd) of
        None \<Rightarrow> (0, sd, db)
      | Some stor \<Rightarrow>
          if \<not> gs_status stor \<or> gs_amount stor > int MAX_GUILD_STORAGE then (0, sd, db)
          else if index < 0 \<or> index \<ge> int MAX_INVENTORY then (0, sd, db)
          else let it = sd_inventory sd ! nat index in
            if i_nameid it \<le> 0 then (0, sd, db)
            else if amount < 1 \<or> amount > i_amount it then (0, sd, db)
            else if gs_lock stor then (0, storage_guild_storageclose sd db)
            else let (f, stor) = guild_storage_additem env sd it amount stor in
              (1, if f = 0 then snd (pc_delitem env (nat index) amount sd) else sd, db(sd_guild_id sd \<mapsto> stor)))"

definition storage_guild_storageget ::
  "pc_env \<Rightarrow> int \<Rightarrow> int \<Rightarrow> map_session_data \<Rightarrow> gstorage_db \<Rightarrow> int \<times> map_session_data \<times> gstorage_db" where
  "storage_guild_storageget env index amount sd db =
     (case db (sd_guild_id sd) of
        None \<Rightarrow> (0, sd, db)
      | Some stor \<Rightarrow>
          if \<not> gs_status stor then (0, sd, db)
          else if index < 0 \<or> index \<ge> int MAX_GUILD_STORAGE then (0, sd, db)
          else let it = gs_items stor ! nat index in
            if i_nameid it \<le> 0 then (0, sd, db)
            else if amount < 1 \<or> amount > i_amount it then (0, sd, db)
            else if gs_lock stor then (0, storage_guild_storageclose sd db)
            else let (f, sd') = pc_additem env it amount sd in
              (0, sd', db(sd_guild_id sd \<mapsto> (if f = 0 then snd (guild_storage_delitem (nat index) amount stor) else stor))))"

definition storage_guild_storageaddfromcart ::
  "pc_env \<Rightarrow> int \<Rightarrow> int \<Rightarrow> map_session_data \<Rightarrow> gstorage_db \<Rightarrow> int \<times> map_session_data \<times> gstorage_db" where
  "storage_guild_storageaddfromcart env index amount sd db =
     (case db (sd_guild_id sd) of
        None \<Rightarrow> (0, sd, db)
      | Some stor \<Rightarrow>
          if \<not> gs_status stor \<or> gs_amount stor > int MAX_GUILD_STORAGE then (0, sd, db)
          else if index < 0 \<or> index \<ge> int MAX_CART then (0, sd, db)
          else let it = sd_cart sd ! nat index in
            if i_nameid it \<le> 0 then (0, sd, db)
            else if amount < 1 \<or> amount > i_amount it then (0, sd, db)
            else let (f, stor) = guild_storage_additem env sd it amount stor in
              (1, if f = 0 then snd (pc_cart_delitem env (nat index) amount sd) else sd, db(sd_guild_id sd \<mapsto> stor)))"

definition storage_guild_storagegettocart ::
  "pc_env \<Rightarrow> int \<Rightarrow> int \<Rightarrow> map_session_data \<Rightarrow> gstorage_db \<Rightarrow> int \<times> map_session_data \<times> gstorage_db" where
  "storage_guild_storagegettocart env index amount sd db =
     (case db (sd_guild_id sd) of
        None \<Rightarrow> (0, sd, db)
      | Some stor \<Rightarrow>
          if \<not> gs_status stor then (0, sd, db)
          else if index < 0 \<or> index \<ge> int MAX_GUILD_STORAGE then (0, sd, db)
          else let it = gs_items stor ! nat index in
            if i_nameid it \<le> 0 then (0, sd, db)
            else if amount < 1 \<or> amount > i_amount it then (0, sd, db)
            else let (f, sd') = pc_cart_additem env it amount sd in
              (1, sd', db(sd_guild_id sd \<mapsto> (if f = 0 then snd (guild_storage_delitem (nat index) amount stor) else stor))))"

text \<open>Saving: the storage that is sent to the character server is the last component.\<close>

definition storage_guild_storagesave :: "int \<Rightarrow> bool \<Rightarrow> gstorage_db \<Rightarrow> int \<times> gstorage_db \<times> guild_storage option" where
  "storage_guild_storagesave guild_id flag db =
     (case db guild_id of
        None \<Rightarrow> (0, db, None)
      | Some stor \<Rightarrow>
          let stor = (if flag then stor\<lparr>gs_status := False\<rparr> else stor)
          in (1, db(guild_id \<mapsto> stor), if gs_dirty stor then Some stor else None))"

definition storage_guild_storagesaved :: "int \<Rightarrow> gstorage_db \<Rightarrow> int \<times> gstorage_db" where
  "storage_guild_storagesaved guild_id db =
     (case db guild_id of
        None \<Rightarrow> (0, db)
      | Some stor \<Rightarrow>
          (1, if gs_dirty stor \<and> \<not> gs_status stor then db(guild_id \<mapsto> stor\<lparr>gs_dirty := False\<rparr>) else db))"

definition storage_reconnect_sub :: "gstorage_db \<Rightarrow> int \<Rightarrow> gstorage_db \<times> guild_storage option" where
  "storage_reconnect_sub db guild_id =
     (case db guild_id of
        None \<Rightarrow> (db, None)
      | Some stor \<Rightarrow>
          if gs_dirty stor \<and> \<not> gs_status stor then snd (storage_guild_storagesave guild_id False db) else (db, None))"

definition create_guildstorage :: "int \<Rightarrow> guild_storage" where
  "create_guildstorage guild_id = \<lparr>gs_dirty = False, gs_guild_id = guild_id, gs_status = False, gs_amount = 0,
     gs_items = replicate MAX_GUILD_STORAGE zero_item, gs_lock = False\<rparr>"

text \<open>\<open>guild->search\<close> belongs to the guild component and is an argument.\<close>

definition guild2storage_ensure :: "(int \<Rightarrow> bool) \<Rightarrow> int \<Rightarrow> gstorage_db \<Rightarrow> guild_storage option \<times> gstorage_db" where
  "guild2storage_ensure guild_exists guild_id db =
     (if guild_exists guild_id then
        let db = (if db guild_id = None then db(guild_id \<mapsto> create_guildstorage guild_id) else db)
        in (db guild_id, db)
      else (None, db))"

definition guild_storage_delete :: "int \<Rightarrow> gstorage_db \<Rightarrow> gstorage_db" where
  "guild_storage_delete guild_id db = db(guild_id := None)"

section \<open>What the operations keep\<close>

text \<open>The number of slots in use.\<close>

definition used :: "item list \<Rightarrow> int" where
  "used items = sum_list (map (\<lambda>it. if i_nameid it = 0 then 0 else 1) items)"

lemma used_update:
  "i < length xs \<Longrightarrow> used (xs[i := x]) =
     used xs - (if i_nameid (xs ! i) = 0 then 0 else 1) + (if i_nameid x = 0 then 0 else 1)"
  by (simp add: used_def map_update sum_list_update_int)

lemma used_bounds: "0 \<le> used xs \<and> used xs \<le> int (length xs)"
  by (induction xs) (auto simp: used_def)

lemma used_lt:
  assumes "i < length xs" "i_nameid (xs ! i) = 0"
  shows "used xs < int (length xs)"
proof -
  let ?x = "zero_item\<lparr>i_nameid := 1\<rparr>"
  have "used (xs[i := ?x]) = used xs + 1" using assms by (simp add: used_update)
  then show ?thesis using used_bounds [of "xs[i := ?x]"] by simp
qed

text \<open>An array of slots and the counter that goes with it.\<close>

definition array_ok :: "nat \<Rightarrow> item list \<Rightarrow> int \<Rightarrow> bool" where
  "array_ok n items amount \<longleftrightarrow> length items = n \<and> slots_ok items \<and> amount = used items"

lemma array_stack:
  assumes "array_ok n xs c" "i < n" "i_nameid (xs ! i) = i_nameid it" "0 < i_nameid it" "0 < amount"
    and "amount \<le> MAX_AMOUNT - i_amount (xs ! i)" "x = (xs ! i)\<lparr>i_amount := i_amount (xs ! i) + amount\<rparr>"
  shows "array_ok n (xs[i := x]) c" "total k (xs[i := x]) = total k xs + (if k = i_nameid it then amount else 0)"
  using assms stack_into [of xs i it amount x] by (auto simp: array_ok_def used_update)

lemma array_put:
  assumes "array_ok n xs c" "i < n" "i_nameid (xs ! i) = 0" "0 < i_nameid it" "0 < amount"
    and "amount \<le> MAX_AMOUNT" "x = it\<lparr>i_amount := amount\<rparr>"
  shows "array_ok n (xs[i := x]) (c + 1)" "total k (xs[i := x]) = total k xs + (if k = i_nameid it then amount else 0)"
    "c < int n"
  using assms put_into [of xs i it amount x] used_lt [of i xs] by (auto simp: array_ok_def used_update)

lemma array_take:
  assumes "array_ok n xs c" "i < n" "0 < amount" "amount \<le> i_amount (xs ! i)"
    and "x = (if i_amount (xs ! i) - amount = 0 then zero_item else (xs ! i)\<lparr>i_amount := i_amount (xs ! i) - amount\<rparr>)"
    and "c' = (if i_amount (xs ! i) - amount = 0 then c - 1 else c)"
  shows "array_ok n (xs[i := x]) c'" "total k (xs[i := x]) = total k xs - (if k = i_nameid (xs ! i) then amount else 0)"
proof -
  have len: "length xs = n" and so: "slots_ok xs" using assms(1) by (simp_all add: array_ok_def)
  have nz: "i_nameid (xs ! i) \<noteq> 0" using slots_ok_nth [OF so] assms(2-4) len by (fastforce simp: slot_ok_def)
  have "x = (if i_amount (xs ! i) - amount \<le> 0 then zero_item else (xs ! i)\<lparr>i_amount := i_amount (xs ! i) - amount\<rparr>)"
    using assms(4,5) by auto
  from take_from [OF so _ assms(3,4) this] assms(2) len
  have t: "slots_ok (xs[i := x])" "total k (xs[i := x]) = total k xs - (if k = i_nameid (xs ! i) then amount else 0)"
    by simp_all
  show "array_ok n (xs[i := x]) c'"
    using t(1) assms(1,2,5,6) len nz by (auto simp: array_ok_def used_update)
  show "total k (xs[i := x]) = total k xs - (if k = i_nameid (xs ! i) then amount else 0)" by (rule t(2))
qed

definition stor_ok :: "map_session_data \<Rightarrow> bool" where
  "stor_ok sd \<longleftrightarrow> array_ok MAX_STORAGE (sd_storage sd) (sd_storage_amount sd)"

definition gstor_ok :: "guild_storage \<Rightarrow> bool" where
  "gstor_ok g \<longleftrightarrow> array_ok MAX_GUILD_STORAGE (gs_items g) (gs_amount g)"

lemma compare_item_nameid: "compare_item a b \<Longrightarrow> i_nameid a = i_nameid b"
  by (simp add: compare_item_def split: if_splits)

lemma storage_additem_ok:
  assumes ok: "stor_ok sd" and a: "storage_additem env it amount sd = (flag, sd')" and am: "amount \<le> MAX_AMOUNT"
  shows "flag \<noteq> 0 \<Longrightarrow> sd' = sd"
    and "flag = 0 \<Longrightarrow> stor_ok sd' \<and> (\<exists>c n. sd' = sd\<lparr>sd_storage := c, sd_storage_amount := n\<rparr>) \<and>
      total k (sd_storage sd') = total k (sd_storage sd) + (if k = i_nameid it then amount else 0)"
proof -
  define d where "d = e_search env (i_nameid it)"
  define i where "i = (if itemdb_isstackable2 d then arr_find (\<lambda>s. compare_item s it) (sd_storage sd) else MAX_STORAGE)"
  define j where "j = arr_find (\<lambda>s. i_nameid s = 0) (sd_storage sd)"
  define m where "m = (sd_storage sd)[i := (sd_storage sd ! i)\<lparr>i_amount := i_amount (sd_storage sd ! i) + amount\<rparr>]"
  define p where "p = (sd_storage sd)[j := it\<lparr>i_amount := amount\<rparr>]"
  define sm where "sm = sd\<lparr>sd_storage := m\<rparr>"
  define sp where "sp = sd\<lparr>sd_storage := p, sd_storage_amount := sd_storage_amount sd + 1\<rparr>"
  have aok: "array_ok MAX_STORAGE (sd_storage sd) (sd_storage_amount sd)" using ok by (simp add: stor_ok_def)
  then have len: "length (sd_storage sd) = MAX_STORAGE" by (simp add: array_ok_def)
  consider (fail) "flag \<noteq> 0" "sd' = sd"
    | (merge) "flag = 0" "i < MAX_STORAGE" "0 < i_nameid it" "0 < amount"
        "amount \<le> MAX_AMOUNT - i_amount (sd_storage sd ! i)" "sd' = sm"
    | (fresh) "flag = 0" "j < MAX_STORAGE" "0 < i_nameid it" "0 < amount" "sd' = sp"
    using a unfolding storage_additem_def Let_def d_def [symmetric] i_def [symmetric] j_def [symmetric]
      m_def [symmetric] p_def [symmetric] sm_def [symmetric] sp_def [symmetric]
    by (elim if_eqE) (auto simp: not_le not_less)
  note cases = this
  show "flag \<noteq> 0 \<Longrightarrow> sd' = sd" using cases by cases auto
  assume f: "flag = 0"
  from cases show "stor_ok sd' \<and> (\<exists>c n. sd' = sd\<lparr>sd_storage := c, sd_storage_amount := n\<rparr>) \<and>
      total k (sd_storage sd') = total k (sd_storage sd) + (if k = i_nameid it then amount else 0)"
  proof cases
    case fail
    then show ?thesis using f by simp
  next
    case merge
    have "i = arr_find (\<lambda>s. compare_item s it) (sd_storage sd)" using merge(2) by (auto simp: i_def split: if_splits)
    then have "i_nameid (sd_storage sd ! i) = i_nameid it"
      using arr_find_nth [of "\<lambda>s. compare_item s it" "sd_storage sd"] merge(2) len compare_item_nameid by simp
    from array_stack [OF aok merge(2) this merge(3-5) refl]
    have "array_ok MAX_STORAGE m (sd_storage_amount sd)"
      "total k m = total k (sd_storage sd) + (if k = i_nameid it then amount else 0)" by (simp_all add: m_def)
    moreover have "\<exists>c n. sd' = sd\<lparr>sd_storage := c, sd_storage_amount := n\<rparr>"
      by (rule exI [of _ m], rule exI [of _ "sd_storage_amount sd"]) (simp add: merge(6) sm_def)
    ultimately show ?thesis by (simp add: stor_ok_def merge(6) sm_def)
  next
    case fresh
    have "i_nameid (sd_storage sd ! j) = 0"
      using arr_find_nth [of "\<lambda>s. i_nameid s = 0" "sd_storage sd"] fresh(2) len by (simp add: j_def)
    from array_put [OF aok fresh(2) this fresh(3,4) am refl]
    have "array_ok MAX_STORAGE p (sd_storage_amount sd + 1)"
      "total k p = total k (sd_storage sd) + (if k = i_nameid it then amount else 0)" by (simp_all add: p_def)
    moreover have "\<exists>c n. sd' = sd\<lparr>sd_storage := c, sd_storage_amount := n\<rparr>" unfolding fresh(5) sp_def by blast
    ultimately show ?thesis by (simp add: stor_ok_def fresh(5) sp_def)
  qed
qed

lemma storage_delitem_ok:
  assumes ok: "stor_ok sd" and n: "n < MAX_STORAGE" and a: "0 < amount" "amount \<le> i_amount (sd_storage sd ! n)"
  shows "\<exists>c m. storage_delitem n amount sd = (0, sd\<lparr>sd_storage := c, sd_storage_amount := m\<rparr>) \<and>
    stor_ok (sd\<lparr>sd_storage := c, sd_storage_amount := m\<rparr>) \<and>
    (\<forall>k. total k c = total k (sd_storage sd) - (if k = i_nameid (sd_storage sd ! n) then amount else 0))"
proof -
  let ?s = "sd_storage sd ! n"
  define x where "x = (if i_amount ?s - amount = 0 then zero_item else ?s\<lparr>i_amount := i_amount ?s - amount\<rparr>)"
  define m where "m = (if i_amount ?s - amount = 0 then sd_storage_amount sd - 1 else sd_storage_amount sd)"
  have aok: "array_ok MAX_STORAGE (sd_storage sd) (sd_storage_amount sd)" using ok by (simp add: stor_ok_def)
  then have "slot_ok ?s" using slots_ok_nth [of "sd_storage sd" n] n by (simp add: array_ok_def)
  then have nz: "i_nameid ?s \<noteq> 0" using a by (auto simp: slot_ok_def)
  have "storage_delitem n amount sd = (0, sd\<lparr>sd_storage := (sd_storage sd)[n := x], sd_storage_amount := m\<rparr>)"
    using n a nz by (auto simp: storage_delitem_def Let_def x_def m_def)
  moreover note array_take [OF aok n a x_def m_def]
  ultimately show ?thesis
    by (intro exI [of _ "(sd_storage sd)[n := x]"] exI [of _ m]) (simp add: stor_ok_def)
qed

lemma guild_storage_additem_ok:
  assumes ok: "gstor_ok g" and a: "guild_storage_additem env sd it amount g = (flag, g')" and am: "amount \<le> MAX_AMOUNT"
  shows "flag \<noteq> 0 \<Longrightarrow> g' = g"
    and "flag = 0 \<Longrightarrow> gstor_ok g' \<and> gs_dirty g' \<and>
      total k (gs_items g') = total k (gs_items g) + (if k = i_nameid it then amount else 0)"
proof -
  define d where "d = e_search env (i_nameid it)"
  define i where "i = (if itemdb_isstackable2 d then arr_find (\<lambda>s. compare_item s it) (gs_items g) else MAX_GUILD_STORAGE)"
  define j where "j = arr_find (\<lambda>s. i_nameid s = 0) (gs_items g)"
  define m where "m = (gs_items g)[i := (gs_items g ! i)\<lparr>i_amount := i_amount (gs_items g ! i) + amount\<rparr>]"
  define p where "p = (gs_items g)[j := it\<lparr>i_amount := amount\<rparr>]"
  define gm where "gm = g\<lparr>gs_items := m, gs_dirty := True\<rparr>"
  define gp where "gp = g\<lparr>gs_items := p, gs_amount := to_int16 (gs_amount g + 1), gs_dirty := True\<rparr>"
  have aok: "array_ok MAX_GUILD_STORAGE (gs_items g) (gs_amount g)" using ok by (simp add: gstor_ok_def)
  then have len: "length (gs_items g) = MAX_GUILD_STORAGE" and c: "0 \<le> gs_amount g"
    using used_bounds by (simp_all add: array_ok_def)
  consider (fail) "flag \<noteq> 0" "g' = g"
    | (merge) "flag = 0" "i < MAX_GUILD_STORAGE" "0 < i_nameid it" "0 < amount"
        "amount \<le> MAX_AMOUNT - i_amount (gs_items g ! i)" "g' = gm"
    | (fresh) "flag = 0" "j < MAX_GUILD_STORAGE" "0 < i_nameid it" "0 < amount" "g' = gp"
    using a unfolding guild_storage_additem_def Let_def d_def [symmetric] i_def [symmetric] j_def [symmetric]
      m_def [symmetric] p_def [symmetric] gm_def [symmetric] gp_def [symmetric]
    by (elim if_eqE) (auto simp: not_le not_less)
  note cases = this
  show "flag \<noteq> 0 \<Longrightarrow> g' = g" using cases by cases auto
  assume f: "flag = 0"
  from cases show "gstor_ok g' \<and> gs_dirty g' \<and>
      total k (gs_items g') = total k (gs_items g) + (if k = i_nameid it then amount else 0)"
  proof cases
    case fail
    then show ?thesis using f by simp
  next
    case merge
    have "i = arr_find (\<lambda>s. compare_item s it) (gs_items g)" using merge(2) by (auto simp: i_def split: if_splits)
    then have "i_nameid (gs_items g ! i) = i_nameid it"
      using arr_find_nth [of "\<lambda>s. compare_item s it" "gs_items g"] merge(2) len compare_item_nameid by simp
    from array_stack [OF aok merge(2) this merge(3-5) refl] merge(6)
    show ?thesis by (simp add: gstor_ok_def m_def gm_def)
  next
    case fresh
    have "i_nameid (gs_items g ! j) = 0"
      using arr_find_nth [of "\<lambda>s. i_nameid s = 0" "gs_items g"] fresh(2) len by (simp add: j_def)
    from array_put [OF aok fresh(2) this fresh(3,4) am refl] fresh(5) c
    show ?thesis by (simp add: gstor_ok_def p_def gp_def MAX_GUILD_STORAGE_def)
  qed
qed

lemma guild_storage_delitem_ok:
  assumes ok: "gstor_ok g" and n: "n < MAX_GUILD_STORAGE" and a: "0 < amount" "amount \<le> i_amount (gs_items g ! n)"
  shows "\<exists>g'. guild_storage_delitem n amount g = (0, g') \<and> gstor_ok g' \<and> gs_dirty g' \<and>
    (\<forall>k. total k (gs_items g') = total k (gs_items g) - (if k = i_nameid (gs_items g ! n) then amount else 0))"
proof -
  let ?s = "gs_items g ! n"
  define x where "x = (if i_amount ?s - amount = 0 then zero_item else ?s\<lparr>i_amount := i_amount ?s - amount\<rparr>)"
  define m where "m = (if i_amount ?s - amount = 0 then gs_amount g - 1 else gs_amount g)"
  have aok: "array_ok MAX_GUILD_STORAGE (gs_items g) (gs_amount g)" using ok by (simp add: gstor_ok_def)
  then have "slot_ok ?s" using slots_ok_nth [of "gs_items g" n] n by (simp add: array_ok_def)
  then have nz: "i_nameid ?s \<noteq> 0" using a by (auto simp: slot_ok_def)
  have c: "0 \<le> gs_amount g" "gs_amount g \<le> 600"
    using aok used_bounds [of "gs_items g"] by (simp_all add: array_ok_def MAX_GUILD_STORAGE_def)
  have "guild_storage_delitem n amount g = (0, g\<lparr>gs_items := (gs_items g)[n := x], gs_amount := m, gs_dirty := True\<rparr>)"
    using n a nz c by (auto simp: guild_storage_delitem_def Let_def x_def m_def)
  moreover note array_take [OF aok n a x_def m_def]
  ultimately show ?thesis by (auto simp: gstor_ok_def)
qed

section \<open>Moving items\<close>

definition keeps :: "pc_env \<Rightarrow> map_session_data \<Rightarrow> bool" where
  "keeps env sd \<longleftrightarrow> carries env sd \<and> stor_ok sd"

definition known :: "pc_env \<Rightarrow> item \<Rightarrow> bool" where
  "known env it \<longleftrightarrow> not_expired env it \<and> e_exists env (i_nameid it)"

lemma storage_upd_ok [simp]:
  "inv_ok (sd\<lparr>sd_storage := c, sd_storage_amount := n\<rparr>) = inv_ok sd"
  "cart_ok (sd\<lparr>sd_storage := c, sd_storage_amount := n\<rparr>) = cart_ok sd"
  by (simp_all add: inv_ok_def cart_ok_def)

lemma stor_ok_cart_upd [simp]: "stor_ok (sd\<lparr>sd_cart := c, sd_cart_num := n, sd_cart_weight := w\<rparr>) = stor_ok sd"
  by (simp add: stor_ok_def)

lemma stor_ok_frame: "pc_frame sd' = pc_frame sd \<Longrightarrow> stor_ok sd' = stor_ok sd"
  using pc_frame_sel(3,4) [of sd' sd] by (simp add: stor_ok_def)

text \<open>The six operations on the three arrays, in the same form.\<close>

lemma keeps_additem:
  assumes "keeps env sd" "not_expired env it" "pc_additem env it a sd = (0, sd')"
  shows "keeps env sd' \<and> sd_cart sd' = sd_cart sd \<and> sd_storage sd' = sd_storage sd \<and> sd_guild_id sd' = sd_guild_id sd \<and>
    sd_storage_flag sd' = sd_storage_flag sd \<and>
    (\<forall>k. total k (sd_inventory sd') = total k (sd_inventory sd) + (if k = i_nameid it then a else 0))"
proof -
  have "inv_ok sd' \<and> pc_frame sd' = pc_frame sd \<and>
      total k (sd_inventory sd') = total k (sd_inventory sd) + (if k = i_nameid it then a else 0)" for k
    using pc_additem_ok(2) [OF _ _ assms(2,3), of k] assms(1) by (simp add: keeps_def carries_def)
  moreover from this have "pc_frame sd' = pc_frame sd" by blast
  ultimately show ?thesis
    using assms(1) cart_ok_frame [of sd' sd] stor_ok_frame [of sd' sd] pc_frame_sel(2,3,7,12) [of sd' sd]
    by (simp add: keeps_def carries_def)
qed

lemma keeps_delitem:
  assumes "keeps env sd" "n < MAX_INVENTORY" "0 < a" "a \<le> i_amount (sd_inventory sd ! n)"
  shows "\<exists>sd'. pc_delitem env n a sd = (0, sd') \<and> keeps env sd' \<and> sd_cart sd' = sd_cart sd \<and> sd_storage sd' = sd_storage sd \<and>
    sd_guild_id sd' = sd_guild_id sd \<and> sd_storage_flag sd' = sd_storage_flag sd \<and>
    (\<forall>k. total k (sd_inventory sd') = total k (sd_inventory sd) - (if k = i_nameid (sd_inventory sd ! n) then a else 0))"
proof -
  obtain sd' where d: "pc_delitem env n a sd = (0, sd')" "inv_ok sd'" "pc_frame sd' = pc_frame sd"
    "\<forall>k. total k (sd_inventory sd') = total k (sd_inventory sd) - (if k = i_nameid (sd_inventory sd ! n) then a else 0)"
    using pc_delitem_ok [of env sd n a] assms by (auto simp: keeps_def carries_def)
  then show ?thesis
    using assms(1) cart_ok_frame [OF d(3)] stor_ok_frame [OF d(3)] pc_frame_sel(2,3,7,12) [OF d(3)]
    by (simp add: keeps_def carries_def)
qed

lemma keeps_cart_additem:
  assumes "keeps env sd" "a \<le> MAX_AMOUNT" "pc_cart_additem env it a sd = (0, sd')"
  shows "keeps env sd' \<and> sd_inventory sd' = sd_inventory sd \<and> sd_storage sd' = sd_storage sd \<and>
    sd_guild_id sd' = sd_guild_id sd \<and> sd_storage_flag sd' = sd_storage_flag sd \<and>
    (\<forall>k. total k (sd_cart sd') = total k (sd_cart sd) + (if k = i_nameid it then a else 0))"
proof -
  have all: "cart_ok sd' \<and> (\<exists>c n w. sd' = sd\<lparr>sd_cart := c, sd_cart_num := n, sd_cart_weight := w\<rparr>) \<and>
      total k (sd_cart sd') = total k (sd_cart sd) + (if k = i_nameid it then a else 0)" for k
    using pc_cart_additem_ok(2) [OF _ assms(3,2), of k] assms(1) by (simp add: keeps_def carries_def)
  then obtain c n w where "sd' = sd\<lparr>sd_cart := c, sd_cart_num := n, sd_cart_weight := w\<rparr>" by blast
  then show ?thesis using assms(1) all by (simp add: keeps_def carries_def)
qed

lemma keeps_cart_delitem:
  assumes "keeps env sd" "n < MAX_CART" "0 < a" "a \<le> i_amount (sd_cart sd ! n)" "e_exists env (i_nameid (sd_cart sd ! n))"
  shows "\<exists>sd'. pc_cart_delitem env n a sd = (0, sd') \<and> keeps env sd' \<and> sd_inventory sd' = sd_inventory sd \<and>
    sd_storage sd' = sd_storage sd \<and> sd_guild_id sd' = sd_guild_id sd \<and> sd_storage_flag sd' = sd_storage_flag sd \<and>
    (\<forall>k. total k (sd_cart sd') = total k (sd_cart sd) - (if k = i_nameid (sd_cart sd ! n) then a else 0))"
proof -
  obtain c m w where "pc_cart_delitem env n a sd = (0, sd\<lparr>sd_cart := c, sd_cart_num := m, sd_cart_weight := w\<rparr>)"
    "cart_ok (sd\<lparr>sd_cart := c, sd_cart_num := m, sd_cart_weight := w\<rparr>)"
    "\<forall>k. total k c = total k (sd_cart sd) - (if k = i_nameid (sd_cart sd ! n) then a else 0)"
    using pc_cart_delitem_ok [OF _ assms(2-5)] assms(1) by (auto simp: keeps_def carries_def)
  then show ?thesis using assms(1) by (simp add: keeps_def carries_def)
qed

lemma keeps_storage_additem:
  assumes "keeps env sd" "a \<le> MAX_AMOUNT" "storage_additem env it a sd = (0, sd')"
  shows "keeps env sd' \<and> sd_inventory sd' = sd_inventory sd \<and> sd_cart sd' = sd_cart sd \<and>
    (\<forall>k. total k (sd_storage sd') = total k (sd_storage sd) + (if k = i_nameid it then a else 0))"
proof -
  have all: "stor_ok sd' \<and> (\<exists>c n. sd' = sd\<lparr>sd_storage := c, sd_storage_amount := n\<rparr>) \<and>
      total k (sd_storage sd') = total k (sd_storage sd) + (if k = i_nameid it then a else 0)" for k
    using storage_additem_ok(2) [OF _ assms(3,2), of k] assms(1) by (simp add: keeps_def)
  then obtain c n where "sd' = sd\<lparr>sd_storage := c, sd_storage_amount := n\<rparr>" by blast
  then show ?thesis using assms(1) all by (simp add: keeps_def carries_def)
qed

lemma keeps_storage_delitem:
  assumes "keeps env sd" "n < MAX_STORAGE" "0 < a" "a \<le> i_amount (sd_storage sd ! n)"
  shows "\<exists>sd'. storage_delitem n a sd = (0, sd') \<and> keeps env sd' \<and> sd_inventory sd' = sd_inventory sd \<and>
    sd_cart sd' = sd_cart sd \<and>
    (\<forall>k. total k (sd_storage sd') = total k (sd_storage sd) - (if k = i_nameid (sd_storage sd ! n) then a else 0))"
proof -
  obtain c m where "storage_delitem n a sd = (0, sd\<lparr>sd_storage := c, sd_storage_amount := m\<rparr>)"
    "stor_ok (sd\<lparr>sd_storage := c, sd_storage_amount := m\<rparr>)"
    "\<forall>k. total k c = total k (sd_storage sd) - (if k = i_nameid (sd_storage sd ! n) then a else 0)"
    using storage_delitem_ok [OF _ assms(2-4)] assms(1) by (auto simp: keeps_def)
  then show ?thesis using assms(1) by (simp add: keeps_def carries_def)
qed

lemma keeps_slots:
  assumes "keeps env sd"
  shows "slots_ok (sd_inventory sd)" "slots_ok (sd_cart sd)" "slots_ok (sd_storage sd)"
    "length (sd_inventory sd) = MAX_INVENTORY" "length (sd_cart sd) = MAX_CART" "length (sd_storage sd) = MAX_STORAGE"
    "env_ok env" "inv_ok sd" "cart_ok sd" "stor_ok sd"
  using assms by (simp_all add: keeps_def carries_def inv_ok_def cart_ok_def stor_ok_def array_ok_def)

interpretation inv_stor: item_move "keeps env" "known env" sd_inventory sd_storage sd_cart
  "storage_additem env" "pc_delitem env" for env
proof (unfold_locales, goal_cases)
  case (2 s it a f s')
  then show ?case using storage_additem_ok(1) keeps_slots(10) by blast
next
  case (3 s it a s')
  then show ?case using keeps_storage_additem by blast
next
  case (4 s n a)
  then show ?case using keeps_delitem [of env s n a] keeps_slots(4) [of env s] by auto
qed (use keeps_slots in blast)

interpretation stor_inv: item_move "keeps env" "known env" sd_storage sd_inventory sd_cart
  "pc_additem env" storage_delitem for env
proof (unfold_locales, goal_cases)
  case (2 s it a f s')
  then show ?case using pc_additem_ok(1) [of env s it a f s'] keeps_slots(7,8) [of env s] by (simp add: known_def)
next
  case (3 s it a s')
  then show ?case using keeps_additem [of env s it a s'] by (auto simp: known_def)
next
  case (4 s n a)
  then show ?case using keeps_storage_delitem [of env s n a] keeps_slots(6) [of env s] by auto
qed (use keeps_slots in blast)

interpretation cart_stor: item_move "keeps env" "known env" sd_cart sd_storage sd_inventory
  "storage_additem env" "pc_cart_delitem env" for env
proof (unfold_locales, goal_cases)
  case (2 s it a f s')
  then show ?case using storage_additem_ok(1) keeps_slots(10) by blast
next
  case (3 s it a s')
  then show ?case using keeps_storage_additem by blast
next
  case (4 s n a)
  then show ?case using keeps_cart_delitem [of env s n a] keeps_slots(5) [of env s] by (auto simp: known_def)
qed (use keeps_slots in blast)

interpretation stor_cart: item_move "keeps env" "known env" sd_storage sd_cart sd_inventory
  "pc_cart_additem env" storage_delitem for env
proof (unfold_locales, goal_cases)
  case (2 s it a f s')
  then show ?case using pc_cart_additem_ok(1) keeps_slots(9) by blast
next
  case (3 s it a s')
  then show ?case using keeps_cart_additem by blast
next
  case (4 s n a)
  then show ?case using keeps_storage_delitem [of env s n a] keeps_slots(6) [of env s] by auto
qed (use keeps_slots in blast)

text \<open>Everything an account owns.\<close>

definition owned :: "int \<Rightarrow> map_session_data \<Rightarrow> int" where
  "owned k sd = total k (sd_inventory sd) + total k (sd_cart sd) + total k (sd_storage sd)"

definition all_known :: "pc_env \<Rightarrow> map_session_data \<Rightarrow> bool" where
  "all_known env sd \<longleftrightarrow>
     (\<forall>it \<in> set (sd_inventory sd) \<union> set (sd_cart sd) \<union> set (sd_storage sd). i_nameid it \<noteq> 0 \<longrightarrow> known env it)"

lemma storage_storageadd_cases:
  obtains "snd (storage_storageadd env idx a sd) = sd"
  | f s1 where "0 \<le> idx" "nat idx < MAX_INVENTORY" "i_nameid (sd_inventory sd ! nat idx) \<noteq> 0" "0 < a"
      "a \<le> i_amount (sd_inventory sd ! nat idx)" "storage_additem env (sd_inventory sd ! nat idx) a sd = (f, s1)"
      "snd (storage_storageadd env idx a sd) = (if f = 0 then snd (pc_delitem env (nat idx) a s1) else s1)"
proof (cases "snd (storage_storageadd env idx a sd) = sd")
  case False
  obtain f s1 where "storage_additem env (sd_inventory sd ! nat idx) a sd = (f, s1)" by (metis surj_pair)
  with False that(2) show thesis by (force simp: storage_storageadd_def Let_def split: if_splits)
qed (use that(1) in blast)

lemma storage_storageget_cases:
  obtains "snd (storage_storageget env idx a sd) = sd"
  | f s1 where "0 \<le> idx" "nat idx < MAX_STORAGE" "i_nameid (sd_storage sd ! nat idx) \<noteq> 0" "0 < a"
      "a \<le> i_amount (sd_storage sd ! nat idx)" "pc_additem env (sd_storage sd ! nat idx) a sd = (f, s1)"
      "snd (storage_storageget env idx a sd) = (if f = 0 then snd (storage_delitem (nat idx) a s1) else s1)"
proof (cases "snd (storage_storageget env idx a sd) = sd")
  case False
  obtain f s1 where "pc_additem env (sd_storage sd ! nat idx) a sd = (f, s1)" by (metis surj_pair)
  with False that(2) show thesis by (force simp: storage_storageget_def Let_def split: if_splits)
qed (use that(1) in blast)

lemma storage_storageaddfromcart_cases:
  obtains "snd (storage_storageaddfromcart env idx a sd) = sd"
  | f s1 where "0 \<le> idx" "nat idx < MAX_CART" "i_nameid (sd_cart sd ! nat idx) \<noteq> 0" "0 < a"
      "a \<le> i_amount (sd_cart sd ! nat idx)" "storage_additem env (sd_cart sd ! nat idx) a sd = (f, s1)"
      "snd (storage_storageaddfromcart env idx a sd) = (if f = 0 then snd (pc_cart_delitem env (nat idx) a s1) else s1)"
proof (cases "snd (storage_storageaddfromcart env idx a sd) = sd")
  case False
  obtain f s1 where "storage_additem env (sd_cart sd ! nat idx) a sd = (f, s1)" by (metis surj_pair)
  with False that(2) show thesis by (force simp: storage_storageaddfromcart_def Let_def split: if_splits)
qed (use that(1) in blast)

lemma storage_storagegettocart_cases:
  obtains "snd (storage_storagegettocart env idx a sd) = sd"
  | f s1 where "0 \<le> idx" "nat idx < MAX_STORAGE" "i_nameid (sd_storage sd ! nat idx) \<noteq> 0" "0 < a"
      "a \<le> i_amount (sd_storage sd ! nat idx)" "pc_cart_additem env (sd_storage sd ! nat idx) a sd = (f, s1)"
      "snd (storage_storagegettocart env idx a sd) = (if f = 0 then snd (storage_delitem (nat idx) a s1) else s1)"
proof (cases "snd (storage_storagegettocart env idx a sd) = sd")
  case False
  obtain f s1 where "pc_cart_additem env (sd_storage sd ! nat idx) a sd = (f, s1)" by (metis surj_pair)
  with False that(2) show thesis by (force simp: storage_storagegettocart_def Let_def split: if_splits)
qed (use that(1) in blast)

text \<open>
  C25. Depositing and withdrawing, from the inventory or the cart, by a character of whose items,
  carried and stored, none is expired and all are known to the item database: whatever the index,
  the amount and the outcome, the pieces of each item the account owns stay the same, the slots
  stay well formed, and the counter of storage slots in use stays exact.
\<close>

theorem storage_moves_conserve:
  assumes ok: "keeps env sd" and kn: "all_known env sd"
    and op: "op \<in> {storage_storageadd env idx a, storage_storageget env idx a,
      storage_storageaddfromcart env idx a, storage_storagegettocart env idx a}"
  shows "keeps env (snd (op sd)) \<and> owned k (snd (op sd)) = owned k sd \<and>
    sd_storage_amount (snd (op sd)) = used (sd_storage (snd (op sd)))"
proof -
  note len = keeps_slots(4-6) [OF ok]
  have known: "known env it" if "i_nameid it \<noteq> 0"
    "it \<in> set (sd_inventory sd) \<union> set (sd_cart sd) \<union> set (sd_storage sd)" for it
    using kn that by (auto simp: all_known_def)
  have 1: "keeps env (snd (storage_storageadd env idx a sd)) \<and> owned k (snd (storage_storageadd env idx a sd)) = owned k sd"
  proof (cases rule: storage_storageadd_cases [of env idx a sd])
    case (2 f s1)
    have kn: "known env (sd_inventory sd ! nat idx)" by (rule known) (use 2(2,3) len in auto)
    let ?r = "snd (storage_storageadd env idx a sd)"
    have "keeps env ?r \<and> sd_cart ?r = sd_cart sd \<and> total k (sd_inventory ?r) + total k (sd_storage ?r) =
        total k (sd_inventory sd) + total k (sd_storage sd)"
      using inv_stor.move [OF ok _ 2(4,5) kn 2(6,7)] 2(2) len by simp
    then show ?thesis by (simp add: owned_def)
  qed (use ok in simp)
  have 2: "keeps env (snd (storage_storageget env idx a sd)) \<and> owned k (snd (storage_storageget env idx a sd)) = owned k sd"
  proof (cases rule: storage_storageget_cases [of env idx a sd])
    case (2 f s1)
    have kn: "known env (sd_storage sd ! nat idx)" by (rule known) (use 2(2,3) len in auto)
    let ?r = "snd (storage_storageget env idx a sd)"
    have "keeps env ?r \<and> sd_cart ?r = sd_cart sd \<and> total k (sd_storage ?r) + total k (sd_inventory ?r) =
        total k (sd_storage sd) + total k (sd_inventory sd)"
      using stor_inv.move [OF ok _ 2(4,5) kn 2(6,7)] 2(2) len by simp
    then show ?thesis by (simp add: owned_def)
  qed (use ok in simp)
  have 3: "keeps env (snd (storage_storageaddfromcart env idx a sd)) \<and> owned k (snd (storage_storageaddfromcart env idx a sd)) = owned k sd"
  proof (cases rule: storage_storageaddfromcart_cases [of env idx a sd])
    case (2 f s1)
    have kn: "known env (sd_cart sd ! nat idx)" by (rule known) (use 2(2,3) len in auto)
    let ?r = "snd (storage_storageaddfromcart env idx a sd)"
    have "keeps env ?r \<and> sd_inventory ?r = sd_inventory sd \<and> total k (sd_cart ?r) + total k (sd_storage ?r) =
        total k (sd_cart sd) + total k (sd_storage sd)"
      using cart_stor.move [OF ok _ 2(4,5) kn 2(6,7)] 2(2) len by simp
    then show ?thesis by (simp add: owned_def)
  qed (use ok in simp)
  have 4: "keeps env (snd (storage_storagegettocart env idx a sd)) \<and> owned k (snd (storage_storagegettocart env idx a sd)) = owned k sd"
  proof (cases rule: storage_storagegettocart_cases [of env idx a sd])
    case (2 f s1)
    have kn: "known env (sd_storage sd ! nat idx)" by (rule known) (use 2(2,3) len in auto)
    let ?r = "snd (storage_storagegettocart env idx a sd)"
    have "keeps env ?r \<and> sd_inventory ?r = sd_inventory sd \<and> total k (sd_storage ?r) + total k (sd_cart ?r) =
        total k (sd_storage sd) + total k (sd_cart sd)"
      using stor_cart.move [OF ok _ 2(4,5) kn 2(6,7)] 2(2) len by simp
    then show ?thesis by (simp add: owned_def)
  qed (use ok in simp)
  have "keeps env (snd (op sd)) \<and> owned k (snd (op sd)) = owned k sd" using op 1 2 3 4 by auto
  then show ?thesis by (simp add: keeps_def stor_ok_def array_ok_def)
qed

section \<open>Moving items in and out of the guild storage\<close>

text \<open>The state is the character with the storage of its guild.\<close>

definition gkeeps :: "pc_env \<Rightarrow> map_session_data \<times> guild_storage \<Rightarrow> bool" where
  "gkeeps env s \<longleftrightarrow> keeps env (fst s) \<and> gstor_ok (snd s)"

definition gadd :: "pc_env \<Rightarrow> item \<Rightarrow> int \<Rightarrow> map_session_data \<times> guild_storage \<Rightarrow> int \<times> map_session_data \<times> guild_storage" where
  "gadd env it a s = (let (f, g) = guild_storage_additem env (fst s) it a (snd s) in (f, fst s, g))"

definition gdel :: "nat \<Rightarrow> int \<Rightarrow> map_session_data \<times> guild_storage \<Rightarrow> int \<times> map_session_data \<times> guild_storage" where
  "gdel n a s = (let (f, g) = guild_storage_delitem n a (snd s) in (f, fst s, g))"

definition on_sd ::
  "(map_session_data \<Rightarrow> int \<times> map_session_data) \<Rightarrow> map_session_data \<times> guild_storage \<Rightarrow> int \<times> map_session_data \<times> guild_storage" where
  "on_sd f s = (let (r, sd) = f (fst s) in (r, sd, snd s))"

lemma gadd_ok:
  assumes "gkeeps env s" "a \<le> MAX_AMOUNT" "gadd env it a s = (f, s')"
  shows "f \<noteq> 0 \<Longrightarrow> s' = s"
    and "f = 0 \<Longrightarrow> gkeeps env s' \<and> fst s' = fst s \<and> gs_dirty (snd s') \<and>
      (\<forall>k. total k (gs_items (snd s')) = total k (gs_items (snd s)) + (if k = i_nameid it then a else 0))"
proof -
  obtain g' where g: "guild_storage_additem env (fst s) it a (snd s) = (f, g')" "s' = (fst s, g')"
    using assms(3) by (auto simp: gadd_def split: prod.splits)
  have ok: "gstor_ok (snd s)" using assms(1) by (simp add: gkeeps_def)
  show "f \<noteq> 0 \<Longrightarrow> s' = s" using guild_storage_additem_ok(1) [OF ok g(1) assms(2)] g(2) by simp
  show "f = 0 \<Longrightarrow> gkeeps env s' \<and> fst s' = fst s \<and> gs_dirty (snd s') \<and>
      (\<forall>k. total k (gs_items (snd s')) = total k (gs_items (snd s)) + (if k = i_nameid it then a else 0))"
    using guild_storage_additem_ok(2) [OF ok g(1) assms(2)] g(2) assms(1) by (simp add: gkeeps_def)
qed

lemma gdel_ok:
  assumes "gkeeps env s" "n < MAX_GUILD_STORAGE" "0 < a" "a \<le> i_amount (gs_items (snd s) ! n)"
  shows "\<exists>s'. gdel n a s = (0, s') \<and> gkeeps env s' \<and> fst s' = fst s \<and> gs_dirty (snd s') \<and>
    (\<forall>k. total k (gs_items (snd s')) =
      total k (gs_items (snd s)) - (if k = i_nameid (gs_items (snd s) ! n) then a else 0))"
  using guild_storage_delitem_ok [OF _ assms(2-4)] assms(1) by (fastforce simp: gkeeps_def gdel_def)

lemma gkeeps_slots:
  "gkeeps env s \<Longrightarrow> keeps env (fst s)" "gkeeps env s \<Longrightarrow> slots_ok (gs_items (snd s))"
  "gkeeps env s \<Longrightarrow> length (gs_items (snd s)) = MAX_GUILD_STORAGE"
  by (simp_all add: gkeeps_def gstor_ok_def array_ok_def)

interpretation inv_gstor: item_move "gkeeps env" "known env" "sd_inventory \<circ> fst" "gs_items \<circ> snd"
  "\<lambda>s. (sd_cart (fst s), sd_storage (fst s))" "gadd env" "\<lambda>n a. on_sd (pc_delitem env n a)" for env
proof (unfold_locales, goal_cases)
  case (1 s)
  then show ?case using keeps_slots(1) gkeeps_slots(1) by fastforce
next
  case (2 s it a f s')
  then show ?case using gadd_ok(1) by blast
next
  case (3 s it a s')
  then show ?case using gadd_ok(2) [OF 3(1,3,4)] by simp
next
  case (4 s n a)
  then show ?case
    using keeps_delitem [of env "fst s" n a] keeps_slots(4) [of env "fst s"] gkeeps_slots(1) [of env s]
    by (auto simp: on_sd_def gkeeps_def)
qed

interpretation gstor_inv: item_move "gkeeps env" "known env" "gs_items \<circ> snd" "sd_inventory \<circ> fst"
  "\<lambda>s. (sd_cart (fst s), sd_storage (fst s))" "\<lambda>it a. on_sd (pc_additem env it a)" gdel for env
proof (unfold_locales, goal_cases)
  case (1 s)
  then show ?case using gkeeps_slots(2) by simp
next
  case (2 s it a f s')
  then show ?case
    using pc_additem_ok(1) [of env "fst s" it a f "fst s'"] keeps_slots(7,8) [OF gkeeps_slots(1) [OF 2(1)]]
    by (auto simp: known_def on_sd_def split: prod.splits)
next
  case (3 s it a s')
  then show ?case
    using keeps_additem [of env "fst s" it a "fst s'"] by (auto simp: known_def on_sd_def gkeeps_def split: prod.splits)
next
  case (4 s n a)
  then show ?case using gdel_ok [of env s n a] gkeeps_slots(3) [of env s] by auto
qed

interpretation cart_gstor: item_move "gkeeps env" "known env" "sd_cart \<circ> fst" "gs_items \<circ> snd"
  "\<lambda>s. (sd_inventory (fst s), sd_storage (fst s))" "gadd env" "\<lambda>n a. on_sd (pc_cart_delitem env n a)" for env
proof (unfold_locales, goal_cases)
  case (1 s)
  then show ?case using keeps_slots(2) gkeeps_slots(1) by fastforce
next
  case (2 s it a f s')
  then show ?case using gadd_ok(1) by blast
next
  case (3 s it a s')
  then show ?case using gadd_ok(2) [OF 3(1,3,4)] by simp
next
  case (4 s n a)
  then show ?case
    using keeps_cart_delitem [of env "fst s" n a] keeps_slots(5) [of env "fst s"] gkeeps_slots(1) [of env s]
    by (auto simp: on_sd_def gkeeps_def known_def)
qed

interpretation gstor_cart: item_move "gkeeps env" "known env" "gs_items \<circ> snd" "sd_cart \<circ> fst"
  "\<lambda>s. (sd_inventory (fst s), sd_storage (fst s))" "\<lambda>it a. on_sd (pc_cart_additem env it a)" gdel for env
proof (unfold_locales, goal_cases)
  case (1 s)
  then show ?case using gkeeps_slots(2) by simp
next
  case (2 s it a f s')
  then show ?case
    using pc_cart_additem_ok(1) [of "fst s" env it a f "fst s'"] keeps_slots(9) [OF gkeeps_slots(1) [OF 2(1)]]
    by (auto simp: on_sd_def split: prod.splits)
next
  case (3 s it a s')
  then show ?case
    using keeps_cart_additem [of env "fst s" a it "fst s'"] by (auto simp: on_sd_def gkeeps_def split: prod.splits)
next
  case (4 s n a)
  then show ?case using gdel_ok [of env s n a] gkeeps_slots(3) [of env s] by auto
qed

text \<open>What a guild operation leaves: everything as it was, the storage closed, or one move.\<close>

definition only_closed :: "map_session_data \<times> guild_storage \<Rightarrow> map_session_data \<times> guild_storage \<Rightarrow> bool" where
  "only_closed s s' \<longleftrightarrow>
     s' = s \<or> s' = ((fst s)\<lparr>sd_storage_flag := STORAGE_FLAG_CLOSED\<rparr>, (snd s)\<lparr>gs_status := False\<rparr>)"

lemma only_closedI: "only_closed s s"
  by (simp add: only_closed_def)

lemma guild_close_only:
  assumes "db (sd_guild_id sd) = Some g" "storage_guild_storageclose sd db = (sd', db')"
  shows "\<exists>g'. db' = db(sd_guild_id sd \<mapsto> g') \<and> only_closed (sd, g) (sd', g')"
proof -
  have "db' = db(sd_guild_id sd \<mapsto> g\<lparr>gs_status := False\<rparr>)" "sd' = sd\<lparr>sd_storage_flag := STORAGE_FLAG_CLOSED\<rparr>"
    using assms by (cases "gs_status g"; auto simp: storage_guild_storageclose_def intro: fun_upd_triv [symmetric])+
  then show ?thesis by (auto simp: only_closed_def)
qed

lemma storage_guild_storageadd_cases:
  assumes g: "db (sd_guild_id sd) = Some g" and r: "storage_guild_storageadd env idx a sd db = (r, sd', db')"
  obtains (same) g' where "db' = db(sd_guild_id sd \<mapsto> g')" "only_closed (sd, g) (sd', g')"
  | (moved) g' f s1 where "0 \<le> idx" "nat idx < MAX_INVENTORY" "i_nameid (sd_inventory sd ! nat idx) \<noteq> 0" "0 < a"
      "a \<le> i_amount (sd_inventory sd ! nat idx)" "gadd env (sd_inventory sd ! nat idx) a (sd, g) = (f, s1)"
      "(sd', g') = (if f = 0 then snd (on_sd (pc_delitem env (nat idx) a) s1) else s1)" "db' = db(sd_guild_id sd \<mapsto> g')"
proof -
  obtain f t where c: "guild_storage_additem env sd (sd_inventory sd ! nat idx) a g = (f, t)" by (metis surj_pair)
  have keep: "\<exists>g'. db = db(sd_guild_id sd \<mapsto> g') \<and> only_closed (sd, g) (sd, g')"
    using g only_closedI by (metis fun_upd_triv)
  have close: "\<exists>g'. db' = db(sd_guild_id sd \<mapsto> g') \<and> only_closed (sd, g) (sd', g')"
    if "(0 :: int, storage_guild_storageclose sd db) = (r, sd', db')"
    using that guild_close_only [of db sd g sd' db'] g by simp
  have go: thesis if "0 \<le> idx" "nat idx < MAX_INVENTORY" "i_nameid (sd_inventory sd ! nat idx) \<noteq> 0" "0 < a"
      "a \<le> i_amount (sd_inventory sd ! nat idx)" "(sd', g') = (if f = 0 then snd (on_sd (pc_delitem env (nat idx) a) (sd, t)) else (sd, t))"
      "db' = db(sd_guild_id sd \<mapsto> g')" for g'
    using moved [OF that(1-5) _ that(6,7)] c by (simp add: gadd_def on_sd_def)
  have keep': thesis if "(0 :: int, sd, db) = (r, sd', db')" using that keep same by auto
  have close': thesis if "(0 :: int, storage_guild_storageclose sd db) = (r, sd', db')"
    using close [OF that] same by blast
  show thesis
    using r unfolding storage_guild_storageadd_def g option.case Let_def c prod.case
  proof (elim if_eqE, goal_cases)
    case 6
    then show ?case
      by (intro go [of "t"]) (auto simp: gdel_def on_sd_def split_beta)
  qed (use keep' close' in blast)+
qed

lemma storage_guild_storageget_cases:
  assumes g: "db (sd_guild_id sd) = Some g" and r: "storage_guild_storageget env idx a sd db = (r, sd', db')"
  obtains (same) g' where "db' = db(sd_guild_id sd \<mapsto> g')" "only_closed (sd, g) (sd', g')"
  | (moved) g' f s1 where "0 \<le> idx" "nat idx < MAX_GUILD_STORAGE" "i_nameid (gs_items g ! nat idx) \<noteq> 0" "0 < a"
      "a \<le> i_amount (gs_items g ! nat idx)" "on_sd (pc_additem env (gs_items g ! nat idx) a) (sd, g) = (f, s1)"
      "(sd', g') = (if f = 0 then snd (gdel (nat idx) a s1) else s1)" "db' = db(sd_guild_id sd \<mapsto> g')"
proof -
  obtain f t where c: "pc_additem env (gs_items g ! nat idx) a sd = (f, t)" by (metis surj_pair)
  have keep: "\<exists>g'. db = db(sd_guild_id sd \<mapsto> g') \<and> only_closed (sd, g) (sd, g')"
    using g only_closedI by (metis fun_upd_triv)
  have close: "\<exists>g'. db' = db(sd_guild_id sd \<mapsto> g') \<and> only_closed (sd, g) (sd', g')"
    if "(0 :: int, storage_guild_storageclose sd db) = (r, sd', db')"
    using that guild_close_only [of db sd g sd' db'] g by simp
  have go: thesis if "0 \<le> idx" "nat idx < MAX_GUILD_STORAGE" "i_nameid (gs_items g ! nat idx) \<noteq> 0" "0 < a"
      "a \<le> i_amount (gs_items g ! nat idx)" "(sd', g') = (if f = 0 then snd (gdel (nat idx) a (t, g)) else (t, g))"
      "db' = db(sd_guild_id sd \<mapsto> g')" for g'
    using moved [OF that(1-5) _ that(6,7)] c by (simp add: gadd_def on_sd_def)
  have keep': thesis if "(0 :: int, sd, db) = (r, sd', db')" using that keep same by auto
  have close': thesis if "(0 :: int, storage_guild_storageclose sd db) = (r, sd', db')"
    using close [OF that] same by blast
  show thesis
    using r unfolding storage_guild_storageget_def g option.case Let_def c prod.case
  proof (elim if_eqE, goal_cases)
    case 6
    then show ?case
      by (intro go [of "if f = 0 then snd (guild_storage_delitem (nat idx) a g) else g"]) (auto simp: gdel_def on_sd_def split_beta)
  qed (use keep' close' in blast)+
qed

lemma storage_guild_storageaddfromcart_cases:
  assumes g: "db (sd_guild_id sd) = Some g" and r: "storage_guild_storageaddfromcart env idx a sd db = (r, sd', db')"
  obtains (same) g' where "db' = db(sd_guild_id sd \<mapsto> g')" "only_closed (sd, g) (sd', g')"
  | (moved) g' f s1 where "0 \<le> idx" "nat idx < MAX_CART" "i_nameid (sd_cart sd ! nat idx) \<noteq> 0" "0 < a"
      "a \<le> i_amount (sd_cart sd ! nat idx)" "gadd env (sd_cart sd ! nat idx) a (sd, g) = (f, s1)"
      "(sd', g') = (if f = 0 then snd (on_sd (pc_cart_delitem env (nat idx) a) s1) else s1)" "db' = db(sd_guild_id sd \<mapsto> g')"
proof -
  obtain f t where c: "guild_storage_additem env sd (sd_cart sd ! nat idx) a g = (f, t)" by (metis surj_pair)
  have keep: "\<exists>g'. db = db(sd_guild_id sd \<mapsto> g') \<and> only_closed (sd, g) (sd, g')"
    using g only_closedI by (metis fun_upd_triv)
  have close: "\<exists>g'. db' = db(sd_guild_id sd \<mapsto> g') \<and> only_closed (sd, g) (sd', g')"
    if "(0 :: int, storage_guild_storageclose sd db) = (r, sd', db')"
    using that guild_close_only [of db sd g sd' db'] g by simp
  have go: thesis if "0 \<le> idx" "nat idx < MAX_CART" "i_nameid (sd_cart sd ! nat idx) \<noteq> 0" "0 < a"
      "a \<le> i_amount (sd_cart sd ! nat idx)" "(sd', g') = (if f = 0 then snd (on_sd (pc_cart_delitem env (nat idx) a) (sd, t)) else (sd, t))"
      "db' = db(sd_guild_id sd \<mapsto> g')" for g'
    using moved [OF that(1-5) _ that(6,7)] c by (simp add: gadd_def on_sd_def)
  have keep': thesis if "(0 :: int, sd, db) = (r, sd', db')" using that keep same by auto
  have close': thesis if "(0 :: int, storage_guild_storageclose sd db) = (r, sd', db')"
    using close [OF that] same by blast
  show thesis
    using r unfolding storage_guild_storageaddfromcart_def g option.case Let_def c prod.case
  proof (elim if_eqE, goal_cases)
    case 5
    then show ?case
      by (intro go [of "t"]) (auto simp: gdel_def on_sd_def split_beta)
  qed (use keep' close' in blast)+
qed

lemma storage_guild_storagegettocart_cases:
  assumes g: "db (sd_guild_id sd) = Some g" and r: "storage_guild_storagegettocart env idx a sd db = (r, sd', db')"
  obtains (same) g' where "db' = db(sd_guild_id sd \<mapsto> g')" "only_closed (sd, g) (sd', g')"
  | (moved) g' f s1 where "0 \<le> idx" "nat idx < MAX_GUILD_STORAGE" "i_nameid (gs_items g ! nat idx) \<noteq> 0" "0 < a"
      "a \<le> i_amount (gs_items g ! nat idx)" "on_sd (pc_cart_additem env (gs_items g ! nat idx) a) (sd, g) = (f, s1)"
      "(sd', g') = (if f = 0 then snd (gdel (nat idx) a s1) else s1)" "db' = db(sd_guild_id sd \<mapsto> g')"
proof -
  obtain f t where c: "pc_cart_additem env (gs_items g ! nat idx) a sd = (f, t)" by (metis surj_pair)
  have keep: "\<exists>g'. db = db(sd_guild_id sd \<mapsto> g') \<and> only_closed (sd, g) (sd, g')"
    using g only_closedI by (metis fun_upd_triv)
  have close: "\<exists>g'. db' = db(sd_guild_id sd \<mapsto> g') \<and> only_closed (sd, g) (sd', g')"
    if "(0 :: int, storage_guild_storageclose sd db) = (r, sd', db')"
    using that guild_close_only [of db sd g sd' db'] g by simp
  have go: thesis if "0 \<le> idx" "nat idx < MAX_GUILD_STORAGE" "i_nameid (gs_items g ! nat idx) \<noteq> 0" "0 < a"
      "a \<le> i_amount (gs_items g ! nat idx)" "(sd', g') = (if f = 0 then snd (gdel (nat idx) a (t, g)) else (t, g))"
      "db' = db(sd_guild_id sd \<mapsto> g')" for g'
    using moved [OF that(1-5) _ that(6,7)] c by (simp add: gadd_def on_sd_def)
  have keep': thesis if "(0 :: int, sd, db) = (r, sd', db')" using that keep same by auto
  have close': thesis if "(0 :: int, storage_guild_storageclose sd db) = (r, sd', db')"
    using close [OF that] same by blast
  show thesis
    using r unfolding storage_guild_storagegettocart_def g option.case Let_def c prod.case
  proof (elim if_eqE, goal_cases)
    case 5
    then show ?case
      by (intro go [of "if f = 0 then snd (guild_storage_delitem (nat idx) a g) else g"]) (auto simp: gdel_def on_sd_def split_beta)
  qed (use keep' close' in blast)+
qed

lemma inv_gstor_dirty:
  assumes "gkeeps env s" "n < length (sd_inventory (fst s))" "0 < a" "a \<le> i_amount (sd_inventory (fst s) ! n)"
    and "known env (sd_inventory (fst s) ! n)" "gadd env (sd_inventory (fst s) ! n) a s = (0, s1)" "s2 = snd (on_sd (pc_delitem env n a) s1)"
  shows "gs_dirty (snd s2)"
proof -
  have "a \<le> MAX_AMOUNT" using inv_gstor.amount_le [OF assms(1), of n a] assms(2,4) by simp
  then have "gs_dirty (snd s1)" using gadd_ok(2) [OF assms(1) _ assms(6)] by blast
  then show ?thesis by (simp add: assms(7) on_sd_def split_beta)
qed

lemma gstor_inv_dirty:
  assumes "gkeeps env s" "n < length (gs_items (snd s))" "0 < a" "a \<le> i_amount (gs_items (snd s) ! n)"
    and "known env (gs_items (snd s) ! n)" "on_sd (pc_additem env (gs_items (snd s) ! n) a) s = (0, s1)" "s2 = snd (gdel n a s1)"
  shows "gs_dirty (snd s2)"
proof -
  have "a \<le> MAX_AMOUNT" using gstor_inv.amount_le [OF assms(1), of n a] assms(2,4) by simp
  then have "gkeeps env s1" using gstor_inv.add_adds [OF assms(1,5) _ assms(6)] by blast
  moreover have "snd s1 = snd s" using assms(6) by (auto simp: on_sd_def split: prod.splits)
  ultimately show ?thesis
    using gdel_ok [of env s1 n a] assms(2-4,7) gkeeps_slots(3) [OF assms(1)] by auto
qed

lemma cart_gstor_dirty:
  assumes "gkeeps env s" "n < length (sd_cart (fst s))" "0 < a" "a \<le> i_amount (sd_cart (fst s) ! n)"
    and "known env (sd_cart (fst s) ! n)" "gadd env (sd_cart (fst s) ! n) a s = (0, s1)" "s2 = snd (on_sd (pc_cart_delitem env n a) s1)"
  shows "gs_dirty (snd s2)"
proof -
  have "a \<le> MAX_AMOUNT" using cart_gstor.amount_le [OF assms(1), of n a] assms(2,4) by simp
  then have "gs_dirty (snd s1)" using gadd_ok(2) [OF assms(1) _ assms(6)] by blast
  then show ?thesis by (simp add: assms(7) on_sd_def split_beta)
qed

lemma gstor_cart_dirty:
  assumes "gkeeps env s" "n < length (gs_items (snd s))" "0 < a" "a \<le> i_amount (gs_items (snd s) ! n)"
    and "known env (gs_items (snd s) ! n)" "on_sd (pc_cart_additem env (gs_items (snd s) ! n) a) s = (0, s1)" "s2 = snd (gdel n a s1)"
  shows "gs_dirty (snd s2)"
proof -
  have "a \<le> MAX_AMOUNT" using gstor_cart.amount_le [OF assms(1), of n a] assms(2,4) by simp
  then have "gkeeps env s1" using gstor_cart.add_adds [OF assms(1,5) _ assms(6)] by blast
  moreover have "snd s1 = snd s" using assms(6) by (auto simp: on_sd_def split: prod.splits)
  ultimately show ?thesis
    using gdel_ok [of env s1 n a] assms(2-4,7) gkeeps_slots(3) [OF assms(1)] by auto
qed

text \<open>
  C26. Moving items in and out of the guild storage, from inventory or cart, when none of the items
  of the member and of the guild is expired and all are known to the item database: the pieces owned
  by the member and the guild together stay the same, whatever the index, the amount and the
  outcome; no other guild's storage changes; and a storage whose items changed is marked for
  saving.
\<close>

theorem guild_moves_conserve:
  assumes g: "db (sd_guild_id sd) = Some g" and ok: "gkeeps env (sd, g)" and kn: "all_known env sd"
    and gkn: "\<forall>it \<in> set (gs_items g). i_nameid it \<noteq> 0 \<longrightarrow> known env it"
    and op: "op \<in> {storage_guild_storageadd env idx a, storage_guild_storageget env idx a,
      storage_guild_storageaddfromcart env idx a, storage_guild_storagegettocart env idx a}"
    and r: "op sd db = (r, sd', db')"
  shows "\<exists>g'. db' = db(sd_guild_id sd \<mapsto> g') \<and> gkeeps env (sd', g') \<and>
    owned k sd' + total k (gs_items g') = owned k sd + total k (gs_items g) \<and>
    (gs_items g' \<noteq> gs_items g \<longrightarrow> gs_dirty g')"
proof -
  note len = keeps_slots(4-6) [OF gkeeps_slots(1) [OF ok]] gkeeps_slots(3) [OF ok]
  have known: "known env it" if "i_nameid it \<noteq> 0"
    "it \<in> set (sd_inventory sd) \<union> set (sd_cart sd) \<union> set (gs_items g)" for it
    using kn gkn that by (auto simp: all_known_def)
  have closed: ?thesis if "db' = db(sd_guild_id sd \<mapsto> g')" "only_closed (sd, g) (sd', g')" for g'
  proof -
    have "owned k sd' = owned k sd" "gs_items g' = gs_items g" "gkeeps env (sd', g')"
      using that(2) ok by (auto simp: only_closed_def owned_def gkeeps_def keeps_def carries_def inv_ok_def cart_ok_def
        stor_ok_def gstor_ok_def)
    then show ?thesis using that(1) by auto
  qed
  from op r consider "storage_guild_storageadd env idx a sd db = (r, sd', db')"
    | "storage_guild_storageget env idx a sd db = (r, sd', db')"
    | "storage_guild_storageaddfromcart env idx a sd db = (r, sd', db')"
    | "storage_guild_storagegettocart env idx a sd db = (r, sd', db')" by auto
  then show ?thesis
  proof cases
    case 1
    from g this show ?thesis
    proof (cases rule: storage_guild_storageadd_cases)
      case (same g')
      then show ?thesis by (rule closed)
    next
      case (moved g' f s1)
      have kn: "known env (sd_inventory sd ! nat idx)" by (rule known) (use moved(2,3) len in auto)
      have "gkeeps env (sd', g') \<and> owned k sd' + total k (gs_items g') = owned k sd + total k (gs_items g) \<and>
          (f \<noteq> 0 \<longrightarrow> (sd', g') = (sd, g))"
        using inv_gstor.move [OF ok _ moved(4) _ _ _ moved(7)] kn moved(2,5,6) len by (auto simp: owned_def algebra_simps)
      moreover have "gs_dirty g'" if "f = 0"
      proof -
        have e: "(sd', g') = snd (on_sd (pc_delitem env (nat idx) a) s1)" using moved(7) that by simp
        have "gs_dirty (snd (sd', g'))"
          by (rule inv_gstor_dirty [OF ok _ moved(4) _ _ _ e]) (use kn moved(2,5,6) that len in auto)
        then show ?thesis by simp
      qed
      ultimately show ?thesis using moved(8) by (cases "f = 0") auto
    qed
  next
    case 2
    from g this show ?thesis
    proof (cases rule: storage_guild_storageget_cases)
      case (same g')
      then show ?thesis by (rule closed)
    next
      case (moved g' f s1)
      have kn: "known env (gs_items g ! nat idx)" by (rule known) (use moved(2,3) len in auto)
      have "gkeeps env (sd', g') \<and> owned k sd' + total k (gs_items g') = owned k sd + total k (gs_items g) \<and>
          (f \<noteq> 0 \<longrightarrow> (sd', g') = (sd, g))"
        using gstor_inv.move [OF ok _ moved(4) _ _ _ moved(7)] kn moved(2,5,6) len by (auto simp: owned_def algebra_simps)
      moreover have "gs_dirty g'" if "f = 0"
      proof -
        have e: "(sd', g') = snd (gdel (nat idx) a s1)" using moved(7) that by simp
        have "gs_dirty (snd (sd', g'))"
          by (rule gstor_inv_dirty [OF ok _ moved(4) _ _ _ e]) (use kn moved(2,5,6) that len in auto)
        then show ?thesis by simp
      qed
      ultimately show ?thesis using moved(8) by (cases "f = 0") auto
    qed
  next
    case 3
    from g this show ?thesis
    proof (cases rule: storage_guild_storageaddfromcart_cases)
      case (same g')
      then show ?thesis by (rule closed)
    next
      case (moved g' f s1)
      have kn: "known env (sd_cart sd ! nat idx)" by (rule known) (use moved(2,3) len in auto)
      have "gkeeps env (sd', g') \<and> owned k sd' + total k (gs_items g') = owned k sd + total k (gs_items g) \<and>
          (f \<noteq> 0 \<longrightarrow> (sd', g') = (sd, g))"
        using cart_gstor.move [OF ok _ moved(4) _ _ _ moved(7)] kn moved(2,5,6) len by (auto simp: owned_def algebra_simps)
      moreover have "gs_dirty g'" if "f = 0"
      proof -
        have e: "(sd', g') = snd (on_sd (pc_cart_delitem env (nat idx) a) s1)" using moved(7) that by simp
        have "gs_dirty (snd (sd', g'))"
          by (rule cart_gstor_dirty [OF ok _ moved(4) _ _ _ e]) (use kn moved(2,5,6) that len in auto)
        then show ?thesis by simp
      qed
      ultimately show ?thesis using moved(8) by (cases "f = 0") auto
    qed
  next
    case 4
    from g this show ?thesis
    proof (cases rule: storage_guild_storagegettocart_cases)
      case (same g')
      then show ?thesis by (rule closed)
    next
      case (moved g' f s1)
      have kn: "known env (gs_items g ! nat idx)" by (rule known) (use moved(2,3) len in auto)
      have "gkeeps env (sd', g') \<and> owned k sd' + total k (gs_items g') = owned k sd + total k (gs_items g) \<and>
          (f \<noteq> 0 \<longrightarrow> (sd', g') = (sd, g))"
        using gstor_cart.move [OF ok _ moved(4) _ _ _ moved(7)] kn moved(2,5,6) len by (auto simp: owned_def algebra_simps)
      moreover have "gs_dirty g'" if "f = 0"
      proof -
        have e: "(sd', g') = snd (gdel (nat idx) a s1)" using moved(7) that by simp
        have "gs_dirty (snd (sd', g'))"
          by (rule gstor_cart_dirty [OF ok _ moved(4) _ _ _ e]) (use kn moved(2,5,6) that len in auto)
        then show ?thesis by simp
      qed
      ultimately show ?thesis using moved(8) by (cases "f = 0") auto
    qed
  qed
qed

section \<open>Opening\<close>

text \<open>What the C library promises of \<open>qsort\<close>: a permutation, sorted when the comparison orders the elements.\<close>

definition orders :: "(item \<Rightarrow> item \<Rightarrow> int) \<Rightarrow> item set \<Rightarrow> bool" where
  "orders cmp A \<longleftrightarrow> (\<forall>a \<in> A. \<forall>b \<in> A. (cmp a b \<le> 0 \<or> cmp b a \<le> 0) \<and>
     (\<forall>c \<in> A. cmp a b \<le> 0 \<longrightarrow> cmp b c \<le> 0 \<longrightarrow> cmp a c \<le> 0))"

definition is_qsort :: "qsort_fun \<Rightarrow> bool" where
  "is_qsort q \<longleftrightarrow> (\<forall>cmp xs. mset (q cmp xs) = mset xs \<and>
     (orders cmp (set xs) \<longrightarrow> sorted_wrt (\<lambda>a b. cmp a b \<le> 0) (q cmp xs)))"

lemma orders_trans:
  "orders cmp A \<Longrightarrow> a \<in> A \<Longrightarrow> b \<in> A \<Longrightarrow> c \<in> A \<Longrightarrow> cmp a b \<le> 0 \<Longrightarrow> cmp b c \<le> 0 \<Longrightarrow> cmp a c \<le> 0"
  unfolding orders_def by blast

lemma orders_total: "orders cmp A \<Longrightarrow> a \<in> A \<Longrightarrow> b \<in> A \<Longrightarrow> cmp a b \<le> 0 \<or> cmp b a \<le> 0"
  unfolding orders_def by blast

lemma orders_mono: "orders cmp B \<Longrightarrow> A \<subseteq> B \<Longrightarrow> orders cmp A"
  unfolding orders_def by blast

lemma comp_item_le:
  "slot_ok a \<Longrightarrow> slot_ok b \<Longrightarrow> storage_comp_item a b \<le> 0 \<longleftrightarrow>
     i_nameid b = 0 \<or> (i_nameid a \<noteq> 0 \<and> i_nameid a \<le> i_nameid b)"
  by (auto simp: storage_comp_item_def slot_ok_def)

lemma comp_item_orders: "slots_ok xs \<Longrightarrow> orders storage_comp_item (set xs)"
  by (auto simp: orders_def comp_item_le slots_ok_def)

lemma total_mset: "mset xs = mset ys \<Longrightarrow> total k xs = total k ys"
  by (simp add: total_def sum_mset_sum_list [symmetric])

lemma used_mset: "mset xs = mset ys \<Longrightarrow> used xs = used ys"
  by (simp add: used_def sum_mset_sum_list [symmetric])

text \<open>
  Opening the storage with sorting on loses nothing, keeps the storage well formed, and puts
  the items in order of their number before all empty slots. The comparison function is an
  order on well-formed slots although its test of the amounts makes it none in general.
\<close>

theorem storage_open_sorts:
  assumes "stor_ok sd" "is_qsort q" "storage_storageopen q True sd = (0, sd')"
  shows "stor_ok sd' \<and> total k (sd_storage sd') = total k (sd_storage sd) \<and>
    sorted_wrt (\<lambda>a b. i_nameid b = 0 \<or> (i_nameid a \<noteq> 0 \<and> i_nameid a \<le> i_nameid b)) (sd_storage sd')"
proof -
  let ?xs = "sd_storage sd" and ?ys = "sd_storage sd'"
  have ys: "?ys = q storage_comp_item ?xs" and am: "sd_storage_amount sd' = sd_storage_amount sd"
    using assms(3) by (auto simp: storage_storageopen_def storage_sortitem_def split: if_splits)
  have ok: "slots_ok ?xs" using assms(1) by (simp add: stor_ok_def array_ok_def)
  have m: "mset ?ys = mset ?xs" and so: "sorted_wrt (\<lambda>a b. storage_comp_item a b \<le> 0) ?ys"
    using assms(2) comp_item_orders [OF ok] by (simp_all add: is_qsort_def ys)
  have set: "set ?ys = set ?xs" using mset_eq_setD [OF m] .
  have "sorted_wrt (\<lambda>a b. i_nameid b = 0 \<or> (i_nameid a \<noteq> 0 \<and> i_nameid a \<le> i_nameid b)) ?ys"
    by (rule sorted_wrt_mono_rel [OF _ so]) (use ok set in \<open>auto simp: slots_ok_def comp_item_le\<close>)
  moreover have "stor_ok sd'"
    using assms(1) am set used_mset [OF m] mset_eq_length [OF m] by (simp add: stor_ok_def array_ok_def slots_ok_def)
  ultimately show ?thesis using total_mset [OF m] by simp
qed

fun qins :: "(item \<Rightarrow> item \<Rightarrow> int) \<Rightarrow> item \<Rightarrow> item list \<Rightarrow> item list" where
  "qins cmp x [] = [x]"
| "qins cmp x (y # ys) = (if cmp x y \<le> 0 then x # y # ys else y # qins cmp x ys)"

definition insertion_sort :: qsort_fun where
  "insertion_sort cmp xs = foldr (qins cmp) xs []"

lemma mset_qins [simp]: "mset (qins cmp x ys) = add_mset x (mset ys)"
  by (induction ys) auto

lemma insertion_sort_Cons: "insertion_sort cmp (x # xs) = qins cmp x (insertion_sort cmp xs)"
  by (simp add: insertion_sort_def)

lemma mset_insertion_sort [simp]: "mset (insertion_sort cmp xs) = mset xs"
  by (induction xs) (auto simp: insertion_sort_def)

lemma set_qins [simp]: "set (qins cmp x ys) = insert x (set ys)"
  by (induction ys) auto

lemma set_insertion_sort [simp]: "set (insertion_sort cmp xs) = set xs"
  by (rule mset_eq_setD) simp

lemma qins_sorted:
  assumes "orders cmp (insert x (set ys))" "sorted_wrt (\<lambda>a b. cmp a b \<le> 0) ys"
  shows "sorted_wrt (\<lambda>a b. cmp a b \<le> 0) (qins cmp x ys)"
  using assms
proof (induction ys)
  case (Cons y ys)
  have o: "orders cmp (insert x (set ys))" by (rule orders_mono [OF Cons.prems(1)]) auto
  show ?case
  proof (cases "cmp x y \<le> 0")
    case True
    have "cmp x b \<le> 0" if "b \<in> set ys" for b
      using orders_trans [OF Cons.prems(1), of x y b] Cons.prems(2) that True by simp
    then show ?thesis using True Cons.prems(2) by simp
  next
    case False
    then have "cmp y x \<le> 0" using orders_total [OF Cons.prems(1), of x y] by simp
    then show ?thesis using False Cons.IH [OF o] Cons.prems(2) by simp
  qed
qed simp

lemma insertion_sort_qsort: "is_qsort insertion_sort"
proof -
  have "sorted_wrt (\<lambda>a b. cmp a b \<le> 0) (insertion_sort cmp xs)" if "orders cmp (set xs)" for cmp xs
    using that
  proof (induction xs)
    case (Cons x xs)
    have "orders cmp (set xs)" by (rule orders_mono [OF Cons.prems]) auto
    then show ?case
      using Cons.IH qins_sorted [of cmp x "insertion_sort cmp xs"] Cons.prems by (simp add: insertion_sort_Cons)
  qed (simp add: insertion_sort_def)
  then show ?thesis by (simp add: is_qsort_def)
qed

definition untidy :: map_session_data where
  "untidy = (pc_start 1)\<lparr>sd_storage := (replicate 600 zero_item)[1 := apple, 5 := apple\<lparr>i_nameid := 501\<rparr>],
     sd_storage_amount := 2\<rparr>"

lemma used_replicate [simp]: "used (replicate n zero_item) = 0"
  by (induction n) (simp_all add: used_def)

lemma total_replicate [simp]: "total k (replicate n zero_item) = 0"
  by (induction n) (simp_all add: total_def)

lemma untidy_ok: "stor_ok untidy"
proof -
  have a: "slot_ok apple" "slot_ok (apple\<lparr>i_nameid := 501\<rparr>)" by (simp_all add: slot_ok_def apple_def MAX_AMOUNT_def)
  have "slots_ok ((replicate 600 zero_item)[1 := apple, 5 := apple\<lparr>i_nameid := 501\<rparr>])"
    by (intro slots_ok_update a) simp
  moreover have "used ((replicate 600 zero_item)[1 := apple, 5 := apple\<lparr>i_nameid := 501\<rparr>]) = 2"
    by (simp add: used_update apple_def)
  ultimately show ?thesis by (simp add: stor_ok_def array_ok_def untidy_def MAX_STORAGE_def)
qed

theorem storage_open_sorts_witness:
  "total 512 (sd_storage (snd (storage_storageopen insertion_sort True untidy))) = 10 \<and>
   fst (storage_storageopen insertion_sort True untidy) = 0"
proof -
  obtain sd' where o: "storage_storageopen insertion_sort True untidy = (0, sd')"
    by (simp add: storage_storageopen_def untidy_def pc_start_def)
  have "total 512 (sd_storage untidy) = 10"
    by (simp add: untidy_def pc_start_def total_update apple_def)
  then show ?thesis using storage_open_sorts [OF untidy_ok insertion_sort_qsort o, of 512] o by simp
qed

section \<open>Witnesses\<close>

lemma pc_apples_keeps: "keeps apple_env (pc_start aid)" "keeps apple_env (pc_apples aid)"
  using pc_start_carries [of aid]
  by (simp_all add: keeps_def stor_ok_def array_ok_def pc_apples_def pc_start_def MAX_STORAGE_def)

lemma pc_apples_known: "all_known apple_env (pc_apples aid)"
proof -
  have "not_expired apple_env it" if "it \<in> set (sd_storage (pc_apples aid))" for it
    using that by (auto simp: pc_apples_def pc_start_def not_expired_def zero_item_def)
  then show ?thesis using pc_apples_fresh [of _ aid] by (auto simp: all_known_def known_def apple_env_def)
qed

theorem storage_moves_conserve_witness:
  "owned 512 (snd (storage_storageadd apple_env 0 4 (pc_apples 1))) = 10 \<and>
   total 512 (sd_storage (snd (storage_storageadd apple_env 0 4 (pc_apples 1)))) = 4"
proof -
  have "owned 512 (snd (storage_storageadd apple_env 0 4 (pc_apples 1))) = owned 512 (pc_apples 1)"
    using storage_moves_conserve [OF pc_apples_keeps(2) pc_apples_known,
      of "storage_storageadd apple_env 0 4" 0 4 1 512] by simp
  moreover have "owned 512 (pc_apples 1) = 10" by code_simp
  moreover have "total 512 (sd_storage (snd (storage_storageadd apple_env 0 4 (pc_apples 1)))) = 4" by code_simp
  ultimately show ?thesis by simp
qed

definition member :: map_session_data where
  "member = (pc_apples 1)\<lparr>sd_guild_id := 7, sd_storage_flag := STORAGE_FLAG_GUILD\<rparr>"

definition guild_db :: gstorage_db where
  "guild_db = [7 \<mapsto> (create_guildstorage 7)\<lparr>gs_status := True\<rparr>]"

theorem guild_moves_conserve_witness:
  "(case storage_guild_storageadd apple_env 0 4 member guild_db of (r, sd, db) \<Rightarrow>
      owned 512 sd + total 512 (gs_items (the (db 7))) = 10 \<and> owned 512 sd = 6 \<and> gs_dirty (the (db 7)))"
proof -
  let ?g = "(create_guildstorage 7)\<lparr>gs_status := True\<rparr>"
  obtain r sd' db' where r: "storage_guild_storageadd apple_env 0 4 member guild_db = (r, sd', db')" by (metis prod_cases3)
  have "keeps apple_env member"
    using pc_apples_keeps(2) [of 1]
    by (simp add: member_def keeps_def carries_def inv_ok_def cart_ok_def stor_ok_def)
  then have ok: "gkeeps apple_env (member, ?g)"
    by (simp add: gkeeps_def gstor_ok_def array_ok_def create_guildstorage_def)
  have kn: "all_known apple_env member" using pc_apples_known [of 1] by (simp add: all_known_def member_def)
  have g: "guild_db (sd_guild_id member) = Some ?g" by (simp add: guild_db_def member_def)
  have "\<exists>g'. db' = guild_db(sd_guild_id member \<mapsto> g') \<and> gkeeps apple_env (sd', g') \<and>
      owned 512 sd' + total 512 (gs_items g') = owned 512 member + total 512 (gs_items ?g) \<and>
      (gs_items g' \<noteq> gs_items ?g \<longrightarrow> gs_dirty g')"
    using guild_moves_conserve [of guild_db member ?g apple_env "storage_guild_storageadd apple_env 0 4" 0 4 r sd' db' 512]
      g ok kn r by (simp add: create_guildstorage_def)
  moreover have "owned 512 member = 10" "total 512 (gs_items ?g) = 0" by code_simp+
  moreover have "owned 512 sd' = 6 \<and> gs_dirty (the (db' 7))"
  proof -
    have "case storage_guild_storageadd apple_env 0 4 member guild_db of (r, sd, db) \<Rightarrow>
        owned 512 sd = 6 \<and> gs_dirty (the (db 7))" by code_simp
    then show ?thesis by (simp add: r)
  qed
  ultimately show ?thesis using r by (auto simp: member_def)
qed

section \<open>One member at a time\<close>

text \<open>
  What the clients of a map server do to guild storages, one handler after another. Everything
  but opening is guarded as in \<open>clif.c\<close> (\<open>clif_parse_MoveToKafra\<close> and its siblings):
  it happens only while the character has the guild storage open. The players online are a map
  from account numbers.
\<close>

type_synonym gworld = "(int \<Rightarrow> map_session_data option) \<times> gstorage_db"

inductive guild_step :: "pc_env \<Rightarrow> qsort_fun \<Rightarrow> bool \<Rightarrow> gworld \<Rightarrow> gworld \<Rightarrow> bool"
  for env :: pc_env and qs :: qsort_fun and conf :: bool where
  open_guild: "pl p = Some sd \<Longrightarrow> storage_guild_storageopen qs conf sd db = (r, sd', db') \<Longrightarrow>
    guild_step env qs conf (pl, db) (pl(p \<mapsto> sd'), db')"
| open_account: "pl p = Some sd \<Longrightarrow> storage_storageopen qs conf sd = (r, sd') \<Longrightarrow>
    guild_step env qs conf (pl, db) (pl(p \<mapsto> sd'), db)"
| close_account: "pl p = Some sd \<Longrightarrow> sd_storage_flag sd = STORAGE_FLAG_NORMAL \<Longrightarrow>
    guild_step env qs conf (pl, db) (pl(p \<mapsto> storage_storageclose sd), db)"
| close_guild: "pl p = Some sd \<Longrightarrow> sd_storage_flag sd = STORAGE_FLAG_GUILD \<Longrightarrow>
    storage_guild_storageclose sd db = (sd', db') \<Longrightarrow> guild_step env qs conf (pl, db) (pl(p \<mapsto> sd'), db')"
| quit_guild: "pl p = Some sd \<Longrightarrow> sd_storage_flag sd = STORAGE_FLAG_GUILD \<Longrightarrow>
    storage_guild_storage_quit sd db = (sd', db') \<Longrightarrow> guild_step env qs conf (pl, db) (pl(p := None), db')"
| deposit: "pl p = Some sd \<Longrightarrow> sd_storage_flag sd = STORAGE_FLAG_GUILD \<Longrightarrow>
    storage_guild_storageadd env idx a sd db = (r, sd', db') \<Longrightarrow> guild_step env qs conf (pl, db) (pl(p \<mapsto> sd'), db')"
| withdraw: "pl p = Some sd \<Longrightarrow> sd_storage_flag sd = STORAGE_FLAG_GUILD \<Longrightarrow>
    storage_guild_storageget env idx a sd db = (r, sd', db') \<Longrightarrow> guild_step env qs conf (pl, db) (pl(p \<mapsto> sd'), db')"
| deposit_cart: "pl p = Some sd \<Longrightarrow> sd_storage_flag sd = STORAGE_FLAG_GUILD \<Longrightarrow>
    storage_guild_storageaddfromcart env idx a sd db = (r, sd', db') \<Longrightarrow>
    guild_step env qs conf (pl, db) (pl(p \<mapsto> sd'), db')"
| withdraw_cart: "pl p = Some sd \<Longrightarrow> sd_storage_flag sd = STORAGE_FLAG_GUILD \<Longrightarrow>
    storage_guild_storagegettocart env idx a sd db = (r, sd', db') \<Longrightarrow>
    guild_step env qs conf (pl, db) (pl(p \<mapsto> sd'), db')"
| save: "storage_guild_storagesave gid False db = (r, db', sent) \<Longrightarrow> guild_step env qs conf (pl, db) (pl, db')"
| saved: "storage_guild_storagesaved gid db = (r, db') \<Longrightarrow> guild_step env qs conf (pl, db) (pl, db')"

definition has_open :: "gworld \<Rightarrow> int \<Rightarrow> int \<Rightarrow> bool" where
  "has_open w p gid \<longleftrightarrow> (\<exists>sd. fst w p = Some sd \<and> sd_storage_flag sd = STORAGE_FLAG_GUILD \<and> sd_guild_id sd = gid)"

text \<open>A storage is marked open while somebody has it open, and only one member ever has.\<close>

definition one_at_a_time :: "gworld \<Rightarrow> bool" where
  "one_at_a_time w \<longleftrightarrow> (\<forall>p gid. has_open w p gid \<longrightarrow>
     (\<exists>g. snd w gid = Some g \<and> gs_status g) \<and> (\<forall>q. has_open w q gid \<longrightarrow> q = p))"

text \<open>What the environment must leave alone: equipping and the expiry of rentals touch the inventory only.\<close>

definition env_frame :: "pc_env \<Rightarrow> bool" where
  "env_frame env \<longleftrightarrow> (\<forall>i sd. pc_frame (e_equipitem env i sd) = pc_frame sd \<and>
     pc_frame (e_unequipitem env i sd) = pc_frame sd \<and> pc_frame (e_rental_expire env i sd) = pc_frame sd)"

lemma pc_additem_frame: "env_frame env \<Longrightarrow> pc_frame (snd (pc_additem env it a sd)) = pc_frame sd"
proof -
  assume e: "env_frame env"
  have "pc_frame (additem_serial it d i s) = pc_frame s" for d i s
    by (simp add: additem_serial_def itemdb_unique_id_def pc_frame_def)
  moreover have "pc_frame (s\<lparr>sd_weight := w\<rparr>) = pc_frame s" for s w by (simp add: pc_frame_def)
  ultimately have "pc_frame (additem_finish env it d w i s) = pc_frame s" for d w i s
    using e by (simp add: additem_finish_def env_frame_def Let_def)
  moreover have "pc_frame (sd\<lparr>sd_inventory := x\<rparr>) = pc_frame sd"
    "pc_frame (sd\<lparr>sd_inventory := x, sd_inventory_data := y\<rparr>) = pc_frame sd" for x y
    by (simp_all add: pc_frame_def)
  ultimately show ?thesis by (simp add: pc_additem_def Let_def split: option.split)
qed

lemma pc_delitem_frame: "env_frame env \<Longrightarrow> pc_frame (snd (pc_delitem env n a sd)) = pc_frame sd"
proof -
  assume e: "env_frame env"
  have "pc_frame (s\<lparr>sd_inventory := x, sd_inventory_data := y\<rparr>) = pc_frame s"
    "pc_frame (s\<lparr>sd_inventory := x, sd_weight := w\<rparr>) = pc_frame s" for s x y w by (simp_all add: pc_frame_def)
  then show ?thesis using e by (simp add: pc_delitem_def env_frame_def Let_def split: option.split)
qed

lemma pc_cart_flags:
  "sd_storage_flag (snd (pc_cart_additem env it a sd)) = sd_storage_flag sd"
  "sd_guild_id (snd (pc_cart_additem env it a sd)) = sd_guild_id sd"
  "sd_storage_flag (snd (pc_cart_delitem env n a sd)) = sd_storage_flag sd"
  "sd_guild_id (snd (pc_cart_delitem env n a sd)) = sd_guild_id sd"
  by (simp_all add: pc_cart_additem_def pc_cart_delitem_def Let_def)

lemma guild_item_status:
  "gs_status (snd (guild_storage_additem env sd it a g)) = gs_status g"
  "gs_status (snd (guild_storage_delitem n a g)) = gs_status g"
  by (simp_all add: guild_storage_additem_def guild_storage_delitem_def Let_def)

text \<open>Every guild operation leaves the two flags and the guild as they were, or closes.\<close>

definition stays :: "map_session_data \<Rightarrow> guild_storage \<Rightarrow> map_session_data \<Rightarrow> guild_storage \<Rightarrow> bool" where
  "stays sd g sd' g' \<longleftrightarrow> sd_guild_id sd' = sd_guild_id sd \<and>
     (sd_storage_flag sd' = sd_storage_flag sd \<and> gs_status g' = gs_status g \<or>
      sd_storage_flag sd' = STORAGE_FLAG_CLOSED \<and> \<not> gs_status g')"

lemma only_closed_stays: "only_closed (sd, g) (sd', g') \<Longrightarrow> stays sd g sd' g'"
  by (auto simp: only_closed_def stays_def)

lemma frame_stays: "pc_frame sd' = pc_frame sd \<Longrightarrow> gs_status g' = gs_status g \<Longrightarrow> stays sd g sd' g'"
  using pc_frame_sel(7,12) [of sd' sd] by (simp add: stays_def)

lemma guild_ops_stay:
  assumes e: "env_frame env" and g: "db (sd_guild_id sd) = Some g"
  shows "storage_guild_storageadd env idx a sd db = (r, sd', db') \<Longrightarrow>
      \<exists>g'. db' = db(sd_guild_id sd \<mapsto> g') \<and> stays sd g sd' g'"
    and "storage_guild_storageget env idx a sd db = (r, sd', db') \<Longrightarrow>
      \<exists>g'. db' = db(sd_guild_id sd \<mapsto> g') \<and> stays sd g sd' g'"
    and "storage_guild_storageaddfromcart env idx a sd db = (r, sd', db') \<Longrightarrow>
      \<exists>g'. db' = db(sd_guild_id sd \<mapsto> g') \<and> stays sd g sd' g'"
    and "storage_guild_storagegettocart env idx a sd db = (r, sd', db') \<Longrightarrow>
      \<exists>g'. db' = db(sd_guild_id sd \<mapsto> g') \<and> stays sd g sd' g'"
proof -
  assume "storage_guild_storageadd env idx a sd db = (r, sd', db')"
  from g this show "\<exists>g'. db' = db(sd_guild_id sd \<mapsto> g') \<and> stays sd g sd' g'"
  proof (cases rule: storage_guild_storageadd_cases)
    case (moved g' f s1)
    have "pc_frame sd' = pc_frame sd \<and> gs_status g' = gs_status g"
      using moved(6,7) pc_delitem_frame [OF e, of "nat idx" a sd]
        guild_item_status(1) [of env sd "sd_inventory sd ! nat idx" a g]
      by (auto simp: gadd_def on_sd_def split_beta split: if_splits)
    then show ?thesis using moved(8) frame_stays by blast
  qed (use only_closed_stays in blast)
next
  assume "storage_guild_storageget env idx a sd db = (r, sd', db')"
  from g this show "\<exists>g'. db' = db(sd_guild_id sd \<mapsto> g') \<and> stays sd g sd' g'"
  proof (cases rule: storage_guild_storageget_cases)
    case (moved g' f s1)
    have "pc_frame sd' = pc_frame sd \<and> gs_status g' = gs_status g"
      using moved(6,7) pc_additem_frame [OF e, of "gs_items g ! nat idx" a sd] guild_item_status(2) [of "nat idx" a g]
      by (auto simp: gdel_def on_sd_def split_beta split: if_splits)
    then show ?thesis using moved(8) frame_stays by blast
  qed (use only_closed_stays in blast)
next
  assume "storage_guild_storageaddfromcart env idx a sd db = (r, sd', db')"
  from g this show "\<exists>g'. db' = db(sd_guild_id sd \<mapsto> g') \<and> stays sd g sd' g'"
  proof (cases rule: storage_guild_storageaddfromcart_cases)
    case (moved g' f s1)
    have "stays sd g sd' g'"
      using moved(6,7) guild_item_status(1) [of env sd "sd_cart sd ! nat idx" a g]
      by (auto simp: gadd_def on_sd_def split_beta stays_def pc_cart_flags split: if_splits)
    then show ?thesis using moved(8) by blast
  qed (use only_closed_stays in blast)
next
  assume "storage_guild_storagegettocart env idx a sd db = (r, sd', db')"
  from g this show "\<exists>g'. db' = db(sd_guild_id sd \<mapsto> g') \<and> stays sd g sd' g'"
  proof (cases rule: storage_guild_storagegettocart_cases)
    case (moved g' f s1)
    have "stays sd g sd' g'"
      using moved(6,7) guild_item_status(2) [of "nat idx" a g]
      by (auto simp: gdel_def on_sd_def split_beta stays_def pc_cart_flags split: if_splits)
    then show ?thesis using moved(8) by blast
  qed (use only_closed_stays in blast)
qed

lemma opened:
  assumes "one_at_a_time (pl, db)" "has_open (pl, db) p gid"
  shows "\<exists>g. db gid = Some g \<and> gs_status g" "has_open (pl, db) q gid \<Longrightarrow> q = p"
  using assms unfolding one_at_a_time_def by (metis snd_conv)+

lemma stays_one:
  assumes ok: "one_at_a_time (pl, db)" and p: "pl p = Some sd" "sd_storage_flag sd = STORAGE_FLAG_GUILD"
    and g: "db (sd_guild_id sd) = Some g" and st: "stays sd g sd' g'"
  shows "one_at_a_time (pl(p \<mapsto> sd'), db(sd_guild_id sd \<mapsto> g'))"
proof -
  have h: "has_open (pl, db) p (sd_guild_id sd)" using p by (auto simp: has_open_def)
  have gs: "gs_status g" and only: "has_open (pl, db) q (sd_guild_id sd) \<Longrightarrow> q = p" for q
    using ok h g by (fastforce simp: one_at_a_time_def)+
  have was: "has_open (pl, db) q gid \<and> (q = p \<longrightarrow> gid = sd_guild_id sd \<and> gs_status g')"
    if "has_open (pl(p \<mapsto> sd'), db(sd_guild_id sd \<mapsto> g')) q gid" for q gid
    using that p gs st by (auto simp: has_open_def stays_def split: if_splits)
  show ?thesis
    unfolding one_at_a_time_def
  proof (intro allI impI)
    fix q gid
    assume q: "has_open (pl(p \<mapsto> sd'), db(sd_guild_id sd \<mapsto> g')) q gid"
    note b = was [OF q]
    have "(\<exists>x. db gid = Some x \<and> gs_status x) \<and> (\<forall>q'. has_open (pl, db) q' gid \<longrightarrow> q' = q)"
      using ok b by (auto simp: one_at_a_time_def)
    moreover have "gs_status g'" if "gid = sd_guild_id sd" using only [of q] b that by simp
    ultimately show "(\<exists>x. snd (pl(p \<mapsto> sd'), db(sd_guild_id sd \<mapsto> g')) gid = Some x \<and> gs_status x) \<and>
        (\<forall>q'. has_open (pl(p \<mapsto> sd'), db(sd_guild_id sd \<mapsto> g')) q' gid \<longrightarrow> q' = q)"
      using was by auto
  qed
qed

lemma one_less:
  assumes "one_at_a_time (pl, db)" "\<And>q gid. has_open (pl', db') q gid \<Longrightarrow> has_open (pl, db) q gid"
    and "\<And>q gid g. has_open (pl', db') q gid \<Longrightarrow> db gid = Some g \<Longrightarrow> gs_status g \<Longrightarrow> \<exists>g'. db' gid = Some g' \<and> gs_status g'"
  shows "one_at_a_time (pl', db')"
  using assms unfolding one_at_a_time_def by (metis snd_conv)


lemma apple_env_frame: "env_frame apple_env"
  by (simp add: env_frame_def apple_env_def)


end
