(* ===== verification/Trade.thy ===== *)
theory Trade
  imports Storage Path
begin

text \<open>
  Trading between two characters, \<open>src/map/trade.c\<close>: the request and its answer, the
  window (items, zeny), the locks, cancelling and committing. The world is the map of the
  characters online, from account numbers (\<open>map->id2sd\<close>); a handler takes the account
  of its character and the world and returns the world. Messages to clients, the report of
  attempted fraud and the final save are left out. Map flags and one battle option are the
  fields of \<open>trade_conf\<close>.
\<close>

unbundle bit_operations_syntax

record trade_conf =
  notrade :: "int \<Rightarrow> bool"
  invite_request_check :: bool

type_synonym world = "int \<Rightarrow> map_session_data option"

definition TRADE_DISTANCE :: int where "TRADE_DISTANCE = 2"

abbreviation upd :: "int \<Rightarrow> (map_session_data \<Rightarrow> map_session_data) \<Rightarrow> world \<Rightarrow> world" where
  "upd a f w \<equiv> w(a := map_option f (w a))"

definition bl_pos :: "map_session_data \<Rightarrow> int \<times> int" where
  "bl_pos sd = (bl_x sd, bl_y sd)"

definition too_far :: "map_session_data \<Rightarrow> map_session_data \<Rightarrow> bool" where
  "too_far sd tsd \<longleftrightarrow> \<not> perm_at_trade sd \<and>
     (bl_m sd \<noteq> bl_m tsd \<or> \<not> check_distance_bl (bl_pos sd) (bl_pos tsd) TRADE_DISTANCE)"

section \<open>Request and answer\<close>

definition trade_traderequest :: "trade_conf \<Rightarrow> int \<Rightarrow> int \<Rightarrow> world \<Rightarrow> world" where
  "trade_traderequest conf a t w =
     (case w a of None \<Rightarrow> w | Some sd \<Rightarrow>
      if notrade conf (bl_m sd) then w
      else (case w t of None \<Rightarrow> w | Some tsd \<Rightarrow>
        if a = t then w
        else if sd_npc_id tsd \<noteq> 0 then w
        else if \<not> invite_request_check conf \<and>
            (sd_guild_invite tsd > 0 \<or> sd_party_invite tsd > 0 \<or> sd_adopt_invite tsd \<noteq> 0) then w
        else
          let w = (if sd_trade_partner sd \<noteq> 0
                   then upd a (\<lambda>s. s\<lparr>sd_trade_partner := 0\<rparr>)
                          (upd (sd_trade_partner sd) (\<lambda>s. s\<lparr>sd_trade_partner := 0\<rparr>) w)
                   else w);
              sd = the (w a); tsd = the (w t)
          in if sd_trade_partner tsd \<noteq> 0 then w
             else if \<not> perm_trade sd \<or> \<not> perm_trade tsd then w
             else if too_far sd tsd then w
             else upd a (\<lambda>s. s\<lparr>sd_trade_partner := sd_account_id tsd\<rparr>)
                    (upd t (\<lambda>s. s\<lparr>sd_trade_partner := sd_account_id sd\<rparr>) w)))"

definition busy :: "map_session_data \<Rightarrow> bool" where
  "busy sd \<longleftrightarrow> sd_npc_id sd \<noteq> 0 \<or> sd_vending sd \<or> sd_buyingstore sd \<or> sd_storage_flag sd \<noteq> STORAGE_FLAG_CLOSED"

definition no_deal :: "map_session_data \<Rightarrow> map_session_data" where
  "no_deal sd = sd\<lparr>sd_trading := True, deal_item := replicate 10 (0, 0), deal_zeny := 0, deal_weight := 0\<rparr>"

definition trade_tradeack :: "int \<Rightarrow> int \<Rightarrow> world \<Rightarrow> world" where
  "trade_tradeack a type w =
     (case w a of None \<Rightarrow> w | Some sd \<Rightarrow>
      if sd_trading sd \<or> sd_trade_partner sd = 0 then w
      else (case w (sd_trade_partner sd) of
          None \<Rightarrow> upd a (\<lambda>s. s\<lparr>sd_trade_partner := 0\<rparr>) w
        | Some tsd \<Rightarrow>
            let t = sd_trade_partner sd in
            if sd_trading tsd \<or> sd_trade_partner tsd \<noteq> a then upd a (\<lambda>s. s\<lparr>sd_trade_partner := 0\<rparr>) w
            else if type = 4 then
              upd t (\<lambda>s. s\<lparr>sd_deal_locked := 0, sd_trade_partner := 0\<rparr>)
                (upd a (\<lambda>s. s\<lparr>sd_deal_locked := 0, sd_trade_partner := 0\<rparr>) w)
            else if type \<noteq> 3 then w
            else if too_far sd tsd then
              upd t (\<lambda>s. s\<lparr>sd_trade_partner := 0\<rparr>) (upd a (\<lambda>s. s\<lparr>sd_trade_partner := 0\<rparr>) w)
            else if busy sd \<or> busy tsd then
              upd t (\<lambda>s. s\<lparr>sd_deal_locked := 0, sd_trade_partner := 0\<rparr>)
                (upd a (\<lambda>s. s\<lparr>sd_deal_locked := 0, sd_trade_partner := 0\<rparr>) w)
            else upd t no_deal (upd a no_deal w)))"

section \<open>The checks\<close>

text \<open>The loop of \<open>impossible_trade_check\<close> over the ten positions, on a copy of the inventory.\<close>

fun deal_possible :: "(int \<times> int) list \<Rightarrow> item list \<Rightarrow> bool" where
  "deal_possible [] items = True"
| "deal_possible ((index, amount) # ds) items =
     (if amount = 0 then deal_possible ds items
      else if index < 0 \<or> index \<ge> int MAX_INVENTORY then False
      else let s = items ! nat index in
        if i_amount s < amount then False
        else deal_possible ds (items[nat index := s\<lparr>i_amount := i_amount s - amount\<rparr>]))"

definition impossible_trade_check :: "map_session_data \<Rightarrow> bool" where
  "impossible_trade_check sd =
     (if deal_zeny sd > sd_zeny sd then True
      else \<not> deal_possible (deal_item sd)
             (map (\<lambda>s. if i_nameid s > 0 \<and> i_equip s \<noteq> 0 \<and> (i_equip s AND EQP_AMMO) = 0 then zero_item else s)
                (sd_inventory sd)))"

text \<open>
  One half of a round of \<open>trade_check\<close>: \<open>amount\<close> pieces of slot \<open>n\<close> of \<open>items\<close> go to
  \<open>other\<close>, both copies; \<open>None\<close> when there is no room.
\<close>

definition trade_check_half :: "pc_env \<Rightarrow> int \<Rightarrow> int \<Rightarrow> item list \<Rightarrow> item list \<Rightarrow> (item list \<times> item list) option" where
  "trade_check_half env n amount items other =
     (if amount = 0 then Some (items, other)
      else let s = items ! nat n in
        if amount > i_amount s then None
        else
          let d = e_search env (i_nameid s);
              i = (if itemdb_isstackable2 d
                   then arr_find (\<lambda>t. i_nameid t = i_nameid s \<and> i_card t = i_card s) other else MAX_INVENTORY);
              rest = items[nat n := s\<lparr>i_amount := i_amount s - amount\<rparr>]
          in if i < MAX_INVENTORY then
               (if i_amount (other ! i) + amount > MAX_AMOUNT then None
                else Some (rest, other[i := (other ! i)\<lparr>i_amount := i_amount (other ! i) + amount\<rparr>]))
             else
               let i = arr_find (\<lambda>t. i_nameid t = 0) other in
               if i = MAX_INVENTORY then None
               else Some (rest, other[i := s\<lparr>i_amount := amount\<rparr>]))"

fun trade_check_loop ::
  "pc_env \<Rightarrow> (int \<times> int) list \<Rightarrow> (int \<times> int) list \<Rightarrow> item list \<Rightarrow> item list \<Rightarrow> bool" where
  "trade_check_loop env ((n, amount) # ds) ((n2, amount2) # ds2) items other =
     (case trade_check_half env n amount items other of
        None \<Rightarrow> False
      | Some (items, other) \<Rightarrow>
          if amount2 = 0 then trade_check_loop env ds ds2 items other
          else if n2 < 0 \<or> n2 \<ge> int MAX_INVENTORY then False
          else (case trade_check_half env n2 amount2 other items of
              None \<Rightarrow> False
            | Some (other, items) \<Rightarrow> trade_check_loop env ds ds2 items other))"
| "trade_check_loop env _ _ items other = True"

definition trade_check :: "pc_env \<Rightarrow> map_session_data \<Rightarrow> map_session_data \<Rightarrow> bool" where
  "trade_check env sd tsd =
     (if deal_zeny sd > sd_zeny sd \<or> sd_zeny tsd > MAX_ZENY - deal_zeny sd then False
      else if deal_zeny tsd > sd_zeny tsd \<or> sd_zeny sd > MAX_ZENY - deal_zeny tsd then False
      else trade_check_loop env (deal_item sd) (deal_item tsd) (sd_inventory sd) (sd_inventory tsd))"

section \<open>The window\<close>

definition clear_deal :: "map_session_data \<Rightarrow> map_session_data" where
  "clear_deal sd = sd\<lparr>deal_item := map (\<lambda>(i, x). if x \<noteq> 0 then (0, 0) else (i, x)) (deal_item sd),
     deal_zeny := 0, sd_deal_locked := 0, sd_trading := False, sd_trade_partner := 0\<rparr>"

definition trade_tradecancel :: "int \<Rightarrow> world \<Rightarrow> world" where
  "trade_tradecancel a w =
     (case w a of None \<Rightarrow> w | Some sd \<Rightarrow>
      let t = sd_trade_partner sd in
      if \<not> sd_trading sd then
        upd a (\<lambda>s. s\<lparr>sd_trade_partner := 0\<rparr>) (upd t (\<lambda>s. s\<lparr>sd_trade_partner := 0\<rparr>) w)
      else upd t clear_deal (upd a clear_deal w))"

definition pc_partner_is :: "map_session_data \<Rightarrow> map_session_data \<Rightarrow> bool" where
  "pc_partner_is sd tsd \<longleftrightarrow> sd_partner_id sd \<noteq> 0 \<and> sd_char_id tsd = sd_partner_id sd"

definition trade_tradeadditem :: "pc_env \<Rightarrow> int \<Rightarrow> int \<Rightarrow> int \<Rightarrow> world \<Rightarrow> world" where
  "trade_tradeadditem env a index amount w =
     (case w a of None \<Rightarrow> w | Some sd \<Rightarrow>
      if \<not> sd_trading sd \<or> sd_deal_locked sd > 0 then w
      else (case w (sd_trade_partner sd) of None \<Rightarrow> trade_tradecancel a w | Some tsd \<Rightarrow>
        if amount = 0 then w
        else let index = to_int16 (index - 2) in
        if index < 0 \<or> index \<ge> int MAX_INVENTORY then w
        else let it = sd_inventory sd ! nat index in
        if amount < 0 \<or> amount > i_amount it then w
        else if \<not> itemdb_isrestricted env it (sd_group_level sd) (sd_group_level tsd) itemdb_cantrade_sub \<and>
            (\<not> pc_partner_is sd tsd \<or>
             \<not> itemdb_isrestricted env it (sd_group_level sd) (sd_group_level tsd) itemdb_canpartnertrade_sub) then w
        else if i_expire_time it \<noteq> 0 then w
        else if i_bound it \<noteq> 0 \<and>
            \<not> (i_bound it = IBT_GUILD \<and> sd_guild_id sd = sd_guild_id tsd) \<and>
            \<not> (i_bound it = IBT_PARTY \<and> sd_party_id sd = sd_party_id tsd) \<and>
            \<not> perm_trade_bound sd then w
        else let i = arr_find (\<lambda>(n, x). n = index \<or> x = 0) (deal_item sd) in
        if i = 10 then w
        else let d_w = d_weight (the (sd_inventory_data sd ! nat index)) in
        if to_uint32 (sd_weight tsd + deal_weight sd + d_w * amount) > sd_max_weight tsd then w
        else if fst (deal_item sd ! i) = index then
          let x = snd (deal_item sd ! i);
              amount = (if x + amount > i_amount it then to_int16 (i_amount it - x) else amount)
          in upd a (\<lambda>s. s\<lparr>deal_item := (deal_item s)[i := (index, to_int16 (x + amount))],
                         deal_weight := deal_weight s + d_w * amount\<rparr>) w
        else upd a (\<lambda>s. s\<lparr>deal_item := (deal_item s)[i := (index, amount)],
                         deal_weight := deal_weight s + d_w * amount\<rparr>) w))"

definition trade_tradeaddzeny :: "int \<Rightarrow> int \<Rightarrow> world \<Rightarrow> world" where
  "trade_tradeaddzeny a amount w =
     (case w a of None \<Rightarrow> w | Some sd \<Rightarrow>
      if \<not> sd_trading sd \<or> sd_deal_locked sd > 0 then w
      else (case w (sd_trade_partner sd) of None \<Rightarrow> trade_tradecancel a w | Some tsd \<Rightarrow>
        if amount < 0 \<or> amount > sd_zeny sd \<or> amount > MAX_ZENY - sd_zeny tsd then trade_tradecancel a w
        else upd a (\<lambda>s. s\<lparr>deal_zeny := amount\<rparr>) w))"

definition trade_tradeok :: "int \<Rightarrow> world \<Rightarrow> world" where
  "trade_tradeok a w =
     (case w a of None \<Rightarrow> w | Some sd \<Rightarrow>
      if sd_deal_locked sd \<noteq> 0 \<or> \<not> sd_trading sd then w
      else (case w (sd_trade_partner sd) of None \<Rightarrow> trade_tradecancel a w
        | Some tsd \<Rightarrow> upd a (\<lambda>s. s\<lparr>sd_deal_locked := 1\<rparr>) w))"

section \<open>The commit\<close>

text \<open>Position \<open>k\<close> of the window of \<open>sd\<close> goes to \<open>tsd\<close>.\<close>

definition trade_give ::
  "pc_env \<Rightarrow> nat \<Rightarrow> map_session_data \<Rightarrow> map_session_data \<Rightarrow> map_session_data \<times> map_session_data" where
  "trade_give env k sd tsd =
     (let (n, x) = deal_item sd ! k in
      if x \<noteq> 0 then
        let (flag, tsd) = pc_additem env (sd_inventory sd ! nat n) x tsd;
            sd = (if flag = 0 then snd (pc_delitem env (nat n) x sd) else sd)
        in (sd\<lparr>deal_item := (deal_item sd)[k := (0, 0)]\<rparr>, tsd)
      else (sd, tsd))"

text \<open>The rounds \<open>10 - n\<close> to 9.\<close>

fun trade_swap ::
  "pc_env \<Rightarrow> nat \<Rightarrow> map_session_data \<Rightarrow> map_session_data \<Rightarrow> map_session_data \<times> map_session_data" where
  "trade_swap env 0 sd tsd = (sd, tsd)"
| "trade_swap env (Suc n) sd tsd =
     (let (sd, tsd) = trade_give env (9 - n) sd tsd;
          (tsd, sd) = trade_give env (9 - n) tsd sd
      in trade_swap env n sd tsd)"

definition trade_pay :: "map_session_data \<Rightarrow> map_session_data \<Rightarrow> map_session_data \<times> map_session_data" where
  "trade_pay sd tsd =
     (if deal_zeny sd \<noteq> 0 then
        let z = deal_zeny sd; sd = snd (pc_payzeny z sd); tsd = snd (pc_getzeny z tsd)
        in (sd\<lparr>deal_zeny := 0\<rparr>, tsd)
      else (sd, tsd))"

definition trade_end :: "map_session_data \<Rightarrow> map_session_data" where
  "trade_end sd = sd\<lparr>sd_deal_locked := 0, sd_trade_partner := 0, sd_trading := False\<rparr>"

definition trade_tradecommit :: "pc_env \<Rightarrow> int \<Rightarrow> world \<Rightarrow> world" where
  "trade_tradecommit env a w =
     (case w a of None \<Rightarrow> w | Some sd \<Rightarrow>
      if \<not> sd_trading sd \<or> sd_deal_locked sd = 0 then w
      else (case w (sd_trade_partner sd) of None \<Rightarrow> trade_tradecancel a w | Some tsd \<Rightarrow>
        let t = sd_trade_partner sd; w = upd a (\<lambda>s. s\<lparr>sd_deal_locked := 2\<rparr>) w; sd = the (w a); tsd = the (w t)
        in if sd_deal_locked tsd < 2 then w
           else if impossible_trade_check sd then trade_tradecancel a w
           else if impossible_trade_check tsd then trade_tradecancel t w
           else if \<not> trade_check env sd tsd then trade_tradecancel a w
           else let (sd, tsd) = trade_swap env 10 sd tsd;
                    (sd, tsd) = trade_pay sd tsd;
                    (tsd, sd) = trade_pay tsd sd
                in w(a \<mapsto> trade_end sd, t \<mapsto> trade_end tsd)))"

section \<open>What a commit keeps\<close>

text \<open>The pieces of slot \<open>j\<close> that a list of window positions offers.\<close>

definition reserved :: "nat \<Rightarrow> (int \<times> int) list \<Rightarrow> int" where
  "reserved j ds = sum_list (map (\<lambda>(m, x). if m = int j then x else 0) ds)"

definition no_debt :: "(int \<times> int) list \<Rightarrow> bool" where
  "no_debt ds \<longleftrightarrow> (\<forall>d \<in> set ds. 0 \<le> snd d \<and> snd d \<le> MAX_AMOUNT)"

definition in_range :: "(int \<times> int) list \<Rightarrow> bool" where
  "in_range ds \<longleftrightarrow> (\<forall>d \<in> set ds. snd d \<noteq> 0 \<longrightarrow> 0 \<le> fst d \<and> fst d < int MAX_INVENTORY)"

lemma reserved_Cons: "reserved j (d # ds) = (if fst d = int j then snd d else 0) + reserved j ds"
  by (cases d) (simp add: reserved_def)

lemma deal_possible_reserved:
  assumes "deal_possible ds items" "no_debt ds" "length items = MAX_INVENTORY"
    and "\<forall>j < MAX_INVENTORY. 0 \<le> i_amount (items ! j)"
  shows "in_range ds \<and> (\<forall>j < MAX_INVENTORY. reserved j ds \<le> i_amount (items ! j))"
  using assms
proof (induction ds arbitrary: items)
  case Nil
  then show ?case by (simp add: in_range_def reserved_def)
next
  case (Cons d ds)
  obtain n x where d: "d = (n, x)" by fastforce
  have nd: "0 \<le> x" "no_debt ds" using Cons.prems(2) by (simp_all add: no_debt_def d)
  show ?case
  proof (cases "x = 0")
    case True
    then show ?thesis using Cons nd by (simp add: d in_range_def reserved_Cons)
  next
    case False
    let ?items = "items[nat n := (items ! nat n)\<lparr>i_amount := i_amount (items ! nat n) - x\<rparr>]"
    have n: "0 \<le> n" "n < int MAX_INVENTORY" "x \<le> i_amount (items ! nat n)" "deal_possible ds ?items"
      using Cons.prems(1) False by (auto simp: d Let_def split: if_splits)
    have am: "i_amount (?items ! j) = i_amount (items ! j) - (if n = int j then x else 0)" if "j < MAX_INVENTORY" for j
      using that n Cons.prems(3) by (auto simp: nth_list_update)
    have "\<forall>j < MAX_INVENTORY. 0 \<le> i_amount (?items ! j)" using am Cons.prems(4) n(3) by auto
    then have "in_range ds \<and> (\<forall>j < MAX_INVENTORY. reserved j ds \<le> i_amount (?items ! j))"
      using Cons.IH [OF n(4) nd(2)] Cons.prems(3) by simp
    then show ?thesis using n am by (auto simp: d in_range_def reserved_Cons)
  qed
qed

text \<open>A character whose positions from \<open>k\<close> on are covered by the inventory.\<close>

definition dealer :: "pc_env \<Rightarrow> map_session_data \<Rightarrow> bool" where
  "dealer env sd \<longleftrightarrow> inv_ok sd \<and> fresh env (sd_inventory sd) \<and> length (deal_item sd) = 10 \<and> no_debt (deal_item sd)"

definition covers :: "nat \<Rightarrow> map_session_data \<Rightarrow> bool" where
  "covers k sd \<longleftrightarrow> in_range (drop k (deal_item sd)) \<and>
     (\<forall>j < MAX_INVENTORY. reserved j (drop k (deal_item sd)) \<le> i_amount (sd_inventory sd ! j))"

definition deal_frame :: "map_session_data \<Rightarrow> map_session_data" where
  "deal_frame sd = (pc_frame sd)\<lparr>deal_item := []\<rparr>"

lemma deal_frame_sel:
  assumes "deal_frame sd' = deal_frame sd"
  shows "sd_zeny sd' = sd_zeny sd" "deal_zeny sd' = deal_zeny sd" "sd_trade_partner sd' = sd_trade_partner sd"
    "sd_account_id sd' = sd_account_id sd" "sd_trading sd' = sd_trading sd"
  using arg_cong [OF assms, of sd_zeny] arg_cong [OF assms, of deal_zeny] arg_cong [OF assms, of sd_trade_partner]
    arg_cong [OF assms, of sd_account_id] arg_cong [OF assms, of sd_trading]
  by (simp_all add: deal_frame_def pc_frame_def)

lemma frame_deal_frame: "pc_frame sd' = pc_frame sd \<Longrightarrow> deal_frame sd' = deal_frame sd"
  by (simp add: deal_frame_def)

lemma deal_item_upd [simp]:
  "inv_ok (sd\<lparr>deal_item := ds\<rparr>) = inv_ok sd" "deal_frame (sd\<lparr>deal_item := ds\<rparr>) = deal_frame sd"
  by (simp_all add: inv_ok_def deal_frame_def pc_frame_def)

lemma slots_grow_covers:
  assumes "slots_grow (sd_inventory sd) (sd_inventory sd')" "deal_item sd' = deal_item sd" "covers k sd"
    and "length (sd_inventory sd) = MAX_INVENTORY"
  shows "covers k sd'"
  using assms unfolding covers_def slots_grow_def by force

lemma no_debt_update: "no_debt ds \<Longrightarrow> no_debt (ds[k := (0, 0)])"
  unfolding no_debt_def MAX_AMOUNT_def using set_update_subset_insert [of ds k "(0, 0)"] by fastforce

text \<open>One position changes hands.\<close>

lemma trade_give_ok:
  assumes env: "env_ok env" and s: "dealer env sd" "covers k sd" and t: "dealer env tsd" and k: "k < 10"
    and g: "trade_give env k sd tsd = (sd', tsd')"
  shows "dealer env sd' \<and> dealer env tsd' \<and> covers (Suc k) sd' \<and> (covers i tsd \<longrightarrow> covers i tsd') \<and>
    deal_frame sd' = deal_frame sd \<and> deal_frame tsd' = deal_frame tsd \<and>
    total c (sd_inventory sd') + total c (sd_inventory tsd') = total c (sd_inventory sd) + total c (sd_inventory tsd)"
proof -
  obtain n x where nx: "deal_item sd ! k = (n, x)" by fastforce
  have len: "length (deal_item sd) = 10" "length (sd_inventory sd) = MAX_INVENTORY" "length (sd_inventory tsd) = MAX_INVENTORY"
    and ok: "inv_ok sd" "inv_ok tsd" and fr: "fresh env (sd_inventory sd)" "fresh env (sd_inventory tsd)"
    using s t by (simp_all add: dealer_def inv_ok_def)
  have dr: "drop k (deal_item sd) = (n, x) # drop (Suc k) (deal_item sd)"
    using k len nx by (simp add: Cons_nth_drop_Suc [symmetric])
  have "(n, x) \<in> set (deal_item sd)" using nx k len by (metis nth_mem)
  then have x0: "0 \<le> x" using s(1) by (auto simp: dealer_def no_debt_def)
  have cov: "x \<noteq> 0 \<Longrightarrow> 0 \<le> n \<and> n < int MAX_INVENTORY" "in_range (drop (Suc k) (deal_item sd))"
    "\<And>j. j < MAX_INVENTORY \<Longrightarrow> (if n = int j then x else 0) + reserved j (drop (Suc k) (deal_item sd)) \<le>
      i_amount (sd_inventory sd ! j)"
    using s(2) unfolding covers_def dr by (auto simp: in_range_def reserved_Cons)
  have rest0: "0 \<le> reserved j (drop (Suc k) (deal_item sd))" for j
  proof -
    have "0 \<le> snd d" if "d \<in> set (drop (Suc k) (deal_item sd))" for d
      using s(1) in_set_dropD [OF that] by (simp add: dealer_def no_debt_def)
    then show ?thesis unfolding reserved_def by (intro sum_list_nonneg) auto
  qed
  show ?thesis
  proof (cases "x = 0")
    case True
    then have "sd' = sd" "tsd' = tsd" using g by (simp_all add: trade_give_def nx)
    moreover have "covers (Suc k) sd" using cov(2) cov(3) [unfolded True] by (simp add: covers_def)
    ultimately show ?thesis using s t by simp
  next
    case False
    let ?it = "sd_inventory sd ! nat n"
    have n0: "nat n < MAX_INVENTORY" using cov(1) [OF False] by (simp add: nat_less_iff)
    then have n: "nat n < MAX_INVENTORY" "x \<le> i_amount ?it" "0 < x"
      using cov(1) [OF False] cov(3) [OF n0] rest0 [of "nat n"] False x0 by auto
    obtain f t' where a: "pc_additem env ?it x tsd = (f, t')" by fastforce
    have ex: "not_expired env ?it" using fresh_nth [OF fr(1)] n(1) len by simp
    define ds where "ds = (deal_item sd)[k := (0, 0)]"
    have ds: "length ds = 10" "no_debt ds" "drop (Suc k) ds = drop (Suc k) (deal_item sd)"
      using s(1) no_debt_update [of "deal_item sd" k] by (simp_all add: ds_def dealer_def)
    show ?thesis
    proof (cases "f = 0")
      case True
      have ad: "inv_ok t'" "pc_frame t' = pc_frame tsd" "slots_grow (sd_inventory tsd) (sd_inventory t')"
        "fresh env (sd_inventory t')"
        "total c (sd_inventory t') = total c (sd_inventory tsd) + (if c = i_nameid ?it then x else 0)"
        using pc_additem_ok(2) [OF env ok(2) ex a True, of c] fr(2) by auto
      obtain s' where d: "pc_delitem env (nat n) x sd = (0, s')" "inv_ok s'" "pc_frame s' = pc_frame sd"
        "fresh env (sd_inventory s')"
        "\<forall>j < MAX_INVENTORY. i_amount (sd_inventory s' ! j) = i_amount (sd_inventory sd ! j) - (if j = nat n then x else 0)"
        "total c (sd_inventory s') = total c (sd_inventory sd) - (if c = i_nameid ?it then x else 0)"
        using pc_delitem_ok [OF env ok(1) n(1) n(3) n(2)] fr(1) by blast
      have r: "sd' = s'\<lparr>deal_item := ds\<rparr>" "tsd' = t'"
        using g False True a d(1) pc_frame_sel(5) [OF d(3)] by (simp_all add: trade_give_def nx ds_def)
      have "reserved j (drop (Suc k) (deal_item sd)) \<le> i_amount (sd_inventory s' ! j)" if "j < MAX_INVENTORY" for j
        using cov(3) [OF that] d(5) that cov(1) [OF False] by (cases "n = int j") auto
      then have "covers (Suc k) sd'" using cov(2) by (simp add: covers_def r ds(3))
      moreover have "dealer env tsd'" using t ad pc_frame_sel(5) [OF ad(2)] by (simp add: dealer_def r)
      moreover have "covers i tsd \<longrightarrow> covers i tsd'"
        using slots_grow_covers [of tsd t' i] ad(3) pc_frame_sel(5) [OF ad(2)] len by (simp add: r)
      ultimately show ?thesis
        using d(2,4,6) ad(5) ds(1,2) frame_deal_frame [OF d(3)] frame_deal_frame [OF ad(2)]
        by (simp add: dealer_def r)
    next
      case nf: False
      then have "t' = tsd" using pc_additem_ok(1) [OF env ok(2) ex a] by simp
      then have r: "sd' = sd\<lparr>deal_item := ds\<rparr>" "tsd' = tsd"
        using g False nf a by (simp_all add: trade_give_def nx ds_def)
      have "reserved j (drop (Suc k) (deal_item sd)) \<le> i_amount (sd_inventory sd ! j)" if "j < MAX_INVENTORY" for j
        using cov(3) [OF that] x0 by (cases "n = int j") auto
      then have "covers (Suc k) sd'" using cov(2) by (simp add: covers_def r ds(3))
      then show ?thesis using s t ds by (simp add: dealer_def r)
    qed
  qed
qed

lemma trade_swap_ok:
  assumes "env_ok env" "dealer env sd" "dealer env tsd" "n \<le> 10" "covers (10 - n) sd" "covers (10 - n) tsd"
    and "trade_swap env n sd tsd = (sd', tsd')"
  shows "dealer env sd' \<and> dealer env tsd' \<and> deal_frame sd' = deal_frame sd \<and> deal_frame tsd' = deal_frame tsd \<and>
    total c (sd_inventory sd') + total c (sd_inventory tsd') = total c (sd_inventory sd) + total c (sd_inventory tsd)"
  using assms(2-)
proof (induction n arbitrary: sd tsd)
  case 0
  then show ?case by simp
next
  case (Suc n)
  define k where "k = 9 - n"
  have k: "k < 10" "10 - Suc n = k" "10 - n = Suc k" using Suc.prems(3) by (simp_all add: k_def)
  obtain s1 t1 where g1: "trade_give env k sd tsd = (s1, t1)" by fastforce
  obtain t2 s2 where g2: "trade_give env k t1 s1 = (t2, s2)" by fastforce
  have sw: "trade_swap env n s2 t2 = (sd', tsd')" using Suc.prems(6) g1 g2 by (simp add: k_def)
  note p = Suc.prems
  have c: "covers k sd" "covers k tsd" using p(4,5) by (simp_all add: k_def)
  have 1: "dealer env s1" "dealer env t1" "covers (Suc k) s1" "covers k t1" "deal_frame s1 = deal_frame sd"
    "deal_frame t1 = deal_frame tsd"
    "total c (sd_inventory s1) + total c (sd_inventory t1) = total c (sd_inventory sd) + total c (sd_inventory tsd)"
    using trade_give_ok [OF assms(1) p(1) c(1) p(2) k(1) g1, of k c] c(2) by simp_all
  have 2: "dealer env t2" "dealer env s2" "covers (Suc k) t2" "covers (Suc k) s2" "deal_frame t2 = deal_frame t1"
    "deal_frame s2 = deal_frame s1"
    "total c (sd_inventory t2) + total c (sd_inventory s2) = total c (sd_inventory t1) + total c (sd_inventory s1)"
    using trade_give_ok [OF assms(1) 1(2,4,1) k(1) g2, of "Suc k" c] 1(3) by simp_all
  show ?case using Suc.IH [OF 2(2,1) _ _ _ sw] 1 2 p(3) by (simp add: k(3))
qed

lemma possible_covers:
  assumes "dealer env sd" "\<not> impossible_trade_check sd"
  shows "covers 0 sd" "deal_zeny sd \<le> sd_zeny sd"
proof -
  define items where "items = map (\<lambda>s. if i_nameid s > 0 \<and> i_equip s \<noteq> 0 \<and> (i_equip s AND EQP_AMMO) = 0 then zero_item else s)
    (sd_inventory sd)"
  have len: "length (sd_inventory sd) = MAX_INVENTORY" and so: "slots_ok (sd_inventory sd)"
    and nd: "no_debt (deal_item sd)"
    using assms(1) by (simp_all add: dealer_def inv_ok_def)
  have p: "deal_possible (deal_item sd) items" and z: "deal_zeny sd \<le> sd_zeny sd"
    using assms(2) by (simp_all add: impossible_trade_check_def items_def split: if_splits)
  have b: "0 \<le> i_amount (items ! j) \<and> i_amount (items ! j) \<le> i_amount (sd_inventory sd ! j)" if "j < MAX_INVENTORY" for j
    using slots_ok_nth [OF so, of j] that len by (auto simp: items_def slot_ok_def)
  have "in_range (deal_item sd) \<and> (\<forall>j < MAX_INVENTORY. reserved j (deal_item sd) \<le> i_amount (items ! j))"
    by (rule deal_possible_reserved [OF p nd]) (use b len in \<open>simp_all add: items_def\<close>)
  then show "covers 0 sd" using b by (auto simp: covers_def intro: order_trans)
  show "deal_zeny sd \<le> sd_zeny sd" by (rule z)
qed

definition purse_ok :: "map_session_data \<Rightarrow> bool" where
  "purse_ok sd \<longleftrightarrow> 0 \<le> sd_zeny sd \<and> sd_zeny sd \<le> MAX_ZENY \<and> 0 \<le> deal_zeny sd"

lemma trade_pay_ok:
  assumes "purse_ok sd" "purse_ok tsd" "deal_zeny sd \<le> sd_zeny sd" "sd_zeny tsd + deal_zeny sd \<le> MAX_ZENY"
    and "trade_pay sd tsd = (sd', tsd')"
  shows "sd' = sd\<lparr>sd_zeny := sd_zeny sd - deal_zeny sd, deal_zeny := 0\<rparr> \<and>
    tsd' = tsd\<lparr>sd_zeny := sd_zeny tsd + deal_zeny sd\<rparr>"
proof (cases "deal_zeny sd = 0")
  case True
  then show ?thesis using assms(5) by (auto simp: trade_pay_def)
next
  case False
  have "cap_value (deal_zeny sd) (- MAX_ZENY) MAX_ZENY = deal_zeny sd"
    using assms(1-4) by (auto simp: cap_value_def purse_ok_def MAX_ZENY_def)
  then show ?thesis
    using assms False by (auto simp: trade_pay_def pc_payzeny_def pc_getzeny_def purse_ok_def Let_def)
qed

lemma dealer_zeny_upd [simp]:
  "dealer env (sd\<lparr>sd_zeny := z, deal_zeny := y\<rparr>) = dealer env sd" "dealer env (sd\<lparr>sd_zeny := z\<rparr>) = dealer env sd"
  "dealer env (sd\<lparr>deal_zeny := y\<rparr>) = dealer env sd"
  "dealer env (trade_end sd) = dealer env sd" "dealer env (sd\<lparr>sd_deal_locked := l\<rparr>) = dealer env sd"
  by (simp_all add: dealer_def inv_ok_def trade_end_def)

lemma exchange_ok:
  assumes env: "env_ok env" and d: "dealer env sd" "dealer env tsd" "purse_ok sd" "purse_ok tsd"
    and c: "\<not> impossible_trade_check sd" "\<not> impossible_trade_check tsd" "trade_check env sd tsd"
    and r: "trade_swap env 10 sd tsd = (s1, t1)" "trade_pay s1 t1 = (s2, t2)" "trade_pay t2 s2 = (t3, s3)"
  shows "dealer env s3 \<and> dealer env t3 \<and> purse_ok s3 \<and> purse_ok t3 \<and>
    sd_account_id s3 = sd_account_id sd \<and> sd_account_id t3 = sd_account_id tsd \<and>
    total k (sd_inventory s3) + total k (sd_inventory t3) = total k (sd_inventory sd) + total k (sd_inventory tsd) \<and>
    sd_zeny s3 + sd_zeny t3 = sd_zeny sd + sd_zeny tsd"
proof -
  have 1: "dealer env s1" "dealer env t1" "deal_frame s1 = deal_frame sd" "deal_frame t1 = deal_frame tsd"
    "total k (sd_inventory s1) + total k (sd_inventory t1) = total k (sd_inventory sd) + total k (sd_inventory tsd)"
    using trade_swap_ok [OF env d(1,2) _ _ _ r(1), of k] possible_covers(1) [OF d(1) c(1)] possible_covers(1) [OF d(2) c(2)]
    by simp_all
  note f = deal_frame_sel [OF 1(3)] deal_frame_sel [OF 1(4)]
  have z: "deal_zeny sd \<le> sd_zeny sd" "deal_zeny tsd \<le> sd_zeny tsd" "sd_zeny tsd + deal_zeny sd \<le> MAX_ZENY"
    "sd_zeny sd + deal_zeny tsd \<le> MAX_ZENY"
    using c(3) by (auto simp: trade_check_def split: if_splits)
  have p1: "purse_ok s1" "purse_ok t1" using d(3,4) f by (simp_all add: purse_ok_def)
  have 2: "s2 = s1\<lparr>sd_zeny := sd_zeny sd - deal_zeny sd, deal_zeny := 0\<rparr>" "t2 = t1\<lparr>sd_zeny := sd_zeny tsd + deal_zeny sd\<rparr>"
    using trade_pay_ok [OF p1 _ _ r(2)] z f by simp_all
  have p2: "purse_ok s2" "purse_ok t2" using p1 z d(3,4) f by (simp_all add: 2 purse_ok_def)
  have 3: "t3 = t2\<lparr>sd_zeny := sd_zeny t2 - deal_zeny tsd, deal_zeny := 0\<rparr>" "s3 = s2\<lparr>sd_zeny := sd_zeny s2 + deal_zeny tsd\<rparr>"
    using trade_pay_ok [OF p2(2,1) _ _ r(3)] z d(3,4) f by (simp_all add: 2 purse_ok_def)
  show ?thesis using 1 z d(3,4) f by (simp add: 2 3 purse_ok_def)
qed

section \<open>The world\<close>

text \<open>Every character is well formed.\<close>

definition player_ok :: "pc_env \<Rightarrow> map_session_data \<Rightarrow> bool" where
  "player_ok env sd \<longleftrightarrow> dealer env sd \<and> purse_ok sd"

definition players_ok :: "pc_env \<Rightarrow> world \<Rightarrow> bool" where
  "players_ok env w \<longleftrightarrow> w 0 = None \<and> (\<forall>a sd. w a = Some sd \<longrightarrow> player_ok env sd \<and> sd_account_id sd = a)"

text \<open>Partnership is mutual, and a trade under way is one on both sides.\<close>

definition partners :: "world \<Rightarrow> bool" where
  "partners w \<longleftrightarrow> (\<forall>a sd. w a = Some sd \<longrightarrow> (sd_trading sd \<longrightarrow> sd_trade_partner sd \<noteq> 0) \<and>
     (sd_trade_partner sd \<noteq> 0 \<longrightarrow> sd_trade_partner sd \<noteq> a \<and>
        (\<exists>tsd. w (sd_trade_partner sd) = Some tsd \<and> sd_trade_partner tsd = a \<and> sd_trading tsd = sd_trading sd)))"

text \<open>What a character can lose in a trade.\<close>

definition goods :: "world \<Rightarrow> int \<Rightarrow> (item list \<times> int) option" where
  "goods w a = map_option (\<lambda>sd. (sd_inventory sd, sd_zeny sd)) (w a)"

definition link :: "world \<Rightarrow> int \<Rightarrow> (int \<times> bool) option" where
  "link w a = map_option (\<lambda>sd. (sd_trade_partner sd, sd_trading sd)) (w a)"

lemma partnersD:
  assumes "partners w" "w a = Some sd"
  shows "sd_trading sd \<Longrightarrow> sd_trade_partner sd \<noteq> 0"
    and "sd_trade_partner sd \<noteq> 0 \<Longrightarrow> sd_trade_partner sd \<noteq> a \<and>
      (\<exists>tsd. w (sd_trade_partner sd) = Some tsd \<and> sd_trade_partner tsd = a \<and> sd_trading tsd = sd_trading sd)"
  using assms unfolding partners_def by blast+

lemma link_Some: "link w a = Some (p, t) \<longleftrightarrow> (\<exists>sd. w a = Some sd \<and> sd_trade_partner sd = p \<and> sd_trading sd = t)"
  by (auto simp: link_def)

lemma partners_link: "partners w \<longleftrightarrow> (\<forall>a p t. link w a = Some (p, t) \<longrightarrow> (t \<longrightarrow> p \<noteq> 0) \<and>
    (p \<noteq> 0 \<longrightarrow> p \<noteq> a \<and> link w p = Some (a, t)))"
  unfolding partners_def link_Some by blast

lemma partners_linkD:
  assumes "partners w" "link w a = Some (p, t)"
  shows "t \<Longrightarrow> p \<noteq> 0" "p \<noteq> 0 \<Longrightarrow> p \<noteq> a" "p \<noteq> 0 \<Longrightarrow> link w p = Some (a, t)"
  using assms unfolding partners_link by blast+

lemma partners_linkI:
  assumes "\<And>a p t. link w a = Some (p, t) \<Longrightarrow> t \<Longrightarrow> p \<noteq> 0"
    and "\<And>a p t. link w a = Some (p, t) \<Longrightarrow> p \<noteq> 0 \<Longrightarrow> p \<noteq> a \<and> link w p = Some (a, t)"
  shows "partners w"
  using assms unfolding partners_link by blast

lemma same_link: "link w' = link w \<Longrightarrow> partners w' = partners w"
  by (simp add: partners_link)

text \<open>Two partners part, or two characters come together, and the others are not concerned.\<close>

lemma partners_unlink:
  assumes ok: "partners w" and a: "link w a = Some (p, t)"
    and w': "link w' = (\<lambda>x. if x = a \<or> x = p \<and> link w p \<noteq> None then Some (0, False) else link w x)"
  shows "partners w'"
proof (rule partners_linkI)
  fix x q u
  assume x: "link w' x = Some (q, u)"
  show "q \<noteq> 0" if "u" using x that partners_linkD(1) [OF ok, of x q u] by (auto simp: w' split: if_splits)
  assume q: "q \<noteq> 0"
  then have xa: "x \<noteq> a" "\<not> (x = p \<and> link w p \<noteq> None)" "link w x = Some (q, u)"
    using x by (auto simp: w' split: if_splits)
  have 1: "q \<noteq> x" "link w q = Some (x, u)" using partners_linkD(2,3) [OF ok xa(3) q] by simp_all
  have "q \<noteq> a" using 1 a xa by auto
  moreover have "q \<noteq> p"
  proof
    assume "q = p"
    then have "link w p = Some (a, t)" using partners_linkD(3) [OF ok a] q by simp
    then show False using 1 \<open>q = p\<close> xa(1) by simp
  qed
  ultimately show "q \<noteq> x \<and> link w' q = Some (x, u)" using 1 by (simp add: w')
qed

lemma partners_join:
  assumes ok: "partners w" and l: "link w a = Some (p, t)" "link w b = Some (q, u)" and n: "a \<noteq> b" "a \<noteq> 0" "b \<noteq> 0"
    and zero: "link w 0 = None"
    and pq: "p = 0 \<and> q = 0 \<or> p = b \<and> q = a" and w': "link w' = (link w)(a \<mapsto> (b, v), b \<mapsto> (a, v))"
  shows "partners w'"
proof (rule partners_linkI)
  fix x r z
  assume x: "link w' x = Some (r, z)"
  show "r \<noteq> 0" if "z" using x that n partners_linkD(1) [OF ok, of x r z] by (auto simp: w' split: if_splits)
  assume r: "r \<noteq> 0"
  show "r \<noteq> x \<and> link w' r = Some (x, z)"
  proof (cases "x = a \<or> x = b")
    case True
    then show ?thesis using x n by (auto simp: w')
  next
    case False
    then have "link w x = Some (r, z)" using x by (simp add: w')
    then have 1: "r \<noteq> x" "link w r = Some (x, z)" using partners_linkD(2,3) [OF ok _ r] by simp_all
    moreover have "x \<noteq> 0" using x False zero by (auto simp: w' split: if_splits)
    ultimately have "r \<noteq> a \<and> r \<noteq> b" using l pq False n by auto
    then show ?thesis using 1 by (simp add: w')
  qed
qed

lemma link_upd [simp]: "link (upd a f w) = (link w)(a := map_option (\<lambda>sd. (sd_trade_partner (f sd), sd_trading (f sd))) (w a))"
  by (auto simp: link_def option.map_comp comp_def)

lemma goods_upd: "(\<And>sd. sd_inventory (f sd) = sd_inventory sd \<and> sd_zeny (f sd) = sd_zeny sd) \<Longrightarrow> goods (upd a f w) = goods w"
  by (auto simp: goods_def option.map_comp comp_def)

lemma players_upd:
  assumes "players_ok env w"
    and "\<And>sd. w a = Some sd \<Longrightarrow> player_ok env sd \<Longrightarrow> player_ok env (f sd) \<and> sd_account_id (f sd) = sd_account_id sd"
  shows "players_ok env (upd a f w)"
  using assms unfolding players_ok_def by auto

definition world_ok :: "pc_env \<Rightarrow> world \<Rightarrow> bool" where
  "world_ok env w \<longleftrightarrow> players_ok env w \<and> partners w"

text \<open>What a handler that moves nothing does to the world.\<close>

definition quiet :: "pc_env \<Rightarrow> world \<Rightarrow> world \<Rightarrow> bool" where
  "quiet env w w' \<longleftrightarrow> world_ok env w' \<and> goods w' = goods w"

definition harmless :: "pc_env \<Rightarrow> (map_session_data \<Rightarrow> map_session_data) \<Rightarrow> bool" where
  "harmless env f \<longleftrightarrow> (\<forall>s. sd_inventory (f s) = sd_inventory s \<and> sd_zeny (f s) = sd_zeny s \<and>
     sd_account_id (f s) = sd_account_id s \<and> (player_ok env s \<longrightarrow> player_ok env (f s)))"

lemma harmless_players: "players_ok env w \<Longrightarrow> harmless env f \<Longrightarrow> players_ok env (upd a f w)"
  by (rule players_upd) (auto simp: harmless_def)

lemma harmless_goods: "harmless env f \<Longrightarrow> goods (upd a f w) = goods w"
  by (rule goods_upd) (simp add: harmless_def)

lemma no_debt_clear: "no_debt ds \<Longrightarrow> no_debt (map (\<lambda>(i, x). if x \<noteq> 0 then (0, 0) else (i, x)) ds)"
  by (auto simp: no_debt_def MAX_AMOUNT_def)

lemma harmless_all:
  "harmless env (\<lambda>s. s\<lparr>sd_trade_partner := p\<rparr>)"
  "harmless env (\<lambda>s. s\<lparr>sd_deal_locked := l, sd_trade_partner := p\<rparr>)"
  "harmless env (\<lambda>s. s\<lparr>sd_deal_locked := l\<rparr>)"
  "0 \<le> z \<Longrightarrow> harmless env (\<lambda>s. s\<lparr>deal_zeny := z\<rparr>)"
  "harmless env no_deal" "harmless env clear_deal"
proof -
  show "harmless env (\<lambda>s. s\<lparr>sd_trade_partner := p\<rparr>)" "harmless env (\<lambda>s. s\<lparr>sd_deal_locked := l, sd_trade_partner := p\<rparr>)"
    "harmless env (\<lambda>s. s\<lparr>sd_deal_locked := l\<rparr>)" "0 \<le> z \<Longrightarrow> harmless env (\<lambda>s. s\<lparr>deal_zeny := z\<rparr>)"
    by (simp_all add: harmless_def player_ok_def dealer_def inv_ok_def purse_ok_def)
  show "harmless env no_deal"
    by (simp add: harmless_def player_ok_def dealer_def inv_ok_def purse_ok_def no_deal_def no_debt_def MAX_AMOUNT_def)
  show "harmless env clear_deal"
    by (simp add: harmless_def player_ok_def dealer_def inv_ok_def purse_ok_def clear_deal_def no_debt_clear)
qed

lemma quiet_refl: "world_ok env w \<Longrightarrow> quiet env w w"
  by (simp add: quiet_def)

lemma quiet_trans: "quiet env w w' \<Longrightarrow> quiet env w' w'' \<Longrightarrow> quiet env w w''"
  by (simp add: quiet_def)

lemma quiet_upd:
  assumes "world_ok env w" "harmless env f" "\<And>s. sd_trade_partner (f s) = sd_trade_partner s \<and> sd_trading (f s) = sd_trading s"
  shows "quiet env w (upd a f w)"
proof -
  have "link (upd a f w) = link w" using assms(3) by (auto simp: link_def)
  then have "partners (upd a f w) = partners w" by (rule same_link)
  then have "partners (upd a f w)" using assms(1) by (simp only: world_ok_def)
  moreover have "players_ok env (upd a f w)" using assms(1,2) harmless_players by (simp add: world_ok_def)
  ultimately show ?thesis using harmless_goods [OF assms(2), of w a] by (simp only: quiet_def world_ok_def)
qed

lemma world_ok_sel:
  assumes "world_ok env w" "w a = Some sd"
  shows "a \<noteq> 0" "w 0 = None" "player_ok env sd" "sd_account_id sd = a"
    "sd_trading sd \<Longrightarrow> sd_trade_partner sd \<noteq> 0"
    "sd_trade_partner sd \<noteq> 0 \<Longrightarrow> sd_trade_partner sd \<noteq> a"
    "sd_trade_partner sd \<noteq> 0 \<Longrightarrow>
      \<exists>tsd. w (sd_trade_partner sd) = Some tsd \<and> sd_trade_partner tsd = a \<and> sd_trading tsd = sd_trading sd"
  using assms partnersD [of w a sd] by (auto simp: world_ok_def players_ok_def)

lemma quiet_part:
  assumes ok: "world_ok env w" and a: "w a = Some sd" and p: "sd_trade_partner sd = p"
    and h: "harmless env f" "harmless env g" and z: "\<And>s. sd_trade_partner (f s) = 0 \<and> sd_trade_partner (g s) = 0"
    and t: "\<And>s. sd_trading s = sd_trading sd \<Longrightarrow> \<not> sd_trading (f s) \<and> \<not> sd_trading (g s)"
  shows "quiet env w (upd p g (upd a f w))" "quiet env w (upd a f (upd p g w))"
proof -
  note s = world_ok_sel [OF ok a]
  have l: "link (upd p g (upd a f w)) = (\<lambda>x. if x = a \<or> x = p \<and> link w p \<noteq> None then Some (0, False) else link w x)"
  proof (cases "p = 0")
    case True
    then have "w p = None" using s(2) by simp
    then show ?thesis using a z t by (auto simp: link_def)
  next
    case False
    then obtain tsd where "w p = Some tsd" "sd_trading tsd = sd_trading sd" "p \<noteq> a" using s(6,7) p by auto
    then show ?thesis using a z t by (auto simp: link_def)
  qed
  have "partners (upd p g (upd a f w))"
  proof (rule partners_unlink [OF _ _ l])
    show "partners w" using ok by (simp only: world_ok_def)
    show "link w a = Some (p, sd_trading sd)" using a p by (simp add: link_Some)
  qed
  moreover have "players_ok env (upd p g (upd a f w))"
    using harmless_players [OF harmless_players [OF _ h(1)] h(2)] ok by (simp only: world_ok_def)
  moreover have "goods (upd p g (upd a f w)) = goods w"
    by (rule trans [OF harmless_goods [OF h(2)] harmless_goods [OF h(1)]])
  ultimately show 1: "quiet env w (upd p g (upd a f w))" by (simp only: quiet_def world_ok_def)
  have "upd a f (upd p g w) = upd p g (upd a f w)"
  proof (cases "p = 0")
    case True
    then show ?thesis using s(1,2) by (auto simp: fun_eq_iff)
  next
    case False
    then show ?thesis using s(6) p by (auto simp: fun_eq_iff)
  qed
  from 1 [folded this] show "quiet env w (upd a f (upd p g w))" .
qed

lemma quiet_join:
  assumes ok: "world_ok env w" and a: "w a = Some sd" "w b = Some tsd" "a \<noteq> b"
    and pq: "sd_trade_partner sd = 0 \<and> sd_trade_partner tsd = 0 \<or> sd_trade_partner sd = b \<and> sd_trade_partner tsd = a"
    and h: "harmless env f" "harmless env g"
    and l: "sd_trade_partner (f sd) = b" "sd_trade_partner (g tsd) = a" "sd_trading (f sd) = v" "sd_trading (g tsd) = v"
  shows "quiet env w (upd a f (upd b g w))" "quiet env w (upd b g (upd a f w))"
proof -
  have e: "upd a f (upd b g w) = upd b g (upd a f w)" using a(3) by (auto simp: fun_eq_iff)
  have "link (upd a f (upd b g w)) = (link w)(a \<mapsto> (b, v), b \<mapsto> (a, v))"
    using a l by (auto simp: link_def)
  then have "partners (upd a f (upd b g w))"
  proof (rule partners_join [rotated -1])
    show "partners w" using ok by (simp only: world_ok_def)
    show "link w a = Some (sd_trade_partner sd, sd_trading sd)" "link w b = Some (sd_trade_partner tsd, sd_trading tsd)"
      using a by (simp_all add: link_Some)
    show "link w 0 = None" using world_ok_sel(2) [OF ok a(1)] by (simp add: link_def)
    show "a \<noteq> 0" "b \<noteq> 0" using world_ok_sel(1) [OF ok] a by blast+
  qed (use a pq in auto)
  moreover have "players_ok env (upd a f (upd b g w))"
    using harmless_players [OF harmless_players [OF _ h(2)] h(1)] ok by (simp only: world_ok_def)
  moreover have "goods (upd a f (upd b g w)) = goods w"
    by (rule trans [OF harmless_goods [OF h(1)] harmless_goods [OF h(2)]])
  ultimately show 1: "quiet env w (upd a f (upd b g w))" by (simp only: quiet_def world_ok_def)
  then show "quiet env w (upd b g (upd a f w))" unfolding e .
qed

section \<open>The handlers keep the world\<close>

lemma trade_tradecancel_quiet: "world_ok env w \<Longrightarrow> quiet env w (trade_tradecancel a w)"
proof (cases "w a")
  case (Some sd)
  assume ok: "world_ok env w"
  have "\<not> sd_trading (clear_deal s) \<and> sd_trade_partner (clear_deal s) = 0" for s by (simp add: clear_deal_def)
  then show ?thesis
    using Some quiet_part(1) [OF ok Some refl harmless_all(6,6)]
      quiet_part(2) [OF ok Some refl harmless_all(1,1), of 0 0]
    by (simp add: trade_tradecancel_def Let_def del: fun_upd_apply)
qed (simp add: trade_tradecancel_def quiet_refl)

lemma trade_traderequest_quiet:
  assumes ok: "world_ok env w" and nt: "\<And>sd. w a = Some sd \<Longrightarrow> \<not> sd_trading sd"
  shows "quiet env w (trade_traderequest conf a t w)"
proof -
  consider sd tsd where "w a = Some sd" "w t = Some tsd" "a \<noteq> t" | "trade_traderequest conf a t w = w"
    by (cases "w a"; cases "w t"; cases "a = t") (auto simp: trade_traderequest_def)
  then show ?thesis
  proof cases
    case 2
    then show ?thesis using quiet_refl [OF ok] by simp
  next
    case 1
    define w1 where "w1 = (if sd_trade_partner sd \<noteq> 0 then upd a (\<lambda>s. s\<lparr>sd_trade_partner := 0\<rparr>)
        (upd (sd_trade_partner sd) (\<lambda>s. s\<lparr>sd_trade_partner := 0\<rparr>) w) else w)"
    have q1: "quiet env w w1"
      using quiet_part(2) [OF ok 1(1) refl harmless_all(1,1), of 0 0] nt [OF 1(1)] quiet_refl [OF ok]
      by (simp add: w1_def del: fun_upd_apply)
    then have ok1: "world_ok env w1" by (simp add: quiet_def)
    have "\<exists>s1. w1 a = Some s1 \<and> sd_trade_partner s1 = 0 \<and> sd_trading s1 = sd_trading sd"
      using 1(1) world_ok_sel(6) [OF ok 1(1)] by (cases "sd_trade_partner sd = 0") (simp_all add: w1_def)
    then obtain s1 where s1: "w1 a = Some s1" "sd_trade_partner s1 = 0" "sd_trading s1 = sd_trading sd" by blast
    have "\<exists>t1. w1 t = Some t1" using 1(2,3) by (auto simp: w1_def)
    then obtain t1 where t1: "w1 t = Some t1" by blast
    have "quiet env w1 (upd a (\<lambda>s. s\<lparr>sd_trade_partner := sd_account_id t1\<rparr>)
        (upd t (\<lambda>s. s\<lparr>sd_trade_partner := sd_account_id s1\<rparr>) w1))" if "sd_trade_partner t1 = 0"
    proof (rule quiet_join(1) [OF ok1 s1(1) t1 1(3)])
      show "sd_trading (t1\<lparr>sd_trade_partner := sd_account_id s1\<rparr>) = sd_trading sd"
        using world_ok_sel(5) [OF ok1 t1] that nt [OF 1(1)] by auto
    qed (use that s1 world_ok_sel(4) [OF ok1] t1 harmless_all(1) in auto)
    then have "quiet env w1 (trade_traderequest conf a t w) \<or> trade_traderequest conf a t w = w"
      using 1 s1(1) t1 quiet_refl [OF ok1]
      by (simp add: trade_traderequest_def Let_def w1_def [symmetric] del: fun_upd_apply)
    then show ?thesis using q1 quiet_trans quiet_refl [OF ok] by metis
  qed
qed

lemma trade_tradeack_quiet:
  assumes ok: "world_ok env w"
  shows "quiet env w (trade_tradeack a type w)"
proof (cases "w a")
  case (Some sd)
  show ?thesis
  proof (cases "sd_trading sd \<or> sd_trade_partner sd = 0")
    case True
    then show ?thesis using Some quiet_refl [OF ok] by (simp add: trade_tradeack_def)
  next
    case False
    define p where "p = sd_trade_partner sd"
    obtain tsd where t: "w p = Some tsd" "sd_trade_partner tsd = a" "\<not> sd_trading tsd" "p \<noteq> a"
      using world_ok_sel(6,7) [OF ok Some] False by (auto simp: p_def)
    have 1: "quiet env w (upd p (\<lambda>s. s\<lparr>sd_deal_locked := 0, sd_trade_partner := 0\<rparr>)
        (upd a (\<lambda>s. s\<lparr>sd_deal_locked := 0, sd_trade_partner := 0\<rparr>) w))"
      using quiet_part(1) [OF ok Some p_def [symmetric] harmless_all(2,2), of 0 0 0 0] False by simp
    have 2: "quiet env w (upd p (\<lambda>s. s\<lparr>sd_trade_partner := 0\<rparr>) (upd a (\<lambda>s. s\<lparr>sd_trade_partner := 0\<rparr>) w))"
      using quiet_part(1) [OF ok Some p_def [symmetric] harmless_all(1,1), of 0 0] False by simp
    have 3: "quiet env w (upd p no_deal (upd a no_deal w))"
      using quiet_join(2) [OF ok Some t(1) t(4) [symmetric] _ harmless_all(5,5), of True] t False
      by (simp add: no_deal_def p_def)
    show ?thesis
      using 1 2 3 Some False t quiet_refl [OF ok]
      by (simp add: trade_tradeack_def Let_def p_def [symmetric] del: fun_upd_apply)
  qed
qed (use quiet_refl [OF ok] in \<open>simp add: trade_tradeack_def\<close>)

lemma trade_tradeok_quiet: "world_ok env w \<Longrightarrow> quiet env w (trade_tradeok a w)"
  using quiet_refl [of env w] trade_tradecancel_quiet [of env w a] quiet_upd [OF _ harmless_all(3), of env w 1 a]
  by (cases "w a") (simp_all add: trade_tradeok_def split: option.split)

lemma trade_tradeaddzeny_quiet: "world_ok env w \<Longrightarrow> quiet env w (trade_tradeaddzeny a z w)"
  using quiet_refl [of env w] trade_tradecancel_quiet [of env w a] quiet_upd [OF _ harmless_all(4), of env w z a]
  by (cases "w a") (simp_all add: trade_tradeaddzeny_def split: option.split)

text \<open>A window position filled by \<open>trade_tradeadditem\<close> never offers more than the slot held.\<close>

lemma player_ok_offer:
  assumes ok: "player_ok env sd" and x: "0 \<le> x" "x \<le> MAX_AMOUNT"
  shows "player_ok env (sd\<lparr>deal_item := (deal_item sd)[i := (n, x)], deal_weight := dw\<rparr>)"
proof -
  have sub: "set ((deal_item sd)[i := (n, x)]) \<subseteq> insert (n, x) (set (deal_item sd))" by (rule set_update_subset_insert)
  have "no_debt ((deal_item sd)[i := (n, x)])"
    using ok x sub by (fastforce simp: player_ok_def dealer_def no_debt_def)
  then show ?thesis using ok by (simp add: player_ok_def dealer_def inv_ok_def purse_ok_def)
qed

lemma quiet_one:
  assumes ok: "world_ok env w" and a: "w a = Some sd" and p: "player_ok env sd'"
    and same: "sd_inventory sd' = sd_inventory sd" "sd_zeny sd' = sd_zeny sd" "sd_account_id sd' = sd_account_id sd"
      "sd_trade_partner sd' = sd_trade_partner sd" "sd_trading sd' = sd_trading sd"
  shows "quiet env w (w(a \<mapsto> sd'))"
proof -
  have "link (w(a \<mapsto> sd')) = link w" using a same by (auto simp: link_def)
  then have "partners (w(a \<mapsto> sd')) = partners w" by (rule same_link)
  moreover have "goods (w(a \<mapsto> sd')) = goods w" using a same by (auto simp: goods_def)
  moreover have "players_ok env (w(a \<mapsto> sd'))"
    using ok a p same(3) by (auto simp: world_ok_def players_ok_def)
  ultimately show ?thesis using ok by (simp add: quiet_def world_ok_def)
qed

lemma if_quiet: "(c \<Longrightarrow> quiet env w x) \<Longrightarrow> (\<not> c \<Longrightarrow> quiet env w y) \<Longrightarrow> quiet env w (if c then x else y)"
  by simp

lemma trade_tradeadditem_quiet:
  assumes ok: "world_ok env w"
  shows "quiet env w (trade_tradeadditem env a index amount w)"
proof (cases "w a")
  case (Some sd)
  let ?n = "to_int16 (index - 2)"
  let ?it = "sd_inventory sd ! nat ?n"
  let ?i = "arr_find (\<lambda>(n, x). n = ?n \<or> x = 0) (deal_item sd)"
  note pl = world_ok_sel(3) [OF ok Some]
  have offer: "quiet env w (w(a := map_option
      (\<lambda>s. s\<lparr>deal_item := (deal_item s)[i := (m, y)], deal_weight := deal_weight s + dw\<rparr>) (Some sd)))"
    if "0 \<le> y" "y \<le> MAX_AMOUNT" for i m y dw
    using quiet_one [OF ok Some player_ok_offer [OF pl that]] Some by simp
  have len: "length (deal_item sd) = 10" "length (sd_inventory sd) = MAX_INVENTORY" "slots_ok (sd_inventory sd)"
    using pl by (simp_all add: player_ok_def dealer_def inv_ok_def)
  have deal: "0 \<le> snd (deal_item sd ! ?i) \<and> snd (deal_item sd ! ?i) \<le> MAX_AMOUNT" if "?i \<noteq> 10"
  proof -
    have "?i < length (deal_item sd)"
      using that arr_find_le [of "\<lambda>(n, x). n = ?n \<or> x = 0" "deal_item sd"] len by simp
    then have "deal_item sd ! ?i \<in> set (deal_item sd)" by (rule nth_mem)
    then show ?thesis using pl by (simp add: player_ok_def dealer_def no_debt_def)
  qed
  have am: "i_amount ?it \<le> MAX_AMOUNT" if "\<not> (?n < 0 \<or> ?n \<ge> int MAX_INVENTORY)"
  proof -
    have "nat ?n < length (sd_inventory sd)" using that len(2) by (simp add: nat_less_iff)
    from slots_ok_nth [OF len(3) this] show ?thesis by (auto simp: slot_ok_def MAX_AMOUNT_def)
  qed
  have same: "0 \<le> to_int16 (x + a') \<and> to_int16 (x + a') \<le> MAX_AMOUNT"
    if "0 \<le> x" "x \<le> MAX_AMOUNT" "0 \<le> am" "am \<le> v" "v \<le> MAX_AMOUNT" "a' = (if x + am > v then to_int16 (v - x) else am)"
    for x v am a' using that by (auto simp: MAX_AMOUNT_def)
  show ?thesis
  proof (cases "w (sd_trade_partner sd)")
    case None
    then show ?thesis
      using Some quiet_refl [OF ok] trade_tradecancel_quiet [OF ok, of a] by (simp add: trade_tradeadditem_def)
  next
    case t: (Some tsd)
    show ?thesis
      unfolding trade_tradeadditem_def Some t option.case Let_def
    proof (intro if_quiet quiet_refl [OF ok] offer, goal_cases)
      case 1
      then have h: "0 \<le> amount" "amount \<le> i_amount ?it" "\<not> (?n < 0 \<or> ?n \<ge> int MAX_INVENTORY)" "?i \<noteq> 10" by auto
      show ?case
        by (rule conjunct1 [OF same [OF conjunct1 [OF deal [OF h(4)]] conjunct2 [OF deal [OF h(4)]] h(1,2) am [OF h(3)] refl]])
    next
      case 2
      then have h: "0 \<le> amount" "amount \<le> i_amount ?it" "\<not> (?n < 0 \<or> ?n \<ge> int MAX_INVENTORY)" "?i \<noteq> 10" by auto
      show ?case
        by (rule conjunct2 [OF same [OF conjunct1 [OF deal [OF h(4)]] conjunct2 [OF deal [OF h(4)]] h(1,2) am [OF h(3)] refl]])
    next
      case 3
      then show ?case by simp
    next
      case 4
      then show ?case using am by simp
    qed
  qed
qed (use quiet_refl [OF ok] in \<open>simp add: trade_tradeadditem_def\<close>)

section \<open>Nothing is created or lost\<close>

definition world_items :: "int \<Rightarrow> world \<Rightarrow> int" where
  "world_items k w = (\<Sum>a \<in> dom w. total k (sd_inventory (the (w a))))"

definition world_zeny :: "world \<Rightarrow> int" where
  "world_zeny w = (\<Sum>a \<in> dom w. sd_zeny (the (w a)))"

definition same_wealth :: "world \<Rightarrow> world \<Rightarrow> bool" where
  "same_wealth w w' \<longleftrightarrow> dom w' = dom w \<and> (\<forall>k. world_items k w' = world_items k w) \<and> world_zeny w' = world_zeny w"

lemma goods_wealth:
  assumes "goods w' = goods w"
  shows "same_wealth w w'"
proof -
  have "(w' a = None) = (w a = None) \<and> (w a \<noteq> None \<longrightarrow> sd_inventory (the (w' a)) = sd_inventory (the (w a)) \<and>
      sd_zeny (the (w' a)) = sd_zeny (the (w a)))" for a
    using fun_cong [OF assms, of a] by (cases "w a"; cases "w' a") (simp_all add: goods_def)
  then have "dom w' = dom w" "\<And>a. a \<in> dom w \<Longrightarrow> sd_inventory (the (w' a)) = sd_inventory (the (w a))"
    "\<And>a. a \<in> dom w \<Longrightarrow> sd_zeny (the (w' a)) = sd_zeny (the (w a))"
    by (auto simp: dom_def)
  then show ?thesis by (simp add: same_wealth_def world_items_def world_zeny_def)
qed

lemma sum_two:
  fixes f g :: "int \<Rightarrow> int"
  assumes "finite D" "a \<in> D" "b \<in> D" "a \<noteq> b" "f a + f b = g a + g b" "\<And>x. x \<in> D \<Longrightarrow> x \<noteq> a \<Longrightarrow> x \<noteq> b \<Longrightarrow> f x = g x"
  shows "sum f D = sum g D"
proof -
  have "sum h D = h a + h b + sum h (D - {a} - {b})" for h :: "int \<Rightarrow> int"
    using sum.remove [of D a h] sum.remove [of "D - {a}" b h] assms(1-4) by simp
  moreover have "sum f (D - {a} - {b}) = sum g (D - {a} - {b})" using assms(6) by (intro sum.cong) auto
  ultimately show ?thesis using assms(5) by simp
qed

lemma trade_tradecommit_ok:
  assumes env: "env_ok env" and ok: "world_ok env w" and fin: "finite (dom w)"
  shows "world_ok env (trade_tradecommit env a w) \<and> same_wealth w (trade_tradecommit env a w)"
proof (cases "quiet env w (trade_tradecommit env a w)")
  case True
  then show ?thesis using goods_wealth by (simp add: quiet_def)
next
  case False
  note quiet = quiet_refl [OF ok] trade_tradecancel_quiet
  obtain sd where a: "w a = Some sd" "sd_trading sd"
    using False quiet(1) by (cases "w a") (auto simp: trade_tradecommit_def split: if_splits)
  note sa = world_ok_sel [OF ok a(1)]
  define p where "p = sd_trade_partner sd"
  obtain tsd where t: "w p = Some tsd" "sd_trade_partner tsd = a" "p \<noteq> a" "p \<noteq> 0"
    using sa(5-7) a(2) by (auto simp: p_def)
  define s0 where "s0 = sd\<lparr>sd_deal_locked := 2\<rparr>"
  define w1 where "w1 = w(a \<mapsto> s0)"
  have q1: "quiet env w w1" using quiet_upd [OF ok harmless_all(3), of 2 a] a(1) by (simp add: w1_def s0_def)
  then have ok1: "world_ok env w1" by (simp add: quiet_def)
  have w1: "w1 a = Some s0" "w1 p = Some tsd" using a t by (auto simp: w1_def s0_def)
  obtain s1 t1 s2 t2 t3 s3 where ex: "trade_swap env 10 s0 tsd = (s1, t1)" "trade_pay s1 t1 = (s2, t2)"
    "trade_pay t2 s2 = (t3, s3)" by (metis surj_pair)
  have c: "trade_tradecommit env a w =
      (if sd_deal_locked sd = 0 then w
       else if sd_deal_locked tsd < 2 then w1
       else if impossible_trade_check s0 then trade_tradecancel a w1
       else if impossible_trade_check tsd then trade_tradecancel p w1
       else if \<not> trade_check env s0 tsd then trade_tradecancel a w1
       else w1(a \<mapsto> trade_end s3, p \<mapsto> trade_end t3))"
    using a(2) t(1,3) ex [unfolded s0_def]
    by (simp add: trade_tradecommit_def a(1) Let_def w1_def s0_def p_def [symmetric])
  note q = quiet(1) q1 quiet_trans [OF q1 quiet(2) [OF ok1, of a]] quiet_trans [OF q1 quiet(2) [OF ok1, of p]]
  have r: "\<not> impossible_trade_check s0" "\<not> impossible_trade_check tsd" "trade_check env s0 tsd"
    "trade_tradecommit env a w = w1(a \<mapsto> trade_end s3, p \<mapsto> trade_end t3)"
    using False q unfolding c by presburger+
  have "player_ok env s0" "player_ok env tsd" using world_ok_sel(3) [OF ok1] w1 by blast+
  then have d: "dealer env s0" "dealer env tsd" "purse_ok s0" "purse_ok tsd"
    by (simp_all add: player_ok_def)
  have e: "dealer env s3" "dealer env t3" "purse_ok s3" "purse_ok t3" "sd_account_id s3 = sd_account_id s0"
    "sd_account_id t3 = sd_account_id tsd" "sd_zeny s3 + sd_zeny t3 = sd_zeny s0 + sd_zeny tsd"
    "total k (sd_inventory s3) + total k (sd_inventory t3) = total k (sd_inventory s0) + total k (sd_inventory tsd)" for k
    using exchange_ok [OF env d r(1-3) ex, of k] by simp_all
  have pl: "player_ok env (trade_end s3)" "player_ok env (trade_end t3)"
    using e(1-4) dealer_zeny_upd by (simp_all add: player_ok_def purse_ok_def) (simp_all add: trade_end_def)
  have "partners (w1(a \<mapsto> trade_end s3, p \<mapsto> trade_end t3))"
  proof (rule partners_unlink [of w a p "sd_trading sd"])
    show "partners w" using ok by (simp add: world_ok_def)
    show "link w a = Some (p, sd_trading sd)" using a(1) by (simp add: link_Some p_def)
    show "link (w1(a \<mapsto> trade_end s3, p \<mapsto> trade_end t3)) =
        (\<lambda>x. if x = a \<or> x = p \<and> link w p \<noteq> None then Some (0, False) else link w x)"
      using t(1) by (auto simp: link_def w1_def trade_end_def)
  qed
  moreover have "players_ok env (w1(a \<mapsto> trade_end s3, p \<mapsto> trade_end t3))"
    using ok pl e(5,6) world_ok_sel(4) [OF ok a(1)] world_ok_sel(4) [OF ok t(1)] t(4) sa(1)
    by (auto simp: world_ok_def players_ok_def w1_def s0_def trade_end_def)
  moreover have "same_wealth w (w1(a \<mapsto> trade_end s3, p \<mapsto> trade_end t3))"
  proof -
    let ?w = "w1(a \<mapsto> trade_end s3, p \<mapsto> trade_end t3)"
    have d: "dom ?w = dom w" "a \<in> dom w" "p \<in> dom w" using a(1) t(1) by (auto simp: w1_def)
    have o: "x \<noteq> a \<Longrightarrow> x \<noteq> p \<Longrightarrow> ?w x = w x" "?w a = Some (trade_end s3)" "?w p = Some (trade_end t3)" for x
      using t(3) by (simp_all add: w1_def)
    have "world_items k ?w = world_items k w" for k
      unfolding world_items_def d(1)
      by (rule sum_two [OF fin d(2,3) t(3) [symmetric]]) (use o e(8) a(1) t(1) in \<open>simp_all add: trade_end_def s0_def\<close>)
    moreover have "world_zeny ?w = world_zeny w"
      unfolding world_zeny_def d(1)
      by (rule sum_two [OF fin d(2,3) t(3) [symmetric]]) (use o e(7) a(1) t(1) in \<open>simp_all add: trade_end_def s0_def\<close>)
    ultimately show ?thesis using d(1) by (simp add: same_wealth_def)
  qed
  ultimately show ?thesis by (simp add: r(4) world_ok_def)
qed

section \<open>Runs\<close>

text \<open>What clients may send, in any order.\<close>

datatype trade_action =
    Request int int | Answer int int | Add_item int int int | Add_zeny int int | Press_ok int | Cancel int | Commit int

fun act :: "pc_env \<Rightarrow> trade_conf \<Rightarrow> trade_action \<Rightarrow> world \<Rightarrow> world" where
  "act env conf (Request a t) w = trade_traderequest conf a t w"
| "act env conf (Answer a type) w = trade_tradeack a type w"
| "act env conf (Add_item a index amount) w = trade_tradeadditem env a index amount w"
| "act env conf (Add_zeny a amount) w = trade_tradeaddzeny a amount w"
| "act env conf (Press_ok a) w = trade_tradeok a w"
| "act env conf (Cancel a) w = trade_tradecancel a w"
| "act env conf (Commit a) w = trade_tradecommit env a w"

text \<open>The guard a request needs: nobody asks for a second trade during a first one.\<close>

fun proper :: "world \<Rightarrow> trade_action \<Rightarrow> bool" where
  "proper w (Request a t) = (case w a of None \<Rightarrow> True | Some sd \<Rightarrow> \<not> sd_trading sd)"
| "proper w _ = True"

inductive trades :: "pc_env \<Rightarrow> trade_conf \<Rightarrow> world \<Rightarrow> world \<Rightarrow> bool" for env conf w0 where
  start: "trades env conf w0 w0"
| step: "trades env conf w0 w \<Longrightarrow> proper w x \<Longrightarrow> trades env conf w0 (act env conf x w)"

lemma act_ok:
  assumes env: "env_ok env" and ok: "world_ok env w" and fin: "finite (dom w)" and p: "proper w x"
  shows "world_ok env (act env conf x w) \<and> same_wealth w (act env conf x w)"
proof -
  have q: "world_ok env w' \<and> same_wealth w w'" if "quiet env w w'" for w'
    using that goods_wealth by (simp add: quiet_def)
  show ?thesis
  proof (cases x)
    case (Request a t)
    have "\<not> sd_trading sd" if "w a = Some sd" for sd using p that by (simp add: Request)
    then show ?thesis using trade_traderequest_quiet [OF ok] q by (simp add: Request)
  next
    case (Commit a)
    then show ?thesis using trade_tradecommit_ok [OF env ok fin] by simp
  qed (use ok q trade_tradeack_quiet trade_tradeadditem_quiet trade_tradeaddzeny_quiet trade_tradeok_quiet
      trade_tradecancel_quiet in simp_all)
qed

text \<open>
  C2. Trading neither creates nor loses anything: through any run of requests, answers, offers, locks, cancels
  and commits, in which no trading character sends a request, the pieces of every item and the
  zeny of all characters together stay the same, every inventory stays well formed, and a trade
  is always one between the same two characters on both sides.
\<close>

theorem trades_conserve:
  assumes "trades env conf w0 w" "env_ok env" "world_ok env w0" "finite (dom w0)"
  shows "world_ok env w \<and> dom w = dom w0 \<and> world_items k w = world_items k w0 \<and> world_zeny w = world_zeny w0"
  using assms(1)
proof induction
  case start
  then show ?case using assms(3) by simp
next
  case (step w x)
  then have "finite (dom w)" using assms(4) by simp
  from act_ok [OF assms(2) _ this step(2), of conf] step(3) show ?case by (simp add: same_wealth_def)
qed

text \<open>Three characters who can trade, for the witnesses; the third has ten apples.\<close>

definition trader :: "int \<Rightarrow> map_session_data" where
  "trader aid = \<lparr>sd_account_id = aid, sd_char_id = aid, sd_partner_id = 0, sd_party_id = 0, sd_guild_id = 0,
     sd_zeny = 1000, sd_inventory = replicate 100 zero_item, sd_inventory_data = replicate 100 None,
     sd_uniqueitem_counter = 0, sd_weight = 0, sd_max_weight = 20000, sd_cart = [], sd_cart_num = 0,
     sd_cart_weight = 0, sd_cart_weight_max = 80000, sd_storage = [], sd_storage_amount = 0,
     sd_storage_flag = STORAGE_FLAG_CLOSED, sd_group_level = 0, perm_trade = True,
     perm_trade_bound = False, perm_at_trade = False, sd_npc_id = 0, sd_vending = False, sd_buyingstore = False,
     sd_trading = False, sd_deal_locked = 0, sd_trade_partner = 0, deal_item = replicate 10 (0, 0), deal_zeny = 0,
     deal_weight = 0, sd_guild_invite = 0, sd_party_invite = 0, sd_adopt_invite = 0, bl_m = 0, bl_x = 50, bl_y = 50\<rparr>"

definition town :: world where
  "town = [1 \<mapsto> trader 1, 2 \<mapsto> trader 2, 3 \<mapsto> (trader 3)\<lparr>sd_inventory := (replicate 100 zero_item)[0 := apple],
     sd_inventory_data := (replicate 100 None)[0 := Some apple_data], sd_weight := 200\<rparr>]"

definition open_conf :: trade_conf where
  "open_conf = \<lparr>notrade = \<lambda>_. False, invite_request_check = False\<rparr>"

lemma town_ok: "world_ok apple_env town" "finite (dom town)"
proof -
  have "slots_ok ((replicate 100 zero_item)[0 := apple])"
    by (intro slots_ok_update) (simp_all add: slot_ok_def apple_def MAX_AMOUNT_def)
  moreover have "((replicate 100 None)[0 := Some apple_data] ! n = None) = (i_nameid ((replicate 100 zero_item)[0 := apple] ! n) = 0)"
    if "n < 100" for n using that by (cases "n = 0") (simp_all add: apple_def)
  moreover have "fresh apple_env (replicate 100 zero_item)" by (simp add: fresh_def)
  moreover from this have "fresh apple_env ((replicate 100 zero_item)[0 := apple])"
    by (rule fresh_update) (simp add: not_expired_def apple_def zero_item_def)
  ultimately have p: "player_ok apple_env (the (town a))" if "a \<in> {1, 2, 3}" for a
    using that by (auto simp: town_def trader_def player_ok_def dealer_def inv_ok_def purse_ok_def no_debt_def
      pc_limits)
  have t: "a \<in> {1, 2, 3} \<and> sd = the (town a)" if "town a = Some sd" for a sd
    using that by (auto simp: town_def split: if_splits)
  have n: "sd_account_id (the (town a)) = a \<and> sd_trade_partner (the (town a)) = 0 \<and> \<not> sd_trading (the (town a))"
    if "a \<in> {1, 2, 3}" for a using that by (auto simp: town_def trader_def)
  have "town 0 = None" by (simp add: town_def)
  then show "world_ok apple_env town"
    unfolding world_ok_def players_ok_def partners_def using t p n by metis
  show "finite (dom town)" by (simp add: town_def)
qed

definition sale :: world where
  "sale = fold (act apple_env open_conf)
     [Request 3 1, Answer 1 3, Add_item 3 2 4, Add_zeny 1 500, Press_ok 1, Press_ok 3, Commit 1, Commit 3] town"

lemma trades_fold:
  "trades env conf w0 w \<Longrightarrow> list_all (\<lambda>x. \<forall>a t. x \<noteq> Request a t) xs \<Longrightarrow> trades env conf w0 (fold (act env conf) xs w)"
proof (induction xs arbitrary: w)
  case (Cons x xs)
  then have "proper w x" by (cases x) auto
  then show ?case using Cons trades.step [of env conf w0 w x] by simp
qed simp

theorem trades_conserve_witness:
  "world_items 512 sale = world_items 512 town \<and> world_zeny sale = world_zeny town \<and>
   total 512 (sd_inventory (the (sale 1))) = 4 \<and> sd_zeny (the (sale 1)) = 500"
proof -
  have "proper town (Request 3 1)" by (simp add: town_def trader_def)
  then have "trades apple_env open_conf town (act apple_env open_conf (Request 3 1) town)"
    by (rule trades.step [OF trades.start])
  from trades_fold [OF this, of "[Answer 1 3, Add_item 3 2 4, Add_zeny 1 500, Press_ok 1, Press_ok 3, Commit 1, Commit 3]"]
  have "trades apple_env open_conf town sale" by (simp add: sale_def)
  from trades_conserve [OF this apple_env_ok town_ok, of 512]
  have "world_items 512 sale = world_items 512 town \<and> world_zeny sale = world_zeny town" by simp
  moreover have "total 512 (sd_inventory (the (sale 1))) = 4 \<and> sd_zeny (the (sale 1)) = 500" by code_simp
  ultimately show ?thesis by simp
qed

text \<open>
  Without that guard a trade can be hijacked. Character 1 opens a trade with an accomplice
  and locks it, then, still trading, asks character 3, who declines but stays the partner of
  character 1. When character 3 later accepts a trade with the accomplice, offers ten apples for
  1000 zeny and commits, it is character 1 who commits against the locked window of character 3
  and gets the apples; the accomplice keeps the zeny.
\<close>

theorem trade_hijacked:
  "let w = fold (act apple_env open_conf)
        [Request 1 2, Answer 2 3, Press_ok 1, Request 1 3, Answer 3 4, Cancel 2,
         Request 2 3, Answer 3 3, Add_zeny 2 1000, Add_item 3 2 10, Press_ok 2, Press_ok 3, Commit 3, Commit 1] town
   in total 512 (sd_inventory (the (w 1))) = 10 \<and> total 512 (sd_inventory (the (w 3))) = 0 \<and>
      sd_zeny (the (w 2)) = 1000 \<and> sd_zeny (the (w 3)) = 1000"
  by code_simp

end
