(* ===== verification/Strlib.thy ===== *)
theory Strlib
  imports Prelude
begin

text \<open>
  The string library, \<open>src/common/strlib.c\<close>. A character is an \<open>8 word\<close>; a C string is
  the list of the bytes before its terminator; a function that fills a buffer or works in place
  returns what it leaves there. The macros of \<open>ctype.h\<close> are those of the C locale the server
  runs in.
\<close>

unbundle bit_operations_syntax

type_synonym byte = "8 word"
type_synonym bytes = "8 word list"

definition lit :: "string \<Rightarrow> bytes" where
  "lit s = map of_char s"

definition isspace :: "byte \<Rightarrow> bool" where
  "isspace c = (c = 32 \<or> 9 \<le> c \<and> c \<le> 13)"

definition iscntrl :: "byte \<Rightarrow> bool" where
  "iscntrl c = (c < 32 \<or> c = 127)"

definition isdigit :: "byte \<Rightarrow> bool" where
  "isdigit c = (48 \<le> c \<and> c \<le> 57)"

definition isxdigit :: "byte \<Rightarrow> bool" where
  "isxdigit c = (48 \<le> c \<and> c \<le> 57 \<or> 65 \<le> c \<and> c \<le> 70 \<or> 97 \<le> c \<and> c \<le> 102)"

definition to_lower :: "byte \<Rightarrow> byte" where
  "to_lower c = (if 65 \<le> c \<and> c \<le> 90 then c + 32 else c)"

definition to_upper :: "byte \<Rightarrow> byte" where
  "to_upper c = (if 97 \<le> c \<and> c \<le> 122 then c - 32 else c)"

text \<open>A statement about every byte, checked byte by byte.\<close>

lemma byte_cases: "\<forall>n \<in> set [0..<256]. P (of_nat n :: byte) \<Longrightarrow> P c"
proof -
  assume *: "\<forall>n \<in> set [0..<256]. P (of_nat n :: byte)"
  have "unat c < 256" using unsigned_less [of c] by simp
  with * have "P (of_nat (unat c))" by (metis atLeast0LessThan lessThan_iff set_upt)
  then show "P c" by simp
qed

text \<open>The equality \<open>strcmpi\<close> tests; the search functions of \<open>string.h\<close> as positions.\<close>

definition same_nocase :: "bytes \<Rightarrow> bytes \<Rightarrow> bool" where
  "same_nocase a b = (map to_lower a = map to_lower b)"

fun strstr :: "bytes \<Rightarrow> bytes \<Rightarrow> nat option" where
  "strstr [] n = (if n = [] then Some 0 else None)"
| "strstr (c # h) n = (if take (length n) (c # h) = n then Some 0 else map_option Suc (strstr h n))"

fun strrchr :: "bytes \<Rightarrow> byte \<Rightarrow> bytes option" where
  "strrchr [] c = None"
| "strrchr (d # s) c = (case strrchr s c of Some r \<Rightarrow> Some r | None \<Rightarrow> if d = c then Some (d # s) else None)"

text \<open>\<open>fgets\<close> into a buffer with room for \<open>n\<close> bytes and the terminator.\<close>

fun fgets :: "nat \<Rightarrow> bytes \<Rightarrow> bytes \<times> bytes" where
  "fgets 0 s = ([], s)"
| "fgets (Suc n) [] = ([], [])"
| "fgets (Suc n) (c # s) = (if c = 10 then ([c], s) else let (l, r) = fgets n s in (c # l, r))"

lemma fgets_length: "0 < n \<Longrightarrow> s \<noteq> [] \<Longrightarrow> length (snd (fgets n s)) < length s"
proof -
  have "length (snd (fgets n s)) \<le> length s" for n s
    by (induction n s rule: fgets.induct) (auto split: prod.splits)
  then show "0 < n \<Longrightarrow> s \<noteq> [] \<Longrightarrow> ?thesis"
    by (cases n; cases s) (auto split: prod.splits simp: less_Suc_eq_le dest: arg_cong [of _ _ snd], metis snd_conv)
qed

section \<open>Quoting for SQL\<close>

text \<open>The loop of \<open>jmemescapecpy\<close> over the \<open>size\<close> bytes it is given.\<close>

fun jmemescapecpy :: "bytes \<Rightarrow> bytes" where
  "jmemescapecpy [] = []"
| "jmemescapecpy (c # s) =
     (if c = 39 then [92, c] else if c = 92 then [92, c] else if c = 37 then [95] else [c]) @ jmemescapecpy s"

definition jstrescapecpy :: "bytes option \<Rightarrow> bytes" where
  "jstrescapecpy spt = (case spt of None \<Rightarrow> [] | Some s \<Rightarrow> jmemescapecpy s)"

definition J_MAX_MALLOC_SIZE :: nat where
  "J_MAX_MALLOC_SIZE = 65535"

text \<open>\<open>jstrescape\<close> copies its argument to a buffer of that size first.\<close>

definition jstrescape :: "bytes \<Rightarrow> bytes option" where
  "jstrescape pt = (if length pt < J_MAX_MALLOC_SIZE then Some (jmemescapecpy pt) else None)"

section \<open>In-place clean-up\<close>

fun strlib_remove_control_chars :: "bytes \<Rightarrow> bytes \<times> bool" where
  "strlib_remove_control_chars [] = ([], False)"
| "strlib_remove_control_chars (c # s) =
     (let (r, change) = strlib_remove_control_chars s
      in if iscntrl c then (95 # r, True) else (c # r, change))"

definition strlib_trim :: "bytes \<Rightarrow> bytes" where
  "strlib_trim s =
     (let from = length (takeWhile isspace s);
          upto = length s - length (takeWhile isspace (rev (drop from s)))
      in if from = upto then [] else take (upto - from) (drop from s))"

text \<open>The loop of \<open>normalize_name\<close>: \<open>sp\<close> is \<open>put_space\<close>.\<close>

function normalize_loop :: "bytes \<Rightarrow> bool \<Rightarrow> bytes \<Rightarrow> bytes" where
  "normalize_loop delims sp s =
     (if s = [] then []
      else (if sp then [32] else []) @ takeWhile (\<lambda>c. c \<notin> set delims) s
        @ normalize_loop delims True (dropWhile (\<lambda>c. c \<in> set delims) (dropWhile (\<lambda>c. c \<notin> set delims) s)))"
  by auto
termination
proof (relation "measure (\<lambda>(delims, sp, s). length s)", goal_cases)
  case (2 delims sp s)
  then show ?case
    by (cases s) (auto simp: le_imp_less_Suc length_dropWhile_le order_trans [OF length_dropWhile_le length_dropWhile_le])
qed simp

declare normalize_loop.simps [simp del]

definition strlib_normalize_name :: "bytes \<Rightarrow> bytes \<Rightarrow> bytes" where
  "strlib_normalize_name s delims = normalize_loop delims False (dropWhile (\<lambda>c. c \<in> set delims) s)"

fun match_nocase :: "bytes \<Rightarrow> bytes \<Rightarrow> bool" where
  "match_nocase h [] = True"
| "match_nocase [] (n # ns) = False"
| "match_nocase (h # hs) (n # ns) = (if to_upper h \<noteq> to_upper n then False else match_nocase hs ns)"

fun strlib_stristr :: "bytes \<Rightarrow> bytes \<Rightarrow> nat option" where
  "strlib_stristr [] needle = (if needle = [] then Some 0 else None)"
| "strlib_stristr (c # hay) needle =
     (if needle = [] then Some 0
      else if to_upper c = to_upper (hd needle) \<and> match_nocase (c # hay) needle then Some 0
      else map_option Suc (strlib_stristr hay needle))"

section \<open>Checks and conversions\<close>

definition strlib_e_mail_check :: "bytes \<Rightarrow> bool" where
  "strlib_e_mail_check email =
     (if length email < 3 \<or> length email > 39 then False
      else case strrchr email 64 of None \<Rightarrow> False
      | Some last_arobas \<Rightarrow>
        if last email = 64 then False
        else if last email = 46 then False
        else if strstr last_arobas [64, 46] \<noteq> None \<or> strstr last_arobas [46, 46] \<noteq> None then False
        else if \<exists>c \<in> set last_arobas. 1 \<le> c \<and> c < 32 then False
        else if 32 \<in> set last_arobas \<or> 59 \<in> set last_arobas then False
        else True)"

text \<open>\<open>strncpy\<close> that terminates: the \<open>n\<close> bytes left in \<open>dst\<close>, given those it held.\<close>

fun safe_copy :: "nat \<Rightarrow> bytes \<Rightarrow> bytes" where
  "safe_copy 0 s = []"
| "safe_copy (Suc n) [] = 0 # replicate n 0"
| "safe_copy (Suc n) (c # s) = c # safe_copy n s"

definition strlib_safestrncpy :: "bytes \<Rightarrow> nat \<Rightarrow> bytes" where
  "strlib_safestrncpy src n = (if n > 0 then safe_copy (n - 1) src @ [0] else [])"

definition strlib_safestrnlen :: "bytes option \<Rightarrow> nat \<Rightarrow> nat" where
  "strlib_safestrnlen s maxlen = (case s of None \<Rightarrow> 0 | Some s \<Rightarrow> min (length s) maxlen)"

text \<open>The loop of \<open>strline\<close>: \<open>p\<close> is where \<open>str\<close> has moved to.\<close>

function line_loop :: "bytes \<Rightarrow> nat \<Rightarrow> nat \<Rightarrow> int \<Rightarrow> int" where
  "line_loop s pos p line =
     (let q = p + length (takeWhile (\<lambda>c. c \<noteq> 10) (drop p s))
      in if q \<ge> length s \<or> pos \<le> q then line else line_loop s pos (q + 1) (line + 1))"
  by auto
termination by (relation "measure (\<lambda>(s, pos, p, line). length s - p)") auto

declare line_loop.simps [simp del]

definition strlib_strline :: "bytes option \<Rightarrow> nat \<Rightarrow> int" where
  "strlib_strline s pos = (case s of None \<Rightarrow> 1 | Some s \<Rightarrow> if pos = 0 then 1 else line_loop s pos 0 1)"

definition to_hex :: "bytes" where
  "to_hex = lit ''0123456789abcdef''"

fun strlib_bin2hex :: "bytes \<Rightarrow> bytes" where
  "strlib_bin2hex [] = []"
| "strlib_bin2hex (b # s) =
     to_hex ! unat (drop_bit 4 (b AND 0xF0)) # to_hex ! unat (drop_bit 0 (b AND 0x0F)) # strlib_bin2hex s"

end
