(* ===== verification/Shop.thy ===== *)
theory Shop
  imports Trade Strlib
begin

text \<open>
  What the three kinds of player shop share: a character with the fields of its shops and of the
  shop search (\<open>map_session_data\<close> of \<open>src/map/pc.h\<close>, \<open>s_vending\<close>, \<open>s_buyingstore\<close>,
  \<open>s_search_store_info\<close>), the world of characters by account, and the parts of
  \<open>src/map/searchstore.c\<close> the shops call.
\<close>

definition MAX_VENDING :: nat where "MAX_VENDING = 12"
definition MESSAGE_SIZE :: nat where "MESSAGE_SIZE = 80"
definition MAX_BUYINGSTORE_SLOTS :: nat where "MAX_BUYINGSTORE_SLOTS = 5"
definition BUYINGSTORE_MAX_PRICE :: int where "BUYINGSTORE_MAX_PRICE = 99990000"
definition BUYINGSTORE_MAX_AMOUNT :: int where "BUYINGSTORE_MAX_AMOUNT = 9999"

record s_vending =
  vd_index :: int
  vd_amount :: int
  vd_value :: int

record s_buyingstore_item =
  bs_price :: int
  bs_amount :: int
  bs_nameid :: int

record s_search_store_info_item =
  ssi_store_id :: int
  ssi_account_id :: int
  ssi_store_name :: bytes
  ssi_nameid :: int
  ssi_amount :: int
  ssi_price :: int
  ssi_card :: "int list"
  ssi_refine :: int

datatype searchtype = SEARCHTYPE_VENDING | SEARCHTYPE_BUYING_STORE

datatype effecttype = EFFECTTYPE_NORMAL | EFFECTTYPE_CASH

text \<open>
  A character. \<open>pc\<close> holds the fields of \<open>Inventory\<close>; \<open>sd_vend_list\<close> and \<open>sd_bs_items\<close> are
  the arrays of the shops, \<open>ss_items\<close> the search results found so far (its length is
  \<open>count\<close>).
\<close>

record shopper =
  pc :: map_session_data
  sd_dead :: bool
  sd_muted :: bool
  sd_vending_skill :: int
  sd_carton :: bool
  sd_prevend :: bool
  sd_workinprogress :: bool
  sd_autotrade :: int
  sd_message :: bytes
  sd_vend_list :: "s_vending list"
  sd_vend_num :: nat
  sd_vender_id :: int
  sd_vended_id :: int
  sd_buyer_id :: int
  sd_bs_items :: "s_buyingstore_item list"
  sd_bs_zenylimit :: int
  sd_bs_slots :: nat
  ss_open :: bool
  ss_uses :: int
  ss_effect :: effecttype
  ss_type :: searchtype
  ss_nextquerytime :: int
  ss_items :: "s_search_store_info_item list"
  ss_pages :: int
  ss_remote_id :: int

record shop_conf =
  area_size :: int
  vending_over_max :: bool
  vending_tax :: int
  vending_max_value :: int
  feature_buying_store :: bool
  feature_search_stores :: bool
  searchstore_querydelay :: int
  searchstore_maxresults :: nat
  novending :: "int \<Rightarrow> int \<Rightarrow> int \<Rightarrow> bool"
  buyable :: "int \<Rightarrow> bool"
  db_order :: "int list \<Rightarrow> int list"

text \<open>
  What \<open>@autotrade\<close> keeps of a vendor's shop while the character is loaded again: the items on
  sale, the shop list and the number of items.
\<close>

record autotrade_vending =
  at_list :: "item list"
  at_vending :: "s_vending list"
  at_vend_num :: nat

text \<open>
  The world: the characters by account id, the table of vending characters
  (\<open>vending->db\<close>, by account here), the next shop numbers, and the shops kept for
  \<open>@autotrade\<close> (\<open>pc->at_db\<close>; \<open>pc->bs_at_db\<close> with items, slots and limit).
  \<open>db_order\<close> of the configuration is the order in which a table is visited. \<open>gone\<close> keeps the
  characters that left, as they were saved.
\<close>

record market =
  who :: "int \<Rightarrow> shopper option"
  vending_db :: "int list"
  vending_next_id :: int
  buyingstore_nextid :: int
  at_db :: "int \<Rightarrow> autotrade_vending option"
  bs_at_db :: "int \<Rightarrow> (s_buyingstore_item list \<times> nat \<times> int) option"
  gone :: "int \<Rightarrow> shopper option"

abbreviation on_pc :: "(map_session_data \<Rightarrow> map_session_data) \<Rightarrow> shopper \<Rightarrow> shopper" where
  "on_pc f s \<equiv> s\<lparr>pc := f (pc s)\<rparr>"

text \<open>The entries of the shop list in use.\<close>

definition shelf :: "shopper \<Rightarrow> s_vending list" where
  "shelf s = take (sd_vend_num s) (sd_vend_list s)"

lemma map_update_same: "f x = f (xs ! j) \<Longrightarrow> map f (xs[j := x]) = map f xs"
  by (cases "j < length xs") (auto simp: map_update list_update_beyond list_update_same_conv)

definition set_who :: "int \<Rightarrow> shopper \<Rightarrow> market \<Rightarrow> market" where
  "set_who a s m = m\<lparr>who := (who m)(a \<mapsto> s)\<rparr>"

definition pc_istrading :: "shopper \<Rightarrow> bool" where
  "pc_istrading s \<longleftrightarrow> sd_npc_id (pc s) \<noteq> 0 \<or> sd_vending (pc s) \<or> sd_buyingstore (pc s) \<or> sd_trading (pc s)"

text \<open>\<open>map->quit\<close> saves a character and takes it out of the world.\<close>

definition quit :: "int \<Rightarrow> market \<Rightarrow> market" where
  "quit a m = m\<lparr>who := (who m)(a := None), vending_db := removeAll a (vending_db m), gone := (gone m)(a := who m a)\<rparr>"

text \<open>A character as it is or, if it has left, as it was saved.\<close>

definition last_seen :: "market \<Rightarrow> int \<Rightarrow> shopper option" where
  "last_seen m a = (case who m a of Some s \<Rightarrow> Some s | None \<Rightarrow> gone m a)"

section \<open>The search store, as the shops see it\<close>

definition searchstore_queryremote :: "int \<Rightarrow> shopper \<Rightarrow> bool" where
  "searchstore_queryremote account_id s \<longleftrightarrow> ss_open s \<and> ss_items s \<noteq> [] \<and> ss_remote_id s = account_id"

definition searchstore_clearremote :: "shopper \<Rightarrow> shopper" where
  "searchstore_clearremote s = s\<lparr>ss_remote_id := 0\<rparr>"

definition searchstore_result :: "shop_conf \<Rightarrow> s_search_store_info_item \<Rightarrow> shopper \<Rightarrow> bool \<times> shopper" where
  "searchstore_result conf it s =
     (if length (ss_items s) \<ge> searchstore_maxresults conf then (False, s)
      else (True, s\<lparr>ss_items := ss_items s @ [it]\<rparr>))"

text \<open>What a search asks for.\<close>

record s_search_store_search =
  sr_itemlist :: "int list"
  sr_cardlist :: "int list"
  sr_min_price :: int
  sr_max_price :: int

text \<open>Too far to deal with: on another map or out of sight, and not opened remotely.\<close>

definition shop_too_far :: "shop_conf \<Rightarrow> int \<Rightarrow> shopper \<Rightarrow> shopper \<Rightarrow> bool" where
  "shop_too_far conf aid s v \<longleftrightarrow> \<not> searchstore_queryremote aid s \<and>
     (bl_m (pc s) \<noteq> bl_m (pc v) \<or> \<not> check_distance_bl (bl_pos (pc s)) (bl_pos (pc v)) (area_size conf))"

end
