(* ===== verification/Vending.thy ===== *)
theory Vending
  imports Shop
begin

text \<open>
  The shops of vendors, \<open>src/map/vending.c\<close>: opening, closing, listing, buying and searching.
  The items on sale stay in the vendor's cart; the shop is a list of cart positions with amounts
  and prices. Messages to clients and saving are left out.
\<close>

definition vending_closevending :: "int \<Rightarrow> market \<Rightarrow> market" where
  "vending_closevending a m =
     (case who m a of None \<Rightarrow> m
      | Some s \<Rightarrow>
        if sd_vending (pc s)
        then set_who a (on_pc (\<lambda>p. p\<lparr>sd_vending := False\<rparr>) s) (m\<lparr>vending_db := removeAll a (vending_db m)\<rparr>)
        else m)"

definition vending_vendinglistreq :: "int \<Rightarrow> int \<Rightarrow> market \<Rightarrow> market" where
  "vending_vendinglistreq a i m =
     (case (who m a, who m i) of
        (Some s, Some v) \<Rightarrow>
          if \<not> sd_vending (pc v) then m
          else if \<not> perm_trade (pc s) \<or> \<not> perm_trade (pc v) then m
          else set_who a (s\<lparr>sd_vended_id := sd_vender_id v\<rparr>) m
      | _ \<Rightarrow> m)"

section \<open>Buying\<close>

text \<open>
  The checks of \<open>vending_purchasereq\<close>, one pair (amount, cart position plus 2) of the packet
  after the other. \<open>vend\<close> is the copy of the shop list the amounts are taken from, \<open>z\<close> and
  \<open>w\<close> add up the price and the weight, \<open>nw\<close> counts new slots. The result is the position of
  each pair in the shop list, with the price.
\<close>

fun purchase_check ::
  "shop_conf \<Rightarrow> pc_env \<Rightarrow> shopper \<Rightarrow> shopper \<Rightarrow> nat \<Rightarrow> s_vending list \<Rightarrow> int \<Rightarrow> int \<Rightarrow> nat \<Rightarrow> (int \<times> int) list
   \<Rightarrow> (nat list \<times> int) option" where
  "purchase_check conf env s v blank vend z w nw [] = Some ([], z)"
| "purchase_check conf env s v blank vend z w nw ((a, b) # r) =
     (let amount = to_int16 a; idx = to_int16 (to_int16 b - 2)
      in if amount \<le> 0 then None
         else if idx < 0 \<or> idx \<ge> int MAX_CART then None
         else
           let j = arr_find (\<lambda>e. vd_index e = idx) (take (sd_vend_num v) (sd_vend_list v))
           in if j = sd_vend_num v then None
              else
                let it = sd_cart (pc v) ! nat idx;
                    z = z + vd_value (sd_vend_list v ! j) * amount
                in if z > sd_zeny (pc s) \<or> z < 0 \<or> z > MAX_ZENY then None
                   else if z > MAX_ZENY - sd_zeny (pc v) \<and> \<not> vending_over_max conf then None
                   else
                     let w = to_int32 (w + d_weight (e_search env (i_nameid it)) * amount)
                     in if to_uint32 (w + sd_weight (pc s)) > sd_max_weight (pc s) then None
                        else
                          let e = vend ! j;
                              e = (if vd_amount e > i_amount it then e\<lparr>vd_amount := i_amount it\<rparr> else e)
                          in if vd_amount e < amount then None
                             else
                               let vend = vend[j := e\<lparr>vd_amount := vd_amount e - amount\<rparr>];
                                   rest = (\<lambda>nw. map_option (\<lambda>(js, z). (j # js, z)) (purchase_check conf env s v blank vend z w nw r))
                               in (case pc_checkadditem env (i_nameid it) amount (pc s) of
                                     ADDITEM_EXIST \<Rightarrow> rest nw
                                   | ADDITEM_NEW \<Rightarrow> if nw + 1 > blank then None else rest (nw + 1)
                                   | ADDITEM_OVERAMOUNT \<Rightarrow> None))"

text \<open>\<open>apply_percentrate64\<close> for the tax.\<close>

definition apply_percentrate64 :: "int \<Rightarrow> int \<Rightarrow> int \<Rightarrow> int" where
  "apply_percentrate64 v rate stdrate =
     (if stdrate \<le> 0 \<or> rate < 0 then 0
      else if rate = stdrate then v
      else if rate = 0 then 0
      else if c_div 9223372036854775807 rate < v then c_div v stdrate * rate
      else c_div (v * rate) stdrate)"

text \<open>The items change hands; the answer of \<open>pc_additem\<close> is ignored.\<close>

fun purchase_move :: "pc_env \<Rightarrow> (int \<times> int) list \<Rightarrow> nat list \<Rightarrow> shopper \<Rightarrow> shopper \<Rightarrow> shopper \<times> shopper" where
  "purchase_move env ((a, b) # r) (j # js) s v =
     (let amount = to_int16 a; idx = nat (to_int16 (to_int16 b - 2));
          s = on_pc (\<lambda>p. snd (pc_additem env (sd_cart (pc v) ! idx) amount p)) s;
          e = sd_vend_list v ! j;
          v = v\<lparr>sd_vend_list := (sd_vend_list v)[j := e\<lparr>vd_amount := to_int16 (vd_amount e - amount)\<rparr>]\<rparr>;
          v = on_pc (\<lambda>p. snd (pc_cart_delitem env idx amount p)) v
      in purchase_move env r js s v)"
| "purchase_move env data js s v = (s, v)"

text \<open>Entries that are sold out are dropped; those after the last one keep what they held.\<close>

definition compact_vending :: "shopper \<Rightarrow> shopper" where
  "compact_vending v =
     (let kept = filter (\<lambda>e. vd_amount e \<noteq> 0) (take (sd_vend_num v) (sd_vend_list v))
      in v\<lparr>sd_vend_list := kept @ drop (length kept) (sd_vend_list v), sd_vend_num := length kept\<rparr>)"

text \<open>Payment, transfer and compaction: what both sides become once the checks have passed.\<close>

definition purchase_deal :: "shop_conf \<Rightarrow> pc_env \<Rightarrow> (int \<times> int) list \<Rightarrow> nat list \<Rightarrow> int \<Rightarrow> shopper \<Rightarrow> shopper \<Rightarrow> shopper \<times> shopper" where
  "purchase_deal conf env data js z s v =
     (let s = on_pc (\<lambda>p. snd (pc_payzeny z p)) s;
          z = (if vending_tax conf \<noteq> 0 then z - apply_percentrate64 z (vending_tax conf) 10000 else z);
          v = on_pc (\<lambda>p. snd (pc_getzeny (to_int32 z) p)) v;
          (s, v) = purchase_move env data js s v
      in (s, compact_vending v))"

definition vending_purchasereq ::
  "shop_conf \<Rightarrow> pc_env \<Rightarrow> int \<Rightarrow> int \<Rightarrow> int \<Rightarrow> (int \<times> int) list \<Rightarrow> market \<Rightarrow> market" where
  "vending_purchasereq conf env a aid uid data m =
     (case (who m a, who m aid) of
        (Some s, Some v) \<Rightarrow>
          if \<not> sd_vending (pc v) \<or> aid = a then m
          else if sd_vender_id v \<noteq> uid then m
          else if shop_too_far conf aid s v then m
          else
            let s = searchstore_clearremote s; m = set_who a s m
            in if length data < 1 \<or> length data > MAX_VENDING \<or> length data > sd_vend_num v then m
               else (case purchase_check conf env s v (pc_inventoryblank (pc s)) (sd_vend_list v) 0 0 0 data of
                   None \<Rightarrow> m
                 | Some (js, z) \<Rightarrow>
                   let (s, v) = purchase_deal conf env data js z s v;
                       m = set_who aid v (set_who a s m)
                   in if sd_autotrade v \<noteq> 0 \<and>
                         arr_find (\<lambda>e. vd_amount e > 0) (take (sd_vend_num v) (sd_vend_list v)) = sd_vend_num v
                      then quit aid (vending_closevending aid m)
                      else m)
      | _ \<Rightarrow> m)"

section \<open>Opening\<close>

text \<open>The items of the packet (position plus 2, amount, price) the shop takes.\<close>

definition vendable :: "pc_env \<Rightarrow> map_session_data \<Rightarrow> int \<Rightarrow> int \<Rightarrow> bool" where
  "vendable env p index amount \<longleftrightarrow>
     \<not> (index < 0 \<or> index \<ge> int MAX_CART
        \<or> pc_cartitem_amount index amount p < 0
        \<or> i_identify (sd_cart p ! nat index) = 0
        \<or> i_attribute (sd_cart p ! nat index) AND 1 \<noteq> 0
        \<or> i_expire_time (sd_cart p ! nat index) \<noteq> 0
        \<or> (i_bound (sd_cart p ! nat index) \<noteq> 0 \<and> \<not> perm_trade_bound p)
        \<or> \<not> itemdb_isrestricted env (sd_cart p ! nat index) (sd_group_level p) (sd_group_level p) itemdb_cantrade_sub)"

definition vending_entries :: "shop_conf \<Rightarrow> pc_env \<Rightarrow> map_session_data \<Rightarrow> (int \<times> int \<times> int) list \<Rightarrow> s_vending list" where
  "vending_entries conf env p data =
     List.map_filter (\<lambda>(i, a, value).
       let index = to_int16 (to_int16 i - 2); amount = to_int16 a
       in if vendable env p index amount
          then Some \<lparr>vd_index = index, vd_amount = amount, vd_value = cap_value value 0 (vending_max_value conf)\<rparr>
          else None) data"

definition vending_openvending :: "shop_conf \<Rightarrow> pc_env \<Rightarrow> int \<Rightarrow> bytes \<Rightarrow> (int \<times> int \<times> int) list \<Rightarrow> market \<Rightarrow> market" where
  "vending_openvending conf env a message data m =
     (case who m a of None \<Rightarrow> m
      | Some s \<Rightarrow>
        if sd_dead s \<or> \<not> sd_prevend s \<or> pc_istrading s then m
        else if sd_vending_skill s = 0 \<or> \<not> sd_carton s then m
        else if length data < 1 \<or> length data > MAX_VENDING \<or> int (length data) > 2 + sd_vending_skill s then m
        else
          let vend = vending_entries conf env (pc s) data
          in if vend = [] then set_who a (s\<lparr>sd_vend_list := vend @ drop (length vend) (sd_vend_list s)\<rparr>) m
             else m\<lparr>who := (who m)(a \<mapsto> on_pc (\<lambda>p. p\<lparr>sd_vending := True\<rparr>)
                      (s\<lparr>sd_vend_list := vend @ drop (length vend) (sd_vend_list s), sd_prevend := False, sd_workinprogress := False,
                         sd_vender_id := vending_next_id m, sd_vend_num := length vend, sd_message := take (MESSAGE_SIZE - 1) message\<rparr>)),
                    vending_next_id := to_uint32 (vending_next_id m + 1),
                    vending_db := (if a \<in> set (vending_db m) then vending_db m else vending_db m @ [a])\<rparr>)"

section \<open>Searching\<close>

definition vending_search :: "shopper \<Rightarrow> int \<Rightarrow> bool" where
  "vending_search v nameid =
     (if \<not> sd_vending (pc v) then False
      else arr_find (\<lambda>e. i_nameid (sd_cart (pc v) ! nat (vd_index e)) = to_int16 nameid) (take (sd_vend_num v) (sd_vend_list v)) \<noteq> sd_vend_num v)"

text \<open>The card loop: does a slot before the first empty one hold a card that is asked for?\<close>

definition card_match :: "int list \<Rightarrow> int list \<Rightarrow> nat \<Rightarrow> bool" where
  "card_match cardlist cards slot =
     (let c = arr_find (\<lambda>k. k = 0 \<or> k \<in> set cardlist) (take slot cards)
      in \<not> (c = slot \<or> cards ! c = 0))"

text \<open>
  The loop of \<open>vending_searchall\<close> over the items asked for. \<open>v\<close> is the vendor, \<open>s\<close> the
  character that searches.
\<close>

fun vending_searchall_loop :: "shop_conf \<Rightarrow> pc_env \<Rightarrow> s_search_store_search \<Rightarrow> shopper \<Rightarrow> int list \<Rightarrow> shopper \<Rightarrow> bool \<times> shopper" where
  "vending_searchall_loop conf env q v [] s = (True, s)"
| "vending_searchall_loop conf env q v (n # ns) s =
     (let i = arr_find (\<lambda>e. i_nameid (sd_cart (pc v) ! nat (vd_index e)) = to_int16 n) (take (sd_vend_num v) (sd_vend_list v))
      in if i = sd_vend_num v then vending_searchall_loop conf env q v ns s
         else
           let e = sd_vend_list v ! i; it = sd_cart (pc v) ! nat (vd_index e)
           in if sr_min_price q \<noteq> 0 \<and> sr_min_price q > vd_value e then vending_searchall_loop conf env q v ns s
              else if sr_max_price q \<noteq> 0 \<and> sr_max_price q < vd_value e then vending_searchall_loop conf env q v ns s
              else if sr_cardlist q \<noteq> [] \<and>
                 (itemdb_isspecial (i_card it ! 0) \<or> \<not> card_match (sr_cardlist q) (i_card it) (d_slot (e_search env (i_nameid it))))
              then vending_searchall_loop conf env q v ns s
              else
                let (ok, s) = searchstore_result conf
                      \<lparr>ssi_store_id = sd_vender_id v, ssi_account_id = sd_account_id (pc v), ssi_store_name = take (MESSAGE_SIZE - 1) (sd_message v),
                       ssi_nameid = to_uint16 (i_nameid it), ssi_amount = to_uint16 (vd_amount e), ssi_price = vd_value e, ssi_card = i_card it, ssi_refine = i_refine it\<rparr> s
                in if ok then vending_searchall_loop conf env q v ns s else (False, s))"

definition vending_searchall :: "shop_conf \<Rightarrow> pc_env \<Rightarrow> s_search_store_search \<Rightarrow> shopper \<Rightarrow> shopper \<Rightarrow> bool \<times> shopper" where
  "vending_searchall conf env q v s =
     (if \<not> sd_vending (pc v) then (True, s) else vending_searchall_loop conf env q v (sr_itemlist q) s)"

lemma compact_pc [simp]: "pc (compact_vending v) = pc v"
  by (simp add: compact_vending_def Let_def)

section \<open>What a purchase does\<close>

abbreviation pair_amount :: "int \<times> int \<Rightarrow> int" where "pair_amount d \<equiv> to_int16 (fst d)"
abbreviation pair_idx :: "int \<times> int \<Rightarrow> int" where "pair_idx d \<equiv> to_int16 (to_int16 (snd d) - 2)"

text \<open>The pieces of one cart slot, and of one item, that a list of pairs asks for.\<close>

definition sold_at :: "nat \<Rightarrow> (int \<times> int) list \<Rightarrow> int" where
  "sold_at n data = sum_list (map (\<lambda>d. if pair_idx d = int n then pair_amount d else 0) data)"

definition sold :: "int \<Rightarrow> item list \<Rightarrow> (int \<times> int) list \<Rightarrow> int" where
  "sold k cart data = sum_list (map (\<lambda>d. if i_nameid (cart ! nat (pair_idx d)) = k then pair_amount d else 0) data)"

text \<open>The price of the pairs, each at its entry of the shop list.\<close>

definition price_of :: "shopper \<Rightarrow> (int \<times> int) list \<Rightarrow> int" where
  "price_of v data = sum_list (map (\<lambda>d. vd_value (sd_vend_list v ! arr_find (\<lambda>e. vd_index e = pair_idx d) (shelf v)) * pair_amount d) data)"

text \<open>The pieces of item \<open>k\<close> the buyer's inventory refuses.\<close>

fun refused :: "pc_env \<Rightarrow> int \<Rightarrow> (int \<times> int) list \<Rightarrow> shopper \<Rightarrow> shopper \<Rightarrow> int" where
  "refused env k [] s v = 0"
| "refused env k (d # r) s v =
     (let it = sd_cart (pc v) ! nat (pair_idx d);
          (flag, p) = pc_additem env it (pair_amount d) (pc s);
          v' = on_pc (\<lambda>p. snd (pc_cart_delitem env (nat (pair_idx d)) (pair_amount d) p)) v
      in (if flag \<noteq> 0 \<and> i_nameid it = k then pair_amount d else 0) + refused env k r (s\<lparr>pc := p\<rparr>) v')"

lemma check_ok:
  assumes "purchase_check conf env s v blank vend z0 w nw data = Some (js, z)"
    and "sd_vend_num v \<le> length (sd_vend_list v)" "length vend = length (sd_vend_list v)"
  shows "length js = length data \<and> z = z0 + price_of v data \<and>
    (\<forall>d \<in> set data. 0 < pair_amount d \<and> 0 \<le> pair_idx d \<and> pair_idx d < int MAX_CART) \<and>
    (data \<noteq> [] \<longrightarrow> 0 \<le> z \<and> z \<le> sd_zeny (pc s) \<and> z \<le> MAX_ZENY \<and> (vending_over_max conf \<or> z \<le> MAX_ZENY - sd_zeny (pc v))) \<and>
    (sold_at n data = 0 \<or> (sold_at n data \<le> vd_amount (vend ! arr_find (\<lambda>e. vd_index e = int n) (shelf v)) \<and>
       sold_at n data \<le> i_amount (sd_cart (pc v) ! n)))"
  using assms(1,3)
proof (induction data arbitrary: vend z0 w nw js)
  case Nil
  then show ?case by (simp add: price_of_def sold_at_def)
next
  case (Cons d r)
  obtain a b where d: "d = (a, b)" by fastforce
  define amount where "amount = to_int16 a"
  define idx where "idx = to_int16 (to_int16 b - 2)"
  define j where "j = arr_find (\<lambda>e. vd_index e = idx) (shelf v)"
  define z1 where "z1 = z0 + vd_value (sd_vend_list v ! j) * amount"
  define it where "it = sd_cart (pc v) ! nat idx"
  define e where "e = (if vd_amount (vend ! j) > i_amount it then (vend ! j)\<lparr>vd_amount := i_amount it\<rparr> else vend ! j)"
  define vend1 where "vend1 = vend[j := e\<lparr>vd_amount := vd_amount e - amount\<rparr>]"
  have g: "0 < amount" "0 \<le> idx" "idx < int MAX_CART" "j \<noteq> sd_vend_num v" "z1 \<le> sd_zeny (pc s)" "0 \<le> z1" "z1 \<le> MAX_ZENY"
      "vending_over_max conf \<or> z1 \<le> MAX_ZENY - sd_zeny (pc v)" "amount \<le> vd_amount e"
    and ex: "\<exists>w' nw' js'. purchase_check conf env s v blank vend1 z1 w' nw' r = Some (js', z) \<and> js = j # js'"
    using Cons.prems(1) unfolding d
    by (auto simp: Let_def amount_def [symmetric] idx_def [symmetric] shelf_def [symmetric] j_def [symmetric] z1_def [symmetric] it_def [symmetric]
        e_def [symmetric] vend1_def [symmetric] split: if_splits additem_check.splits)
  obtain w' nw' js' where c: "purchase_check conf env s v blank vend1 z1 w' nw' r = Some (js', z)" "js = j # js'" using ex by blast
  have lv: "length vend1 = length (sd_vend_list v)" using Cons.prems(2) by (simp add: vend1_def)
  note ih = Cons.IH [OF c(1) lv]
  have len: "length (shelf v) = sd_vend_num v" using assms(2) by (simp add: shelf_def)
  have j: "j < sd_vend_num v" using g(4) arr_find_le [of "\<lambda>e. vd_index e = idx" "shelf v"] len by (simp add: j_def)
  then have "vd_index (shelf v ! j) = idx"
    using arr_find_nth [of "\<lambda>e. vd_index e = idx" "shelf v"] len by (simp add: j_def [symmetric])
  then have ji: "vd_index (sd_vend_list v ! j) = idx" using j by (simp add: shelf_def)
  have jl: "j < length vend" using j assms(2) Cons.prems(2) by simp
  have pd: "pair_amount d = amount" "pair_idx d = idx" by (simp_all add: d amount_def idx_def)
  have p: "z = z0 + price_of v (d # r)" using ih Cons.prems(2) by (simp add: price_of_def pd j_def [symmetric] z1_def vend1_def)
  have so: "sold_at n (d # r) = (if idx = int n then amount else 0) + sold_at n r" by (simp add: sold_at_def pd)
  have le: "sold_at n r = 0 \<or> sold_at n r \<le> vd_amount (vend1 ! arr_find (\<lambda>e. vd_index e = int n) (shelf v)) \<and>
      sold_at n r \<le> i_amount (sd_cart (pc v) ! n)"
    using ih Cons.prems(2) by (simp add: vend1_def)
  have "sold_at n (d # r) = 0 \<or> (sold_at n (d # r) \<le> vd_amount (vend ! arr_find (\<lambda>e. vd_index e = int n) (shelf v)) \<and>
      sold_at n (d # r) \<le> i_amount (sd_cart (pc v) ! n))"
  proof (cases "idx = int n")
    case True
    then have "arr_find (\<lambda>e. vd_index e = int n) (shelf v) = j" "it = sd_cart (pc v) ! n" by (simp_all add: j_def it_def)
    then show ?thesis using le g(1,9) so True jl by (auto simp: vend1_def e_def split: if_splits)
  next
    case False
    have "arr_find (\<lambda>e. vd_index e = int n) (shelf v) \<noteq> j"
    proof
      assume "arr_find (\<lambda>e. vd_index e = int n) (shelf v) = j"
      then have "vd_index (shelf v ! j) = int n" using arr_find_nth [of "\<lambda>e. vd_index e = int n" "shelf v"] j len by simp
      then show False using ji False j by (simp add: shelf_def)
    qed
    then show ?thesis using le so False by (simp add: vend1_def)
  qed
  moreover have "0 \<le> z \<and> z \<le> sd_zeny (pc s) \<and> z \<le> MAX_ZENY \<and> (vending_over_max conf \<or> z \<le> MAX_ZENY - sd_zeny (pc v))"
  proof (cases "r = []")
    case True
    then show ?thesis using c(1) g by simp
  next
    case False
    then show ?thesis using ih by blast
  qed
  moreover have "length js = length (d # r)" "\<forall>d' \<in> set (d # r). 0 < pair_amount d' \<and> 0 \<le> pair_idx d' \<and> pair_idx d' < int MAX_CART"
    using c(2) ih g(1-3) by (simp_all add: pd)
  ultimately show ?case using p by blast
qed

lemma sold_at_Cons: "sold_at n (d # r) = (if pair_idx d = int n then pair_amount d else 0) + sold_at n r"
  by (simp add: sold_at_def)

lemma sold_at_nonneg: "\<forall>d \<in> set data. 0 < pair_amount d \<Longrightarrow> 0 \<le> sold_at n data"
  unfolding sold_at_def by (intro sum_list_nonneg) auto

text \<open>What the cart of the vendor loses in one round.\<close>

lemma cart_take:
  assumes "cart_ok sd" "n < MAX_CART" "0 < amount" "amount \<le> i_amount (sd_cart sd ! n)" "e_exists env (i_nameid (sd_cart sd ! n))"
  shows "\<exists>x m w. pc_cart_delitem env n amount sd = (0, sd\<lparr>sd_cart := (sd_cart sd)[n := x], sd_cart_num := m, sd_cart_weight := w\<rparr>) \<and>
    i_amount x = i_amount (sd_cart sd ! n) - amount \<and> (0 < i_amount x \<longrightarrow> x = (sd_cart sd ! n)\<lparr>i_amount := i_amount x\<rparr>) \<and>
    slots_ok ((sd_cart sd)[n := x]) \<and>
    (\<forall>k. total k ((sd_cart sd)[n := x]) = total k (sd_cart sd) - (if k = i_nameid (sd_cart sd ! n) then amount else 0))"
proof -
  let ?s = "sd_cart sd ! n"
  have len: "length (sd_cart sd) = MAX_CART" and so: "slots_ok (sd_cart sd)" using assms(1) by (simp_all add: cart_ok_def)
  have "slot_ok ?s" using slots_ok_nth [OF so] assms(2) len by simp
  then have nz: "i_nameid ?s \<noteq> 0" using assms(3,4) by (auto simp: slot_ok_def)
  define x where "x = (if i_amount ?s - amount \<le> 0 then zero_item else ?s\<lparr>i_amount := i_amount ?s - amount\<rparr>)"
  define m where "m = (if i_amount ?s - amount \<le> 0 then sd_cart_num sd - 1 else sd_cart_num sd)"
  define w where "w = sd_cart_weight sd - to_int32 (d_weight (e_search env (i_nameid ?s)) * amount)"
  have "n < MAX_INVENTORY" using assms(2) by (simp add: pc_limits)
  then have "pc_cart_delitem env n amount sd = (0, sd\<lparr>sd_cart := (sd_cart sd)[n := x], sd_cart_num := m, sd_cart_weight := w\<rparr>)"
    using nz assms(4,5) by (simp add: pc_cart_delitem_def Let_def x_def m_def w_def)
  moreover have "i_amount x = i_amount ?s - amount" "0 < i_amount x \<longrightarrow> x = ?s\<lparr>i_amount := i_amount x\<rparr>"
    using assms(4) by (auto simp: x_def)
  moreover have "slots_ok ((sd_cart sd)[n := x])"
    "total k ((sd_cart sd)[n := x]) = total k (sd_cart sd) - (if k = i_nameid ?s then amount else 0)" for k
    using take_from [OF so _ assms(3,4) x_def] assms(2) len by simp_all
  ultimately show ?thesis by blast
qed

text \<open>The goods of a vendor: nothing expired, nothing unknown to the item database.\<close>

definition goods_ok :: "pc_env \<Rightarrow> item list \<Rightarrow> bool" where
  "goods_ok env cart \<longleftrightarrow> (\<forall>it \<in> set cart. i_nameid it \<noteq> 0 \<longrightarrow> not_expired env it \<and> e_exists env (i_nameid it))"

lemma sold_Cons: "sold k cart (d # r) = (if i_nameid (cart ! nat (pair_idx d)) = k then pair_amount d else 0) + sold k cart r"
  by (simp add: sold_def)

lemma sold_at_ge: "\<forall>d \<in> set data. 0 < pair_amount d \<Longrightarrow> d \<in> set data \<Longrightarrow> pair_idx d = int n \<Longrightarrow> pair_amount d \<le> sold_at n data"
proof (induction data)
  case (Cons x data)
  then show ?case using sold_at_nonneg [of data n] by (auto simp: sold_at_Cons)
qed simp

lemma cart_delitem_cart:
  "sd_cart p = sd_cart q \<Longrightarrow> sd_cart (snd (pc_cart_delitem env n amount p)) = sd_cart (snd (pc_cart_delitem env n amount q))"
  by (simp add: pc_cart_delitem_def Let_def)

lemma refused_cart: "sd_cart (pc v1) = sd_cart (pc v2) \<Longrightarrow> refused env k r s v1 = refused env k r s v2"
proof (induction r arbitrary: s v1 v2)
  case (Cons d r)
  have "sd_cart (pc (on_pc (\<lambda>p. snd (pc_cart_delitem env (nat (pair_idx d)) (pair_amount d) p)) v1)) =
      sd_cart (pc (on_pc (\<lambda>p. snd (pc_cart_delitem env (nat (pair_idx d)) (pair_amount d) p)) v2))"
    using cart_delitem_cart [OF Cons.prems] by simp
  then show ?case using Cons.IH [of "on_pc (\<lambda>p. snd (pc_cart_delitem env (nat (pair_idx d)) (pair_amount d) p)) v1"
      "on_pc (\<lambda>p. snd (pc_cart_delitem env (nat (pair_idx d)) (pair_amount d) p)) v2"] Cons.prems by (simp add: split_beta Let_def)
qed simp

lemma move_ok:
  assumes "carries env (pc s)" "carries env (pc v)" "goods_ok env (sd_cart (pc v))"
    and "\<forall>d \<in> set data. 0 < pair_amount d \<and> 0 \<le> pair_idx d \<and> pair_idx d < int MAX_CART"
    and "\<forall>n < MAX_CART. sold_at n data \<le> i_amount (sd_cart (pc v) ! n)" "length js = length data"
    and "purchase_move env data js s v = (s', v')"
  shows "carries env (pc s') \<and> carries env (pc v') \<and> pc_frame (pc s') = pc_frame (pc s) \<and>
    sd_zeny (pc v') = sd_zeny (pc v) \<and> sd_inventory (pc v') = sd_inventory (pc v) \<and>
    total k (sd_inventory (pc s')) = total k (sd_inventory (pc s)) + sold k (sd_cart (pc v)) data - refused env k data s v \<and>
    total k (sd_cart (pc v')) = total k (sd_cart (pc v)) - sold k (sd_cart (pc v)) data"
  using assms
proof (induction data arbitrary: js s v)
  case Nil
  then show ?case by (simp add: sold_def)
next
  case (Cons d r)
  define amount where "amount = pair_amount d"
  define n where "n = nat (pair_idx d)"
  define it where "it = sd_cart (pc v) ! n"
  obtain j js' where js: "js = j # js'" "length js' = length r" using Cons.prems(6) by (cases js) auto
  have pos: "0 < amount" "pair_idx d = int n" "n < MAX_CART" using Cons.prems(4) by (auto simp: amount_def n_def)
  have r: "\<forall>d \<in> set r. 0 < pair_amount d \<and> 0 \<le> pair_idx d \<and> pair_idx d < int MAX_CART" using Cons.prems(4) by simp
  have so: "sold_at n (d # r) = amount + sold_at n r" using pos by (simp add: sold_at_Cons amount_def)
  have nn: "0 \<le> sold_at i r" for i using r by (intro sold_at_nonneg) auto
  have am: "amount \<le> i_amount it" using Cons.prems(5) [rule_format, OF pos(3)] so nn [of n] by (simp add: it_def)
  have car: "cart_ok (pc v)" "inv_ok (pc v)" "env_ok env" "inv_ok (pc s)" using Cons.prems(1,2) by (simp_all add: carries_def)
  have len: "length (sd_cart (pc v)) = MAX_CART" and sok: "slots_ok (sd_cart (pc v))" using car(1) by (simp_all add: cart_ok_def)
  have "slot_ok it" using slots_ok_nth [OF sok] pos(3) len by (simp add: it_def)
  then have nz: "i_nameid it \<noteq> 0" "amount \<le> MAX_AMOUNT" using am pos(1) by (auto simp: slot_ok_def)
  then have gd: "not_expired env it" "e_exists env (i_nameid it)"
    using Cons.prems(3) pos(3) len by (auto simp: goods_ok_def it_def)
  obtain f p where ad: "pc_additem env it amount (pc s) = (f, p)" by fastforce
  have p: "carries env p \<and> pc_frame p = pc_frame (pc s) \<and>
      total k (sd_inventory p) = total k (sd_inventory (pc s)) + (if f = 0 \<and> i_nameid it = k then amount else 0)"
    using pc_additem_ok(1) [OF car(3,4) gd(1) ad] pc_additem_ok(2) [OF car(3,4) gd(1) ad, of k] Cons.prems(1)
      cart_ok_frame [of p "pc s"] by (cases "f = 0") (auto simp: carries_def)
  obtain x m w where ct: "pc_cart_delitem env n amount (pc v) =
        (0, (pc v)\<lparr>sd_cart := (sd_cart (pc v))[n := x], sd_cart_num := m, sd_cart_weight := w\<rparr>)"
      "i_amount x = i_amount it - amount" "0 < i_amount x \<longrightarrow> x = it\<lparr>i_amount := i_amount x\<rparr>"
      "slots_ok ((sd_cart (pc v))[n := x])"
      "total k ((sd_cart (pc v))[n := x]) = total k (sd_cart (pc v)) - (if k = i_nameid it then amount else 0)"
    using cart_take [OF car(1) pos(3,1) am [unfolded it_def] gd(2) [unfolded it_def]] unfolding it_def by blast
  define e where "e = sd_vend_list v ! j"
  define s1 where "s1 = s\<lparr>pc := p\<rparr>"
  define v0 where "v0 = on_pc (\<lambda>p. snd (pc_cart_delitem env n amount p)) v"
  define v1 where "v1 = on_pc (\<lambda>p. snd (pc_cart_delitem env n amount p))
    (v\<lparr>sd_vend_list := (sd_vend_list v)[j := e\<lparr>vd_amount := to_int16 (vd_amount e - amount)\<rparr>]\<rparr>)"
  have mv: "purchase_move env r js' s1 v1 = (s', v')"
    using Cons.prems(7) ad unfolding js(1)
    by (cases d) (simp add: Let_def amount_def n_def it_def e_def s1_def v1_def v0_def)
  have pv: "pc v1 = (pc v)\<lparr>sd_cart := (sd_cart (pc v))[n := x], sd_cart_num := m, sd_cart_weight := w\<rparr>" "pc v0 = pc v1"
    by (simp_all add: v1_def v0_def ct(1))
  have c1: "carries env (pc v1)" using Cons.prems(2) ct(4) len by (simp add: carries_def pv cart_ok_def)
  have x: "i_nameid x = 0 \<or> (i_nameid x = i_nameid it \<and> i_expire_time x = i_expire_time it)"
  proof (cases "0 < i_amount x")
    case True
    then have "x = it\<lparr>i_amount := i_amount x\<rparr>" using ct(3) by blast
    then have "i_nameid x = i_nameid (it\<lparr>i_amount := i_amount x\<rparr>)" "i_expire_time x = i_expire_time (it\<lparr>i_amount := i_amount x\<rparr>)"
      by (rule arg_cong)+
    then show ?thesis by simp
  next
    case False
    have "slot_ok x" using slots_ok_nth [OF ct(4), of n] pos(3) len by simp
    then show ?thesis using False by (auto simp: slot_ok_def)
  qed
  have g1: "goods_ok env (sd_cart (pc v1))"
    unfolding goods_ok_def
  proof
    fix y assume "y \<in> set (sd_cart (pc v1))"
    then have "y = x \<or> y \<in> set (sd_cart (pc v))" using set_update_subset_insert by (fastforce simp: pv)
    then show "i_nameid y \<noteq> 0 \<longrightarrow> not_expired env y \<and> e_exists env (i_nameid y)"
      using Cons.prems(3) x gd by (auto simp: goods_ok_def not_expired_def)
  qed
  have a1: "\<forall>i < MAX_CART. sold_at i r \<le> i_amount (sd_cart (pc v1) ! i)"
    using Cons.prems(5) so pos len ct(2) by (auto simp: pv nth_list_update sold_at_Cons it_def)
  have sl: "sold k (sd_cart (pc v1)) r = sold k (sd_cart (pc v)) r"
  proof -
    have "i_nameid (sd_cart (pc v1) ! nat (pair_idx d')) = i_nameid (sd_cart (pc v) ! nat (pair_idx d'))" if "d' \<in> set r" for d'
    proof (cases "nat (pair_idx d') = n")
      case True
      then have "pair_idx d' = int n" using r that by auto
      then have "0 < sold_at n r" using sold_at_ge [of r d' n] r that by fastforce
      then have "0 < i_amount x" using a1 pos(3) len by (fastforce simp: pv)
      then have "i_nameid x = i_nameid it" using ct(3) x by (metis item.select_convs(2) item.surjective item.update_convs(3))
      then show ?thesis using True pos(3) len by (simp add: pv it_def)
    qed (simp add: pv)
    then show ?thesis unfolding sold_def by (intro arg_cong [of _ _ sum_list] map_cong) auto
  qed
  have rf: "refused env k (d # r) s v = (if f \<noteq> 0 \<and> i_nameid it = k then amount else 0) + refused env k r s1 v1"
  proof -
    have "refused env k r s1 v1 = refused env k r s1 v0" by (rule refused_cart) (simp add: pv(2))
    then show ?thesis using ad by (simp add: amount_def n_def it_def s1_def v0_def Let_def)
  qed
  show ?case
    using Cons.IH [OF _ c1 g1 r a1 js(2) mv] p ct(5) sl rf
    by (auto simp: s1_def pv sold_Cons amount_def n_def it_def)
qed

end
