(* ===== verification/Buyingstore.thy ===== *)
theory Buyingstore
  imports Shop
begin

text \<open>
  The stores that buy, \<open>src/map/buyingstore.c\<close>: set-up, creation, closing, selling to one,
  searching, and taking over the data of an absent owner. The queries that keep such owners in
  the database (\<open>buyingstore_autotrade_update\<close>, \<open>_start\<close>, \<open>_load\<close>) and messages to
  clients are left out.
\<close>

definition buyingstore_setup :: "shop_conf \<Rightarrow> int \<Rightarrow> int \<Rightarrow> market \<Rightarrow> bool \<times> market" where
  "buyingstore_setup conf a slots m =
     (case who m a of None \<Rightarrow> (False, m)
      | Some s \<Rightarrow>
        if \<not> feature_buying_store conf \<or> sd_vending (pc s) \<or> sd_buyingstore (pc s) \<or> sd_trading (pc s) \<or> slots = 0 then (False, m)
        else if sd_muted s then (False, m)
        else if novending conf (bl_m (pc s)) (bl_x (pc s)) (bl_y (pc s)) then (False, m)
        else
          let slots = (if slots > int MAX_BUYINGSTORE_SLOTS then int MAX_BUYINGSTORE_SLOTS else slots)
          in (True, set_who a (s\<lparr>sd_bs_slots := nat slots\<rparr>) m))"

section \<open>Creating a store\<close>

text \<open>
  The loop of \<open>buyingstore_create\<close> over the wanted items (number, amount, price): whether it
  reached the end, the weight, and the array as written so far.
\<close>

fun create_loop ::
  "shop_conf \<Rightarrow> pc_env \<Rightarrow> map_session_data \<Rightarrow> nat \<Rightarrow> int \<Rightarrow> s_buyingstore_item list \<Rightarrow> (int \<times> int \<times> int) list
   \<Rightarrow> bool \<times> int \<times> s_buyingstore_item list" where
  "create_loop conf env p i weight items [] = (True, weight, items)"
| "create_loop conf env p i weight items ((nameid, amount, pr) # r) =
     (let price = to_int32 pr; d = e_search env nameid
      in if \<not> e_exists env nameid \<or> amount = 0 then (False, weight, items)
         else if price \<le> 0 \<or> price > BUYINGSTORE_MAX_PRICE then (False, weight, items)
         else if \<not> buyable conf nameid \<or> \<not> itemdb_cantrade_sub d (sd_group_level p) (sd_group_level p) then (False, weight, items)
         else (case pc_search_inventory nameid p of
             None \<Rightarrow> (False, weight, items)
           | Some idx \<Rightarrow>
             if i_amount (sd_inventory p ! idx) + amount > BUYINGSTORE_MAX_AMOUNT then (False, weight, items)
             else if i \<noteq> 0 \<and> arr_find (\<lambda>it. bs_nameid it = nameid) (take i items) \<noteq> i then (False, weight, items)
             else create_loop conf env p (i + 1) (to_uint32 (weight + d_weight d * amount))
                    (items[i := \<lparr>bs_price = price, bs_amount = amount, bs_nameid = nameid\<rparr>]) r))"

definition buyingstore_create ::
  "shop_conf \<Rightarrow> pc_env \<Rightarrow> int \<Rightarrow> int \<Rightarrow> int \<Rightarrow> bytes \<Rightarrow> (int \<times> int \<times> int) list \<Rightarrow> market \<Rightarrow> bool \<times> market" where
  "buyingstore_create conf env a zenylimit result storename itemlist m =
     (case who m a of None \<Rightarrow> (False, m)
      | Some s \<Rightarrow>
        if result = 0 \<or> itemlist = [] then (False, m)
        else if \<not> feature_buying_store conf \<or> pc_istrading s \<or> sd_bs_slots s = 0 \<or> length itemlist > sd_bs_slots s
          \<or> zenylimit \<le> 0 \<or> zenylimit > sd_zeny (pc s) \<or> storename = [] then (False, set_who a (s\<lparr>sd_bs_slots := 0\<rparr>) m)
        else if \<not> perm_trade (pc s) then (False, set_who a (s\<lparr>sd_bs_slots := 0\<rparr>) m)
        else if sd_muted s then (False, m)
        else if novending conf (bl_m (pc s)) (bl_x (pc s)) (bl_y (pc s)) then (False, m)
        else
          let (ok, weight, items) = create_loop conf env (pc s) 0 (sd_weight (pc s)) (sd_bs_items s) itemlist;
              s = s\<lparr>sd_bs_items := items\<rparr>
          in if \<not> ok then (False, set_who a (s\<lparr>sd_bs_slots := 0\<rparr>) m)
             else if to_uint32 (sd_max_weight (pc s) * 90) div 100 < weight then (False, set_who a (s\<lparr>sd_bs_slots := 0\<rparr>) m)
             else (True, set_who a (on_pc (\<lambda>p. p\<lparr>sd_buyingstore := True\<rparr>)
                    (s\<lparr>sd_autotrade := 1, sd_buyer_id := buyingstore_nextid m, sd_bs_zenylimit := zenylimit,
                       sd_bs_slots := length itemlist, sd_message := take (MESSAGE_SIZE - 1) storename\<rparr>))
                    (m\<lparr>buyingstore_nextid := to_uint32 (buyingstore_nextid m + 1)\<rparr>)))"

definition no_bs_item :: s_buyingstore_item where
  "no_bs_item = \<lparr>bs_price = 0, bs_amount = 0, bs_nameid = 0\<rparr>"

definition buyingstore_close :: "int \<Rightarrow> market \<Rightarrow> market" where
  "buyingstore_close a m =
     (case who m a of None \<Rightarrow> m
      | Some s \<Rightarrow>
        if sd_buyingstore (pc s)
        then set_who a (on_pc (\<lambda>p. p\<lparr>sd_buyingstore := False\<rparr>)
               (s\<lparr>sd_bs_items := replicate MAX_BUYINGSTORE_SLOTS no_bs_item, sd_bs_zenylimit := 0, sd_bs_slots := 0\<rparr>)) m
        else m)"

text \<open>\<open>buyingstore_open\<close> changes nothing: whether the list of the store is shown.\<close>

definition buyingstore_open :: "shop_conf \<Rightarrow> int \<Rightarrow> int \<Rightarrow> market \<Rightarrow> bool" where
  "buyingstore_open conf a account_id m =
     (case who m a of None \<Rightarrow> False
      | Some s \<Rightarrow>
        if \<not> feature_buying_store conf \<or> pc_istrading s then False
        else if \<not> perm_trade (pc s) then False
        else (case who m account_id of None \<Rightarrow> False
          | Some b \<Rightarrow> if \<not> sd_buyingstore (pc b) then False else \<not> shop_too_far conf account_id s b))"

section \<open>Selling to a store\<close>

text \<open>The position in the store of an item number.\<close>

definition bs_find :: "shopper \<Rightarrow> int \<Rightarrow> nat" where
  "bs_find b nameid = arr_find (\<lambda>it. bs_nameid it = nameid) (take (sd_bs_slots b) (sd_bs_items b))"

text \<open>
  The checks of \<open>buyingstore_trade\<close> for the items sold (position plus 2, number, amount);
  \<open>seen\<close> are the positions before, and the product of amount and price is an \<open>int\<close>.
\<close>

fun sell_check ::
  "pc_env \<Rightarrow> shopper \<Rightarrow> shopper \<Rightarrow> int list \<Rightarrow> int \<Rightarrow> int \<Rightarrow> (int \<times> int \<times> int) list \<Rightarrow> bool" where
  "sell_check env s b seen weight zeny [] = True"
| "sell_check env s b seen weight zeny ((ix, nameid, amount) # r) =
     (let index = ix - 2
      in if index \<in> set seen then False
         else if index < 0 \<or> index \<ge> int MAX_INVENTORY then False
         else (case sd_inventory_data (pc s) ! nat index of
             None \<Rightarrow> False
           | Some d \<Rightarrow>
             let it = sd_inventory (pc s) ! nat index
             in if i_nameid it \<noteq> nameid \<or> i_amount it < amount then False
                else if i_expire_time it \<noteq> 0 \<or> (i_bound it \<noteq> 0 \<and> \<not> perm_trade_bound (pc s))
                  \<or> \<not> itemdb_isrestricted env it (sd_group_level (pc s)) (sd_group_level (pc b)) itemdb_cantrade_sub
                  \<or> i_card it \<noteq> replicate MAX_SLOTS 0 then False
                else
                  let k = bs_find b nameid
                  in if k = sd_bs_slots b \<or> bs_amount (sd_bs_items b ! k) = 0 then False
                     else if bs_amount (sd_bs_items b ! k) < amount then False
                     else if pc_checkadditem env nameid amount (pc b) = ADDITEM_OVERAMOUNT then False
                     else if to_uint32 (amount * d_weight d) > to_uint32 (sd_max_weight (pc b) - weight) then False
                     else
                       let cost = to_int32 (amount * bs_price (sd_bs_items b ! k))
                       in if cost > to_int32 (sd_bs_zenylimit b - zeny) then False
                          else sell_check env s b (index # seen) (to_uint32 (weight + amount * d_weight d)) (to_int32 (zeny + cost)) r))"

definition sell_one :: "pc_env \<Rightarrow> int \<times> int \<times> int \<Rightarrow> shopper \<times> shopper \<Rightarrow> shopper \<times> shopper" where
  "sell_one env = (\<lambda>(ix, nameid, amount) (s, b).
     let index = nat (ix - 2);
         k = bs_find b nameid;
         e = sd_bs_items b ! k;
         zeny = to_int32 (amount * bs_price e);
         b = on_pc (\<lambda>p. snd (pc_additem env (sd_inventory (pc s) ! index) amount p)) b;
         s = on_pc (\<lambda>p. snd (pc_delitem env index amount p)) s;
         b = b\<lparr>sd_bs_items := (sd_bs_items b)[k := e\<lparr>bs_amount := to_uint16 (bs_amount e - amount)\<rparr>]\<rparr>;
         b = on_pc (\<lambda>p. snd (pc_payzeny zeny p)) b;
         s = on_pc (\<lambda>p. snd (pc_getzeny zeny p)) s
     in (s, b\<lparr>sd_bs_zenylimit := to_int32 (sd_bs_zenylimit b - zeny)\<rparr>))"

text \<open>Whether a store has nothing left to do: everything bought, or the limit reached.\<close>

definition store_done :: "shopper \<Rightarrow> bool" where
  "store_done b \<longleftrightarrow> arr_find (\<lambda>it. bs_amount it \<noteq> 0) (take (sd_bs_slots b) (sd_bs_items b)) = sd_bs_slots b \<or> sd_bs_zenylimit b = 0"

definition buyingstore_trade :: "shop_conf \<Rightarrow> pc_env \<Rightarrow> int \<Rightarrow> int \<Rightarrow> int \<Rightarrow> (int \<times> int \<times> int) list \<Rightarrow> market \<Rightarrow> market" where
  "buyingstore_trade conf env a account_id buyer_id itemlist m =
     (case who m a of None \<Rightarrow> m
      | Some s \<Rightarrow>
        if itemlist = [] then m
        else if \<not> feature_buying_store conf \<or> pc_istrading s then m
        else if \<not> perm_trade (pc s) then m
        else (case who m account_id of None \<Rightarrow> m
          | Some b \<Rightarrow>
            if \<not> sd_buyingstore (pc b) \<or> sd_buyer_id b \<noteq> buyer_id then m
            else if shop_too_far conf account_id s b then m
            else
              let s = searchstore_clearremote s;
                  b = (if sd_zeny (pc b) < sd_bs_zenylimit b then b\<lparr>sd_bs_zenylimit := sd_zeny (pc b)\<rparr> else b);
                  m = set_who account_id b (set_who a s m)
              in if \<not> sell_check env s b [] (sd_weight (pc b)) 0 itemlist then m
                 else
                   let (s, b) = fold (sell_one env) itemlist (s, b);
                       m = set_who account_id b (set_who a s m)
                   in if store_done b then
                        let m = buyingstore_close account_id m
                        in if sd_autotrade b \<noteq> 0 then quit account_id m else m
                      else m))"

section \<open>Searching, and absent owners\<close>

definition buyingstore_search :: "shopper \<Rightarrow> int \<Rightarrow> bool" where
  "buyingstore_search b nameid =
     (if \<not> sd_buyingstore (pc b) then False
      else arr_find (\<lambda>it. bs_nameid it = nameid \<and> bs_amount it \<noteq> 0) (take (sd_bs_slots b) (sd_bs_items b)) \<noteq> sd_bs_slots b)"

fun buyingstore_searchall_loop :: "shop_conf \<Rightarrow> s_search_store_search \<Rightarrow> shopper \<Rightarrow> int list \<Rightarrow> shopper \<Rightarrow> bool \<times> shopper" where
  "buyingstore_searchall_loop conf q b [] s = (True, s)"
| "buyingstore_searchall_loop conf q b (n # ns) s =
     (let i = arr_find (\<lambda>it. bs_nameid it = n \<and> bs_amount it \<noteq> 0) (take (sd_bs_slots b) (sd_bs_items b))
      in if i = sd_bs_slots b then buyingstore_searchall_loop conf q b ns s
         else
           let it = sd_bs_items b ! i
           in if sr_min_price q \<noteq> 0 \<and> sr_min_price q > to_uint32 (bs_price it) then buyingstore_searchall_loop conf q b ns s
              else if sr_max_price q \<noteq> 0 \<and> sr_max_price q < to_uint32 (bs_price it) then buyingstore_searchall_loop conf q b ns s
              else
                let (ok, s) = searchstore_result conf
                      \<lparr>ssi_store_id = sd_buyer_id b, ssi_account_id = sd_account_id (pc b), ssi_store_name = take (MESSAGE_SIZE - 1) (sd_message b),
                       ssi_nameid = bs_nameid it, ssi_amount = bs_amount it, ssi_price = to_uint32 (bs_price it), ssi_card = replicate MAX_SLOTS 0, ssi_refine = 0\<rparr> s
                in if ok then buyingstore_searchall_loop conf q b ns s else (False, s))"

definition buyingstore_searchall :: "shop_conf \<Rightarrow> s_search_store_search \<Rightarrow> shopper \<Rightarrow> shopper \<Rightarrow> bool \<times> shopper" where
  "buyingstore_searchall conf q b s =
     (if \<not> sd_buyingstore (pc b) then (True, s) else buyingstore_searchall_loop conf q b (sr_itemlist q) s)"

section \<open>What a sale does\<close>

abbreviation sale_cost :: "shopper \<Rightarrow> int \<times> int \<times> int \<Rightarrow> int" where
  "sale_cost b x \<equiv> snd (snd x) * bs_price (sd_bs_items b ! bs_find b (fst (snd x)))"

definition sale_total :: "shopper \<Rightarrow> (int \<times> int \<times> int) list \<Rightarrow> int" where
  "sale_total b l = sum_list (map (sale_cost b) l)"

text \<open>The pieces of item \<open>k\<close> in a list of things sold.\<close>

definition sale_pieces :: "int \<Rightarrow> (int \<times> int \<times> int) list \<Rightarrow> int" where
  "sale_pieces k l = sum_list (map (\<lambda>(ix, n, am). if n = k then am else 0) l)"

text \<open>The pieces of item \<open>k\<close> the buyer's inventory refuses.\<close>

fun turned_away :: "pc_env \<Rightarrow> int \<Rightarrow> (int \<times> int \<times> int) list \<Rightarrow> shopper \<times> shopper \<Rightarrow> int" where
  "turned_away env k [] sb = 0"
| "turned_away env k (x # l) sb =
     (if fst (pc_additem env (sd_inventory (pc (fst sb)) ! nat (fst x - 2)) (snd (snd x)) (pc (snd sb))) \<noteq> 0 \<and> fst (snd x) = k
      then snd (snd x) else 0) + turned_away env k l (sell_one env x sb)"

text \<open>What one thing sold has passed, when no product of amount and price leaves the range of an \<open>int\<close>.\<close>

definition sale_fits :: "shopper \<Rightarrow> shopper \<Rightarrow> int \<times> int \<times> int \<Rightarrow> bool" where
  "sale_fits s b x \<longleftrightarrow> (case x of (ix, n, am) \<Rightarrow> 2 \<le> ix \<and> ix < 2 + int MAX_INVENTORY \<and>
     i_nameid (sd_inventory (pc s) ! nat (ix - 2)) = n \<and> am \<le> i_amount (sd_inventory (pc s) ! nat (ix - 2)) \<and>
     bs_find b n < sd_bs_slots b)"

lemma bs_find_le: "sd_bs_slots b \<le> length (sd_bs_items b) \<Longrightarrow> bs_find b n \<le> sd_bs_slots b"
  using arr_find_le [of _ "take (sd_bs_slots b) (sd_bs_items b)"] by (simp add: bs_find_def)

lemma sell_check_ok:
  assumes "sell_check env s b seen w z l" "sd_bs_slots b \<le> length (sd_bs_items b)"
    and "\<forall>x \<in> set l. 0 \<le> sale_cost b x \<and> sale_cost b x < 2147483648" "0 \<le> z" "z \<le> sd_bs_zenylimit b" "sd_bs_zenylimit b < 2147483648"
  shows "(\<forall>x \<in> set l. sale_fits s b x) \<and> distinct (map fst l) \<and> (\<forall>x \<in> set l. fst x - 2 \<notin> set seen) \<and>
    z + sale_total b l \<le> sd_bs_zenylimit b"
  using assms(1,3-5)
proof (induction l arbitrary: seen w z)
  case Nil
  then show ?case by (simp add: sale_total_def)
next
  case (Cons x l)
  obtain ix n am where x: "x = (ix, n, am)" by (metis prod_cases3)
  define it where "it = sd_inventory (pc s) ! nat (ix - 2)"
  have cost: "0 \<le> sale_cost b x" "sale_cost b x < 2147483648" using Cons.prems(2) by simp_all
  have lim: "to_int32 (sd_bs_zenylimit b - z) = sd_bs_zenylimit b - z" "to_int32 (am * bs_price (sd_bs_items b ! bs_find b n)) = sale_cost b x"
    using Cons.prems(3,4) assms(6) cost by (simp_all add: x)
  have g: "ix - 2 \<notin> set seen" "2 \<le> ix" "ix < 2 + int MAX_INVENTORY" "i_nameid it = n" "am \<le> i_amount it" "bs_find b n \<noteq> sd_bs_slots b"
      "sale_cost b x \<le> sd_bs_zenylimit b - z"
    and r: "\<exists>w'. sell_check env s b ((ix - 2) # seen) w' (to_int32 (z + sale_cost b x)) l"
    using Cons.prems(1) unfolding x by (auto simp: Let_def it_def lim [unfolded x] split: if_splits option.splits)
  have zz: "to_int32 (z + sale_cost b x) = z + sale_cost b x" using g(7) cost Cons.prems(3) assms(6) by simp
  obtain w' where "sell_check env s b ((ix - 2) # seen) w' (z + sale_cost b x) l" using r zz by auto
  from Cons.IH [OF this] have ih: "(\<forall>x \<in> set l. sale_fits s b x) \<and> distinct (map fst l) \<and> (\<forall>x \<in> set l. fst x - 2 \<notin> set ((ix - 2) # seen)) \<and>
      z + sale_cost b x + sale_total b l \<le> sd_bs_zenylimit b"
    using Cons.prems(2,3) g(7) cost by simp
  have "sale_fits s b x" using g bs_find_le [OF assms(2), of n] by (simp add: sale_fits_def x it_def)
  moreover have "ix \<notin> set (map fst l)" using ih by fastforce
  ultimately show ?case using ih g(1) by (simp add: x sale_total_def add.assoc)
qed

lemma delitem_others:
  assumes "env_ok env" "length (sd_inventory sd) = MAX_INVENTORY" "j < MAX_INVENTORY" "j \<noteq> n"
  shows "i_nameid (sd_inventory (snd (pc_delitem env n a sd)) ! j) = i_nameid (sd_inventory sd ! j)"
proof -
  have "i_nameid (sd_inventory (e_unequipitem env n q) ! j) = i_nameid (sd_inventory q ! j)" if "length (sd_inventory q) = MAX_INVENTORY" for q
    using assms(1,3) that by (simp add: env_ok_def keeps_items_def same_slots_def)
  then show ?thesis using assms(2-4) by (auto simp: pc_delitem_def Let_def split: option.splits)
qed

text \<open>A seller and a buyer between two things sold.\<close>

definition traders :: "pc_env \<Rightarrow> shopper \<times> shopper \<Rightarrow> bool" where
  "traders env sb \<longleftrightarrow> env_ok env \<and> inv_ok (pc (fst sb)) \<and> inv_ok (pc (snd sb)) \<and> fresh env (sd_inventory (pc (fst sb))) \<and>
     0 \<le> sd_zeny (pc (fst sb)) \<and> sd_bs_slots (snd sb) \<le> length (sd_bs_items (snd sb))"

lemma frame_zeny: "pc_frame p = pc_frame q \<Longrightarrow> sd_zeny p = sd_zeny q"
  by (rule pc_frame_sel)

lemma sell_step:
  assumes t: "traders env (s, b)" and x: "x = (ix, n, am)" and f: "sale_fits s b x" "0 < am"
    and c: "0 \<le> sale_cost b x" "sale_cost b x \<le> sd_zeny (pc b)" "sale_cost b x \<le> sd_bs_zenylimit b" "sd_zeny (pc b) \<le> MAX_ZENY"
      "sd_bs_zenylimit b < 2147483648" "sd_zeny (pc s) + sale_cost b x \<le> MAX_ZENY"
    and r: "sell_one env x (s, b) = (s', b')"
  shows "traders env (s', b') \<and> sd_zeny (pc s') = sd_zeny (pc s) + sale_cost b x \<and> sd_zeny (pc b') = sd_zeny (pc b) - sale_cost b x \<and>
    sd_bs_zenylimit b' = sd_bs_zenylimit b - sale_cost b x \<and> sd_bs_slots b' = sd_bs_slots b \<and>
    map bs_nameid (sd_bs_items b') = map bs_nameid (sd_bs_items b) \<and> map bs_price (sd_bs_items b') = map bs_price (sd_bs_items b) \<and>
    total k (sd_inventory (pc s')) = total k (sd_inventory (pc s)) - (if n = k then am else 0) \<and>
    total k (sd_inventory (pc b')) = total k (sd_inventory (pc b)) + (if n = k then am else 0) -
      (if fst (pc_additem env (sd_inventory (pc s) ! nat (ix - 2)) am (pc b)) \<noteq> 0 \<and> n = k then am else 0) \<and>
    (\<forall>j < MAX_INVENTORY. j \<noteq> nat (ix - 2) \<longrightarrow> i_nameid (sd_inventory (pc s') ! j) = i_nameid (sd_inventory (pc s) ! j) \<and>
      i_amount (sd_inventory (pc s') ! j) = i_amount (sd_inventory (pc s) ! j))"
proof -
  define i where "i = nat (ix - 2)"
  define it where "it = sd_inventory (pc s) ! i"
  define kk where "kk = bs_find b n"
  define e where "e = sd_bs_items b ! kk"
  define zeny where "zeny = sale_cost b x"
  obtain fl p where ad: "pc_additem env it am (pc b) = (fl, p)" by fastforce
  have env: "env_ok env" and ok: "inv_ok (pc s)" "inv_ok (pc b)" and fr: "fresh env (sd_inventory (pc s))" and z0: "0 \<le> sd_zeny (pc s)"
    and sl: "sd_bs_slots b \<le> length (sd_bs_items b)"
    using t by (simp_all add: traders_def)
  have len: "length (sd_inventory (pc s)) = MAX_INVENTORY" using ok(1) by (simp add: inv_ok_def)
  have i: "i < MAX_INVENTORY" "i_nameid it = n" "am \<le> i_amount it"
    using f(1) by (auto simp: sale_fits_def x i_def it_def)
  have ex: "not_expired env it" using fresh_nth [OF fr] i(1) len by (simp add: it_def)
  have "(if fl \<noteq> 0 then p = pc b else True)" using pc_additem_ok(1) [OF env ok(2) ex ad] by simp
  then have p: "inv_ok p \<and> pc_frame p = pc_frame (pc b) \<and>
      total k (sd_inventory p) = total k (sd_inventory (pc b)) + (if n = k then am else 0) - (if fl \<noteq> 0 \<and> n = k then am else 0)"
    using pc_additem_ok(2) [OF env ok(2) ex ad, of k] ok(2) i(2) by (cases "fl = 0") auto
  obtain q where q: "pc_delitem env i am (pc s) = (0, q)" "inv_ok q" "pc_frame q = pc_frame (pc s)" "fresh env (sd_inventory q)"
      "\<forall>j < MAX_INVENTORY. i_amount (sd_inventory q ! j) = i_amount (sd_inventory (pc s) ! j) - (if j = i then am else 0)"
      "total k (sd_inventory q) = total k (sd_inventory (pc s)) - (if k = n then am else 0)"
    using pc_delitem_ok [OF env ok(1) i(1) f(2) i(3) [unfolded it_def]] fr i(2) by (auto simp: it_def)
  have nm: "i_nameid (sd_inventory q ! j) = i_nameid (sd_inventory (pc s) ! j)" if "j < MAX_INVENTORY" "j \<noteq> i" for j
    using delitem_others [OF env len that, of am] q(1) by simp
  have zp: "sd_zeny p = sd_zeny (pc b)" "sd_zeny q = sd_zeny (pc s)" using p q(3) frame_zeny by blast+
  have zc: "to_int32 (am * bs_price e) = zeny" "0 \<le> zeny" "zeny \<le> MAX_ZENY"
    using c by (simp_all add: x zeny_def e_def kk_def MAX_ZENY_def)
  have pay: "snd (pc_payzeny zeny p) = p\<lparr>sd_zeny := sd_zeny (pc b) - zeny\<rparr>" "snd (pc_getzeny zeny q) = q\<lparr>sd_zeny := sd_zeny (pc s) + zeny\<rparr>"
    using zp zc c z0 by (simp_all add: pc_payzeny_def pc_getzeny_def cap_value_def zeny_def MAX_ZENY_def)
  have lim: "to_int32 (sd_bs_zenylimit b - zeny) = sd_bs_zenylimit b - zeny" using c zc(2) by (simp add: zeny_def)
  have eq: "s' = s\<lparr>pc := q\<lparr>sd_zeny := sd_zeny (pc s) + zeny\<rparr>\<rparr>"
    "b' = b\<lparr>sd_bs_items := (sd_bs_items b)[kk := e\<lparr>bs_amount := to_uint16 (bs_amount e - am)\<rparr>], pc := p\<lparr>sd_zeny := sd_zeny (pc b) - zeny\<rparr>,
      sd_bs_zenylimit := sd_bs_zenylimit b - zeny\<rparr>"
    using r by (simp_all add: x sell_one_def Let_def i_def [symmetric] it_def [symmetric] kk_def [symmetric] e_def [symmetric] ad q(1) zc(1) pay lim)
  have mp: "map bs_nameid ((sd_bs_items b)[kk := e\<lparr>bs_amount := u\<rparr>]) = map bs_nameid (sd_bs_items b)"
    "map bs_price ((sd_bs_items b)[kk := e\<lparr>bs_amount := u\<rparr>]) = map bs_price (sd_bs_items b)" for u
    by (simp_all add: e_def map_update_same)
  have "inv_ok (q\<lparr>sd_zeny := z\<rparr>)" "inv_ok (p\<lparr>sd_zeny := z\<rparr>)" for z using q(2) p by (simp_all add: inv_ok_def)
  then have "traders env (s', b')" using env q(4) z0 sl zc(2) by (simp add: traders_def eq)
  then show ?thesis
    using p q(5,6) nm ad i(1) by (auto simp: eq mp zeny_def [symmetric] i_def [symmetric] it_def [symmetric])
qed

lemma find_names:
  assumes "map bs_nameid (sd_bs_items b') = map bs_nameid (sd_bs_items b)" "sd_bs_slots b' = sd_bs_slots b"
  shows "bs_find b' n = bs_find b n"
proof -
  have "arr_find (\<lambda>it. bs_nameid it = n) xs = arr_find (\<lambda>k. k = n) (map bs_nameid xs)" for xs :: "s_buyingstore_item list" by (induction xs) auto
  then show ?thesis unfolding bs_find_def by (simp only: take_map [symmetric] assms)
qed

lemma sell_fold:
  assumes "traders env (s, b)" "sd_zeny (pc b) \<le> MAX_ZENY" "sd_bs_zenylimit b \<le> sd_zeny (pc b)" "\<forall>x \<in> set l. sale_fits s b x"
    and "\<forall>x \<in> set l. 0 < snd (snd x) \<and> 0 \<le> sale_cost b x" "distinct (map fst l)" "sale_total b l \<le> sd_bs_zenylimit b"
    and "sd_zeny (pc s) + sale_total b l \<le> MAX_ZENY" "fold (sell_one env) l (s, b) = (s', b')"
  shows "sd_zeny (pc s') = sd_zeny (pc s) + sale_total b l \<and> sd_zeny (pc b') = sd_zeny (pc b) - sale_total b l \<and>
    sd_bs_zenylimit b' = sd_bs_zenylimit b - sale_total b l \<and>
    total k (sd_inventory (pc s')) = total k (sd_inventory (pc s)) - sale_pieces k l \<and>
    total k (sd_inventory (pc b')) = total k (sd_inventory (pc b)) + sale_pieces k l - turned_away env k l (s, b)"
  using assms
proof (induction l arbitrary: s b)
  case Nil
  then show ?case by (simp add: sale_total_def sale_pieces_def)
next
  case (Cons x l)
  obtain ix n am where x: "x = (ix, n, am)" by (metis prod_cases3)
  obtain s1 b1 where r: "sell_one env x (s, b) = (s1, b1)" by fastforce
  have tot: "sale_total b (x # l) = sale_cost b x + sale_total b l" by (simp add: sale_total_def)
  have nn: "0 \<le> sale_total b l" using Cons.prems(5) unfolding sale_total_def by (intro sum_list_nonneg) auto
  have c: "0 \<le> sale_cost b x" "sale_cost b x \<le> sd_zeny (pc b)" "sale_cost b x \<le> sd_bs_zenylimit b" "sd_zeny (pc b) \<le> MAX_ZENY"
    "sd_bs_zenylimit b < 2147483648" "sd_zeny (pc s) + sale_cost b x \<le> MAX_ZENY"
    using Cons.prems(2,3,5,7,8) tot nn by (auto simp: MAX_ZENY_def)
  have "sale_fits s b x" "0 < am" using Cons.prems(4,5) x by auto
  note st = sell_step [OF Cons.prems(1) x this c r, of k]
  have names: "bs_find b1 m = bs_find b m" for m using find_names [of b1 b] st by blast
  have cost: "sale_cost b1 y = sale_cost b y" if "sale_fits s b y" for y
  proof -
    have k: "bs_find b (fst (snd y)) < length (sd_bs_items b)"
      using that Cons.prems(1) by (auto simp: sale_fits_def traders_def split: prod.splits)
    have "map bs_price (sd_bs_items b1) = map bs_price (sd_bs_items b)" using st by blast
    then have "bs_price (sd_bs_items b1 ! bs_find b (fst (snd y))) = bs_price (sd_bs_items b ! bs_find b (fst (snd y)))"
      using k map_eq_imp_length_eq nth_map by metis
    then show ?thesis by (simp add: names)
  qed
  have tot1: "sale_total b1 l = sale_total b l" unfolding sale_total_def
    using cost Cons.prems(4) by (intro arg_cong [of _ _ sum_list] map_cong) auto
  have ot: "\<forall>j < MAX_INVENTORY. j \<noteq> nat (ix - 2) \<longrightarrow> i_nameid (sd_inventory (pc s1) ! j) = i_nameid (sd_inventory (pc s) ! j) \<and>
      i_amount (sd_inventory (pc s1) ! j) = i_amount (sd_inventory (pc s) ! j)" using st by blast
  have sl: "sd_bs_slots b1 = sd_bs_slots b" using st by blast
  have fits: "\<forall>y \<in> set l. sale_fits s1 b1 y"
  proof
    fix y assume y: "y \<in> set l"
    obtain iy ny ay where yy: "y = (iy, ny, ay)" by (metis prod_cases3)
    have fy: "sale_fits s b y" "iy \<noteq> ix" using Cons.prems(4,6) y yy x by force+
    have jx: "2 \<le> ix" using Cons.prems(4) x by (simp add: sale_fits_def)
    have j: "nat (iy - 2) < MAX_INVENTORY" "nat (iy - 2) \<noteq> nat (ix - 2)" using fy jx by (auto simp: sale_fits_def yy)
    then have "i_nameid (sd_inventory (pc s1) ! nat (iy - 2)) = i_nameid (sd_inventory (pc s) ! nat (iy - 2))"
      "i_amount (sd_inventory (pc s1) ! nat (iy - 2)) = i_amount (sd_inventory (pc s) ! nat (iy - 2))" using ot by blast+
    then show "sale_fits s1 b1 y" using fy(1) by (simp add: sale_fits_def yy names sl)
  qed
  have ih: "sd_zeny (pc s') = sd_zeny (pc s1) + sale_total b1 l \<and> sd_zeny (pc b') = sd_zeny (pc b1) - sale_total b1 l \<and>
    sd_bs_zenylimit b' = sd_bs_zenylimit b1 - sale_total b1 l \<and>
    total k (sd_inventory (pc s')) = total k (sd_inventory (pc s1)) - sale_pieces k l \<and>
    total k (sd_inventory (pc b')) = total k (sd_inventory (pc b1)) + sale_pieces k l - turned_away env k l (s1, b1)"
  proof (rule Cons.IH [OF _ _ _ fits])
    show "traders env (s1, b1)" using st by blast
    show "sd_zeny (pc b1) \<le> MAX_ZENY" "sd_bs_zenylimit b1 \<le> sd_zeny (pc b1)" using st c Cons.prems(3) by auto
    show "\<forall>y \<in> set l. 0 < snd (snd y) \<and> 0 \<le> sale_cost b1 y"
    proof
      fix y assume "y \<in> set l"
      then have "0 < snd (snd y) \<and> 0 \<le> sale_cost b y" "sale_fits s b y" using Cons.prems(4,5) by auto
      then show "0 < snd (snd y) \<and> 0 \<le> sale_cost b1 y" by (simp only: cost)
    qed
    show "distinct (map fst l)" using Cons.prems(6) by simp
    show "sale_total b1 l \<le> sd_bs_zenylimit b1" using st Cons.prems(7) tot tot1 by simp
    show "sd_zeny (pc s1) + sale_total b1 l \<le> MAX_ZENY" using st Cons.prems(8) tot tot1 by simp
    show "fold (sell_one env) l (s1, b1) = (s', b')" using Cons.prems(9) r by simp
  qed
  have "turned_away env k (x # l) (s, b) = (if fst (pc_additem env (sd_inventory (pc s) ! nat (ix - 2)) am (pc b)) \<noteq> 0 \<and> n = k then am else 0)
      + turned_away env k l (s1, b1)" using r by (simp add: x)
  moreover have "sale_pieces k (x # l) = (if n = k then am else 0) + sale_pieces k l" by (simp add: sale_pieces_def x)
  ultimately show ?case using ih st tot tot1 by simp
qed

end
