(* ===== verification/Searchstore.thy ===== *)
theory Searchstore
  imports Vending Buyingstore
begin

text \<open>
  The search over all player shops, \<open>src/map/searchstore.c\<close>: opening, asking, paging, clicking
  on a result, closing. The clock is an argument (\<open>now\<close>).
\<close>

definition SEARCHSTORE_RESULTS_PER_PAGE :: int where "SEARCHSTORE_RESULTS_PER_PAGE = 10"

fun searchstore_getsearchfunc :: "searchtype \<Rightarrow> shopper \<Rightarrow> int \<Rightarrow> bool" where
  "searchstore_getsearchfunc SEARCHTYPE_VENDING = vending_search"
| "searchstore_getsearchfunc SEARCHTYPE_BUYING_STORE = buyingstore_search"

fun searchstore_getsearchallfunc :: "shop_conf \<Rightarrow> pc_env \<Rightarrow> searchtype \<Rightarrow> s_search_store_search \<Rightarrow> shopper \<Rightarrow> shopper \<Rightarrow> bool \<times> shopper" where
  "searchstore_getsearchallfunc conf env SEARCHTYPE_VENDING = vending_searchall conf env"
| "searchstore_getsearchallfunc conf env SEARCHTYPE_BUYING_STORE = buyingstore_searchall conf"

fun searchstore_hasstore :: "shopper \<Rightarrow> searchtype \<Rightarrow> bool" where
  "searchstore_hasstore s SEARCHTYPE_VENDING = sd_vending (pc s)"
| "searchstore_hasstore s SEARCHTYPE_BUYING_STORE = sd_buyingstore (pc s)"

fun searchstore_getstoreid :: "shopper \<Rightarrow> searchtype \<Rightarrow> int" where
  "searchstore_getstoreid s SEARCHTYPE_VENDING = sd_vender_id s"
| "searchstore_getstoreid s SEARCHTYPE_BUYING_STORE = sd_buyer_id s"

definition searchstore_open :: "shop_conf \<Rightarrow> int \<Rightarrow> effecttype option \<Rightarrow> shopper \<Rightarrow> bool \<times> shopper" where
  "searchstore_open conf uses effect s =
     (if \<not> feature_search_stores conf \<or> ss_open s then (False, s)
      else (case effect of None \<Rightarrow> (False, s)
        | Some eff \<Rightarrow> if uses = 0 then (False, s) else (True, s\<lparr>ss_open := True, ss_uses := uses, ss_effect := eff\<rparr>)))"

definition searchstore_clear :: "shopper \<Rightarrow> shopper" where
  "searchstore_clear s = (searchstore_clearremote s)\<lparr>ss_items := [], ss_pages := 0\<rparr>"

definition searchstore_close :: "shopper \<Rightarrow> shopper" where
  "searchstore_close s = (if ss_open s then (searchstore_clear s)\<lparr>ss_uses := 0, ss_open := False\<rparr> else s)"

text \<open>The iteration over the table of vending characters.\<close>

fun query_loop :: "shop_conf \<Rightarrow> (shopper \<Rightarrow> shopper \<Rightarrow> bool \<times> shopper) \<Rightarrow> int \<Rightarrow> (int \<Rightarrow> shopper option) \<Rightarrow> int list \<Rightarrow> shopper \<Rightarrow> shopper" where
  "query_loop conf searchall a w [] s = s"
| "query_loop conf searchall a w (t # ts) s =
     (if t = a then query_loop conf searchall a w ts s
      else (case w t of None \<Rightarrow> query_loop conf searchall a w ts s
        | Some v \<Rightarrow> let (ok, s) = searchall v s in if ok then query_loop conf searchall a w ts s else s))"

definition searchstore_query ::
  "shop_conf \<Rightarrow> pc_env \<Rightarrow> int \<Rightarrow> int \<Rightarrow> searchtype option \<Rightarrow> int \<Rightarrow> int \<Rightarrow> int list \<Rightarrow> int list \<Rightarrow> market \<Rightarrow> market" where
  "searchstore_query conf env now a type min_price max_price itemlist cardlist m =
     (case who m a of None \<Rightarrow> m
      | Some s \<Rightarrow>
        if \<not> feature_search_stores conf \<or> \<not> ss_open s then m
        else (case type of None \<Rightarrow> m
          | Some ty \<Rightarrow>
            if ss_nextquerytime s > now then m
            else if ss_uses s = 0 then m
            else if \<exists>i \<in> set itemlist. \<not> e_exists env i then m
            else if \<exists>i \<in> set cardlist. \<not> e_exists env i then m
            else
              let s = searchstore_clear (s\<lparr>ss_uses := ss_uses s - 1, ss_type := ty, ss_nextquerytime := now + searchstore_querydelay conf\<rparr>);
                  q = \<lparr>sr_itemlist = itemlist, sr_cardlist = cardlist,
                       sr_min_price = min min_price max_price, sr_max_price = max min_price max_price\<rparr>;
                  s = query_loop conf (searchstore_getsearchallfunc conf env ty q) a (who m) (db_order conf (vending_db m)) s
              in set_who a (if ss_items s \<noteq> [] then s\<lparr>ss_pages := ss_pages s + 1\<rparr> else searchstore_clear s) m))"

definition searchstore_querynext :: "shopper \<Rightarrow> bool" where
  "searchstore_querynext s \<longleftrightarrow> ss_items s \<noteq> [] \<and> (int (length (ss_items s)) - 1) div SEARCHSTORE_RESULTS_PER_PAGE < ss_pages s"

text \<open>
  \<open>clif_search_store_info_ack\<close>, the packet with a page of results: its length, the flags
  \<open>is first page\<close> and \<open>is next page\<close>, and the position each result is written to.
\<close>

definition ack_blocksize :: nat where "ack_blocksize = MESSAGE_SIZE + 26"

definition search_store_info_ack :: "shopper \<Rightarrow> int \<times> bool \<times> bool \<times> (nat \<times> s_search_store_info_item) list" where
  "search_store_info_ack s =
     (let count = length (ss_items s);
          start = nat (ss_pages s * SEARCHSTORE_RESULTS_PER_PAGE);
          fin = min count (start + nat SEARCHSTORE_RESULTS_PER_PAGE)
      in (to_uint16 (7 + (int fin - int start) * int ack_blocksize), ss_pages s = 0, searchstore_querynext s,
          map (\<lambda>i. (i * ack_blocksize + 7, ss_items s ! i)) [start..<fin]))"

definition searchstore_next :: "shop_conf \<Rightarrow> shopper \<Rightarrow> shopper" where
  "searchstore_next conf s =
     (if \<not> feature_search_stores conf \<or> \<not> ss_open s \<or> int (length (ss_items s)) \<le> ss_pages s * SEARCHSTORE_RESULTS_PER_PAGE then s
      else s\<lparr>ss_pages := ss_pages s + 1\<rparr>)"

definition searchstore_click :: "shop_conf \<Rightarrow> int \<Rightarrow> int \<Rightarrow> int \<Rightarrow> int \<Rightarrow> market \<Rightarrow> market" where
  "searchstore_click conf a account_id store_id nameid m =
     (case who m a of None \<Rightarrow> m
      | Some s \<Rightarrow>
        if \<not> feature_search_stores conf \<or> \<not> ss_open s \<or> ss_items s = [] then m
        else
          let s = searchstore_clearremote s; m = set_who a s m
          in if arr_find (\<lambda>r. to_int32 (ssi_store_id r) = store_id \<and> ssi_account_id r = account_id \<and> ssi_nameid r = nameid) (ss_items s) = length (ss_items s) then m
             else (case who m account_id of None \<Rightarrow> m
               | Some v \<Rightarrow>
                 if \<not> searchstore_hasstore v (ss_type s) \<or> to_int32 (searchstore_getstoreid v (ss_type s)) \<noteq> store_id then m
                 else if \<not> searchstore_getsearchfunc (ss_type s) v nameid then m
                 else (case ss_effect s of
                     EFFECTTYPE_NORMAL \<Rightarrow> m
                   | EFFECTTYPE_CASH \<Rightarrow>
                     let m = set_who a (s\<lparr>ss_remote_id := account_id\<rparr>) m
                     in (case ss_type s of
                           SEARCHTYPE_VENDING \<Rightarrow> vending_vendinglistreq a account_id m
                         | SEARCHTYPE_BUYING_STORE \<Rightarrow> m))))"

section \<open>What a search finds\<close>

text \<open>
  The offers of one store for one item asked for: the first entry of that item, if its price and
  its cards are asked for.
\<close>

definition vend_offer :: "pc_env \<Rightarrow> s_search_store_search \<Rightarrow> shopper \<Rightarrow> int \<Rightarrow> s_search_store_info_item list" where
  "vend_offer env q v n =
     (case List.find (\<lambda>e. i_nameid (sd_cart (pc v) ! nat (vd_index e)) = to_int16 n) (take (sd_vend_num v) (sd_vend_list v)) of
        None \<Rightarrow> []
      | Some e \<Rightarrow>
        let it = sd_cart (pc v) ! nat (vd_index e)
        in if (sr_min_price q = 0 \<or> sr_min_price q \<le> vd_value e) \<and> (sr_max_price q = 0 \<or> vd_value e \<le> sr_max_price q) \<and>
             (sr_cardlist q = [] \<or> \<not> itemdb_isspecial (i_card it ! 0) \<and> card_match (sr_cardlist q) (i_card it) (d_slot (e_search env (i_nameid it))))
           then [\<lparr>ssi_store_id = sd_vender_id v, ssi_account_id = sd_account_id (pc v), ssi_store_name = take (MESSAGE_SIZE - 1) (sd_message v),
                  ssi_nameid = to_uint16 (i_nameid it), ssi_amount = to_uint16 (vd_amount e), ssi_price = vd_value e, ssi_card = i_card it, ssi_refine = i_refine it\<rparr>]
           else [])"

definition vend_offers :: "pc_env \<Rightarrow> s_search_store_search \<Rightarrow> shopper \<Rightarrow> s_search_store_info_item list" where
  "vend_offers env q v = (if sd_vending (pc v) then concat (map (vend_offer env q v) (sr_itemlist q)) else [])"

definition buy_offer :: "s_search_store_search \<Rightarrow> shopper \<Rightarrow> int \<Rightarrow> s_search_store_info_item list" where
  "buy_offer q b n =
     (case List.find (\<lambda>it. bs_nameid it = n \<and> bs_amount it \<noteq> 0) (take (sd_bs_slots b) (sd_bs_items b)) of
        None \<Rightarrow> []
      | Some it \<Rightarrow>
        if (sr_min_price q = 0 \<or> sr_min_price q \<le> to_uint32 (bs_price it)) \<and> (sr_max_price q = 0 \<or> to_uint32 (bs_price it) \<le> sr_max_price q)
        then [\<lparr>ssi_store_id = sd_buyer_id b, ssi_account_id = sd_account_id (pc b), ssi_store_name = take (MESSAGE_SIZE - 1) (sd_message b),
               ssi_nameid = bs_nameid it, ssi_amount = bs_amount it, ssi_price = to_uint32 (bs_price it), ssi_card = replicate MAX_SLOTS 0, ssi_refine = 0\<rparr>]
        else [])"

definition buy_offers :: "s_search_store_search \<Rightarrow> shopper \<Rightarrow> s_search_store_info_item list" where
  "buy_offers q b = (if sd_buyingstore (pc b) then concat (map (buy_offer q b) (sr_itemlist q)) else [])"

text \<open>A well-formed shop list: its number of entries is within the array.\<close>

definition shelves_ok :: "shopper \<Rightarrow> bool" where
  "shelves_ok v \<longleftrightarrow> sd_vend_num v \<le> length (sd_vend_list v) \<and> sd_bs_slots v \<le> length (sd_bs_items v)"

text \<open>
  The contract of a search function with the loop of \<open>searchstore_query\<close>: it appends the offers
  of the store as far as the limit on results allows, and answers whether all found room.
\<close>

locale store_search =
  fixes conf :: shop_conf and searchall :: "shopper \<Rightarrow> shopper \<Rightarrow> bool \<times> shopper"
    and offers :: "shopper \<Rightarrow> s_search_store_info_item list"
  assumes answer: "shelves_ok v \<Longrightarrow> length (ss_items s) \<le> searchstore_maxresults conf \<Longrightarrow>
    searchall v s = (length (ss_items s) + length (offers v) \<le> searchstore_maxresults conf,
      s\<lparr>ss_items := take (searchstore_maxresults conf) (ss_items s @ offers v)\<rparr>)"
begin

lemma query:
  assumes "length (ss_items s) \<le> searchstore_maxresults conf" "\<And>t v. w t = Some v \<Longrightarrow> shelves_ok v"
  shows "query_loop conf searchall a w ts s = s\<lparr>ss_items := take (searchstore_maxresults conf)
    (ss_items s @ concat (map (\<lambda>t. if t = a then [] else case w t of None \<Rightarrow> [] | Some v \<Rightarrow> offers v) ts))\<rparr>"
  using assms(1)
proof (induction ts arbitrary: s)
  case (Cons t ts)
  show ?case
  proof (cases "t = a \<or> w t = None")
    case True
    then show ?thesis using Cons.IH [OF Cons.prems] by auto
  next
    case False
    then obtain v where t: "t \<noteq> a" "w t = Some v" by auto
    define s1 where "s1 = s\<lparr>ss_items := take (searchstore_maxresults conf) (ss_items s @ offers v)\<rparr>"
    have s1: "length (ss_items s1) \<le> searchstore_maxresults conf" by (simp add: s1_def)
    show ?thesis
    proof (cases "length (ss_items s) + length (offers v) \<le> searchstore_maxresults conf")
      case True
      then show ?thesis using t Cons.IH [OF s1] answer [OF assms(2) [OF t(2)] Cons.prems] by (simp add: s1_def)
    next
      case False
      then show ?thesis using t answer [OF assms(2) [OF t(2)] Cons.prems] by simp
    qed
  qed
qed simp

end

lemma find_arr: "List.find p xs = (if arr_find p xs = length xs then None else Some (xs ! arr_find p xs))"
  by (induction xs) auto

lemma find_shelf:
  assumes "k \<le> length xs"
  shows "List.find p (take k xs) = (if arr_find p (take k xs) = k then None else Some (xs ! arr_find p (take k xs)))"
  using assms arr_find_le [of p "take k xs"] by (auto simp: find_arr min_def)

text \<open>One result offered, taken or refused.\<close>

lemma result_take:
  assumes "length (ss_items s) \<le> searchstore_maxresults conf"
  shows "searchstore_result conf it s = (length (ss_items s) + 1 \<le> searchstore_maxresults conf,
    s\<lparr>ss_items := take (searchstore_maxresults conf) (ss_items s @ [it])\<rparr>)"
  using assms by (auto simp: searchstore_result_def)

text \<open>A loop that offers at most one result for each item.\<close>

lemma offer_loop:
  assumes l: "\<And>s. loop [] s = (True, s)"
    and step: "\<And>n ns s. loop (n # ns) s = (case off n of [] \<Rightarrow> loop ns s
      | it # r \<Rightarrow> (let (ok, s) = searchstore_result conf it s in if ok then loop ns s else (False, s)))"
    and one: "\<And>n. length (off n) \<le> 1"
    and len: "length (ss_items s) \<le> searchstore_maxresults conf"
  shows "loop ns s = (length (ss_items s) + length (concat (map off ns)) \<le> searchstore_maxresults conf,
    s\<lparr>ss_items := take (searchstore_maxresults conf) (ss_items s @ concat (map off ns))\<rparr>)"
  using len
proof (induction ns arbitrary: s)
  case (Cons n ns)
  show ?case
  proof (cases "off n")
    case Nil
    then show ?thesis using Cons by (simp add: step)
  next
    case (Cons it r)
    then have o: "off n = [it]" using one [of n] by simp
    define s1 where "s1 = s\<lparr>ss_items := take (searchstore_maxresults conf) (ss_items s @ [it])\<rparr>"
    have s1: "length (ss_items s1) \<le> searchstore_maxresults conf" by (simp add: s1_def)
    show ?thesis using Cons.IH [OF s1] by (auto simp: step o result_take [OF Cons.prems] s1_def take_Cons')
  qed
qed (simp add: l)

lemma vend_offer_one: "length (vend_offer env q v n) \<le> 1"
  by (simp add: vend_offer_def Let_def split: option.splits)

lemma buy_offer_one: "length (buy_offer q b n) \<le> 1"
  by (simp add: buy_offer_def split: option.splits)

interpretation vendors: store_search conf "vending_searchall conf env q" "vend_offers env q" for conf env q
proof
  fix v s :: shopper assume v: "shelves_ok v" and s: "length (ss_items s) \<le> searchstore_maxresults conf"
  have n: "sd_vend_num v \<le> length (sd_vend_list v)" using v by (simp add: shelves_ok_def)
  show "vending_searchall conf env q v s = (length (ss_items s) + length (vend_offers env q v) \<le> searchstore_maxresults conf,
      s\<lparr>ss_items := take (searchstore_maxresults conf) (ss_items s @ vend_offers env q v)\<rparr>)"
  proof (cases "sd_vending (pc v)")
    case True
    have "vending_searchall_loop conf env q v (n # ns) s = (case vend_offer env q v n of [] \<Rightarrow> vending_searchall_loop conf env q v ns s
      | it # r \<Rightarrow> (let (ok, s) = searchstore_result conf it s in if ok then vending_searchall_loop conf env q v ns s else (False, s)))" for n ns s
      by (simp add: vend_offer_def find_shelf [OF n] Let_def not_less [symmetric])
    from offer_loop [of "vending_searchall_loop conf env q v" _ "vend_offer env q v", OF _ this vend_offer_one s]
    show ?thesis using True by (simp add: vending_searchall_def vend_offers_def)
  next
    case False
    then show ?thesis using s by (simp add: vending_searchall_def vend_offers_def)
  qed
qed

interpretation buyers: store_search conf "buyingstore_searchall conf q" "buy_offers q" for conf q
proof
  fix b s :: shopper assume b: "shelves_ok b" and s: "length (ss_items s) \<le> searchstore_maxresults conf"
  have n: "sd_bs_slots b \<le> length (sd_bs_items b)" using b by (simp add: shelves_ok_def)
  show "buyingstore_searchall conf q b s = (length (ss_items s) + length (buy_offers q b) \<le> searchstore_maxresults conf,
      s\<lparr>ss_items := take (searchstore_maxresults conf) (ss_items s @ buy_offers q b)\<rparr>)"
  proof (cases "sd_buyingstore (pc b)")
    case True
    have "buyingstore_searchall_loop conf q b (n # ns) s = (case buy_offer q b n of [] \<Rightarrow> buyingstore_searchall_loop conf q b ns s
      | it # r \<Rightarrow> (let (ok, s) = searchstore_result conf it s in if ok then buyingstore_searchall_loop conf q b ns s else (False, s)))" for n ns s
      by (simp add: buy_offer_def find_shelf [OF n] Let_def not_less [symmetric])
    from offer_loop [of "buyingstore_searchall_loop conf q b" _ "buy_offer q b", OF _ this buy_offer_one s]
    show ?thesis using True by (simp add: buyingstore_searchall_def buy_offers_def)
  next
    case False
    then show ?thesis using s by (simp add: buyingstore_searchall_def buy_offers_def)
  qed
qed

end
