(* ===== verification/Autotrade.thy ===== *)
theory Autotrade
  imports Vending Buyingstore
begin

text \<open>
  The shops of absent owners: what \<open>@autotrade\<close> keeps of a shop, how it is set up again once the
  character server has sent the character, and the rows of the database it goes through
  (\<open>pc_autotrade_*\<close> of \<open>src/map/pc.c\<close>, \<open>buyingstore_autotrade_*\<close> of
  \<open>src/map/buyingstore.c\<close>). The rows a query returns are an argument; the rows an update
  writes are a list.
\<close>

section \<open>Vendors\<close>

definition no_vending :: s_vending where
  "no_vending = \<lparr>vd_index = 0, vd_amount = 0, vd_value = 0\<rparr>"

text \<open>The copy \<open>pc_autotrade_prepare\<close> makes: the items are packed to the front, the shop list is not.\<close>

definition autotrade_copy :: "shopper \<Rightarrow> autotrade_vending" where
  "autotrade_copy s =
     (let items = map (\<lambda>e. sd_cart (pc s) ! nat (vd_index e)) (filter (\<lambda>e. vd_amount e \<noteq> 0) (take (sd_vend_num s) (sd_vend_list s)))
      in \<lparr>at_list = items @ replicate (MAX_VENDING - length items) zero_item, at_vending = sd_vend_list s, at_vend_num = length items\<rparr>)"

definition pc_autotrade_prepare :: "int \<Rightarrow> market \<Rightarrow> market" where
  "pc_autotrade_prepare a m =
     (case who m a of None \<Rightarrow> m
      | Some s \<Rightarrow>
        quit a (if sd_buyingstore (pc s)
                then m\<lparr>bs_at_db := (bs_at_db m)(a \<mapsto> (sd_bs_items s, sd_bs_slots s, sd_bs_zenylimit s))\<rparr>
                else m\<lparr>at_db := (at_db m)(a \<mapsto> autotrade_copy s)\<rparr>))"

text \<open>The comparison of \<open>pc_autotrade_populate\<close>: everything but the number of the row.\<close>

definition same_but_id :: "item \<Rightarrow> item \<Rightarrow> bool" where
  "same_but_id x y \<longleftrightarrow> x\<lparr>i_id := 0\<rparr> = y\<lparr>i_id := 0\<rparr>"

fun populate_loop :: "item list \<Rightarrow> (item \<times> s_vending) list \<Rightarrow> s_vending list \<Rightarrow> nat \<Rightarrow> s_vending list \<times> nat" where
  "populate_loop cart [] vend cursor = (vend, cursor)"
| "populate_loop cart ((it, e) # r) vend cursor =
     (if vd_amount e = 0 then populate_loop cart r vend cursor
      else
        let j = arr_find (\<lambda>j. same_but_id it (cart ! j) \<and> int j \<notin> vd_index ` set (take cursor vend)) [0..<MAX_CART]
        in if j \<noteq> MAX_CART
           then populate_loop cart r (vend[cursor := e\<lparr>vd_index := int j\<rparr>]) (cursor + 1)
           else populate_loop cart r vend cursor)"

definition pc_autotrade_populate :: "autotrade_vending option \<Rightarrow> shopper \<Rightarrow> shopper" where
  "pc_autotrade_populate dat s =
     (case dat of None \<Rightarrow> s
      | Some d \<Rightarrow>
        let (vend, cursor) = populate_loop (sd_cart (pc s)) (zip (take (at_vend_num d) (at_list d)) (at_vending d)) (sd_vend_list s) 0
        in s\<lparr>sd_vend_list := vend, sd_vend_num := cursor\<rparr>)"

text \<open>The rows \<open>pc_autotrade_update\<close> inserts, for \<open>PAUC_START\<close> and \<open>PAUC_REFRESH\<close>.\<close>

definition autotrade_rows :: "shopper \<Rightarrow> (int \<times> int \<times> int) list" where
  "autotrade_rows s = map (\<lambda>e. (i_id (sd_cart (pc s) ! nat (vd_index e)), vd_amount e, vd_value e))
     (filter (\<lambda>e. vd_amount e \<noteq> 0) (take (sd_vend_num s) (sd_vend_list s)))"

text \<open>
  The loop of \<open>pc_autotrade_start\<close> over the rows (item row, amount, price); \<open>None\<close> when the
  shop list is overrun.
\<close>

fun start_loop :: "shop_conf \<Rightarrow> pc_env \<Rightarrow> item list \<Rightarrow> (int \<times> int \<times> int) list \<Rightarrow> s_vending list \<Rightarrow> nat \<Rightarrow> (s_vending list \<times> nat) option" where
  "start_loop conf env cart [] vend cnt = Some (vend, cnt)"
| "start_loop conf env cart ((itemkey, amount, price) # r) vend cnt =
     (let i = arr_find (\<lambda>it. i_id it = itemkey) cart
      in if i \<noteq> MAX_CART \<and> itemdb_isrestricted env (cart ! i) 0 0 itemdb_cantrade_sub
         then let amount = (if amount > i_amount (cart ! i) then i_amount (cart ! i) else amount)
              in if amount \<noteq> 0
                 then if cnt \<ge> MAX_VENDING then None
                      else start_loop conf env cart r
                        (vend[cnt := \<lparr>vd_index = int i, vd_amount = to_int16 amount,
                           vd_value = cap_value (to_uint32 price) 0 (vending_max_value conf)\<rparr>]) (cnt + 1)
                 else start_loop conf env cart r vend cnt
         else start_loop conf env cart r vend cnt)"

definition pc_autotrade_start :: "shop_conf \<Rightarrow> pc_env \<Rightarrow> (int \<times> int \<times> int) list \<Rightarrow> int \<Rightarrow> market \<Rightarrow> market option" where
  "pc_autotrade_start conf env rows a m =
     (case who m a of None \<Rightarrow> Some m
      | Some s \<Rightarrow>
        (case start_loop conf env (sd_cart (pc s)) rows (sd_vend_list s) 0 of
           None \<Rightarrow> None
         | Some (vend, cnt) \<Rightarrow>
           let s = s\<lparr>sd_vend_list := vend\<rparr>
           in if cnt = 0 then Some (quit a (set_who a s m))
              else Some (m\<lparr>who := (who m)(a \<mapsto> on_pc (\<lambda>p. p\<lparr>sd_vending := True\<rparr>)
                              (s\<lparr>sd_autotrade := 1, sd_vender_id := to_uint32 (vending_next_id m + 1), sd_vend_num := cnt\<rparr>)),
                           vending_next_id := to_uint32 (vending_next_id m + 1),
                           vending_db := (if a \<in> set (vending_db m) then vending_db m else vending_db m @ [a])\<rparr>)))"

section \<open>Buyers\<close>

text \<open>The items an absent owner still wants, packed to the front.\<close>

definition still_wanted :: "s_buyingstore_item \<Rightarrow> bool" where
  "still_wanted it \<longleftrightarrow> \<not> (bs_amount it = 0 \<or> bs_nameid it = 0 \<or> bs_price it = 0)"

definition buyingstore_autotrade_populate :: "(s_buyingstore_item list \<times> nat \<times> int) option \<Rightarrow> shopper \<Rightarrow> shopper" where
  "buyingstore_autotrade_populate dat s =
     (case dat of None \<Rightarrow> s
      | Some (items, slots, zenylimit) \<Rightarrow>
        let kept = filter still_wanted (take slots items)
        in s\<lparr>sd_bs_items := kept @ drop (length kept) (sd_bs_items s), sd_bs_slots := length kept, sd_bs_zenylimit := zenylimit\<rparr>)"

text \<open>The rows \<open>buyingstore_autotrade_update\<close> inserts (number, amount, price).\<close>

definition buyingstore_rows :: "shopper \<Rightarrow> (int \<times> int \<times> int) list" where
  "buyingstore_rows s = map (\<lambda>it. (bs_nameid it, bs_amount it, bs_price it)) (filter still_wanted (take (sd_bs_slots s) (sd_bs_items s)))"

fun bs_start_loop :: "shop_conf \<Rightarrow> (int \<times> int \<times> int) list \<Rightarrow> s_buyingstore_item list \<Rightarrow> nat \<Rightarrow> s_buyingstore_item list \<times> nat" where
  "bs_start_loop conf [] items cnt = (items, cnt)"
| "bs_start_loop conf ((item_id, amount, price) # r) items cnt =
     (if cnt \<noteq> MAX_BUYINGSTORE_SLOTS \<and> buyable conf item_id \<and> amount > 0
      then bs_start_loop conf r
        (items[cnt := \<lparr>bs_price = price, bs_amount = to_uint16 amount, bs_nameid = to_uint16 item_id\<rparr>]) (cnt + 1)
      else bs_start_loop conf r items cnt)"

definition buyingstore_autotrade_start :: "shop_conf \<Rightarrow> (int \<times> int \<times> int) list \<Rightarrow> int \<Rightarrow> market \<Rightarrow> market" where
  "buyingstore_autotrade_start conf rows a m =
     (case who m a of None \<Rightarrow> m
      | Some s \<Rightarrow>
        let (items, cnt) = bs_start_loop conf rows (sd_bs_items s) 0;
            s = s\<lparr>sd_bs_items := items, sd_bs_slots := 0\<rparr>
        in if cnt = 0 then quit a (set_who a s m)
           else set_who a (on_pc (\<lambda>p. p\<lparr>sd_buyingstore := True\<rparr>)
                  (s\<lparr>sd_autotrade := 1, sd_buyer_id := buyingstore_nextid m, sd_bs_slots := cnt\<rparr>))
                  (m\<lparr>buyingstore_nextid := to_uint32 (buyingstore_nextid m + 1)\<rparr>))"

text \<open>
  The part of \<open>pc_scdata_received\<close> for a character that stands alone, without a client: its shop
  is set up again.
\<close>

definition autotrade_arrive :: "shop_conf \<Rightarrow> pc_env \<Rightarrow> (int \<times> int \<times> int) list \<Rightarrow> int \<Rightarrow> market \<Rightarrow> market option" where
  "autotrade_arrive conf env rows a m =
     (case who m a of None \<Rightarrow> Some m
      | Some s \<Rightarrow>
        if sd_buyingstore (pc s)
        then Some (buyingstore_autotrade_start conf rows a
               (set_who a (buyingstore_autotrade_populate (bs_at_db m a) s) (m\<lparr>bs_at_db := (bs_at_db m)(a := None)\<rparr>)))
        else pc_autotrade_start conf env rows a
               (set_who a (pc_autotrade_populate (at_db m a) s) (m\<lparr>at_db := (at_db m)(a := None)\<rparr>)))"

end
