(* ===== verification/Market.thy ===== *)
theory Market
  imports Searchstore Autotrade
begin

text \<open>
  The shops together: every operation of vending, buying stores, search store and absent owners
  as one step of the world, the invariant of the reachable worlds, and what it gives for the
  search over all shops.
\<close>

section \<open>Flags survive the moving of items\<close>

definition flags :: "map_session_data \<Rightarrow> bool \<times> bool" where
  "flags p = (sd_vending p, sd_buyingstore p)"

text \<open>What is assumed of equipping and of expiring: they do not open or close a shop.\<close>

definition calm :: "pc_env \<Rightarrow> bool" where
  "calm env \<longleftrightarrow> (\<forall>i p. flags (e_equipitem env i p) = flags p \<and> flags (e_unequipitem env i p) = flags p \<and> flags (e_rental_expire env i p) = flags p)"

lemma calmD:
  assumes "calm env"
  shows "flags (e_equipitem env i p) = flags p" "flags (e_unequipitem env i p) = flags p" "flags (e_rental_expire env i p) = flags p"
  using assms by (simp_all add: calm_def)

lemma additem_flags: "calm env \<Longrightarrow> flags (snd (pc_additem env it a p)) = flags p"
proof -
  assume c: "calm env"
  have f: "flags (additem_finish env it d w i q) = flags q" for d w i q
  proof -
    have "flags (additem_serial it d i q) = flags q"
      by (simp add: additem_serial_def itemdb_unique_id_def flags_def)
    then have "flags ((additem_serial it d i q)\<lparr>sd_weight := u\<rparr>) = flags q" for u by (simp add: flags_def)
    then show ?thesis by (simp add: additem_finish_def Let_def calmD [OF c])
  qed
  show ?thesis
    by (auto simp: pc_additem_def Let_def f simp del: split_paired_All split: option.splits) (simp_all add: flags_def)
qed

lemma delitem_flags: "calm env \<Longrightarrow> flags (snd (pc_delitem env n a p)) = flags p"
  using calmD(2) [of env] by (auto simp: pc_delitem_def Let_def flags_def split: option.splits)

lemma cart_delitem_flags: "flags (snd (pc_cart_delitem env n a p)) = flags p"
  by (simp add: pc_cart_delitem_def Let_def flags_def)

lemma zeny_flags [simp]: "flags (snd (pc_payzeny z p)) = flags p" "flags (snd (pc_getzeny z p)) = flags p"
  by (simp_all add: pc_payzeny_def pc_getzeny_def Let_def flags_def)

lemmas move_flags = additem_flags delitem_flags cart_delitem_flags

lemma flagsD: "flags p = flags q \<Longrightarrow> sd_vending p = sd_vending q" "flags p = flags q \<Longrightarrow> sd_buyingstore p = sd_buyingstore q"
  by (simp_all add: flags_def)

section \<open>The invariant\<close>

definition entry_ok :: "shop_conf \<Rightarrow> s_vending \<Rightarrow> bool" where
  "entry_ok conf e \<longleftrightarrow> 0 \<le> vd_index e \<and> vd_index e < int MAX_CART \<and> 0 \<le> vd_value e \<and> vd_value e \<le> vending_max_value conf"

definition shop_ok :: "shop_conf \<Rightarrow> shopper \<Rightarrow> bool" where
  "shop_ok conf s \<longleftrightarrow> length (sd_vend_list s) = MAX_VENDING \<and> sd_vend_num s \<le> MAX_VENDING \<and> (\<forall>e \<in> set (shelf s). entry_ok conf e) \<and>
     length (sd_bs_items s) = MAX_BUYINGSTORE_SLOTS \<and> sd_bs_slots s \<le> MAX_BUYINGSTORE_SLOTS \<and>
     length (ss_items s) \<le> searchstore_maxresults conf \<and> \<not> (sd_vending (pc s) \<and> sd_buyingstore (pc s))"

definition kept_ok :: "shop_conf \<Rightarrow> autotrade_vending \<Rightarrow> bool" where
  "kept_ok conf d \<longleftrightarrow> length (at_list d) = MAX_VENDING \<and> length (at_vending d) = MAX_VENDING \<and> at_vend_num d \<le> MAX_VENDING \<and>
     (\<forall>e \<in> set (take (at_vend_num d) (at_vending d)). entry_ok conf e)"

definition bs_kept_ok :: "s_buyingstore_item list \<times> nat \<times> int \<Rightarrow> bool" where
  "bs_kept_ok d \<longleftrightarrow> length (fst d) = MAX_BUYINGSTORE_SLOTS \<and> fst (snd d) \<le> MAX_BUYINGSTORE_SLOTS"

definition market_ok :: "shop_conf \<Rightarrow> market \<Rightarrow> bool" where
  "market_ok conf m \<longleftrightarrow>
     (\<forall>a s. who m a = Some s \<longrightarrow> shop_ok conf s \<and> (sd_vending (pc s) \<longleftrightarrow> a \<in> set (vending_db m))) \<and>
     set (vending_db m) \<subseteq> dom (who m) \<and> distinct (vending_db m) \<and>
     (\<forall>a d. at_db m a = Some d \<longrightarrow> kept_ok conf d) \<and> (\<forall>a d. bs_at_db m a = Some d \<longrightarrow> bs_kept_ok d)"

lemma market_okD: "market_ok conf m \<Longrightarrow> who m a = Some s \<Longrightarrow> shop_ok conf s"
  by (simp add: market_ok_def)

text \<open>A character changes and stays as it was in the table of vendors.\<close>

lemma set_who_ok:
  assumes "market_ok conf m" "who m a = Some s" "shop_ok conf s'" "sd_vending (pc s') = sd_vending (pc s)"
  shows "market_ok conf (set_who a s' m)"
  using assms by (auto simp: market_ok_def set_who_def)

lemma leave_ok:
  assumes "market_ok conf m"
  shows "market_ok conf (quit a m)"
  using assms by (auto simp: market_ok_def quit_def distinct_removeAll)

lemma enter_table_ok:
  assumes "market_ok conf m" "who m a = Some s" "shop_ok conf s'" "sd_vending (pc s')"
  shows "market_ok conf (m\<lparr>who := (who m)(a \<mapsto> s'), vending_next_id := n,
    vending_db := (if a \<in> set (vending_db m) then vending_db m else vending_db m @ [a])\<rparr>)"
  using assms by (auto simp: market_ok_def)

lemma nextid_ok [simp]: "market_ok conf (m\<lparr>buyingstore_nextid := n\<rparr>) = market_ok conf m"
  by (simp add: market_ok_def)

lemma set_who_who [simp]: "who (set_who a s m) = (who m)(a \<mapsto> s)"
  by (simp add: set_who_def)

section \<open>Steps of vendors\<close>

lemma close_ok:
  assumes "market_ok conf m"
  shows "market_ok conf (vending_closevending a m)"
  using assms by (auto simp: market_ok_def vending_closevending_def set_who_def shop_ok_def shelf_def distinct_removeAll split: option.splits)

lemma list_ok:
  assumes "market_ok conf m"
  shows "market_ok conf (vending_vendinglistreq a i m)"
proof -
  have "shop_ok conf (s\<lparr>sd_vended_id := n\<rparr>) = shop_ok conf s" for s n by (simp add: shop_ok_def shelf_def)
  then show ?thesis
    using assms market_okD [OF assms] by (auto simp: vending_vendinglistreq_def intro!: set_who_ok split: option.splits)
qed

lemma entries_ok:
  assumes "0 \<le> vending_max_value conf"
  shows "\<forall>e \<in> set (vending_entries conf env p data). entry_ok conf e" "length (vending_entries conf env p data) \<le> length data"
proof -
  show "\<forall>e \<in> set (vending_entries conf env p data). entry_ok conf e"
    using assms cap_value_range [of 0 "vending_max_value conf"]
    by (auto simp: vending_entries_def List.map_filter_def entry_ok_def vendable_def Let_def split: if_splits)
  show "length (vending_entries conf env p data) \<le> length data"
    by (simp add: vending_entries_def List.map_filter_def)
qed

lemma open_ok:
  assumes m: "market_ok conf m" and v: "0 \<le> vending_max_value conf"
  shows "market_ok conf (vending_openvending conf env a message data m)"
proof (cases "who m a")
  case None
  then show ?thesis using m by (simp add: vending_openvending_def)
next
  case (Some s)
  define vend where "vend = vending_entries conf env (pc s) data"
  define l where "l = vend @ drop (length vend) (sd_vend_list s)"
  have s: "shop_ok conf s" by (rule market_okD [OF m Some])
  show ?thesis
  proof (cases "sd_dead s \<or> \<not> sd_prevend s \<or> pc_istrading s \<or> sd_vending_skill s = 0 \<or> \<not> sd_carton s \<or>
      length data < 1 \<or> length data > MAX_VENDING \<or> int (length data) > 2 + sd_vending_skill s")
    case True
    then show ?thesis using m Some by (auto simp: vending_openvending_def)
  next
    case False
    have ve: "\<forall>e \<in> set vend. entry_ok conf e" "length vend \<le> MAX_VENDING"
      using entries_ok [OF v, of env "pc s" data] False by (simp_all add: vend_def)
    have l: "length l = MAX_VENDING" "take (length vend) l = vend"
      using s ve(2) by (simp_all add: l_def shop_ok_def)
    define s' where "s' = on_pc (\<lambda>p. p\<lparr>sd_vending := True\<rparr>)
      (s\<lparr>sd_vend_list := l, sd_prevend := False, sd_workinprogress := False, sd_vender_id := vending_next_id m,
         sd_vend_num := length vend, sd_message := take (MESSAGE_SIZE - 1) message\<rparr>)"
    have "shop_ok conf s'" using s ve l False by (simp add: s'_def shop_ok_def shelf_def pc_istrading_def)
    moreover have "l = sd_vend_list s" if "vend = []" using that by (simp add: l_def)
    moreover have "market_ok conf (set_who a (s\<lparr>sd_vend_list := sd_vend_list s\<rparr>) m)"
      using set_who_ok [OF m Some s] by simp
    ultimately show ?thesis
      using False Some enter_table_ok [OF m Some, of s'] m
      unfolding vending_openvending_def Some option.case Let_def vend_def [symmetric] l_def [symmetric] s'_def [symmetric]
      by (auto simp: s'_def)
  qed
qed

text \<open>What a purchase leaves alone: of the buyer all but \<open>pc\<close>, of the vendor positions and prices too.\<close>

lemma move_frame:
  assumes "calm env" "purchase_move env data js s v = (s', v')"
  shows "flags (pc s') = flags (pc s) \<and> flags (pc v') = flags (pc v) \<and> s' = s\<lparr>pc := pc s'\<rparr> \<and>
    v' = v\<lparr>pc := pc v', sd_vend_list := sd_vend_list v'\<rparr> \<and>
    map vd_index (sd_vend_list v') = map vd_index (sd_vend_list v) \<and> map vd_value (sd_vend_list v') = map vd_value (sd_vend_list v)"
  using assms(2)
proof (induction data arbitrary: js s v)
  case Nil
  then show ?case by simp
next
  case (Cons d r)
  obtain a b where d: "d = (a, b)" by fastforce
  show ?case
  proof (cases js)
    case Nil
    then show ?thesis using Cons.prems by simp
  next
    case js: (Cons j js')
    let ?amount = "to_int16 a" and ?idx = "nat (to_int16 (to_int16 b - 2))"
    define s1 where "s1 = on_pc (\<lambda>p. snd (pc_additem env (sd_cart (pc v) ! ?idx) ?amount p)) s"
    define e where "e = sd_vend_list v ! j"
    define l where "l = (sd_vend_list v)[j := e\<lparr>vd_amount := to_int16 (vd_amount e - ?amount)\<rparr>]"
    define v1 where "v1 = on_pc (\<lambda>p. snd (pc_cart_delitem env ?idx ?amount p)) (v\<lparr>sd_vend_list := l\<rparr>)"
    have r: "purchase_move env r js' s1 v1 = (s', v')"
      using Cons.prems by (simp add: d js Let_def s1_def v1_def l_def e_def)
    have l: "map vd_index l = map vd_index (sd_vend_list v)" "map vd_value l = map vd_value (sd_vend_list v)"
      by (simp_all add: l_def e_def map_update_same)
    have "flags (pc s1) = flags (pc s)" "flags (pc v1) = flags (pc v)"
      using additem_flags [OF assms(1)] by (simp_all add: s1_def v1_def cart_delitem_flags)
    then show ?thesis using Cons.IH [OF r] l by (simp add: s1_def v1_def)
  qed
qed

lemma compact_ok:
  assumes "shop_ok conf v"
  shows "shop_ok conf (compact_vending v)"
proof -
  define kept where "kept = filter (\<lambda>e. vd_amount e \<noteq> 0) (take (sd_vend_num v) (sd_vend_list v))"
  have "length kept \<le> sd_vend_num v" using length_filter_le [of _ "take (sd_vend_num v) (sd_vend_list v)"] by (auto simp: kept_def intro: order_trans)
  moreover have "\<forall>e \<in> set kept. entry_ok conf e" using assms by (auto simp: kept_def shop_ok_def shelf_def)
  ultimately show ?thesis
    using assms by (simp add: compact_vending_def kept_def [symmetric] Let_def shop_ok_def shelf_def)
qed

lemma shelf_entries:
  assumes "map vd_index l' = map vd_index l" "map vd_value l' = map vd_value l" "\<forall>e \<in> set (take n l). entry_ok conf e"
  shows "length l' = length l" "\<forall>e \<in> set (take n l'). entry_ok conf e"
proof -
  show len: "length l' = length l" using map_eq_imp_length_eq [OF assms(1)] .
  show "\<forall>e \<in> set (take n l'). entry_ok conf e"
  proof
    fix e assume "e \<in> set (take n l')"
    then obtain i where i: "i < length l'" "i < n" "e = l' ! i" by (auto simp: in_set_conv_nth)
    then have "l ! i \<in> set (take n l)" using len by (metis length_take min_less_iff_conj nth_mem nth_take)
    then have "entry_ok conf (l ! i)" using assms(3) by blast
    moreover have "vd_index e = vd_index (l ! i)" "vd_value e = vd_value (l ! i)"
      using i len nth_map [of i l' vd_index] nth_map [of i l vd_index] nth_map [of i l' vd_value] nth_map [of i l vd_value] assms by auto
    ultimately show "entry_ok conf e" by (simp add: entry_ok_def)
  qed
qed

lemma pc_pc: "s\<lparr>pc := p, pc := q\<rparr> = s\<lparr>pc := q\<rparr>"
  by simp

lemma deal_ok:
  assumes c: "calm env" and s: "shop_ok conf s" "shop_ok conf v" and d: "purchase_deal conf env data js z s v = (s', v')"
  shows "shop_ok conf s' \<and> shop_ok conf v' \<and> flags (pc s') = flags (pc s) \<and> flags (pc v') = flags (pc v)"
proof -
  define s1 where "s1 = on_pc (\<lambda>p. snd (pc_payzeny z p)) s"
  define g where "g = (if vending_tax conf \<noteq> 0 then z - apply_percentrate64 z (vending_tax conf) 10000 else z)"
  define v1 where "v1 = on_pc (\<lambda>p. snd (pc_getzeny (to_int32 g) p)) v"
  obtain s2 v2 where m: "purchase_move env data js s1 v1 = (s2, v2)" by fastforce
  have r: "s' = s2" "v' = compact_vending v2"
    using d m by (simp_all add: purchase_deal_def Let_def s1_def v1_def g_def split: if_splits)
  note f = move_frame [OF c m]
  have "flags (pc s2) = flags (pc s1)" "flags (pc v2) = flags (pc v1)" using f by blast+
  then have 2: "flags (pc s2) = flags (pc s)" "flags (pc v2) = flags (pc v)" by (simp_all add: s1_def v1_def)
  have "map vd_index (sd_vend_list v2) = map vd_index (sd_vend_list v1)" "map vd_value (sd_vend_list v2) = map vd_value (sd_vend_list v1)"
    using f by blast+
  then have mp: "map vd_index (sd_vend_list v2) = map vd_index (sd_vend_list v)" "map vd_value (sd_vend_list v2) = map vd_value (sd_vend_list v)"
    by (simp_all add: v1_def)
  have eq: "s2 = s\<lparr>pc := pc s2\<rparr>" "v2 = v\<lparr>pc := pc v2, sd_vend_list := sd_vend_list v2\<rparr>"
  proof -
    have e: "s2 = s1\<lparr>pc := pc s2\<rparr>" "v2 = v1\<lparr>pc := pc v2, sd_vend_list := sd_vend_list v2\<rparr>" using f by blast+
    show "s2 = s\<lparr>pc := pc s2\<rparr>" by (rule e(1) [unfolded s1_def pc_pc])
    show "v2 = v\<lparr>pc := pc v2, sd_vend_list := sd_vend_list v2\<rparr>" by (rule e(2) [unfolded v1_def pc_pc])
  qed
  have sh: "length (sd_vend_list v2) = length (sd_vend_list v)" "\<forall>e \<in> set (take (sd_vend_num v) (sd_vend_list v2)). entry_ok conf e"
    using shelf_entries [OF mp, of "sd_vend_num v" conf] s(2) by (simp_all add: shop_ok_def shelf_def)
  have "shop_ok conf (s\<lparr>pc := pc s2\<rparr>)" using s(1) flagsD [OF 2(1)] by (simp add: shop_ok_def shelf_def)
  then have "shop_ok conf s2" by (simp only: eq(1) [symmetric])
  moreover have "shop_ok conf (v\<lparr>pc := pc v2, sd_vend_list := sd_vend_list v2\<rparr>)"
    using s(2) sh flagsD [OF 2(2)] by (simp add: shop_ok_def shelf_def)
  then have "shop_ok conf v2" by (simp only: eq(2) [symmetric])
  ultimately show ?thesis using 2 compact_ok r by simp
qed

lemma clearremote_ok [simp]: "shop_ok conf (searchstore_clearremote s) = shop_ok conf s" "pc (searchstore_clearremote s) = pc s"
  by (simp_all add: searchstore_clearremote_def shop_ok_def shelf_def)

lemma purchase_ok:
  assumes c: "calm env" and m: "market_ok conf m"
  shows "market_ok conf (vending_purchasereq conf env a aid uid data m)"
proof (cases "who m a = None \<or> who m aid = None \<or> aid = a")
  case True
  then show ?thesis using m by (auto simp: vending_purchasereq_def split: option.splits)
next
  case False
  then obtain s v where w: "who m a = Some s" "who m aid = Some v" "aid \<noteq> a" by auto
  define s1 where "s1 = searchstore_clearremote s"
  define m1 where "m1 = set_who a s1 m"
  have s1: "shop_ok conf s1" "shop_ok conf v" "sd_vending (pc s1) = sd_vending (pc s)"
    using market_okD [OF m w(1)] market_okD [OF m w(2)] by (simp_all add: s1_def)
  have m1: "market_ok conf m1" unfolding m1_def by (rule set_who_ok [OF m w(1) s1(1,3)])
  have deal: "market_ok conf (set_who aid v' (set_who a s' m1))" if "purchase_deal conf env data js z s1 v = (s', v')" for js z s' v'
  proof -
    have d: "shop_ok conf s'" "shop_ok conf v'" "sd_vending (pc s') = sd_vending (pc s1)" "sd_vending (pc v') = sd_vending (pc v)"
      using deal_ok [OF c s1(1,2) that] by (simp_all add: flags_def)
    have "market_ok conf (set_who a s' m1)" by (rule set_who_ok [OF m1 _ d(1,3)]) (simp add: m1_def)
    then show ?thesis by (rule set_who_ok [OF _ _ d(2,4)]) (use w in \<open>simp add: m1_def\<close>)
  qed
  show ?thesis
    unfolding vending_purchasereq_def w option.case prod.case Let_def s1_def [symmetric] m1_def [symmetric]
    using m m1 deal by (auto split: option.splits prod.splits intro!: leave_ok close_ok)
qed

section \<open>Steps of buying stores\<close>

lemma setup_ok:
  assumes "market_ok conf m"
  shows "market_ok conf (snd (buyingstore_setup conf a slots m))"
proof (cases "who m a")
  case (Some s)
  have "shop_ok conf (s\<lparr>sd_bs_slots := n\<rparr>)" if "n \<le> MAX_BUYINGSTORE_SLOTS" for n
    using market_okD [OF assms Some] that by (simp add: shop_ok_def shelf_def)
  then show ?thesis
    using assms Some by (auto simp: buyingstore_setup_def Let_def intro!: set_who_ok)
qed (use assms in \<open>simp add: buyingstore_setup_def\<close>)

lemma create_loop_length: "create_loop conf env p i w items l = (ok, w', items') \<Longrightarrow> length items' = length items"
  by (induction conf env p i w items l arbitrary: ok w' items' rule: create_loop.induct)
    (auto simp: Let_def split: if_splits option.splits)

lemma create_ok:
  assumes "market_ok conf m"
  shows "market_ok conf (snd (buyingstore_create conf env a zenylimit result storename itemlist m))"
proof (cases "who m a")
  case (Some s)
  note s = market_okD [OF assms Some]
  obtain ok w items where c: "create_loop conf env (pc s) 0 (sd_weight (pc s)) (sd_bs_items s) itemlist = (ok, w, items)"
    by (metis prod_cases3)
  have len: "length items = MAX_BUYINGSTORE_SLOTS" using create_loop_length [OF c] s by (simp add: shop_ok_def)
  have 1: "shop_ok conf (s\<lparr>sd_bs_slots := 0\<rparr>)" "shop_ok conf (s\<lparr>sd_bs_items := items, sd_bs_slots := 0\<rparr>)"
    using s len by (simp_all add: shop_ok_def shelf_def)
  have 2: "shop_ok conf (on_pc (\<lambda>p. p\<lparr>sd_buyingstore := True\<rparr>) (s\<lparr>sd_bs_items := items, sd_autotrade := x, sd_buyer_id := y,
      sd_bs_zenylimit := z, sd_bs_slots := length itemlist, sd_message := n\<rparr>))"
    if "\<not> pc_istrading s" "length itemlist \<le> sd_bs_slots s" for x y z n
    using s len that by (simp add: shop_ok_def shelf_def pc_istrading_def)
  have st: "market_ok conf (set_who a s' m)" "market_ok conf (set_who a s' (m\<lparr>buyingstore_nextid := n\<rparr>))"
    if "shop_ok conf s'" "sd_vending (pc s') = sd_vending (pc s)" for s' n
    using set_who_ok [OF assms Some that] set_who_ok [of conf "m\<lparr>buyingstore_nextid := n\<rparr>", OF _ _ that] assms Some by simp_all
  show ?thesis
    unfolding buyingstore_create_def Some option.case c Let_def prod.case
    using assms 1 2 by (simp add: st)
qed (use assms in \<open>simp add: buyingstore_create_def\<close>)

lemma bs_close_ok:
  assumes "market_ok conf m"
  shows "market_ok conf (buyingstore_close a m)"
proof (cases "who m a")
  case (Some s)
  then show ?thesis
    using assms market_okD [OF assms Some]
    by (auto simp: buyingstore_close_def shop_ok_def shelf_def intro!: set_who_ok)
qed (use assms in \<open>simp add: buyingstore_close_def\<close>)

text \<open>A store and a seller keep their shape, and their flags, in a sale.\<close>

definition pair_ok :: "shop_conf \<Rightarrow> shopper \<times> shopper \<Rightarrow> shopper \<times> shopper \<Rightarrow> bool" where
  "pair_ok conf x y \<longleftrightarrow> shop_ok conf (fst y) \<and> shop_ok conf (snd y) \<and>
     flags (pc (fst y)) = flags (pc (fst x)) \<and> flags (pc (snd y)) = flags (pc (snd x))"

lemma shop_ok_pc: "flags p = flags (pc s) \<Longrightarrow> shop_ok conf (s\<lparr>pc := p\<rparr>) = shop_ok conf s"
  by (simp add: shop_ok_def shelf_def flags_def)

lemma sell_one_ok:
  assumes "calm env" "shop_ok conf s" "shop_ok conf b"
  shows "pair_ok conf (s, b) (sell_one env x (s, b))"
proof -
  obtain ix n am where x: "x = (ix, n, am)" by (metis prod_cases3)
  have bs: "shop_ok conf (q\<lparr>sd_bs_items := (sd_bs_items q)[k := e]\<rparr>) = shop_ok conf q" "shop_ok conf (q\<lparr>sd_bs_zenylimit := z\<rparr>) = shop_ok conf q"
    for q k e z by (simp_all add: shop_ok_def shelf_def)
  show ?thesis
    using assms(2,3) by (simp add: x sell_one_def Let_def pair_ok_def shop_ok_pc bs additem_flags [OF assms(1)] delitem_flags [OF assms(1)])
qed

lemma sell_all_ok:
  assumes "calm env"
  shows "pair_ok conf x y \<Longrightarrow> pair_ok conf x (fold (sell_one env) l y)"
proof (induction l arbitrary: y)
  case (Cons d l)
  have "pair_ok conf y (sell_one env d y)"
    using sell_one_ok [OF assms, of conf "fst y" "snd y" d] Cons.prems by (simp add: pair_ok_def)
  then have "pair_ok conf x (sell_one env d y)" using Cons.prems by (simp add: pair_ok_def)
  then show ?case using Cons.IH by simp
qed simp

lemma sale_ok:
  assumes c: "calm env" and m: "market_ok conf m"
  shows "market_ok conf (buyingstore_trade conf env a account_id buyer_id l m)"
proof (cases "who m a = None \<or> who m account_id = None \<or> (\<exists>s. who m a = Some s \<and> pc_istrading s) \<or>
    (\<exists>b. who m account_id = Some b \<and> \<not> sd_buyingstore (pc b))")
  case True
  then show ?thesis using m by (auto simp: buyingstore_trade_def split: option.splits)
next
  case False
  then obtain s b where w: "who m a = Some s" "who m account_id = Some b" "\<not> pc_istrading s" "sd_buyingstore (pc b)" by auto
  then have ne: "account_id \<noteq> a" by (auto simp: pc_istrading_def)
  define s1 where "s1 = searchstore_clearremote s"
  define b1 where "b1 = (if sd_zeny (pc b) < sd_bs_zenylimit b then b\<lparr>sd_bs_zenylimit := sd_zeny (pc b)\<rparr> else b)"
  define m1 where "m1 = set_who account_id b1 (set_who a s1 m)"
  have sb: "shop_ok conf s1" "shop_ok conf b1" "pc s1 = pc s" "pc b1 = pc b"
  proof -
    show "shop_ok conf s1" "pc s1 = pc s" using market_okD [OF m w(1)] by (simp_all add: s1_def)
    show "shop_ok conf b1" "pc b1 = pc b" using market_okD [OF m w(2)] by (simp_all add: b1_def shop_ok_def shelf_def)
  qed
  have two: "market_ok conf (set_who account_id b' (set_who a s' n))"
    if "market_ok conf n" "who n a = Some s0" "who n account_id = Some b0" "shop_ok conf s'" "shop_ok conf b'"
      "sd_vending (pc s') = sd_vending (pc s0)" "sd_vending (pc b') = sd_vending (pc b0)" for n s0 b0 s' b'
    using set_who_ok [OF set_who_ok [OF that(1,2,4,6)] _ that(5), of account_id b0] that(3,7) ne by simp
  have m1: "market_ok conf m1" unfolding m1_def by (rule two [OF m w(1,2) sb(1,2)]) (simp_all add: sb)
  obtain s2 b2 where f: "fold (sell_one env) l (s1, b1) = (s2, b2)" by fastforce
  have p: "pair_ok conf (s1, b1) (s2, b2)"
    using sell_all_ok [OF c, of conf "(s1, b1)" "(s1, b1)" l] sb f by (simp add: pair_ok_def)
  have m2: "market_ok conf (set_who account_id b2 (set_who a s2 m1))"
    by (rule two [OF m1, of s1 b1]) (use p ne in \<open>auto simp: pair_ok_def m1_def dest: flagsD\<close>)
  show ?thesis
    unfolding buyingstore_trade_def w option.case Let_def s1_def [symmetric] b1_def [symmetric] m1_def [symmetric] f prod.case
    using m m1 m2 bs_close_ok [OF m2] leave_ok by auto
qed

section \<open>Steps of the search store\<close>

lemma shop_shelves: "shop_ok conf s \<Longrightarrow> shelves_ok s"
  by (simp add: shop_ok_def shelves_ok_def)

definition offers_of :: "pc_env \<Rightarrow> searchtype \<Rightarrow> s_search_store_search \<Rightarrow> shopper \<Rightarrow> s_search_store_info_item list" where
  "offers_of env ty q v = (case ty of SEARCHTYPE_VENDING \<Rightarrow> vend_offers env q v | SEARCHTYPE_BUYING_STORE \<Rightarrow> buy_offers q v)"

text \<open>All offers of the market, in the order the table of vendors is visited.\<close>

definition all_offers :: "shop_conf \<Rightarrow> pc_env \<Rightarrow> searchtype \<Rightarrow> s_search_store_search \<Rightarrow> int \<Rightarrow> market \<Rightarrow> s_search_store_info_item list" where
  "all_offers conf env ty q a m = concat (map (\<lambda>t. if t = a then [] else case who m t of None \<Rightarrow> [] | Some v \<Rightarrow> offers_of env ty q v)
     (db_order conf (vending_db m)))"

lemma query_offers:
  assumes "market_ok conf m" "length (ss_items s) \<le> searchstore_maxresults conf"
  shows "query_loop conf (searchstore_getsearchallfunc conf env ty q) a (who m) (db_order conf (vending_db m)) s =
    s\<lparr>ss_items := take (searchstore_maxresults conf) (ss_items s @ all_offers conf env ty q a m)\<rparr>"
proof -
  have w: "shelves_ok v" if "who m t = Some v" for t v using market_okD [OF assms(1) that] by (rule shop_shelves)
  show ?thesis
  proof (cases ty)
    case SEARCHTYPE_VENDING
    then show ?thesis using vendors.query [OF assms(2), of "who m" env q a "db_order conf (vending_db m)"] w
      by (simp add: all_offers_def offers_of_def cong: option.case_cong if_cong)
  next
    case SEARCHTYPE_BUYING_STORE
    then show ?thesis using buyers.query [OF assms(2), of "who m" q a "db_order conf (vending_db m)"] w
      by (simp add: all_offers_def offers_of_def cong: option.case_cong if_cong)
  qed
qed

lemma search_upd_ok:
  assumes "shop_ok conf s"
  shows "shop_ok conf (s\<lparr>ss_open := o1\<rparr>)" "shop_ok conf (s\<lparr>ss_uses := u\<rparr>)" "shop_ok conf (s\<lparr>ss_pages := p\<rparr>)"
    "shop_ok conf (s\<lparr>ss_remote_id := i\<rparr>)" "shop_ok conf (s\<lparr>ss_type := t\<rparr>)" "shop_ok conf (s\<lparr>ss_effect := f\<rparr>)"
    "shop_ok conf (s\<lparr>ss_nextquerytime := n\<rparr>)" "shop_ok conf (searchstore_clear s)"
  using assms by (simp_all add: shop_ok_def shelf_def searchstore_clear_def searchstore_clearremote_def)

lemma clear_pc [simp]: "pc (searchstore_clear s) = pc s"
  by (simp add: searchstore_clear_def)

lemma query_ok:
  assumes m: "market_ok conf m"
  shows "market_ok conf (searchstore_query conf env now a type mn mx items cards m)"
proof (cases "who m a")
  case (Some s)
  define s1 where "s1 ty = searchstore_clear (s\<lparr>ss_uses := ss_uses s - 1, ss_type := ty, ss_nextquerytime := now + searchstore_querydelay conf\<rparr>)" for ty
  define q where "q = \<lparr>sr_itemlist = items, sr_cardlist = cards, sr_min_price = min mn mx, sr_max_price = max mn mx\<rparr>"
  define s2 where "s2 ty = query_loop conf (searchstore_getsearchallfunc conf env ty q) a (who m) (db_order conf (vending_db m)) (s1 ty)" for ty
  have 1: "shop_ok conf (s1 ty)" "pc (s1 ty) = pc s" for ty
    using market_okD [OF m Some] by (simp_all add: s1_def search_upd_ok)
  have 2: "shop_ok conf (s2 ty)" "pc (s2 ty) = pc s" for ty
  proof -
    have len: "length (ss_items (s1 ty)) \<le> searchstore_maxresults conf" using 1(1) [of ty] by (simp add: shop_ok_def)
    then have "length (ss_items (s2 ty)) \<le> searchstore_maxresults conf" by (simp add: s2_def query_offers [OF m len])
    then show "shop_ok conf (s2 ty)" using 1 [of ty] by (simp add: s2_def query_offers [OF m len] shop_ok_def shelf_def)
    show "pc (s2 ty) = pc s" using 1 [of ty] by (simp add: s2_def query_offers [OF m len])
  qed
  have "market_ok conf (set_who a (s2 ty\<lparr>ss_pages := p\<rparr>) m)" "market_ok conf (set_who a (searchstore_clear (s2 ty)) m)" for ty p
    by (rule set_who_ok [OF m Some]; simp add: 2 search_upd_ok)+
  then show ?thesis
    using m unfolding searchstore_query_def Some option.case Let_def s1_def [symmetric] q_def [symmetric] s2_def [symmetric]
    by (auto split: option.splits)
qed (use m in \<open>simp add: searchstore_query_def\<close>)

lemma click_ok:
  assumes m: "market_ok conf m"
  shows "market_ok conf (searchstore_click conf a account_id store_id nameid m)"
proof (cases "who m a")
  case (Some s)
  define s1 where "s1 = searchstore_clearremote s"
  define m1 where "m1 = set_who a s1 m"
  have s1: "shop_ok conf s1" "pc s1 = pc s" using market_okD [OF m Some] by (simp_all add: s1_def)
  have m1: "market_ok conf m1" unfolding m1_def by (rule set_who_ok [OF m Some]) (simp_all add: s1)
  have m2: "market_ok conf (set_who a (s1\<lparr>ss_remote_id := i\<rparr>) m1)" for i
    by (rule set_who_ok [OF m1, of _ s1]) (simp_all add: s1 search_upd_ok m1_def)
  show ?thesis
    unfolding searchstore_click_def Some option.case Let_def s1_def [symmetric] m1_def [symmetric]
    using m m1 m2 by (auto split: option.splits effecttype.splits searchtype.splits intro!: list_ok)
qed (use m in \<open>simp add: searchstore_click_def\<close>)

text \<open>The operations on one character alone.\<close>

lemma search_one_ok:
  assumes "shop_ok conf s"
  shows "shop_ok conf (snd (searchstore_open conf uses effect s))" "shop_ok conf (searchstore_close s)" "shop_ok conf (searchstore_next conf s)"
    "pc (snd (searchstore_open conf uses effect s)) = pc s" "pc (searchstore_close s) = pc s" "pc (searchstore_next conf s) = pc s"
  using assms by (auto simp: searchstore_open_def searchstore_close_def searchstore_next_def search_upd_ok split: option.splits)

section \<open>Steps of absent owners\<close>

lemma prepare_ok:
  assumes m: "market_ok conf m"
  shows "market_ok conf (pc_autotrade_prepare a m)"
proof (cases "who m a")
  case (Some s)
  note s = market_okD [OF m Some]
  define items where "items = map (\<lambda>e. sd_cart (pc s) ! nat (vd_index e)) (filter (\<lambda>e. vd_amount e \<noteq> 0) (take (sd_vend_num s) (sd_vend_list s)))"
  have n: "length items \<le> sd_vend_num s"
    using length_filter_le [of _ "take (sd_vend_num s) (sd_vend_list s)"] by (auto simp: items_def intro: order_trans)
  then have "set (take (length items) (sd_vend_list s)) \<subseteq> set (shelf s)" by (simp add: shelf_def set_take_subset_set_take)
  then have "kept_ok conf (autotrade_copy s)"
    using s n by (auto simp: kept_ok_def autotrade_copy_def items_def [symmetric] shop_ok_def Let_def)
  moreover have "bs_kept_ok (sd_bs_items s, sd_bs_slots s, sd_bs_zenylimit s)" using s by (simp add: bs_kept_ok_def shop_ok_def)
  ultimately have "market_ok conf (if sd_buyingstore (pc s)
        then m\<lparr>bs_at_db := (bs_at_db m)(a \<mapsto> (sd_bs_items s, sd_bs_slots s, sd_bs_zenylimit s))\<rparr>
        else m\<lparr>at_db := (at_db m)(a \<mapsto> autotrade_copy s)\<rparr>)"
    using m by (simp add: market_ok_def)
  then show ?thesis unfolding pc_autotrade_prepare_def Some option.case by (rule leave_ok)
qed (use m in \<open>simp add: pc_autotrade_prepare_def\<close>)

lemma take_Suc_update: "c < length xs \<Longrightarrow> set (take (Suc c) (xs[c := x])) = insert x (set (take c xs))"
  by (simp add: take_Suc_conv_app_nth)

text \<open>One round of each loop.\<close>

definition free_slot :: "item list \<Rightarrow> item \<Rightarrow> s_vending list \<Rightarrow> nat \<Rightarrow> nat" where
  "free_slot cart it vend c = arr_find (\<lambda>j. same_but_id it (cart ! j) \<and> int j \<notin> vd_index ` set (take c vend)) [0..<MAX_CART]"

lemma populate_step: "populate_loop cart ((it, e) # r) vend c =
  (if vd_amount e = 0 \<or> free_slot cart it vend c = MAX_CART then populate_loop cart r vend c
   else populate_loop cart r (vend[c := e\<lparr>vd_index := int (free_slot cart it vend c)\<rparr>]) (Suc c))"
  by (simp add: free_slot_def Let_def)

lemma free_slot_le: "free_slot cart it vend c \<le> MAX_CART"
  using arr_find_le [of _ "[0..<MAX_CART]"] by (simp add: free_slot_def)

definition row_amount :: "pc_env \<Rightarrow> item list \<Rightarrow> int \<times> int \<times> int \<Rightarrow> nat \<times> int" where
  "row_amount env cart = (\<lambda>(itemkey, amount, price).
     let i = arr_find (\<lambda>it. i_id it = itemkey) cart
     in (i, if i \<noteq> MAX_CART \<and> itemdb_isrestricted env (cart ! i) 0 0 itemdb_cantrade_sub then min amount (i_amount (cart ! i)) else 0))"

definition row_entry :: "shop_conf \<Rightarrow> nat \<times> int \<Rightarrow> int \<Rightarrow> s_vending" where
  "row_entry conf x price = \<lparr>vd_index = int (fst x), vd_amount = to_int16 (snd x), vd_value = cap_value (to_uint32 price) 0 (vending_max_value conf)\<rparr>"

lemma start_step: "start_loop conf env cart ((key, amount, price) # r) vend c =
  (let x = row_amount env cart (key, amount, price)
   in if snd x = 0 then start_loop conf env cart r vend c
      else if c \<ge> MAX_VENDING then None
      else start_loop conf env cart r (vend[c := row_entry conf x price]) (Suc c))"
  by (simp add: row_amount_def row_entry_def Let_def min_def)

lemma row_amount_lt: "length cart = MAX_CART \<Longrightarrow> snd (row_amount env cart x) \<noteq> 0 \<Longrightarrow> fst (row_amount env cart x) < MAX_CART"
  using arr_find_le [of "\<lambda>it. i_id it = fst x" cart] by (auto simp: row_amount_def Let_def split: prod.splits if_splits)

declare populate_loop.simps(2) [simp del] start_loop.simps(2) [simp del]

lemma populate_loop_ok:
  assumes "populate_loop cart r vend c = (vend', c')" "c + length r \<le> length vend"
    and "\<forall>(it, e) \<in> set r. entry_ok conf e" "\<forall>e \<in> set (take c vend). entry_ok conf e"
  shows "length vend' = length vend \<and> c' \<le> length vend \<and> (\<forall>e \<in> set (take c' vend'). entry_ok conf e)"
  using assms
proof (induction r arbitrary: vend c)
  case (Cons x r)
  obtain it e where x: "x = (it, e)" by fastforce
  define j where "j = free_slot cart it vend c"
  have j: "j \<le> MAX_CART" by (simp add: j_def free_slot_le)
  show ?case
  proof (cases "vd_amount e = 0 \<or> j = MAX_CART")
    case True
    then show ?thesis using Cons.IH [of vend c] Cons.prems by (simp add: x populate_step j_def)
  next
    case False
    have "entry_ok conf (e\<lparr>vd_index := int j\<rparr>)" using Cons.prems(3) False j by (auto simp: x entry_ok_def)
    then show ?thesis
      using False Cons.IH [of "vend[c := e\<lparr>vd_index := int j\<rparr>]" "Suc c"] Cons.prems
      by (auto simp: x populate_step j_def take_Suc_update)
  qed
qed auto

lemma start_loop_ok:
  assumes "start_loop conf env cart rows vend c = Some (vend', c')" "length vend = MAX_VENDING" "c \<le> MAX_VENDING"
    and "\<forall>e \<in> set (take c vend). entry_ok conf e" "length cart = MAX_CART" "0 \<le> vending_max_value conf"
  shows "length vend' = MAX_VENDING \<and> c' \<le> MAX_VENDING \<and> (\<forall>e \<in> set (take c' vend'). entry_ok conf e)"
  using assms(1-4)
proof (induction rows arbitrary: vend c)
  case (Cons row r)
  obtain key amount price where row: "row = (key, amount, price)" by (metis prod_cases3)
  define x where "x = row_amount env cart row"
  show ?case
  proof (cases "snd x = 0")
    case True
    then show ?thesis using Cons.IH [of vend c] Cons.prems by (simp add: row start_step x_def Let_def)
  next
    case False
    have "entry_ok conf (row_entry conf x price)"
      using row_amount_lt [OF assms(5)] False assms(6) cap_value_range [of 0 "vending_max_value conf" "to_uint32 price"]
      by (simp add: row_entry_def entry_ok_def x_def)
    moreover have s: "c < MAX_VENDING" "start_loop conf env cart r (vend[c := row_entry conf x price]) (Suc c) = Some (vend', c')"
      using Cons.prems(1) False by (simp_all add: row start_step x_def Let_def split: if_splits)
    ultimately have e: "\<forall>e \<in> set (take (Suc c) (vend[c := row_entry conf x price])). entry_ok conf e"
      using Cons.prems(2,4) by (simp add: take_Suc_update)
    show ?thesis by (rule Cons.IH [OF s(2) _ _ e]) (use s(1) Cons.prems(2) in simp_all)
  qed
qed auto

lemma bs_start_length:
  "c \<le> MAX_BUYINGSTORE_SLOTS \<Longrightarrow> length (fst (bs_start_loop conf rows items c)) = length items \<and>
    snd (bs_start_loop conf rows items c) \<le> MAX_BUYINGSTORE_SLOTS"
proof (induction rows arbitrary: items c)
  case (Cons row rows)
  obtain n a z where "row = (n, a, z)" by (metis prod_cases3)
  then show ?case
    using Cons.IH [of c items] Cons.prems
      Cons.IH [of "Suc c" "items[c := \<lparr>bs_price = z, bs_amount = to_uint16 a, bs_nameid = to_uint16 n\<rparr>]"]
    by (cases "c \<noteq> MAX_BUYINGSTORE_SLOTS \<and> buyable conf n \<and> a > 0") auto
qed simp

lemma arrive_ok:
  assumes m: "market_ok conf m" and w: "who m a = Some s" "\<not> sd_vending (pc s)" "length (sd_cart (pc s)) = MAX_CART"
    and v: "0 \<le> vending_max_value conf" and r: "autotrade_arrive conf env rows a m = Some m'"
  shows "market_ok conf m'"
proof (cases "sd_buyingstore (pc s)")
  case True
  define s1 where "s1 = buyingstore_autotrade_populate (bs_at_db m a) s"
  define m1 where "m1 = set_who a s1 (m\<lparr>bs_at_db := (bs_at_db m)(a := None)\<rparr>)"
  have m0: "market_ok conf (m\<lparr>bs_at_db := (bs_at_db m)(a := None)\<rparr>)" using m by (simp add: market_ok_def)
  have s1: "shop_ok conf s1" "pc s1 = pc s"
  proof -
    note s = market_okD [OF m w(1)]
    have "length (filter still_wanted (take n items)) \<le> MAX_BUYINGSTORE_SLOTS" if "n \<le> MAX_BUYINGSTORE_SLOTS" for n items
      using length_filter_le [of still_wanted "take n items"] that by simp
    moreover have "bs_kept_ok d" if "bs_at_db m a = Some d" for d using m that unfolding market_ok_def by blast
    ultimately show "shop_ok conf s1"
      using s by (auto simp: s1_def buyingstore_autotrade_populate_def bs_kept_ok_def shop_ok_def shelf_def Let_def split: option.splits)
    show "pc s1 = pc s" by (simp add: s1_def buyingstore_autotrade_populate_def Let_def split: option.splits)
  qed
  have m1: "market_ok conf m1" unfolding m1_def by (rule set_who_ok [OF m0 _ s1(1)]) (use w s1 in simp_all)
  obtain items c where l: "bs_start_loop conf rows (sd_bs_items s1) 0 = (items, c)" by fastforce
  have lc: "length items = MAX_BUYINGSTORE_SLOTS" "c \<le> MAX_BUYINGSTORE_SLOTS"
    using bs_start_length [of 0 conf rows "sd_bs_items s1"] s1 l by (simp_all add: shop_ok_def)
  have st: "market_ok conf (set_who a s' m1)" "market_ok conf (set_who a s' (m1\<lparr>buyingstore_nextid := n\<rparr>))"
    if "shop_ok conf s'" "sd_vending (pc s') = sd_vending (pc s1)" for s' n
    using set_who_ok [OF m1 _ that] set_who_ok [of conf "m1\<lparr>buyingstore_nextid := n\<rparr>", OF _ _ that] m1 by (simp_all add: m1_def)
  have w1: "who m1 a = Some s1" by (simp add: m1_def)
  have "m' = buyingstore_autotrade_start conf rows a m1"
    using r w(1) True by (simp add: autotrade_arrive_def m1_def s1_def)
  then show ?thesis
    using s1 w(2) lc unfolding buyingstore_autotrade_start_def w1 option.case l Let_def prod.case
    by (auto simp: shop_ok_def shelf_def intro!: leave_ok st)
next
  case False
  define s1 where "s1 = pc_autotrade_populate (at_db m a) s"
  define m1 where "m1 = set_who a s1 (m\<lparr>at_db := (at_db m)(a := None)\<rparr>)"
  have m0: "market_ok conf (m\<lparr>at_db := (at_db m)(a := None)\<rparr>)" using m by (simp add: market_ok_def)
  note s = market_okD [OF m w(1)]
  have s1: "shop_ok conf s1 \<and> pc s1 = pc s"
  proof (cases "at_db m a")
    case None
    then show ?thesis using s by (simp add: s1_def pc_autotrade_populate_def)
  next
    case (Some d)
    then have d: "kept_ok conf d" using m by (simp add: market_ok_def)
    define l where "l = zip (take (at_vend_num d) (at_list d)) (at_vending d)"
    obtain vend c where p: "populate_loop (sd_cart (pc s)) l (sd_vend_list s) 0 = (vend, c)" by fastforce
    have "length l \<le> MAX_VENDING" using d by (simp add: l_def kept_ok_def)
    moreover have "\<forall>(it, e) \<in> set l. entry_ok conf e"
      using d by (fastforce simp: l_def kept_ok_def set_zip in_set_conv_nth)
    ultimately have "length vend = MAX_VENDING \<and> c \<le> MAX_VENDING \<and> (\<forall>e \<in> set (take c vend). entry_ok conf e)"
      using populate_loop_ok [OF p, of conf] s by (simp add: shop_ok_def)
    then show ?thesis
      using s by (simp add: s1_def pc_autotrade_populate_def Some l_def [symmetric] p shop_ok_def shelf_def)
  qed
  have m1: "market_ok conf m1" unfolding m1_def by (rule set_who_ok [OF m0]) (use w s1 in simp_all)
  have w1: "who m1 a = Some s1" by (simp add: m1_def)
  have st: "pc_autotrade_start conf env rows a m1 = Some m'"
    using r w(1) False by (simp add: autotrade_arrive_def m1_def s1_def)
  then obtain vend c where l: "start_loop conf env (sd_cart (pc s1)) rows (sd_vend_list s1) 0 = Some (vend, c)"
    by (auto simp: pc_autotrade_start_def w1 split: option.splits)
  have lc: "length vend = MAX_VENDING \<and> c \<le> MAX_VENDING \<and> (\<forall>e \<in> set (take c vend). entry_ok conf e)"
    by (rule start_loop_ok [OF l]) (use s1 w v in \<open>simp_all add: shop_ok_def\<close>)
  show ?thesis
  proof (cases "c = 0")
    case True
    have "m' = quit a (set_who a (s1\<lparr>sd_vend_list := vend\<rparr>) m1)"
      using st True by (simp add: pc_autotrade_start_def w1 l)
    moreover have "who m' a = None" using calculation by (simp add: quit_def)
    moreover have "market_ok conf m' = market_ok conf (quit a m1)" using calculation(1) by (simp add: market_ok_def quit_def set_who_def)
    ultimately show ?thesis using leave_ok [OF m1] by simp
  next
    case False
    define s2 where "s2 = on_pc (\<lambda>p. p\<lparr>sd_vending := True\<rparr>) (s1\<lparr>sd_vend_list := vend, sd_autotrade := 1,
      sd_vender_id := to_uint32 (vending_next_id m1 + 1), sd_vend_num := c\<rparr>)"
    have "\<not> sd_buyingstore (pc s1)" using s1 \<open>\<not> sd_buyingstore (pc s)\<close> by simp
    then have "shop_ok conf s2" "sd_vending (pc s2)" using s1 lc by (simp_all add: s2_def shop_ok_def shelf_def)
    moreover have "m' = m1\<lparr>who := (who m1)(a \<mapsto> s2), vending_next_id := to_uint32 (vending_next_id m1 + 1),
        vending_db := (if a \<in> set (vending_db m1) then vending_db m1 else vending_db m1 @ [a])\<rparr>"
      using st False unfolding pc_autotrade_start_def w1 option.case l prod.case Let_def s2_def by simp
    ultimately show ?thesis using enter_table_ok [OF m1 w1] by simp
  qed
qed

section \<open>The market as a state machine\<close>

text \<open>A character that comes in has no shop and no results; its cart is an array of its size.\<close>

definition newcomer :: "shopper \<Rightarrow> bool" where
  "newcomer s \<longleftrightarrow> sd_vend_list s = replicate MAX_VENDING no_vending \<and> sd_vend_num s = 0 \<and>
     sd_bs_items s = replicate MAX_BUYINGSTORE_SLOTS no_bs_item \<and> sd_bs_slots s = 0 \<and> ss_items s = [] \<and>
     \<not> sd_vending (pc s) \<and> length (sd_cart (pc s)) = MAX_CART"

text \<open>What the rest of the server may do to a character meanwhile: everything but to touch its shops.\<close>

definition same_shops :: "shopper \<Rightarrow> shopper \<Rightarrow> bool" where
  "same_shops s s' \<longleftrightarrow> flags (pc s') = flags (pc s) \<and> length (sd_cart (pc s')) = length (sd_cart (pc s)) \<and>
     sd_vend_list s' = sd_vend_list s \<and> sd_vend_num s' = sd_vend_num s \<and>
     sd_bs_items s' = sd_bs_items s \<and> sd_bs_slots s' = sd_bs_slots s \<and> ss_items s' = ss_items s"

inductive market_step :: "shop_conf \<Rightarrow> pc_env \<Rightarrow> market \<Rightarrow> market \<Rightarrow> bool" for conf env where
  login: "who m a = None \<Longrightarrow> newcomer s \<Longrightarrow> market_step conf env m (set_who a s m)"
| logout: "market_step conf env m (quit a m)"
| elsewhere: "who m a = Some s \<Longrightarrow> same_shops s s' \<Longrightarrow> market_step conf env m (set_who a s' m)"
| vend_open: "market_step conf env m (vending_openvending conf env a message data m)"
| vend_close: "market_step conf env m (vending_closevending a m)"
| vend_list: "market_step conf env m (vending_vendinglistreq a i m)"
| vend_purchase: "market_step conf env m (vending_purchasereq conf env a aid uid pairs m)"
| bs_setup: "market_step conf env m (snd (buyingstore_setup conf a slots m))"
| bs_create: "market_step conf env m (snd (buyingstore_create conf env a limit result name items m))"
| bs_close: "market_step conf env m (buyingstore_close a m)"
| bs_trade: "market_step conf env m (buyingstore_trade conf env a aid bid items m)"
| ss_open: "who m a = Some s \<Longrightarrow> market_step conf env m (set_who a (snd (searchstore_open conf uses effect s)) m)"
| ss_close: "who m a = Some s \<Longrightarrow> market_step conf env m (set_who a (searchstore_close s) m)"
| ss_next: "who m a = Some s \<Longrightarrow> market_step conf env m (set_who a (searchstore_next conf s) m)"
| ss_query: "market_step conf env m (searchstore_query conf env now a type mn mx names cards m)"
| ss_click: "market_step conf env m (searchstore_click conf a aid sid nameid m)"
| at_prepare: "market_step conf env m (pc_autotrade_prepare a m)"
| at_arrive: "who m a = Some s \<Longrightarrow> newcomer s \<Longrightarrow> autotrade_arrive conf env rows a m = Some m' \<Longrightarrow> market_step conf env m m'"

inductive market_reach :: "shop_conf \<Rightarrow> pc_env \<Rightarrow> market \<Rightarrow> bool" for conf env where
  start: "market_reach conf env \<lparr>who = Map.empty, vending_db = [], vending_next_id = 0, buyingstore_nextid = 0,
    at_db = Map.empty, bs_at_db = Map.empty, gone = Map.empty\<rparr>"
| step: "market_reach conf env m \<Longrightarrow> market_step conf env m m' \<Longrightarrow> market_reach conf env m'"

lemma newcomer_ok: "newcomer s \<Longrightarrow> shop_ok conf s"
  by (simp add: newcomer_def shop_ok_def shelf_def)

lemma same_shops_ok: "same_shops s s' \<Longrightarrow> shop_ok conf s \<Longrightarrow> shop_ok conf s'"
  by (simp add: same_shops_def shop_ok_def shelf_def flags_def)

lemma step_ok:
  assumes "market_step conf env m m'" "market_ok conf m" "calm env" "0 \<le> vending_max_value conf"
  shows "market_ok conf m'"
  using assms(1)
proof cases
  case (login a s)
  have "a \<notin> set (vending_db m)" using assms(2) login(2) by (auto simp: market_ok_def)
  then show ?thesis
    using assms(2) login newcomer_ok [OF login(3)] by (auto simp: market_ok_def set_who_def newcomer_def)
next
  case (elsewhere a s s')
  then show ?thesis
    using set_who_ok [OF assms(2) elsewhere(2)] same_shops_ok market_okD [OF assms(2)] by (auto simp: same_shops_def flags_def)
next
  case (at_arrive a s rows)
  then show ?thesis using arrive_ok [OF assms(2) at_arrive(1) _ _ assms(4) at_arrive(3)] by (simp add: newcomer_def)
next
  case (ss_open a s uses effect)
  then show ?thesis using set_who_ok [OF assms(2) ss_open(2)] search_one_ok [OF market_okD [OF assms(2) ss_open(2)]] by simp
next
  case (ss_close a s)
  then show ?thesis using set_who_ok [OF assms(2) ss_close(2)] search_one_ok [OF market_okD [OF assms(2) ss_close(2)]] by simp
next
  case (ss_next a s)
  then show ?thesis using set_who_ok [OF assms(2) ss_next(2)] search_one_ok [OF market_okD [OF assms(2) ss_next(2)]] by simp
qed (simp_all add: assms leave_ok open_ok close_ok list_ok purchase_ok setup_ok create_ok bs_close_ok sale_ok query_ok click_ok prepare_ok)

lemma reach_ok:
  assumes "market_reach conf env m" "calm env" "0 \<le> vending_max_value conf"
  shows "market_ok conf m"
  using assms(1)
proof induction
  case start
  then show ?case by (simp add: market_ok_def)
next
  case (step m m')
  then show ?case using step_ok assms by blast
qed

section \<open>Properties\<close>

text \<open>A small market for the witnesses: a vendor of apples, a buyer of apples, a visitor.\<close>

definition fair_conf :: shop_conf where
  "fair_conf = \<lparr>area_size = 14, vending_over_max = False, vending_tax = 500, vending_max_value = 1000000000, feature_buying_store = True,
     feature_search_stores = True, searchstore_querydelay = 10, searchstore_maxresults = 30, novending = \<lambda>_ _ _. False,
     buyable = \<lambda>_. True, db_order = \<lambda>l. l\<rparr>"

definition newcome :: "map_session_data \<Rightarrow> shopper" where
  "newcome p = \<lparr>pc = p, sd_dead = False, sd_muted = False, sd_vending_skill = 10, sd_carton = True, sd_prevend = True,
     sd_workinprogress = False, sd_autotrade = 0, sd_message = [], sd_vend_list = replicate MAX_VENDING no_vending, sd_vend_num = 0,
     sd_vender_id = 0, sd_vended_id = 0, sd_buyer_id = 0, sd_bs_items = replicate MAX_BUYINGSTORE_SLOTS no_bs_item, sd_bs_zenylimit = 0,
     sd_bs_slots = 0, ss_open = False, ss_uses = 0, ss_effect = EFFECTTYPE_NORMAL, ss_type = SEARCHTYPE_VENDING, ss_nextquerytime = 0,
     ss_items = [], ss_pages = 0, ss_remote_id = 0\<rparr>"

definition pc_vendor :: "int \<Rightarrow> map_session_data" where
  "pc_vendor aid = (pc_start aid)\<lparr>sd_cart := (replicate 100 zero_item)[0 := apple]\<rparr>"

definition empty_market :: market where
  "empty_market = \<lparr>who = Map.empty, vending_db = [], vending_next_id = 0, buyingstore_nextid = 0, at_db = Map.empty, bs_at_db = Map.empty, gone = Map.empty\<rparr>"

text \<open>Account 1 sells apples for 7 zeny each, account 2 buys them for 5, account 3 may search.\<close>

definition fair :: market where
  "fair =
     (let m = set_who 1 (newcome (pc_vendor 1)) empty_market;
          m = vending_openvending fair_conf apple_env 1 [65] [(2, 8, 7)] m;
          m = set_who 2 (newcome (pc_apples 2)) m;
          m = snd (buyingstore_setup fair_conf 2 3 m);
          m = snd (buyingstore_create fair_conf apple_env 2 500 1 [66] [(512, 20, 5)] m);
          m = set_who 3 (newcome (pc_start 3)) m
      in set_who 3 (snd (searchstore_open fair_conf 3 (Some EFFECTTYPE_CASH) (newcome (pc_start 3)))) m)"

lemma calm_apple: "calm apple_env"
  by (simp add: calm_def apple_env_def)

lemma newcomer_newcome: "\<not> sd_vending p \<Longrightarrow> length (sd_cart p) = 100 \<Longrightarrow> newcomer (newcome p)"
  by (simp add: newcomer_def newcome_def MAX_CART_def)

lemma fair_reach: "market_reach fair_conf apple_env fair"
proof -
  have n: "newcomer (newcome (pc_vendor 1))" "newcomer (newcome (pc_apples 2))" "newcomer (newcome (pc_start 3))"
    by (rule newcomer_newcome; simp add: pc_vendor_def pc_apples_def pc_start_def)+
  define m1 where "m1 = set_who 1 (newcome (pc_vendor 1)) empty_market"
  define m2 where "m2 = vending_openvending fair_conf apple_env 1 [65] [(2, 8, 7)] m1"
  define m3 where "m3 = set_who 2 (newcome (pc_apples 2)) m2"
  define m4 where "m4 = snd (buyingstore_setup fair_conf 2 3 m3)"
  define m5 where "m5 = snd (buyingstore_create fair_conf apple_env 2 500 1 [66] [(512, 20, 5)] m4)"
  define m6 where "m6 = set_who 3 (newcome (pc_start 3)) m5"
  note d = m6_def m5_def m4_def m3_def m2_def m1_def
  have e: "market_reach fair_conf apple_env empty_market" unfolding empty_market_def by (rule market_reach.start)
  have 1: "market_reach fair_conf apple_env m1"
    unfolding m1_def by (rule market_reach.step [OF e login [OF _ n(1)]]) (simp add: empty_market_def)
  have 2: "market_reach fair_conf apple_env m2" unfolding m2_def by (rule market_reach.step [OF 1 vend_open])
  have "who m2 2 = None" unfolding d by code_simp
  then have 3: "market_reach fair_conf apple_env m3" unfolding m3_def by (rule market_reach.step [OF 2 login [OF _ n(2)]])
  have 4: "market_reach fair_conf apple_env m4" unfolding m4_def by (rule market_reach.step [OF 3 bs_setup])
  have 5: "market_reach fair_conf apple_env m5" unfolding m5_def by (rule market_reach.step [OF 4 bs_create])
  have "who m5 3 = None" unfolding d by code_simp
  then have 6: "market_reach fair_conf apple_env m6" unfolding m6_def by (rule market_reach.step [OF 5 login [OF _ n(3)]])
  have "market_reach fair_conf apple_env (set_who 3 (snd (searchstore_open fair_conf 3 (Some EFFECTTYPE_CASH) (newcome (pc_start 3)))) m6)"
    by (rule market_reach.step [OF 6 ss_open]) (simp add: m6_def)
  then show ?thesis by (simp add: fair_def d Let_def)
qed

text \<open>The characters of the fair, as the operations leave them.\<close>

definition vendor1 :: shopper where
  "vendor1 = (newcome ((pc_vendor 1)\<lparr>sd_vending := True\<rparr>))\<lparr>sd_prevend := False, sd_message := [65],
     sd_vend_list := (replicate MAX_VENDING no_vending)[0 := \<lparr>vd_index = 0, vd_amount = 8, vd_value = 7\<rparr>], sd_vend_num := 1\<rparr>"

definition buyer2 :: shopper where
  "buyer2 = (newcome ((pc_apples 2)\<lparr>sd_buyingstore := True\<rparr>))\<lparr>sd_autotrade := 1, sd_message := [66], sd_bs_zenylimit := 500, sd_bs_slots := 1,
     sd_bs_items := (replicate MAX_BUYINGSTORE_SLOTS no_bs_item)[0 := \<lparr>bs_price = 5, bs_amount = 20, bs_nameid = 512\<rparr>]\<rparr>"

definition visitor3 :: shopper where
  "visitor3 = (newcome (pc_start 3))\<lparr>ss_open := True, ss_uses := 3, ss_effect := EFFECTTYPE_CASH\<rparr>"

lemma fair_who: "who fair 1 = Some vendor1" "who fair 2 = Some buyer2" "who fair 3 = Some visitor3" "vending_db fair = [1]"
  by code_simp+

lemma fair_pc: "pc vendor1 = (pc_vendor 1)\<lparr>sd_vending := True\<rparr>" "pc visitor3 = pc_start 3"
  by (simp_all add: vendor1_def visitor3_def newcome_def)

text \<open>
  C8. Whatever the players do with their shops, in whatever order, the tables stay well formed: the
  shop list of every character has its 12 entries and the list of wanted items its 5, no more are
  in use than there are, every entry on sale points into the cart and has a price within the
  configured maximum, no character vends and buys at once, and the characters in the table of
  vendors are exactly those that vend. An absent owner arrives here only if the rows saved for him
  fit the 12 entries: for more rows \<open>pc_autotrade_start\<close>, which does not check, writes behind the
  array.
\<close>

theorem shops_well_formed:
  assumes "market_reach conf env m" "calm env" "0 \<le> vending_max_value conf" "who m a = Some s"
  shows "length (sd_vend_list s) = MAX_VENDING \<and> sd_vend_num s \<le> MAX_VENDING \<and>
    (\<forall>j < sd_vend_num s. 0 \<le> vd_index (sd_vend_list s ! j) \<and> vd_index (sd_vend_list s ! j) < int MAX_CART \<and>
       0 \<le> vd_value (sd_vend_list s ! j) \<and> vd_value (sd_vend_list s ! j) \<le> vending_max_value conf) \<and>
    length (sd_bs_items s) = MAX_BUYINGSTORE_SLOTS \<and> sd_bs_slots s \<le> MAX_BUYINGSTORE_SLOTS \<and>
    length (ss_items s) \<le> searchstore_maxresults conf \<and>
    \<not> (sd_vending (pc s) \<and> sd_buyingstore (pc s)) \<and> (sd_vending (pc s) \<longleftrightarrow> a \<in> set (vending_db m)) \<and> distinct (vending_db m)"
proof -
  have m: "market_ok conf m" by (rule reach_ok [OF assms(1-3)])
  then have s: "shop_ok conf s" by (rule market_okD) (rule assms(4))
  have "entry_ok conf (sd_vend_list s ! j)" if "j < sd_vend_num s" for j
    using s that in_set_conv_nth [of "sd_vend_list s ! j" "shelf s"] by (auto simp: shop_ok_def shelf_def)
  then show ?thesis using m s assms(4) by (simp add: market_ok_def shop_ok_def entry_ok_def)
qed

theorem shops_well_formed_witness:
  "\<exists>s. who fair 1 = Some s \<and> sd_vend_num s = 1 \<and> sd_vend_num s \<le> MAX_VENDING \<and> vd_index (sd_vend_list s ! 0) < int MAX_CART"
proof -
  have "sd_vend_num vendor1 = 1" by (simp add: vendor1_def)
  then show ?thesis
    using shops_well_formed [OF fair_reach calm_apple _ fair_who(1)] fair_who(1) by (simp add: fair_conf_def)
qed

section \<open>What a search finds\<close>

definition may_search :: "shop_conf \<Rightarrow> pc_env \<Rightarrow> int \<Rightarrow> shopper \<Rightarrow> int list \<Rightarrow> int list \<Rightarrow> bool" where
  "may_search conf env now s items cards \<longleftrightarrow> feature_search_stores conf \<and> ss_open s \<and> ss_nextquerytime s \<le> now \<and> ss_uses s \<noteq> 0 \<and>
     (\<forall>i \<in> set items \<union> set cards. e_exists env i)"

abbreviation asked :: "int list \<Rightarrow> int list \<Rightarrow> int \<Rightarrow> int \<Rightarrow> s_search_store_search" where
  "asked items cards mn mx \<equiv> \<lparr>sr_itemlist = items, sr_cardlist = cards, sr_min_price = min mn mx, sr_max_price = max mn mx\<rparr>"

lemma query_result:
  assumes m: "market_ok conf m" and w: "who m a = Some s" and ok: "may_search conf env now s items cards"
  shows "\<exists>s'. who (searchstore_query conf env now a (Some ty) mn mx items cards m) a = Some s' \<and>
    ss_items s' = take (searchstore_maxresults conf) (all_offers conf env ty (asked items cards mn mx) a m) \<and>
    ss_pages s' = (if ss_items s' = [] then 0 else 1) \<and> ss_uses s' = ss_uses s - 1 \<and>
    ss_nextquerytime s' = now + searchstore_querydelay conf \<and> pc s' = pc s"
proof -
  define s1 where "s1 = searchstore_clear (s\<lparr>ss_uses := ss_uses s - 1, ss_type := ty, ss_nextquerytime := now + searchstore_querydelay conf\<rparr>)"
  define r where "r = take (searchstore_maxresults conf) (all_offers conf env ty (asked items cards mn mx) a m)"
  have e: "ss_items s1 = []" "ss_pages s1 = 0" "ss_uses s1 = ss_uses s - 1" "ss_nextquerytime s1 = now + searchstore_querydelay conf" "pc s1 = pc s"
    by (simp_all add: s1_def searchstore_clear_def searchstore_clearremote_def)
  have q: "query_loop conf (searchstore_getsearchallfunc conf env ty (asked items cards mn mx)) a (who m) (db_order conf (vending_db m)) s1 = s1\<lparr>ss_items := r\<rparr>"
    using query_offers [OF m, of s1 env ty "asked items cards mn mx" a] by (simp add: e r_def)
  have g: "feature_search_stores conf" "ss_open s" "\<not> now < ss_nextquerytime s" "ss_uses s \<noteq> 0" "\<not> (\<exists>i \<in> set items. \<not> e_exists env i)"
    "\<not> (\<exists>i \<in> set cards. \<not> e_exists env i)"
    using ok by (auto simp: may_search_def)
  have "who (searchstore_query conf env now a (Some ty) mn mx items cards m) a =
      Some (if r \<noteq> [] then s1\<lparr>ss_items := r, ss_pages := 1\<rparr> else searchstore_clear (s1\<lparr>ss_items := r\<rparr>))"
    unfolding searchstore_query_def w option.case Let_def s1_def [symmetric] q using g by (simp add: e)
  then show ?thesis
    by (cases "r = []") (simp_all add: r_def [symmetric] e searchstore_clear_def searchstore_clearremote_def)
qed

text \<open>
  C12. A search for items on sale lists what the shops offer. A vendor's offer of an item asked for
  is the first entry of his shop list with that item, provided its price and cards match: a second
  entry with the same item is never an offer, even if only it matches, although the source speaks of
  all items that match. In any market the players can bring about, and if the order in which
  the table of vendors is visited leaves nobody out, the results are the offers of the vendors but
  the searcher, shop by shop in that order and item by item in the order asked, cut off at the
  configured number; nobody who vends is left out; one use is paid, and one page is shown exactly if
  something was found.
\<close>

theorem search_lists_offers:
  assumes "market_reach conf env m" "calm env" "0 \<le> vending_max_value conf"
    and "who m a = Some s" "may_search conf env now s items cards"
    and "set (db_order conf (vending_db m)) = set (vending_db m)"
  shows "\<exists>s' offers. who (searchstore_query conf env now a (Some SEARCHTYPE_VENDING) mn mx items cards m) a = Some s' \<and>
    offers = concat (map (\<lambda>t. if t = a then [] else case who m t of None \<Rightarrow> [] | Some v \<Rightarrow> vend_offers env (asked items cards mn mx) v)
        (db_order conf (vending_db m))) \<and>
    ss_items s' = take (searchstore_maxresults conf) offers \<and>
    (\<forall>t v. who m t = Some v \<and> sd_vending (pc v) \<and> t \<noteq> a \<longrightarrow> set (vend_offers env (asked items cards mn mx) v) \<subseteq> set offers) \<and>
    ss_pages s' = (if ss_items s' = [] then 0 else 1) \<and> ss_uses s' = ss_uses s - 1 \<and>
    ss_nextquerytime s' = now + searchstore_querydelay conf"
proof -
  note m = reach_ok [OF assms(1-3)]
  let ?f = "\<lambda>t. if t = a then [] else case who m t of None \<Rightarrow> [] | Some v \<Rightarrow> vend_offers env (asked items cards mn mx) v"
  define offers where "offers = concat (map ?f (db_order conf (vending_db m)))"
  have "set (vend_offers env (asked items cards mn mx) v) \<subseteq> set offers" if "who m t = Some v \<and> sd_vending (pc v) \<and> t \<noteq> a" for t v
  proof -
    have "t \<in> set (db_order conf (vending_db m))" using that m assms(6) by (auto simp: market_ok_def)
    then have "?f t \<in> set (map ?f (db_order conf (vending_db m)))" unfolding list.set_map by (rule imageI)
    then have "set (?f t) \<subseteq> \<Union> (set ` set (map ?f (db_order conf (vending_db m))))" by (intro Union_upper imageI)
    moreover have "?f t = vend_offers env (asked items cards mn mx) v" using that by simp
    ultimately show ?thesis unfolding offers_def set_concat by simp
  qed
  then have cover: "\<forall>t v. who m t = Some v \<and> sd_vending (pc v) \<and> t \<noteq> a \<longrightarrow> set (vend_offers env (asked items cards mn mx) v) \<subseteq> set offers" by blast
  have o: "all_offers conf env SEARCHTYPE_VENDING (asked items cards mn mx) a m = offers"
    by (simp add: offers_def all_offers_def offers_of_def cong: option.case_cong if_cong)
  obtain s' where "who (searchstore_query conf env now a (Some SEARCHTYPE_VENDING) mn mx items cards m) a = Some s'"
      "ss_items s' = take (searchstore_maxresults conf) offers" "ss_pages s' = (if ss_items s' = [] then 0 else 1)"
      "ss_uses s' = ss_uses s - 1" "ss_nextquerytime s' = now + searchstore_querydelay conf"
    using query_result [OF m assms(4,5), of SEARCHTYPE_VENDING mn mx] unfolding o by (elim exE conjE) (rule that)
  then show ?thesis using cover offers_def by (intro exI [of _ s'] exI [of _ offers] conjI)
qed

lemma fair_searcher: "ss_uses visitor3 = 3" "may_search fair_conf apple_env 100 visitor3 [512] []"
  by (simp_all add: visitor3_def newcome_def may_search_def fair_conf_def apple_env_def)

theorem search_lists_offers_witness:
  "\<exists>s'. who (searchstore_query fair_conf apple_env 100 3 (Some SEARCHTYPE_VENDING) 0 10 [512] [] fair) 3 = Some s' \<and>
    map ssi_account_id (ss_items s') = [1] \<and> map ssi_price (ss_items s') = [7] \<and> ss_uses s' = 2"
proof -
  have "vend_offers apple_env (asked [512] [] 0 10) vendor1 =
    [\<lparr>ssi_store_id = 0, ssi_account_id = 1, ssi_store_name = [65], ssi_nameid = 512, ssi_amount = 8, ssi_price = 7, ssi_card = [0, 0, 0, 0], ssi_refine = 0\<rparr>]"
    by code_simp
  then have o: "concat (map (\<lambda>t. if t = 3 then [] else case who fair t of None \<Rightarrow> [] | Some v \<Rightarrow> vend_offers apple_env (asked [512] [] 0 10) v)
      (db_order fair_conf (vending_db fair))) =
    [\<lparr>ssi_store_id = 0, ssi_account_id = 1, ssi_store_name = [65], ssi_nameid = 512, ssi_amount = 8, ssi_price = 7, ssi_card = [0, 0, 0, 0], ssi_refine = 0\<rparr>]"
    by (simp add: fair_who fair_conf_def)
  show ?thesis
    using search_lists_offers [OF fair_reach calm_apple _ fair_who(3) fair_searcher(2), of 0 10] fair_searcher(1)
    unfolding o by (auto simp: fair_conf_def)
qed

text \<open>
  C37. A search for items wanted finds nothing: \<open>searchstore_query\<close> goes through the table of
  vendors for both kinds of search, and no member of it has a buying store. Whatever stores are
  open, the searcher pays a use and gets an empty list.
\<close>

theorem buying_stores_never_found:
  assumes "market_reach conf env m" "calm env" "0 \<le> vending_max_value conf" "set (db_order conf (vending_db m)) \<subseteq> set (vending_db m)"
    and "who m a = Some s" "may_search conf env now s items cards"
  shows "\<exists>s'. who (searchstore_query conf env now a (Some SEARCHTYPE_BUYING_STORE) mn mx items cards m) a = Some s' \<and>
    ss_items s' = [] \<and> ss_uses s' = ss_uses s - 1"
proof -
  note m = reach_ok [OF assms(1-3)]
  have "offers_of env SEARCHTYPE_BUYING_STORE q v = []" if "t \<in> set (db_order conf (vending_db m))" "who m t = Some v" for t v q
  proof -
    have "sd_vending (pc v)" using m that assms(4) by (auto simp: market_ok_def)
    moreover have "shop_ok conf v" by (rule market_okD [OF m that(2)])
    ultimately show ?thesis by (simp add: offers_of_def buy_offers_def shop_ok_def)
  qed
  then have "all_offers conf env SEARCHTYPE_BUYING_STORE q a m = []" for q by (auto simp: all_offers_def split: option.splits)
  then show ?thesis using query_result [OF m assms(5,6), of SEARCHTYPE_BUYING_STORE mn mx] by auto
qed

text \<open>Account 2 buys apples in this market, and a search function asked about it would say so.\<close>

theorem buying_stores_never_found_witness:
  "(\<exists>s'. who (searchstore_query fair_conf apple_env 100 3 (Some SEARCHTYPE_BUYING_STORE) 0 10 [512] [] fair) 3 = Some s' \<and>
     ss_items s' = [] \<and> ss_uses s' = 2) \<and>
   map_option (\<lambda>b. (buyingstore_search b 512, buyingstore_open fair_conf 3 2 fair)) (who fair 2) = Some (True, True)"
proof -
  have "buyingstore_search buyer2 512" "perm_trade (pc visitor3)" "\<not> pc_istrading visitor3" "sd_buyingstore (pc buyer2)"
    "\<not> shop_too_far fair_conf 2 visitor3 buyer2" "feature_buying_store fair_conf" by code_simp+
  then have "map_option (\<lambda>b. (buyingstore_search b 512, buyingstore_open fair_conf 3 2 fair)) (who fair 2) = Some (True, True)"
    by (simp add: buyingstore_open_def fair_who)
  moreover have "set (db_order fair_conf (vending_db fair)) \<subseteq> set (vending_db fair)" "0 \<le> vending_max_value fair_conf" by (simp_all add: fair_conf_def)
  ultimately show ?thesis
    using buying_stores_never_found [OF fair_reach calm_apple _ _ fair_who(3) fair_searcher(2), of 0 10] fair_searcher(1) by simp
qed

section \<open>Pages of results\<close>

text \<open>
  Only the first page of results reaches the client. Whenever a page is sent, the flag that
  there is a next page is unset, however many results are left; and the results of every page
  after the first are written behind the end of the packet, because the position is counted from
  the first result and not from the first of the page.
\<close>

theorem later_pages_lost:
  assumes "0 \<le> ss_pages s" "ss_pages s * SEARCHSTORE_RESULTS_PER_PAGE < int (length (ss_items s))"
    and "search_store_info_ack s = (len, first, nextp, cells)"
  shows "\<not> nextp \<and> cells \<noteq> [] \<and> (first \<longleftrightarrow> ss_pages s = 0) \<and>
    (\<forall>(pos, it) \<in> set cells. if first then int (pos + ack_blocksize) \<le> len else len \<le> int pos)"
proof -
  define st where "st = nat (ss_pages s * SEARCHSTORE_RESULTS_PER_PAGE)"
  define fin where "fin = min (length (ss_items s)) (st + nat SEARCHSTORE_RESULTS_PER_PAGE)"
  have r: "len = to_uint16 (7 + (int fin - int st) * int ack_blocksize)" "first = (ss_pages s = 0)" "nextp = searchstore_querynext s"
    "cells = map (\<lambda>i. (i * ack_blocksize + 7, ss_items s ! i)) [st..<fin]"
    using assms(3) by (simp_all add: search_store_info_ack_def Let_def st_def fin_def)
  have b: "st < fin" "fin \<le> st + 10" "int st = ss_pages s * 10"
    using assms(1,2) by (auto simp: fin_def st_def SEARCHSTORE_RESULTS_PER_PAGE_def)
  have bs: "ack_blocksize = 106" by (simp add: ack_blocksize_def MESSAGE_SIZE_def)
  have len: "len = 7 + (int fin - int st) * 106"
    using b unfolding r(1) bs by (subst to_uint16_id) auto
  have "(int (length (ss_items s)) - 1) div 10 \<ge> ss_pages s" using assms(2) by (simp add: SEARCHSTORE_RESULTS_PER_PAGE_def)
  then have "\<not> nextp" by (simp add: r(3) searchstore_querynext_def SEARCHSTORE_RESULTS_PER_PAGE_def)
  moreover have "if first then int (i * ack_blocksize + 7 + ack_blocksize) \<le> len else len \<le> int (i * ack_blocksize + 7)"
    if "st \<le> i" "i < fin" for i
    using that b assms(1) by (auto simp: r(2) len bs)
  ultimately show ?thesis using b r(2,4) by auto
qed

text \<open>Twelve results: the first page holds ten, the second has two outside its packet.\<close>

definition twelve :: shopper where
  "twelve = (newcome (pc_start 3))\<lparr>ss_open := True, ss_items := replicate 12 \<lparr>ssi_store_id = 0, ssi_account_id = 1, ssi_store_name = [],
     ssi_nameid = 512, ssi_amount = 1, ssi_price = 7, ssi_card = [0, 0, 0, 0], ssi_refine = 0\<rparr>, ss_pages := 1\<rparr>"

theorem later_pages_lost_witness:
  "\<exists>len cells. search_store_info_ack twelve = (len, False, False, cells) \<and> len = 219 \<and> map fst cells = [1067, 1173] \<and>
    (\<forall>(pos, it) \<in> set cells. len \<le> int pos)"
proof -
  obtain len first nextp cells where a: "search_store_info_ack twelve = (len, first, nextp, cells)" by (metis prod_cases4)
  have "fst (search_store_info_ack twelve) = 219" "map fst (snd (snd (snd (search_store_info_ack twelve)))) = [1067, 1173]" by code_simp+
  moreover have "ss_pages twelve = 1" "length (ss_items twelve) = 12" by code_simp+
  ultimately show ?thesis
    using later_pages_lost [OF _ _ a] a by (auto simp: SEARCHSTORE_RESULTS_PER_PAGE_def split: if_splits)
qed

end
