(* ===== verification/Deals.thy ===== *)
theory Deals
  imports Market
begin

text \<open>
  What changes hands in the shops: the sums and the pieces of a purchase and of a sale, the cases
  in which goods are lost or underpaid, and what becomes of the shops of absent owners.
\<close>

section \<open>Purchases\<close>

lemma tax_of:
  assumes "0 \<le> z" "z \<le> MAX_ZENY" "0 \<le> rate" "rate \<le> 10000"
  shows "apply_percentrate64 z rate 10000 = z * rate div 10000"
proof -
  have "rate \<noteq> 0 \<Longrightarrow> \<not> c_div 9223372036854775807 rate < z"
  proof -
    assume "rate \<noteq> 0"
    then have "9223372036854775807 div 10000 \<le> 9223372036854775807 div rate" using assms(3,4) by (intro zdiv_mono2) auto
    then show ?thesis using assms \<open>rate \<noteq> 0\<close> by (simp add: MAX_ZENY_def)
  qed
  then show ?thesis using assms by (simp add: apply_percentrate64_def)
qed

lemma deal_sums:
  assumes c: "carries env (pc s)" "carries env (pc v)" "goods_ok env (sd_cart (pc v))"
    and z: "0 \<le> sd_zeny (pc v)" "0 \<le> vending_tax conf" "vending_tax conf \<le> 10000" "sd_zeny (pc v) \<le> MAX_ZENY"
    and n: "sd_vend_num v \<le> length (sd_vend_list v)" "data \<noteq> []"
    and ck: "purchase_check conf env s v blank (sd_vend_list v) 0 0 0 data = Some (js, z)"
    and d: "purchase_deal conf env data js z s v = (s', v')"
  shows "sd_zeny (pc s') = sd_zeny (pc s) - price_of v data \<and>
    sd_zeny (pc v') = min MAX_ZENY (sd_zeny (pc v) + price_of v data - price_of v data * vending_tax conf div 10000) \<and>
    total k (sd_cart (pc v')) = total k (sd_cart (pc v)) - sold k (sd_cart (pc v)) data \<and>
    total k (sd_inventory (pc s')) = total k (sd_inventory (pc s)) + sold k (sd_cart (pc v)) data
      - refused env k data (s\<lparr>pc := snd (pc_payzeny z (pc s))\<rparr>) v"
proof -
  have ck': "length js = length data \<and> z = price_of v data \<and>
    (\<forall>d \<in> set data. 0 < pair_amount d \<and> 0 \<le> pair_idx d \<and> pair_idx d < int MAX_CART) \<and>
    0 \<le> z \<and> z \<le> sd_zeny (pc s) \<and> z \<le> MAX_ZENY \<and>
    (sold_at n data = 0 \<or> sold_at n data \<le> i_amount (sd_cart (pc v) ! n))" for n
    using check_ok [OF ck n(1), of n] n(2) by auto
  have zz: "z = price_of v data" "0 \<le> z" "z \<le> sd_zeny (pc s)" "z \<le> MAX_ZENY" using ck' by blast+
  define tax where "tax = z * vending_tax conf div 10000"
  have "z * vending_tax conf \<le> z * 10000" using zz(2) z(3) by (intro mult_left_mono) simp_all
  then have "z * vending_tax conf div 10000 \<le> z * 10000 div 10000" by (intro zdiv_mono1) simp_all
  then have tax: "0 \<le> tax" "tax \<le> z" using zz(2) z(2) by (simp_all add: tax_def pos_imp_zdiv_nonneg_iff)
  define s1 where "s1 = on_pc (\<lambda>p. snd (pc_payzeny z p)) s"
  define v1 where "v1 = on_pc (\<lambda>p. snd (pc_getzeny (to_int32 (z - tax)) p)) v"
  have "(if vending_tax conf \<noteq> 0 then z - apply_percentrate64 z (vending_tax conf) 10000 else z) = z - tax"
    using tax_of [OF zz(2,4) z(2,3)] by (simp add: tax_def)
  then obtain v2 where m: "purchase_move env data js s1 v1 = (s', v2)" "v' = compact_vending v2"
    using d by (cases "purchase_move env data js s1 v1") (simp add: purchase_deal_def s1_def v1_def)
  have s1: "pc s1 = (pc s)\<lparr>sd_zeny := sd_zeny (pc s) - z\<rparr>"
    using zz by (simp add: s1_def pc_payzeny_def cap_value_def MAX_ZENY_def)
  have v1: "pc v1 = (pc v)\<lparr>sd_zeny := min MAX_ZENY (sd_zeny (pc v) + (z - tax))\<rparr>"
    using zz z(1,4) tax by (simp add: v1_def pc_getzeny_def cap_value_def MAX_ZENY_def Let_def min_def)
  have ca: "carries env (pc s1)" "carries env (pc v1)" "goods_ok env (sd_cart (pc v1))"
    using c by (simp_all add: s1 v1 carries_def inv_ok_def cart_ok_def)
  have so: "slots_ok (sd_cart (pc v))" "length (sd_cart (pc v)) = MAX_CART" using c(2) by (simp_all add: carries_def cart_ok_def)
  have "0 \<le> i_amount (sd_cart (pc v) ! n)" if "n < MAX_CART" for n
    using slots_ok_nth [OF so(1), of n] so(2) that by (auto simp: slot_ok_def)
  moreover have "sold_at n data = 0 \<or> sold_at n data \<le> i_amount (sd_cart (pc v) ! n)" for n using ck' by blast
  ultimately have "\<forall>n < MAX_CART. sold_at n data \<le> i_amount (sd_cart (pc v1) ! n)" by (simp add: v1) (metis)
  note mv = move_ok [OF ca _ this _ m(1), of k]
  have rf: "refused env k data s1 v1 = refused env k data (s\<lparr>pc := snd (pc_payzeny z (pc s))\<rparr>) v"
    unfolding s1_def by (rule refused_cart) (simp add: v1)
  have "sd_zeny (pc s') = sd_zeny (pc s1)" using mv ck' pc_frame_sel(1) [of "pc s'" "pc s1"] by blast
  then show ?thesis using mv ck' rf zz by (simp add: m(2) s1 v1 tax_def)
qed

text \<open>The request of a buyer a vendor serves, before the checks of the items.\<close>

definition served :: "shop_conf \<Rightarrow> int \<Rightarrow> int \<Rightarrow> int \<Rightarrow> (int \<times> int) list \<Rightarrow> shopper \<Rightarrow> shopper \<Rightarrow> bool" where
  "served conf a aid uid data s v \<longleftrightarrow> sd_vending (pc v) \<and> aid \<noteq> a \<and> sd_vender_id v = uid \<and> \<not> shop_too_far conf aid s v \<and>
     1 \<le> length data \<and> length data \<le> MAX_VENDING \<and> length data \<le> sd_vend_num v"

lemma purchase_deals:
  assumes w: "who m a = Some s" "who m aid = Some v" and sv: "served conf a aid uid data s v" and at: "sd_autotrade v = 0"
    and ck: "purchase_check conf env (searchstore_clearremote s) v (pc_inventoryblank (pc s)) (sd_vend_list v) 0 0 0 data = Some (js, z)"
    and d: "purchase_deal conf env data js z (searchstore_clearremote s) v = (s', v')" and e: "sd_autotrade v' = sd_autotrade v"
  shows "who (vending_purchasereq conf env a aid uid data m) a = Some s' \<and> who (vending_purchasereq conf env a aid uid data m) aid = Some v'"
proof -
  have p: "pc (searchstore_clearremote s) = pc s" by (simp add: searchstore_clearremote_def)
  have "vending_purchasereq conf env a aid uid data m = set_who aid v' (set_who a s' (set_who a (searchstore_clearremote s) m))"
    unfolding vending_purchasereq_def w option.case prod.case Let_def p ck d
    using sv at e by (auto simp: served_def)
  then show ?thesis using sv by (simp add: served_def set_who_def)
qed

text \<open>The same when the vendor is an absent one, who leaves with the last piece sold.\<close>

lemma purchase_leaves:
  assumes w: "who m a = Some s" "who m aid = Some v" and sv: "served conf a aid uid data s v"
    and ck: "purchase_check conf env (searchstore_clearremote s) v (pc_inventoryblank (pc s)) (sd_vend_list v) 0 0 0 data = Some (js, z)"
    and d: "purchase_deal conf env data js z (searchstore_clearremote s) v = (s', v')"
  shows "who (vending_purchasereq conf env a aid uid data m) a = Some s'"
    and "\<exists>v2. last_seen (vending_purchasereq conf env a aid uid data m) aid = Some v2 \<and>
      sd_zeny (pc v2) = sd_zeny (pc v') \<and> sd_cart (pc v2) = sd_cart (pc v')"
proof -
  have p: "pc (searchstore_clearremote s) = pc s" by (simp add: searchstore_clearremote_def)
  define m2 where "m2 = set_who aid v' (set_who a s' (set_who a (searchstore_clearremote s) m))"
  have ne: "aid \<noteq> a" using sv by (simp add: served_def)
  have r: "vending_purchasereq conf env a aid uid data m = m2 \<or>
      vending_purchasereq conf env a aid uid data m = quit aid (vending_closevending aid m2)"
    unfolding vending_purchasereq_def w option.case prod.case Let_def p ck d m2_def
    using sv by (auto simp: served_def)
  have w2: "who m2 a = Some s'" "who m2 aid = Some v'" using ne by (simp_all add: m2_def set_who_def)
  have c: "who (vending_closevending aid m2) a = Some s'"
    "\<exists>v2. who (vending_closevending aid m2) aid = Some v2 \<and> sd_zeny (pc v2) = sd_zeny (pc v') \<and> sd_cart (pc v2) = sd_cart (pc v')"
    using w2 ne by (simp_all add: vending_closevending_def set_who_def)
  show "who (vending_purchasereq conf env a aid uid data m) a = Some s'" using r w2 c(1) ne by (auto simp: quit_def)
  show "\<exists>v2. last_seen (vending_purchasereq conf env a aid uid data m) aid = Some v2 \<and>
      sd_zeny (pc v2) = sd_zeny (pc v') \<and> sd_cart (pc v2) = sd_cart (pc v')"
    using r w2 c(2) by (auto simp: last_seen_def quit_def)
qed

lemma deal_autotrade:
  assumes "purchase_deal conf env data js z s v = (s', v')"
  shows "sd_autotrade v' = sd_autotrade v"
proof -
  have mv: "sd_autotrade v2 = sd_autotrade v1" if "purchase_move env data js s1 v1 = (s2, v2)" for s1 v1 s2 v2
    using that
  proof (induction data arbitrary: js s1 v1)
    case (Cons d r)
    then show ?case by (cases d; cases js) (auto simp: Let_def dest!: Cons.IH)
  qed simp
  show ?thesis using assms by (auto simp: purchase_deal_def Let_def compact_vending_def split: prod.splits if_splits dest!: mv)
qed

text \<open>
  C5. A purchase settles exactly. Take a vendor whose cart holds only items the database knows,
  none expired, a tax between none and all, and a buyer whose request is served and passes the
  checks of the items. Then the buyer pays the sum of the prices asked; the vendor gets it less the
  tax, cut off at the most zeny a character may own (the checks let that happen only under
  \<open>vending_over_max\<close>); the cart loses exactly the pieces asked for, whatever positions the packet
  repeats; and the inventory gains them except those it refuses. If the vendor is an absent one who
  leaves with the last piece, this is how he is saved.
\<close>

theorem purchase_settles:
  assumes "who m a = Some s" "who m aid = Some v" "served conf a aid uid data s v"
    and "carries env (pc s)" "carries env (pc v)" "goods_ok env (sd_cart (pc v))"
    and "0 \<le> sd_zeny (pc v)" "0 \<le> vending_tax conf" "vending_tax conf \<le> 10000" "sd_zeny (pc v) \<le> MAX_ZENY"
    and "sd_vend_num v \<le> length (sd_vend_list v)"
    and "purchase_check conf env (searchstore_clearremote s) v (pc_inventoryblank (pc s)) (sd_vend_list v) 0 0 0 data = Some (js, z)"
  shows "\<exists>s' v'. who (vending_purchasereq conf env a aid uid data m) a = Some s' \<and>
    last_seen (vending_purchasereq conf env a aid uid data m) aid = Some v' \<and> z = price_of v data \<and>
    sd_zeny (pc s') = sd_zeny (pc s) - z \<and>
    sd_zeny (pc v') = min MAX_ZENY (sd_zeny (pc v) + z - z * vending_tax conf div 10000) \<and>
    (\<not> vending_over_max conf \<longrightarrow> sd_zeny (pc v') = sd_zeny (pc v) + z - z * vending_tax conf div 10000) \<and>
    (\<forall>k. total k (sd_cart (pc v')) = total k (sd_cart (pc v)) - sold k (sd_cart (pc v)) data \<and>
       total k (sd_inventory (pc s')) = total k (sd_inventory (pc s)) + sold k (sd_cart (pc v)) data
         - refused env k data ((searchstore_clearremote s)\<lparr>pc := snd (pc_payzeny z (pc s))\<rparr>) v)"
proof -
  obtain s' v' where d: "purchase_deal conf env data js z (searchstore_clearremote s) v = (s', v')" by fastforce
  have p: "pc (searchstore_clearremote s) = pc s" by (simp add: searchstore_clearremote_def)
  have ne: "data \<noteq> []" using assms(3) by (auto simp: served_def)
  have z: "z = price_of v data" "0 \<le> z" "\<not> vending_over_max conf \<Longrightarrow> z \<le> MAX_ZENY - sd_zeny (pc v)"
    using check_ok [OF assms(12,11), of 0] ne by auto
  have tax: "0 \<le> z * vending_tax conf div 10000" using z(2) assms(8) by (simp add: pos_imp_zdiv_nonneg_iff)
  have car: "carries env (pc (searchstore_clearremote s))" using assms(4) by (simp add: p)
  have over: "\<not> vending_over_max conf \<Longrightarrow>
      min MAX_ZENY (sd_zeny (pc v) + z - z * vending_tax conf div 10000) = sd_zeny (pc v) + z - z * vending_tax conf div 10000"
    using z(3) tax by simp
  note sums = deal_sums [OF car assms(5-11) ne assms(12) d]
  obtain v2 where "last_seen (vending_purchasereq conf env a aid uid data m) aid = Some v2"
      "sd_zeny (pc v2) = sd_zeny (pc v')" "sd_cart (pc v2) = sd_cart (pc v')"
    using purchase_leaves(2) [OF assms(1-3,12) d] by blast
  then show ?thesis
    using purchase_leaves(1) [OF assms(1-3,12) d] sums over z(1) by (auto simp: p)
qed

lemma vendor_carries: "carries apple_env ((pc_vendor 1)\<lparr>sd_vending := b\<rparr>)" "goods_ok apple_env (sd_cart (pc_vendor 1))"
proof -
  have a: "slots_ok ((replicate 100 zero_item)[0 := apple])"
    by (intro slots_ok_update) (simp_all add: slot_ok_def apple_def MAX_AMOUNT_def)
  have "carries apple_env (pc_start 1)" by (rule pc_start_carries)
  then show "carries apple_env ((pc_vendor 1)\<lparr>sd_vending := b\<rparr>)"
    using a by (simp add: carries_def pc_vendor_def inv_ok_def cart_ok_def pc_limits)
  have "set ((replicate 100 zero_item)[0 := apple]) \<subseteq> insert apple (set (replicate 100 zero_item))"
    by (rule set_update_subset_insert)
  then show "goods_ok apple_env (sd_cart (pc_vendor 1))"
    by (auto simp: goods_ok_def pc_vendor_def apple_env_def not_expired_def apple_def zero_item_def)
qed

lemma fair_tax: "0 \<le> vending_tax fair_conf" "vending_tax fair_conf \<le> 10000" "\<not> vending_over_max fair_conf" "vending_tax fair_conf = 500"
  by (simp_all add: fair_conf_def)

theorem purchase_settles_witness:
  "\<exists>s' v'. who (vending_purchasereq fair_conf apple_env 3 1 0 [(3, 2)] fair) 3 = Some s' \<and>
    last_seen (vending_purchasereq fair_conf apple_env 3 1 0 [(3, 2)] fair) 1 = Some v' \<and>
    sd_zeny (pc s') = 979 \<and> sd_zeny (pc v') = 1020 \<and> total 512 (sd_cart (pc v')) = 7 \<and> total 512 (sd_inventory (pc s')) = 3"
proof -
  have c: "carries apple_env (pc visitor3)" "carries apple_env (pc vendor1)" "goods_ok apple_env (sd_cart (pc vendor1))"
    using vendor_carries pc_start_carries(1) by (simp_all add: fair_pc)
  have ck: "purchase_check fair_conf apple_env (searchstore_clearremote visitor3) vendor1 (pc_inventoryblank (pc visitor3))
      (sd_vend_list vendor1) 0 0 0 [(3, 2)] = Some ([0], 21)" by code_simp
  have sv: "served fair_conf 3 1 0 [(3, 2)] visitor3 vendor1"
    "sd_vend_num vendor1 \<le> length (sd_vend_list vendor1)" by code_simp+
  have v: "sold 512 (sd_cart (pc vendor1)) [(3, 2)] = 3" "total 512 (sd_cart (pc vendor1)) = 10"
    "total 512 (sd_inventory (pc visitor3)) = 0" "sd_zeny (pc visitor3) = 1000" "sd_zeny (pc vendor1) = 1000"
    "refused apple_env 512 [(3, 2)] ((searchstore_clearremote visitor3)\<lparr>pc := snd (pc_payzeny 21 (pc visitor3))\<rparr>) vendor1 = 0"
    by code_simp+
  have zv: "0 \<le> sd_zeny (pc vendor1)" "sd_zeny (pc vendor1) \<le> MAX_ZENY" by (simp_all add: v MAX_ZENY_def)
  note purchase_settles [OF fair_who(3,1) sv(1) c zv(1) fair_tax(1,2) zv(2) sv(2) ck]
  then obtain s' v' where r: "who (vending_purchasereq fair_conf apple_env 3 1 0 [(3, 2)] fair) 3 = Some s'"
      "last_seen (vending_purchasereq fair_conf apple_env 3 1 0 [(3, 2)] fair) 1 = Some v'"
      "sd_zeny (pc s') = sd_zeny (pc visitor3) - 21"
      "sd_zeny (pc v') = sd_zeny (pc vendor1) + 21 - 21 * vending_tax fair_conf div 10000"
      "total 512 (sd_cart (pc v')) = total 512 (sd_cart (pc vendor1)) - sold 512 (sd_cart (pc vendor1)) [(3, 2)]"
      "total 512 (sd_inventory (pc s')) = total 512 (sd_inventory (pc visitor3)) + sold 512 (sd_cart (pc vendor1)) [(3, 2)] -
        refused apple_env 512 [(3, 2)] ((searchstore_clearremote visitor3)\<lparr>pc := snd (pc_payzeny 21 (pc visitor3))\<rparr>) vendor1"
    using fair_tax(3) by blast
  have "sd_zeny (pc s') = 979" "sd_zeny (pc v') = 1020" "total 512 (sd_cart (pc v')) = 7" "total 512 (sd_inventory (pc s')) = 3"
    unfolding r(3-6) v fair_tax(4) by simp_all
  then show ?thesis using r(1,2) by blast
qed

lemma additem_no_room:
  assumes "length (sd_inventory p) = MAX_INVENTORY" "\<forall>x \<in> set (sd_inventory p). i_nameid x \<noteq> 0 \<and> \<not> stacks_with it x"
  shows "fst (pc_additem env it amount p) \<noteq> 0"
proof -
  have "arr_find (stacks_with it) (sd_inventory p) = MAX_INVENTORY"
    using assms arr_find_eq_length_iff [of "stacks_with it" "sd_inventory p"] by auto
  moreover have "pc_search_inventory 0 p = None"
    using assms arr_find_eq_length_iff [of "\<lambda>x. i_nameid x = 0" "sd_inventory p"] by (auto simp: pc_search_inventory_def Let_def)
  ultimately show ?thesis by (auto simp: pc_additem_def Let_def)
qed

text \<open>
  C33. A buyer can pay for nothing: the checks count a stack of the same item number as room for
  the goods, but \<open>pc_additem\<close> stacks only items with equal cards, binding, number and no expiry
  time, and its refusal is ignored. With a full inventory and no stack the goods fit on, the buyer
  pays, the goods leave the cart, and nothing arrives.
\<close>

theorem purchase_lost:
  assumes "who m a = Some s" "who m aid = Some v" "served conf a aid uid [d] s v" "sd_autotrade v = 0"
    and "carries env (pc s)" "carries env (pc v)" "goods_ok env (sd_cart (pc v))"
    and "0 \<le> sd_zeny (pc v)" "0 \<le> vending_tax conf" "vending_tax conf \<le> 10000" "\<not> vending_over_max conf"
    and "sd_vend_num v \<le> length (sd_vend_list v)"
    and "purchase_check conf env (searchstore_clearremote s) v (pc_inventoryblank (pc s)) (sd_vend_list v) 0 0 0 [d] = Some (js, z)"
    and "\<forall>x \<in> set (sd_inventory (pc s)). i_nameid x \<noteq> 0 \<and> \<not> stacks_with (sd_cart (pc v) ! nat (pair_idx d)) x"
  shows "\<exists>s' v'. who (vending_purchasereq conf env a aid uid [d] m) a = Some s' \<and>
    who (vending_purchasereq conf env a aid uid [d] m) aid = Some v' \<and> sd_zeny (pc s') = sd_zeny (pc s) - z \<and>
    total k (sd_cart (pc v')) = total k (sd_cart (pc v)) - sold k (sd_cart (pc v)) [d] \<and>
    total k (sd_inventory (pc s')) = total k (sd_inventory (pc s))"
proof -
  obtain s' v' where d: "purchase_deal conf env [d] js z (searchstore_clearremote s) v = (s', v')" by fastforce
  have p: "pc (searchstore_clearremote s) = pc s" by (simp add: searchstore_clearremote_def)
  have z: "z = price_of v [d]" using check_ok [OF assms(13,12)] by simp
  have zm: "sd_zeny (pc v) \<le> MAX_ZENY" using check_ok [OF assms(13,12), of 0] assms(11) by auto
  note w = purchase_deals [OF assms(1-4,13) d deal_autotrade [OF d]]
  define q where "q = snd (pc_payzeny z (pc s))"
  have "sd_inventory q = sd_inventory (pc s)" by (simp add: q_def pc_payzeny_def Let_def)
  then have "fst (pc_additem env (sd_cart (pc v) ! nat (pair_idx d)) (pair_amount d) q) \<noteq> 0"
    using assms(5,14) by (intro additem_no_room) (auto simp: carries_def inv_ok_def)
  then have "refused env k [d] ((searchstore_clearremote s)\<lparr>pc := q\<rparr>) v = sold k (sd_cart (pc v)) [d]"
    by (simp add: sold_def split_beta)
  then show ?thesis
    using w deal_sums [of env "searchstore_clearremote s" v conf "[d]", OF _ assms(6-10) zm assms(12) _ assms(13) d, of k] assms(5) z
    by (auto simp: p q_def)
qed

text \<open>A visitor whose hundred places hold bound apples.\<close>

definition pc_full :: map_session_data where
  "pc_full = (pc_start 4)\<lparr>sd_inventory := replicate 100 (apple\<lparr>i_bound := 4\<rparr>), sd_inventory_data := replicate 100 (Some apple_data)\<rparr>"

definition fair_full :: market where
  "fair_full = set_who 4 (newcome pc_full) fair"

theorem purchase_lost_witness:
  "\<exists>s' v'. who (vending_purchasereq fair_conf apple_env 4 1 0 [(3, 2)] fair_full) 4 = Some s' \<and>
    who (vending_purchasereq fair_conf apple_env 4 1 0 [(3, 2)] fair_full) 1 = Some v' \<and>
    sd_zeny (pc s') = 979 \<and> total 512 (sd_cart (pc v')) = 7 \<and> total 512 (sd_inventory (pc s')) = total 512 (sd_inventory pc_full)"
proof -
  let ?s = "newcome pc_full"
  have w: "who fair_full 4 = Some ?s" "who fair_full 1 = Some vendor1" using fair_who by (simp_all add: fair_full_def)
  have "slots_ok (replicate 100 (apple\<lparr>i_bound := 4\<rparr>))"
    by (simp add: slots_ok_def slot_ok_def apple_def MAX_AMOUNT_def)
  then have c: "carries apple_env (pc ?s)" "carries apple_env (pc vendor1)" "goods_ok apple_env (sd_cart (pc vendor1))"
    using vendor_carries apple_env_ok by (simp_all add: fair_pc newcome_def pc_full_def carries_def inv_ok_def cart_ok_def pc_start_def pc_limits apple_def)
  have ck: "purchase_check fair_conf apple_env (searchstore_clearremote ?s) vendor1 (pc_inventoryblank (pc ?s))
      (sd_vend_list vendor1) 0 0 0 [(3, 2)] = Some ([0], 21)" by code_simp
  have sv: "served fair_conf 4 1 0 [(3, 2)] ?s vendor1" "sd_autotrade vendor1 = 0"
    "sd_vend_num vendor1 \<le> length (sd_vend_list vendor1)" by code_simp+
  have room: "\<forall>x \<in> set (sd_inventory (pc ?s)). i_nameid x \<noteq> 0 \<and> \<not> stacks_with (sd_cart (pc vendor1) ! nat (pair_idx (3, 2))) x"
  proof -
    have "pair_idx (3, 2) = 0" by code_simp
    then show ?thesis by (simp add: fair_pc pc_vendor_def newcome_def pc_full_def apple_def zero_item_def stacks_with_def)
  qed
  have v: "sold 512 (sd_cart (pc vendor1)) [(3, 2)] = 3" "total 512 (sd_cart (pc vendor1)) = 10"
    "sd_zeny (pc ?s) = 1000" "sd_zeny (pc vendor1) = 1000" by code_simp+
  have "0 \<le> sd_zeny (pc vendor1)" by (simp add: v)
  from purchase_lost [OF w sv(1,2) c this fair_tax(1-3) sv(3) ck room, of 512]
  show ?thesis unfolding v by (simp add: newcome_def)
qed

end
