(* ===== verification/Sales.thy ===== *)
theory Sales
  imports Deals
begin

text \<open>
  What changes hands at a buying store: the sums and the pieces, and two ways the deal goes wrong
  for one side.
\<close>

section \<open>Selling\<close>

text \<open>The request of a seller a store deals with, before the checks of the items.\<close>

definition sells :: "shop_conf \<Rightarrow> int \<Rightarrow> int \<Rightarrow> (int \<times> int \<times> int) list \<Rightarrow> shopper \<Rightarrow> shopper \<Rightarrow> bool" where
  "sells conf account_id buyer_id l s b \<longleftrightarrow> l \<noteq> [] \<and> feature_buying_store conf \<and> \<not> pc_istrading s \<and> perm_trade (pc s) \<and>
     sd_buyingstore (pc b) \<and> sd_buyer_id b = buyer_id \<and> \<not> shop_too_far conf account_id s b"

text \<open>The store with its limit cut to what the owner has.\<close>

definition store_now :: "shopper \<Rightarrow> shopper" where
  "store_now b = (if sd_zeny (pc b) < sd_bs_zenylimit b then b\<lparr>sd_bs_zenylimit := sd_zeny (pc b)\<rparr> else b)"

lemma store_now_sel [simp]: "pc (store_now b) = pc b" "sd_bs_items (store_now b) = sd_bs_items b" "sd_bs_slots (store_now b) = sd_bs_slots b"
  "sd_autotrade (store_now b) = sd_autotrade b" "sd_bs_zenylimit (store_now b) \<le> sd_zeny (pc b)"
  by (simp_all add: store_now_def)

lemma clearremote_sel [simp]: "sd_bs_items (searchstore_clearremote s) = sd_bs_items s"
  by (simp add: searchstore_clearremote_def)

lemma trade_result:
  assumes "who m a = Some s" "who m account_id = Some b" "sells conf account_id buyer_id l s b"
    and "sell_check env (searchstore_clearremote s) (store_now b) [] (sd_weight (pc b)) 0 l"
    and "fold (sell_one env) l (searchstore_clearremote s, store_now b) = (s', b')"
  shows "who (buyingstore_trade conf env a account_id buyer_id l m) a = Some s'"
    and "\<And>b2. who (buyingstore_trade conf env a account_id buyer_id l m) account_id = Some b2 \<Longrightarrow>
      sd_zeny (pc b2) = sd_zeny (pc b') \<and> sd_inventory (pc b2) = sd_inventory (pc b')"
    and "store_done b' \<Longrightarrow> sd_autotrade b' \<noteq> 0 \<Longrightarrow> who (buyingstore_trade conf env a account_id buyer_id l m) account_id = None"
    and "\<not> store_done b' \<Longrightarrow> who (buyingstore_trade conf env a account_id buyer_id l m) account_id = Some b'"
    and "\<exists>b2. last_seen (buyingstore_trade conf env a account_id buyer_id l m) account_id = Some b2 \<and>
      sd_zeny (pc b2) = sd_zeny (pc b') \<and> sd_inventory (pc b2) = sd_inventory (pc b')"
proof -
  have ne: "account_id \<noteq> a" using assms(1-3) by (auto simp: sells_def pc_istrading_def)
  define m2 where "m2 = set_who account_id b' (set_who a s' (set_who account_id (store_now b) (set_who a (searchstore_clearremote s) m)))"
  have r: "buyingstore_trade conf env a account_id buyer_id l m =
      (if store_done b' then if sd_autotrade b' \<noteq> 0 then quit account_id (buyingstore_close account_id m2) else buyingstore_close account_id m2 else m2)"
    unfolding buyingstore_trade_def assms(1,2) option.case store_now_def [symmetric] Let_def
    using assms(3-5) by (simp add: sells_def m2_def)
  have w: "who m2 a = Some s'" "who m2 account_id = Some b'" using ne by (simp_all add: m2_def)
  have cl: "who (buyingstore_close account_id m2) a = Some s'"
    "\<exists>b2. who (buyingstore_close account_id m2) account_id = Some b2 \<and> sd_zeny (pc b2) = sd_zeny (pc b') \<and> sd_inventory (pc b2) = sd_inventory (pc b')"
    using w ne by (simp_all add: buyingstore_close_def)
  show "who (buyingstore_trade conf env a account_id buyer_id l m) a = Some s'"
    using w cl ne by (simp add: r quit_def)
  show "\<And>b2. who (buyingstore_trade conf env a account_id buyer_id l m) account_id = Some b2 \<Longrightarrow>
      sd_zeny (pc b2) = sd_zeny (pc b') \<and> sd_inventory (pc b2) = sd_inventory (pc b')"
    using w cl(2) by (auto simp: r quit_def split: if_splits)
  show "store_done b' \<Longrightarrow> sd_autotrade b' \<noteq> 0 \<Longrightarrow> who (buyingstore_trade conf env a account_id buyer_id l m) account_id = None"
    by (simp add: r quit_def)
  show "\<not> store_done b' \<Longrightarrow> who (buyingstore_trade conf env a account_id buyer_id l m) account_id = Some b'"
    by (simp add: r w)
  show "\<exists>b2. last_seen (buyingstore_trade conf env a account_id buyer_id l m) account_id = Some b2 \<and>
      sd_zeny (pc b2) = sd_zeny (pc b') \<and> sd_inventory (pc b2) = sd_inventory (pc b')"
    using w cl(2) by (auto simp: r last_seen_def quit_def)
qed

text \<open>
  C7. A sale settles exactly. Take a request a store deals with, whose items pass the checks and of
  which no product of amount and price leaves the range of an \<open>int\<close>, from a seller who carries
  nothing expired and can hold the money. Then the seller gets the sum of the products and loses the pieces sold, the owner of the
  store pays the sum, which is within the limit and his money, and his inventory gains the pieces
  except those it refuses. If the sale completes the store and so makes its owner leave, this is how
  he is saved.
\<close>

theorem sale_settles:
  assumes "who m a = Some s" "who m account_id = Some b" "sells conf account_id buyer_id l s b"
    and "sell_check env (searchstore_clearremote s) (store_now b) [] (sd_weight (pc b)) 0 l"
    and "traders env (s, b)" "0 \<le> sd_bs_zenylimit b" "0 \<le> sd_zeny (pc b)" "sd_zeny (pc b) \<le> MAX_ZENY"
    and "\<forall>x \<in> set l. 0 < snd (snd x) \<and> 0 \<le> sale_cost b x \<and> sale_cost b x < 2147483648"
    and "sd_zeny (pc s) + sale_total b l \<le> MAX_ZENY"
  shows "\<exists>s'. who (buyingstore_trade conf env a account_id buyer_id l m) a = Some s' \<and>
    sale_total b l \<le> sd_bs_zenylimit b \<and> sale_total b l \<le> sd_zeny (pc b) \<and>
    sd_zeny (pc s') = sd_zeny (pc s) + sale_total b l \<and>
    total k (sd_inventory (pc s')) = total k (sd_inventory (pc s)) - sale_pieces k l \<and>
    (\<exists>b'. last_seen (buyingstore_trade conf env a account_id buyer_id l m) account_id = Some b' \<and>
       sd_zeny (pc b') = sd_zeny (pc b) - sale_total b l \<and>
       total k (sd_inventory (pc b')) = total k (sd_inventory (pc b)) + sale_pieces k l
         - turned_away env k l (searchstore_clearremote s, store_now b))"
proof -
  obtain s' b' where f: "fold (sell_one env) l (searchstore_clearremote s, store_now b) = (s', b')" by fastforce
  have ps: "pc (searchstore_clearremote s) = pc s" by (simp add: searchstore_clearremote_def)
  have bf: "bs_find (store_now b) n = bs_find b n" for n by (simp add: bs_find_def)
  have tot: "sale_total (store_now b) l = sale_total b l" by (simp add: sale_total_def bf)
  have cost: "\<forall>x \<in> set l. 0 \<le> sale_cost (store_now b) x \<and> sale_cost (store_now b) x < 2147483648"
    using assms(9) by (simp add: bf)
  have lim: "0 \<le> sd_bs_zenylimit (store_now b)" "sd_bs_zenylimit (store_now b) < 2147483648" "sd_bs_zenylimit (store_now b) \<le> sd_bs_zenylimit b"
    using assms(6-8) by (auto simp: store_now_def MAX_ZENY_def)
  have t: "traders env (searchstore_clearremote s, store_now b)" using assms(5) by (simp add: traders_def ps)
  have sl: "sd_bs_slots (store_now b) \<le> length (sd_bs_items (store_now b))" using assms(5) by (simp add: traders_def)
  note ck = sell_check_ok [OF assms(4) sl cost _ lim(1,2)]
  have ck: "\<forall>x \<in> set l. sale_fits (searchstore_clearremote s) (store_now b) x" "distinct (map fst l)"
    "sale_total (store_now b) l \<le> sd_bs_zenylimit (store_now b)" using ck by simp_all
  have pos: "\<forall>x \<in> set l. 0 < snd (snd x) \<and> 0 \<le> sale_cost (store_now b) x" using assms(9) by (simp add: bf)
  note r = sell_fold [OF t _ _ ck(1) pos ck(2,3) _ f, of k]
  have r: "sd_zeny (pc s') = sd_zeny (pc s) + sale_total b l \<and> sd_zeny (pc b') = sd_zeny (pc b) - sale_total b l \<and>
    total k (sd_inventory (pc s')) = total k (sd_inventory (pc s)) - sale_pieces k l \<and>
    total k (sd_inventory (pc b')) = total k (sd_inventory (pc b)) + sale_pieces k l
      - turned_away env k l (searchstore_clearremote s, store_now b)"
    using r assms(8,10) by (simp add: ps tot)
  have "sale_total b l \<le> sd_bs_zenylimit b \<and> sale_total b l \<le> sd_zeny (pc b)"
    using order_trans [OF ck(3) lim(3)] order_trans [OF ck(3) store_now_sel(5)] by (simp add: tot)
  then show ?thesis
    using r trade_result(1) [OF assms(1-4) f] trade_result(5) [OF assms(1-4) f] by auto
qed

text \<open>Account 6 carries thirty apples, and sells five of them to account 2.\<close>

definition pc_many :: "int \<Rightarrow> map_session_data" where
  "pc_many aid = (pc_start aid)\<lparr>sd_inventory := (replicate 100 zero_item)[0 := apple\<lparr>i_amount := 30\<rparr>],
     sd_inventory_data := (replicate 100 None)[0 := Some apple_data]\<rparr>"

definition stand :: market where
  "stand = set_who 2 ((newcome (pc_apples 2))\<lparr>sd_bs_slots := 3\<rparr>) (set_who 6 (newcome (pc_many 6)) empty_market)"

text \<open>The store: a limit, and how many apples at what price.\<close>

definition store_of :: "int \<Rightarrow> int \<Rightarrow> int \<Rightarrow> market" where
  "store_of limit amount price = snd (buyingstore_create fair_conf apple_env 2 limit 1 [66] [(512, amount, price)] stand)"

definition keeper :: "int \<Rightarrow> int \<Rightarrow> int \<Rightarrow> shopper" where
  "keeper limit amount price = (newcome ((pc_apples 2)\<lparr>sd_buyingstore := True\<rparr>))\<lparr>sd_autotrade := 1, sd_message := [66],
     sd_bs_zenylimit := limit, sd_bs_slots := 1,
     sd_bs_items := (replicate MAX_BUYINGSTORE_SLOTS no_bs_item)[0 := \<lparr>bs_price = price, bs_amount = amount, bs_nameid = 512\<rparr>]\<rparr>"

lemma keeper_there: "who (store_of 500 20 5) 2 = Some (keeper 500 20 5)" "who (store_of 1 50 99990000) 2 = Some (keeper 1 50 99990000)"
  "who (store_of 500 5 5) 2 = Some (keeper 500 5 5)"
  by code_simp+

lemma keeper_pc: "pc (keeper limit amount price) = (pc_apples 2)\<lparr>sd_buyingstore := True\<rparr>" "sd_bs_slots (keeper limit amount price) \<le> length (sd_bs_items (keeper limit amount price))"
  by (simp_all add: keeper_def newcome_def MAX_BUYINGSTORE_SLOTS_def)

lemma many_ok: "inv_ok (pc_many 6)" "fresh apple_env (sd_inventory (pc_many 6))"
proof -
  have "slots_ok ((replicate 100 zero_item)[0 := apple\<lparr>i_amount := 30\<rparr>])"
    by (intro slots_ok_update) (simp_all add: slot_ok_def apple_def MAX_AMOUNT_def)
  moreover have "((replicate 100 None)[0 := Some apple_data] ! n = None) = (i_nameid ((replicate 100 zero_item)[0 := apple\<lparr>i_amount := 30\<rparr>] ! n) = 0)"
    if "n < 100" for n using that by (cases "n = 0") (simp_all add: apple_def)
  ultimately show "inv_ok (pc_many 6)" by (simp add: inv_ok_def pc_many_def pc_limits)
  show "fresh apple_env (sd_inventory (pc_many 6))"
    unfolding pc_many_def by (simp, intro fresh_update) (simp_all add: fresh_def not_expired_def zero_item_def apple_def)
qed

lemma apples_ok: "inv_ok ((pc_apples 2)\<lparr>sd_buyingstore := True\<rparr>)"
  using pc_start_carries(2) [of 2] by (simp add: carries_def inv_ok_def)

lemma stand_traders:
  assumes "pc b = (pc_apples 2)\<lparr>sd_buyingstore := True\<rparr>" "sd_bs_slots b \<le> length (sd_bs_items b)"
  shows "traders apple_env (newcome (pc_many 6), b)"
  using assms many_ok apples_ok apple_env_ok by (simp add: traders_def newcome_def) (simp add: pc_many_def pc_start_def)

lemma create_other: "o' \<noteq> a \<Longrightarrow> who (snd (buyingstore_create conf env a limit result name l m)) o' = who m o'"
  by (simp add: buyingstore_create_def Let_def split_beta split: option.splits)

lemma seller_there: "who (store_of limit amount price) 6 = Some (newcome (pc_many 6))"
  by (simp add: store_of_def create_other stand_def)

text \<open>The sale completes the store: its owner leaves.\<close>

theorem sale_settles_witness:
  "\<exists>s'. who (buyingstore_trade fair_conf apple_env 6 2 0 [(2, 512, 5)] (store_of 500 5 5)) 6 = Some s' \<and>
    sd_zeny (pc s') = 1025 \<and> total 512 (sd_inventory (pc s')) = 25 \<and>
    (\<exists>b'. last_seen (buyingstore_trade fair_conf apple_env 6 2 0 [(2, 512, 5)] (store_of 500 5 5)) 2 = Some b' \<and>
      sd_zeny (pc b') = 975 \<and> total 512 (sd_inventory (pc b')) = 15)"
proof -
  let ?m = "store_of 500 5 5" and ?s = "newcome (pc_many 6)" and ?b = "keeper 500 5 5" and ?l = "[(2, 512, 5)]"
  have w: "who ?m 6 = Some ?s" "who ?m 2 = Some ?b" by (simp_all add: keeper_there seller_there)
  have sv: "sells fair_conf 2 0 ?l ?s ?b" "sell_check apple_env (searchstore_clearremote ?s) (store_now ?b) [] (sd_weight (pc ?b)) 0 ?l" by code_simp+
  have t: "traders apple_env (?s, ?b)" by (rule stand_traders [OF keeper_pc])
  have z: "0 \<le> sd_bs_zenylimit ?b" "0 \<le> sd_zeny (pc ?b)" "sd_zeny (pc ?b) \<le> MAX_ZENY"
    "\<forall>x \<in> set ?l. 0 < snd (snd x) \<and> 0 \<le> sale_cost ?b x \<and> sale_cost ?b x < 2147483648" "sd_zeny (pc ?s) + sale_total ?b ?l \<le> MAX_ZENY" by code_simp+
  have v: "sd_zeny (pc ?s) = 1000" "sd_zeny (pc ?b) = 1000" "sale_total ?b ?l = 25" "sale_pieces 512 ?l = 5"
    "total 512 (sd_inventory (pc ?s)) = 30" "total 512 (sd_inventory (pc ?b)) = 10"
    "turned_away apple_env 512 ?l (searchstore_clearremote ?s, store_now ?b) = 0" by code_simp+
  have e: "1000 + 25 = (1025 :: int)" "1000 - 25 = (975 :: int)" "30 - 5 = (25 :: int)" "10 + 5 - 0 = (15 :: int)" by simp_all
  show ?thesis using sale_settles [OF w sv t z, of 512] unfolding v e by blast
qed

lemma wrap_negative:
  assumes "2147483648 \<le> x" "x < 4294967296"
  shows "to_int32 x = x - 4294967296"
proof -
  have "(x + 2147483648) mod 4294967296 = (x - 2147483648 + 4294967296) mod 4294967296" by (simp add: algebra_simps)
  also have "\<dots> = (x - 2147483648) mod 4294967296" by (rule mod_add_self2)
  also have "\<dots> = x - 2147483648" using assms by simp
  finally show ?thesis by (simp add: to_int32_def)
qed

text \<open>
  C34. A seller can be left with nothing: the product of amount and price is an \<open>int\<close>, and from
  2 \<open>^\<close> 31 up to 2 \<open>^\<close> 32 it wraps to a negative number. The check against the limit then passes
  whatever the owner has, \<open>pc_payzeny\<close> and \<open>pc_getzeny\<close> refuse the negative sum, their answers
  are ignored, and the pieces change hands for free.
\<close>

theorem sale_free:
  assumes "who m a = Some s" "who m account_id = Some b" "sells conf account_id buyer_id [(ix, n, am)] s b"
    and "sell_check env (searchstore_clearremote s) (store_now b) [] (sd_weight (pc b)) 0 [(ix, n, am)]"
    and "traders env (s, b)" "0 < am"
    and "2147483648 \<le> sale_cost b (ix, n, am)" "sale_cost b (ix, n, am) < 4294967296"
  shows "\<exists>s'. who (buyingstore_trade conf env a account_id buyer_id [(ix, n, am)] m) a = Some s' \<and>
    sd_zeny (pc s') = sd_zeny (pc s) \<and>
    total n (sd_inventory (pc s')) = total n (sd_inventory (pc s)) - am \<and>
    (\<forall>b'. who (buyingstore_trade conf env a account_id buyer_id [(ix, n, am)] m) account_id = Some b' \<longrightarrow> sd_zeny (pc b') = sd_zeny (pc b))"
proof -
  let ?x = "(ix, n, am)" and ?s = "searchstore_clearremote s" and ?b = "store_now b"
  define i where "i = nat (ix - 2)"
  define it where "it = sd_inventory (pc s) ! i"
  obtain s' b' where f: "fold (sell_one env) [?x] (?s, ?b) = (s', b')" by fastforce
  have ps: "pc ?s = pc s" by (simp add: searchstore_clearremote_def)
  have bf: "bs_find ?b n = bs_find b n" by (simp add: bs_find_def)
  have t: "env_ok env" "inv_ok (pc s)" "inv_ok (pc b)" "fresh env (sd_inventory (pc s))" using assms(5) by (simp_all add: traders_def)
  have g: "2 \<le> ix" "ix < 2 + int MAX_INVENTORY" "i_nameid it = n" "am \<le> i_amount it"
    using assms(4) by (auto simp: Let_def it_def i_def ps split: if_splits option.splits)
  have i: "i < MAX_INVENTORY" "i_nameid it = n" "am \<le> i_amount it" using g by (auto simp: i_def)
  define zeny where "zeny = to_int32 (am * bs_price (sd_bs_items b ! bs_find b n))"
  have neg: "zeny < 0"
    using assms(7,8) by (simp add: zeny_def wrap_negative)
  have ref: "snd (pc_payzeny zeny p) = p" "snd (pc_getzeny zeny p) = p" for p
    using neg by (simp_all add: pc_payzeny_def pc_getzeny_def cap_value_def MAX_ZENY_def)
  obtain fl p where ad: "pc_additem env it am (pc b) = (fl, p)" by fastforce
  have len: "length (sd_inventory (pc s)) = MAX_INVENTORY" using t(2) by (simp add: inv_ok_def)
  have ex: "not_expired env it" using fresh_nth [OF t(4)] i(1) len by (simp add: it_def)
  have zp: "sd_zeny p = sd_zeny (pc b)"
  proof (cases "fl = 0")
    case True
    then show ?thesis using pc_additem_ok(2) [OF t(1,3) ex ad] frame_zeny by blast
  next
    case False
    then show ?thesis using pc_additem_ok(1) [OF t(1,3) ex ad] by simp
  qed
  obtain q where q: "pc_delitem env i am (pc s) = (0, q)" "pc_frame q = pc_frame (pc s)"
      "total n (sd_inventory q) = total n (sd_inventory (pc s)) - am"
    using pc_delitem_ok [OF t(1,2) i(1) assms(6) i(3) [unfolded it_def]] i(2) by (auto simp: it_def)
  have "pc s' = q" "sd_zeny (pc b') = sd_zeny (pc b)"
    using f ad q(1) zp
    by (auto simp: sell_one_def Let_def ps bf i_def [symmetric] it_def [symmetric] zeny_def [symmetric] ref)
  then show ?thesis
    using trade_result(1) [OF assms(1-4) f] trade_result(2) [OF assms(1-4) f] q(3) frame_zeny [OF q(2)] by auto
qed

text \<open>Twenty-two apples at 99,990,000 zeny each, bought by an owner with a limit of one zeny.\<close>

theorem sale_free_witness:
  "\<exists>s'. who (buyingstore_trade fair_conf apple_env 6 2 0 [(2, 512, 22)] (store_of 1 50 99990000)) 6 = Some s' \<and>
    sd_zeny (pc s') = 1000 \<and> total 512 (sd_inventory (pc s')) = 8"
proof -
  let ?m = "store_of 1 50 99990000" and ?s = "newcome (pc_many 6)" and ?b = "keeper 1 50 99990000"
  have w: "who ?m 6 = Some ?s" "who ?m 2 = Some ?b" by (simp_all add: keeper_there seller_there)
  have sv: "sells fair_conf 2 0 [(2, 512, 22)] ?s ?b"
    "sell_check apple_env (searchstore_clearremote ?s) (store_now ?b) [] (sd_weight (pc ?b)) 0 [(2, 512, 22)]" by code_simp+
  have t: "traders apple_env (?s, ?b)" by (rule stand_traders [OF keeper_pc])
  have c: "2147483648 \<le> sale_cost ?b (2, 512, 22)" "sale_cost ?b (2, 512, 22) < 4294967296" by code_simp+
  have v: "sd_zeny (pc ?s) = 1000" "total 512 (sd_inventory (pc ?s)) = 30" by code_simp+
  show ?thesis using sale_free [OF w sv t _ c] unfolding v by auto
qed

lemma sell_autotrade: "sd_autotrade (snd (fold (sell_one env) l sb)) = sd_autotrade (snd sb)"
proof (induction l arbitrary: sb)
  case (Cons x l)
  have "sd_autotrade (snd (sell_one env x sb)) = sd_autotrade (snd sb)"
    by (cases x; cases sb) (simp add: sell_one_def Let_def)
  then show ?case using Cons.IH by simp
qed simp

lemma create_marks:
  assumes "buyingstore_create conf env o' limit result name items m = (True, m1)"
  shows "\<exists>b. who m1 o' = Some b \<and> sd_autotrade b = 1 \<and> sd_buyingstore (pc b)"
proof (cases "who m o'")
  case (Some b)
  obtain ok w its where c: "create_loop conf env (pc b) 0 (sd_weight (pc b)) (sd_bs_items b) items = (ok, w, its)" by (metis prod_cases3)
  show ?thesis
    using assms unfolding buyingstore_create_def Some option.case c Let_def prod.case
    by (elim if_eqE) auto
qed (use assms in \<open>simp add: buyingstore_create_def\<close>)

text \<open>
  C35. A completed store throws its owner out of the game: \<open>buyingstore_create\<close> marks the owner,
  who sits at the keyboard, as an absent trader, so the sale that leaves nothing to buy or nothing
  to spend ends with \<open>map->quit\<close> for him.
\<close>

theorem completed_store_quits:
  assumes "buyingstore_create conf env o' limit result name items m = (True, m1)"
    and "who m1 o' = Some b" "who m1 a = Some s" "sells conf o' buyer_id l s b"
    and "sell_check env (searchstore_clearremote s) (store_now b) [] (sd_weight (pc b)) 0 l"
    and "store_done (snd (fold (sell_one env) l (searchstore_clearremote s, store_now b)))"
  shows "who (buyingstore_trade conf env a o' buyer_id l m1) o' = None"
proof -
  obtain s' b' where f: "fold (sell_one env) l (searchstore_clearremote s, store_now b) = (s', b')" by fastforce
  have "sd_autotrade b = 1" using create_marks [OF assms(1)] assms(2) by auto
  then have "sd_autotrade b' \<noteq> 0" using sell_autotrade [of env l "(searchstore_clearremote s, store_now b)"] f by simp
  then show ?thesis using trade_result(3) [OF assms(3,2,4,5) f] assms(6) f by simp
qed

text \<open>Account 2, present and without any trace of \<open>@autotrade\<close>, wants five apples and gets them.\<close>

theorem completed_store_quits_witness:
  "map_option sd_autotrade (who stand 2) = Some 0 \<and>
   who (buyingstore_trade fair_conf apple_env 6 2 0 [(2, 512, 5)] (store_of 500 5 5)) 2 = None"
proof -
  let ?m = "store_of 500 5 5" and ?s = "newcome (pc_many 6)" and ?b = "keeper 500 5 5" and ?l = "[(2, 512, 5)]"
  have "fst (buyingstore_create fair_conf apple_env 2 500 1 [66] [(512, 5, 5)] stand)" by code_simp
  then have cr: "buyingstore_create fair_conf apple_env 2 500 1 [66] [(512, 5, 5)] stand = (True, ?m)"
    by (simp add: store_of_def prod_eq_iff)
  have w: "who ?m 2 = Some ?b" "who ?m 6 = Some ?s" by (simp_all add: keeper_there seller_there)
  have sv: "sells fair_conf 2 0 ?l ?s ?b" "sell_check apple_env (searchstore_clearremote ?s) (store_now ?b) [] (sd_weight (pc ?b)) 0 ?l"
    "store_done (snd (fold (sell_one apple_env) ?l (searchstore_clearremote ?s, store_now ?b)))" by code_simp+
  have "map_option sd_autotrade (who stand 2) = Some 0" by code_simp
  then show ?thesis using completed_store_quits [OF cr w sv] by simp
qed

end
