(* ===== verification/Absent.thy ===== *)
theory Absent
  imports Sales
begin

text \<open>
  The shops of absent owners come back as they were: what \<open>@autotrade\<close> keeps, the character
  server returns and the database holds, put together; and the ways in which they do not.
\<close>

section \<open>Items but for their row number\<close>

abbreviation strip :: "item \<Rightarrow> item" where "strip it \<equiv> it\<lparr>i_id := 0\<rparr>"

lemma strip_sel:
  assumes "strip x = strip y"
  shows "i_nameid x = i_nameid y" "i_amount x = i_amount y" "i_card x = i_card y"
  using arg_cong [OF assms, of i_nameid] arg_cong [OF assms, of i_amount] arg_cong [OF assms, of i_card] by simp_all

text \<open>The goods in the slots that are not in use.\<close>

definition free_goods :: "item list \<Rightarrow> int set \<Rightarrow> item multiset" where
  "free_goods cart taken = image_mset (\<lambda>j. strip (cart ! j)) (mset_set {j. j < MAX_CART \<and> int j \<notin> taken})"

lemma free_goods_take:
  assumes "j < MAX_CART" "int j \<notin> taken"
  shows "free_goods cart taken = add_mset (strip (cart ! j)) (free_goods cart (insert (int j) taken))"
proof -
  have f: "finite {i. i < MAX_CART \<and> int i \<notin> taken}" by simp
  have "{i. i < MAX_CART \<and> int i \<notin> insert (int j) taken} = {i. i < MAX_CART \<and> int i \<notin> taken} - {j}" by auto
  then show ?thesis
    using mset_set.remove [OF f, of j] assms by (simp add: free_goods_def)
qed

lemma free_slot_found:
  assumes "strip it \<in># free_goods cart (vd_index ` set (take c vend))"
  shows "free_slot cart it vend c < MAX_CART" "int (free_slot cart it vend c) \<notin> vd_index ` set (take c vend)"
    "strip (cart ! free_slot cart it vend c) = strip it"
proof -
  let ?p = "\<lambda>j. same_but_id it (cart ! j) \<and> int j \<notin> vd_index ` set (take c vend)"
  obtain j where "j < MAX_CART" "?p j" using assms by (auto simp: free_goods_def same_but_id_def)
  then have lt: "arr_find ?p [0..<MAX_CART] < length [0..<MAX_CART]" by (subst arr_find_lt_iff) auto
  then show "free_slot cart it vend c < MAX_CART" by (simp add: free_slot_def)
  have "?p ([0..<MAX_CART] ! arr_find ?p [0..<MAX_CART])" by (rule arr_find_nth [OF lt])
  then have "?p (free_slot cart it vend c)" using lt by (simp add: free_slot_def)
  then show "int (free_slot cart it vend c) \<notin> vd_index ` set (take c vend)" "strip (cart ! free_slot cart it vend c) = strip it"
    by (simp_all add: same_but_id_def)
qed

section \<open>Setting up a shop again\<close>

definition restored :: "item list \<Rightarrow> item \<times> s_vending \<Rightarrow> s_vending \<Rightarrow> bool" where
  "restored cart x e' \<longleftrightarrow> (\<exists>j < MAX_CART. e' = (snd x)\<lparr>vd_index := int j\<rparr> \<and> strip (cart ! j) = strip (fst x))"

lemma populate_all:
  assumes "mset (map (\<lambda>x. strip (fst x)) r) \<subseteq># free_goods cart (vd_index ` set (take c vend))"
    and "\<forall>x \<in> set r. vd_amount (snd x) \<noteq> 0" "c + length r \<le> length vend" "distinct (map vd_index (take c vend))"
  shows "\<exists>vend' es. populate_loop cart r vend c = (vend', c + length r) \<and> length vend' = length vend \<and>
    take (c + length r) vend' = take c vend @ es \<and> list_all2 (restored cart) r es \<and> distinct (map vd_index (take c vend @ es))"
  using assms
proof (induction r arbitrary: vend c)
  case Nil
  then show ?case by auto
next
  case (Cons x r)
  obtain it e where x: "x = (it, e)" by fastforce
  have "strip it \<in># mset (map (\<lambda>x. strip (fst x)) (x # r))" by (simp add: x)
  then have mem: "strip it \<in># free_goods cart (vd_index ` set (take c vend))" using Cons.prems(1) by (meson mset_subset_eqD)
  define j where "j = free_slot cart it vend c"
  note j = free_slot_found [OF mem, folded j_def]
  define e' where "e' = e\<lparr>vd_index := int j\<rparr>"
  have c: "c < length vend" using Cons.prems(3) by simp
  have tk: "take (Suc c) (vend[c := e']) = take c vend @ [e']" using c by (simp add: take_Suc_conv_app_nth)
  have us: "vd_index ` set (take (Suc c) (vend[c := e'])) = insert (int j) (vd_index ` set (take c vend))"
    unfolding tk by (simp add: e'_def)
  have "mset (map (\<lambda>x. strip (fst x)) r) \<subseteq># free_goods cart (vd_index ` set (take (Suc c) (vend[c := e'])))"
    using Cons.prems(1) free_goods_take [OF j(1,2), of cart] by (simp add: us x j(3))
  moreover have "distinct (map vd_index (take (Suc c) (vend[c := e'])))" using Cons.prems(4) j(2) unfolding tk by (simp add: e'_def)
  ultimately obtain vend' es where r: "populate_loop cart r (vend[c := e']) (Suc c) = (vend', Suc c + length r)" "length vend' = length vend"
      "take (Suc c + length r) vend' = take (Suc c) (vend[c := e']) @ es" "list_all2 (restored cart) r es"
      "distinct (map vd_index (take (Suc c) (vend[c := e']) @ es))"
    using Cons.IH [of "Suc c" "vend[c := e']"] Cons.prems(2,3) by auto
  have "populate_loop cart (x # r) vend c = (vend', c + length (x # r))"
    using r(1) Cons.prems(2) j(1) by (simp add: x populate_step j_def [symmetric] e'_def)
  moreover have "restored cart x e'" using j by (auto simp: restored_def x e'_def)
  ultimately show ?case using r tk by (intro exI [of _ vend'] exI [of _ "e' # es"]) auto
qed

text \<open>An entry the database row of which leads back to it.\<close>

definition row_ok :: "shop_conf \<Rightarrow> pc_env \<Rightarrow> item list \<Rightarrow> s_vending \<Rightarrow> bool" where
  "row_ok conf env cart e \<longleftrightarrow> (\<exists>j < MAX_CART. vd_index e = int j \<and> arr_find (\<lambda>it. i_id it = i_id (cart ! j)) cart = j \<and>
     itemdb_isrestricted env (cart ! j) 0 0 itemdb_cantrade_sub \<and> 0 < vd_amount e \<and> vd_amount e \<le> i_amount (cart ! j) \<and>
     vd_amount e < 32768 \<and> 0 \<le> vd_value e \<and> vd_value e \<le> vending_max_value conf \<and> vd_value e < 4294967296)"

lemma row_back:
  assumes "row_ok conf env cart e"
  shows "snd (row_amount env cart (i_id (cart ! nat (vd_index e)), vd_amount e, vd_value e)) \<noteq> 0"
    "row_entry conf (row_amount env cart (i_id (cart ! nat (vd_index e)), vd_amount e, vd_value e)) (vd_value e) = e"
proof -
  obtain j where j: "j < MAX_CART" "vd_index e = int j" "arr_find (\<lambda>it. i_id it = i_id (cart ! j)) cart = j"
      "itemdb_isrestricted env (cart ! j) 0 0 itemdb_cantrade_sub" "0 < vd_amount e" "vd_amount e \<le> i_amount (cart ! j)"
      "vd_amount e < 32768" "0 \<le> vd_value e" "vd_value e \<le> vending_max_value conf" "vd_value e < 4294967296"
    using assms by (auto simp: row_ok_def)
  have idx: "nat (vd_index e) = j" using j(2) by simp
  have r: "row_amount env cart (i_id (cart ! j), vd_amount e, vd_value e) = (j, vd_amount e)"
    using j by (simp add: row_amount_def)
  show "snd (row_amount env cart (i_id (cart ! nat (vd_index e)), vd_amount e, vd_value e)) \<noteq> 0" using j(5) by (simp add: idx r)
  show "row_entry conf (row_amount env cart (i_id (cart ! nat (vd_index e)), vd_amount e, vd_value e)) (vd_value e) = e"
    using j unfolding idx r by (cases e) (simp add: row_entry_def cap_value_def)
qed

lemma start_all:
  assumes "\<forall>e \<in> set es. row_ok conf env cart e" "c + length es \<le> MAX_VENDING" "length vend = MAX_VENDING"
  shows "\<exists>vend'. start_loop conf env cart (map (\<lambda>e. (i_id (cart ! nat (vd_index e)), vd_amount e, vd_value e)) es) vend c =
    Some (vend', c + length es) \<and> length vend' = MAX_VENDING \<and> take (c + length es) vend' = take c vend @ es"
  using assms
proof (induction es arbitrary: vend c)
  case (Cons e es)
  have c: "c < length vend" using Cons.prems by simp
  have tk: "take (Suc c) (vend[c := e]) = take c vend @ [e]" using c by (simp add: take_Suc_conv_app_nth)
  obtain vend' where "start_loop conf env cart (map (\<lambda>e. (i_id (cart ! nat (vd_index e)), vd_amount e, vd_value e)) es) (vend[c := e]) (Suc c) =
      Some (vend', Suc c + length es)" "length vend' = MAX_VENDING" "take (Suc c + length es) vend' = take (Suc c) (vend[c := e]) @ es"
    using Cons.IH [of "Suc c" "vend[c := e]"] Cons.prems by auto
  then show ?case using row_back [of conf env cart e] Cons.prems by (simp add: start_step Let_def tk)
qed simp

lemma arr_find_only: "j < length xs \<Longrightarrow> p (xs ! j) \<Longrightarrow> (\<And>i. i < length xs \<Longrightarrow> p (xs ! i) \<Longrightarrow> i = j) \<Longrightarrow> arr_find p xs = j"
  by (metis arr_find_lt_iff arr_find_nth nth_mem)

section \<open>The way through the character server\<close>

text \<open>
  A shop as \<open>vending_openvending\<close> makes it for an honest client: different slots, and of each
  at least one piece and no more than the slot holds, of goods that may be traded.
\<close>

definition stocked :: "shop_conf \<Rightarrow> pc_env \<Rightarrow> shopper \<Rightarrow> bool" where
  "stocked conf env s \<longleftrightarrow> sd_vend_num s \<le> MAX_VENDING \<and> length (sd_vend_list s) = MAX_VENDING \<and> distinct (map vd_index (shelf s)) \<and>
     (\<forall>e \<in> set (shelf s). 0 \<le> vd_index e \<and> vd_index e < int MAX_CART \<and>
        0 < vd_amount e \<and> vd_amount e \<le> i_amount (sd_cart (pc s) ! nat (vd_index e)) \<and> vd_amount e < 32768 \<and>
        i_nameid (sd_cart (pc s) ! nat (vd_index e)) \<noteq> 0 \<and>
        itemdb_isrestricted env (sd_cart (pc s) ! nat (vd_index e)) 0 0 itemdb_cantrade_sub \<and>
        0 \<le> vd_value e \<and> vd_value e \<le> vending_max_value conf \<and> vd_value e < 2147483648)"

text \<open>The cart as it comes back: the same items in any order, under row numbers of their own.\<close>

definition came_back :: "item list \<Rightarrow> item list \<Rightarrow> bool" where
  "came_back cart cart' \<longleftrightarrow> length cart = MAX_CART \<and> length cart' = MAX_CART \<and> mset (map strip cart') = mset (map strip cart) \<and>
     (\<forall>i < MAX_CART. \<forall>j < MAX_CART. i_nameid (cart' ! j) \<noteq> 0 \<and> i_id (cart' ! i) = i_id (cart' ! j) \<longrightarrow> i = j)"

text \<open>What a shop offers: goods, amounts and prices.\<close>

definition goods_offered :: "shopper \<Rightarrow> (item \<times> int \<times> int) list" where
  "goods_offered s = map (\<lambda>e. (strip (sd_cart (pc s) ! nat (vd_index e)), vd_amount e, vd_value e)) (shelf s)"

lemma free_goods_all: "length cart = MAX_CART \<Longrightarrow> free_goods cart {} = mset (map strip cart)"
proof -
  assume len: "length cart = MAX_CART"
  have "{j. j < MAX_CART \<and> int j \<notin> {}} = set [0..<MAX_CART]" by auto
  then have "mset_set {j. j < MAX_CART \<and> int j \<notin> {}} = mset [0..<MAX_CART]" by (metis distinct_upt mset_set_set)
  then have "free_goods cart {} = image_mset (\<lambda>j. strip (cart ! j)) (mset [0..<MAX_CART])" unfolding free_goods_def by (rule arg_cong)
  also have "\<dots> = mset (map (\<lambda>j. strip (cart ! j)) [0..<MAX_CART])" by (rule mset_map [symmetric])
  also have "map (\<lambda>j. strip (cart ! j)) [0..<MAX_CART] = map strip cart" by (rule nth_equalityI) (simp_all add: len)
  finally show ?thesis .
qed

lemma shelf_goods:
  assumes "distinct (map vd_index l)" "\<forall>e \<in> set l. 0 \<le> vd_index e \<and> vd_index e < int MAX_CART" "length cart = MAX_CART"
  shows "mset (map (\<lambda>e. strip (cart ! nat (vd_index e))) l) \<subseteq># mset (map strip cart)"
proof -
  let ?js = "map (\<lambda>e. nat (vd_index e)) l"
  have "x = y" if "x \<in> set l" "y \<in> set l" "nat (vd_index x) = nat (vd_index y)" for x y
    using assms(1,2) that eq_nat_nat_iff [of "vd_index x" "vd_index y"] by (auto simp: distinct_map inj_on_def)
  then have "distinct ?js" using assms(1) unfolding distinct_map by (auto intro: inj_onI)
  then have "mset ?js = mset_set (set ?js)" by (metis mset_set_set)
  also have "\<dots> \<subseteq># mset_set {..<MAX_CART}" using assms(2) by (intro subset_imp_msubset_mset_set) auto
  finally have "image_mset (\<lambda>j. strip (cart ! j)) (mset ?js) \<subseteq># image_mset (\<lambda>j. strip (cart ! j)) (mset_set {..<MAX_CART})"
    by (rule image_mset_subseteq_mono)
  moreover have "image_mset (\<lambda>j. strip (cart ! j)) (mset_set {..<MAX_CART}) = mset (map strip cart)"
    using free_goods_all [OF assms(3)] by (simp add: free_goods_def lessThan_def)
  ultimately show ?thesis by (simp add: multiset.map_comp comp_def)
qed

lemma restored_shop:
  assumes st: "stocked conf env s" and cb: "came_back (sd_cart (pc s)) cart" and v: "length vend = MAX_VENDING"
    and r: "r = map (\<lambda>e. (sd_cart (pc s) ! nat (vd_index e), e)) (shelf s)"
  shows "\<exists>vend1 es. populate_loop cart r vend 0 = (vend1, length (shelf s)) \<and> length vend1 = MAX_VENDING \<and>
    take (length (shelf s)) vend1 = es \<and> (\<forall>e \<in> set es. row_ok conf env cart e) \<and>
    map (\<lambda>e. (strip (cart ! nat (vd_index e)), vd_amount e, vd_value e)) es = goods_offered s"
proof -
  have len: "length (sd_cart (pc s)) = MAX_CART" "length cart = MAX_CART" and ms: "mset (map strip cart) = mset (map strip (sd_cart (pc s)))"
    and ids: "\<And>i j. i < MAX_CART \<Longrightarrow> j < MAX_CART \<Longrightarrow> i_nameid (cart ! j) \<noteq> 0 \<Longrightarrow> i_id (cart ! i) = i_id (cart ! j) \<Longrightarrow> i = j"
    using cb by (auto simp: came_back_def)
  have sub: "mset (map (\<lambda>x. strip (fst x)) r) \<subseteq># free_goods cart (vd_index ` set (take 0 vend))"
    using shelf_goods [of "shelf s" "sd_cart (pc s)"] st len ms by (simp add: r stocked_def free_goods_all comp_def)
  have "length (shelf s) \<le> MAX_VENDING" using st by (simp add: stocked_def shelf_def)
  then obtain vend1 es where p: "populate_loop cart r vend 0 = (vend1, length r)" "length vend1 = MAX_VENDING" "take (length r) vend1 = es"
      "list_all2 (restored cart) r es"
    using populate_all [OF sub] st v by (fastforce simp: r stocked_def)
  have ok: "row_ok conf env cart e'" if x: "e \<in> set (shelf s)" "restored cart (sd_cart (pc s) ! nat (vd_index e), e) e'" for e e'
  proof -
    obtain j where j: "j < MAX_CART" "e' = e\<lparr>vd_index := int j\<rparr>" "strip (cart ! j) = strip (sd_cart (pc s) ! nat (vd_index e))"
      using x(2) by (auto simp: restored_def)
    note eq = strip_sel [OF j(3)]
    have "i_nameid (cart ! j) \<noteq> 0" using st x(1) eq(1) by (simp add: stocked_def)
    then have "arr_find (\<lambda>it. i_id it = i_id (cart ! j)) cart = j"
      using j(1) len(2) ids by (intro arr_find_only) auto
    moreover have "itemdb_isrestricted env (cart ! j) 0 0 itemdb_cantrade_sub =
        itemdb_isrestricted env (sd_cart (pc s) ! nat (vd_index e)) 0 0 itemdb_cantrade_sub"
      by (simp add: itemdb_isrestricted_def eq)
    ultimately show ?thesis using st x(1) eq(2) j(1,2) by (auto simp: row_ok_def stocked_def)
  qed
  have all: "(\<forall>e \<in> set es. row_ok conf env cart e) \<and>
      map (\<lambda>e. (strip (cart ! nat (vd_index e)), vd_amount e, vd_value e)) es =
      map (\<lambda>e. (strip (sd_cart (pc s) ! nat (vd_index e)), vd_amount e, vd_value e)) l"
    if "list_all2 (restored cart) (map (\<lambda>e. (sd_cart (pc s) ! nat (vd_index e), e)) l) es" "set l \<subseteq> set (shelf s)" for l
    using that
  proof (induction l arbitrary: es)
    case (Cons e l)
    then obtain e' es' where es: "es = e' # es'" "restored cart (sd_cart (pc s) ! nat (vd_index e), e) e'"
        "list_all2 (restored cart) (map (\<lambda>e. (sd_cart (pc s) ! nat (vd_index e), e)) l) es'"
      by (auto simp: list_all2_Cons1)
    then show ?case using Cons.IH [OF es(3)] Cons.prems(2) ok [of e e'] by (auto simp: restored_def)
  qed simp
  show ?thesis using p all [of "shelf s"] by (auto simp: r goods_offered_def)
qed

lemma zip_take_le: "n \<le> length xs \<Longrightarrow> zip (take n (map f (take n xs) @ ys)) xs = map (\<lambda>e. (f e, e)) (take n xs)"
proof (induction n arbitrary: xs)
  case (Suc n)
  then show ?case by (cases xs) auto
qed simp

lemma copy_rows:
  assumes "stocked conf env s"
  shows "zip (take (at_vend_num (autotrade_copy s)) (at_list (autotrade_copy s))) (at_vending (autotrade_copy s)) =
      map (\<lambda>e. (sd_cart (pc s) ! nat (vd_index e), e)) (shelf s)"
proof -
  have "filter (\<lambda>e. vd_amount e \<noteq> 0) (shelf s) = shelf s" using assms by (intro filter_True) (auto simp: stocked_def)
  then have f: "filter (\<lambda>e. vd_amount e \<noteq> 0) (take (sd_vend_num s) (sd_vend_list s)) = take (sd_vend_num s) (sd_vend_list s)"
    by (simp only: shelf_def)
  have "sd_vend_num s \<le> length (sd_vend_list s)" using assms by (simp add: stocked_def)
  then show ?thesis
    using zip_take_le [of "sd_vend_num s" "sd_vend_list s" "\<lambda>e. sd_cart (pc s) ! nat (vd_index e)"]
    unfolding autotrade_copy_def f by (simp add: Let_def shelf_def min_absorb2)
qed

lemma prepare_vendor:
  assumes "who m a = Some s" "\<not> sd_buyingstore (pc s)"
  shows "who (pc_autotrade_prepare a m) a = None" "at_db (pc_autotrade_prepare a m) a = Some (autotrade_copy s)"
  using assms by (simp_all add: pc_autotrade_prepare_def quit_def)

lemma populate_shop:
  assumes "stocked conf env s" "came_back (sd_cart (pc s)) (sd_cart (pc s'))" "length (sd_vend_list s') = MAX_VENDING"
    and p: "p = pc_autotrade_populate (Some (autotrade_copy s)) s'"
  shows "pc p = pc s'" "length (sd_vend_list p) = MAX_VENDING" "length (shelf p) = length (shelf s)"
    "\<forall>e \<in> set (shelf p). row_ok conf env (sd_cart (pc p)) e" "goods_offered p = goods_offered s"
    "autotrade_rows p = map (\<lambda>e. (i_id (sd_cart (pc p) ! nat (vd_index e)), vd_amount e, vd_value e)) (shelf p)"
proof -
  obtain vend1 es where l: "populate_loop (sd_cart (pc s')) (map (\<lambda>e. (sd_cart (pc s) ! nat (vd_index e), e)) (shelf s)) (sd_vend_list s') 0
      = (vend1, length (shelf s))" "length vend1 = MAX_VENDING" "take (length (shelf s)) vend1 = es"
      "\<forall>e \<in> set es. row_ok conf env (sd_cart (pc s')) e"
      "map (\<lambda>e. (strip (sd_cart (pc s') ! nat (vd_index e)), vd_amount e, vd_value e)) es = goods_offered s"
    using restored_shop [OF assms(1-3) refl] by blast
  have pp: "p = s'\<lparr>sd_vend_list := vend1, sd_vend_num := length (shelf s)\<rparr>"
    by (simp add: p pc_autotrade_populate_def copy_rows [OF assms(1)] l(1))
  have sh: "shelf p = es" using shelf_def [of p] l(3) by (simp add: pp)
  have "filter (\<lambda>e. vd_amount e \<noteq> 0) es = es" using l(4) by (intro filter_True) (auto simp: row_ok_def)
  then have f: "filter (\<lambda>e. vd_amount e \<noteq> 0) (take (sd_vend_num p) (sd_vend_list p)) = es" using sh by (simp add: shelf_def)
  show pc: "pc p = pc s'" by (simp add: pp)
  show "length (sd_vend_list p) = MAX_VENDING" by (simp add: pp l(2))
  have "length (goods_offered s) = length (shelf s)" by (simp add: goods_offered_def)
  then show "length (shelf p) = length (shelf s)" using arg_cong [OF l(5), of length] by (simp add: sh)
  show "\<forall>e \<in> set (shelf p). row_ok conf env (sd_cart (pc p)) e" using l(4) by (simp add: sh pc)
  show "goods_offered p = goods_offered s" using l(5) by (simp add: goods_offered_def [of p] sh pc)
  show "autotrade_rows p = map (\<lambda>e. (i_id (sd_cart (pc p) ! nat (vd_index e)), vd_amount e, vd_value e)) (shelf p)"
    unfolding autotrade_rows_def f sh ..
qed



section \<open>An entry of no pieces\<close>

lemma restored_goods:
  assumes "list_all2 (restored cart) r es"
  shows "map (\<lambda>e. (strip (cart ! nat (vd_index e)), vd_amount e, vd_value e)) es = map (\<lambda>(it, e). (strip it, vd_amount e, vd_value e)) r"
  using assms by (induction rule: list_all2_induct) (auto simp: restored_def)

lemma zip_shifted:
  assumes "take (Suc (Suc n)) v = e0 # e1 # l'" "length l' = n"
  shows "zip (take (Suc n) (map f (e1 # l') @ ys)) v = (f e1, e0) # zip (map f l') (e1 # l')"
proof -
  have "zip (take (Suc n) (map f (e1 # l') @ ys)) v = zip (map f (e1 # l')) v" using assms(2) by simp
  also have "\<dots> = zip (map f (e1 # l')) (take (Suc (Suc n)) v)" using assms(2) by (simp add: list_eq_iff_nth_eq)
  also have "\<dots> = (f e1, e0) # zip (map f l') (e1 # l')" by (simp add: assms(1))
  finally show ?thesis .
qed

text \<open>
  C36. An entry of no pieces shifts the prices. A client may open a shop with an entry of amount 0;
  when such an entry comes first, \<open>pc_autotrade_prepare\<close> packs the items to the front and copies the
  shop list as it is, and \<open>pc_autotrade_populate\<close> pairs them by position: the first item is not
  offered any more and every other item is offered in the amount and at the price of the item
  before it.
\<close>

theorem autotrade_prices_shift:
  assumes "who m a = Some s" "\<not> sd_buyingstore (pc s)" "shelf s = e0 # e1 # l" "vd_amount e0 = 0"
    and "\<forall>e \<in> set (e1 # l). vd_amount e \<noteq> 0 \<and> 0 \<le> vd_index e \<and> vd_index e < int MAX_CART" "distinct (map vd_index (e1 # l))"
    and "newcomer s'" "came_back (sd_cart (pc s)) (sd_cart (pc s'))"
    and "length (shelf s) \<le> MAX_VENDING"
  shows "goods_offered (pc_autotrade_populate (at_db (pc_autotrade_prepare a m) a) s') =
    map (\<lambda>(e, e'). (strip (sd_cart (pc s) ! nat (vd_index e)), vd_amount e', vd_value e')) (zip l (e1 # l))"
proof -
  let ?f = "\<lambda>e. sd_cart (pc s) ! nat (vd_index e)" and ?c = "sd_cart (pc s')"
  let ?r = "zip (map ?f l) (e1 # l)"
  have len: "length (sd_cart (pc s)) = MAX_CART" "length ?c = MAX_CART" "mset (map strip ?c) = mset (map strip (sd_cart (pc s)))"
    using assms(8) by (simp_all add: came_back_def)
  have tk: "take (sd_vend_num s) (sd_vend_list s) = e0 # e1 # l" using assms(3) by (simp add: shelf_def)
  then have n: "take (Suc (Suc (length l))) (sd_vend_list s) = e0 # e1 # l"
    by (metis append_take_drop_id append_eq_conv_conj length_Cons)
  have "filter (\<lambda>e. vd_amount e \<noteq> 0) (e0 # e1 # l) = e1 # l" using assms(4,5) by (auto intro: filter_True)
  then have cp: "zip (take (at_vend_num (autotrade_copy s)) (at_list (autotrade_copy s))) (at_vending (autotrade_copy s)) = (?f e1, e0) # ?r"
    using zip_shifted [OF n refl, of ?f] unfolding autotrade_copy_def tk by (simp add: Let_def)
  have mf: "map (\<lambda>x. strip (fst x)) ?r = map (\<lambda>e. strip (?f e)) l"
    by (simp add: map_zip_map comp_def) (simp add: list_eq_iff_nth_eq)
  have "mset (map (\<lambda>e. strip (?f e)) l) \<subseteq># mset (map strip (sd_cart (pc s)))"
    using assms(5,6) len(1) by (intro shelf_goods) auto
  then have sub: "mset (map (\<lambda>x. strip (fst x)) ?r) \<subseteq># free_goods ?c (vd_index ` set (take 0 (sd_vend_list s')))"
    unfolding mf using free_goods_all [OF len(2)] len(3) by simp
  have nz: "\<forall>x \<in> set ?r. vd_amount (snd x) \<noteq> 0" using assms(5) by (metis prod.collapse set_zip_rightD)
  have "length (sd_vend_list s') = MAX_VENDING" using assms(7) by (simp add: newcomer_def)
  then obtain vend' es where p: "populate_loop ?c ?r (sd_vend_list s') 0 = (vend', length ?r)" "take (length ?r) vend' = es"
      "list_all2 (restored ?c) ?r es"
    using populate_all [OF sub nz] assms(3,9) by auto
  have "at_db (pc_autotrade_prepare a m) a = Some (autotrade_copy s)" by (rule prepare_vendor [OF assms(1,2)])
  then have "pc_autotrade_populate (at_db (pc_autotrade_prepare a m) a) s' = s'\<lparr>sd_vend_list := vend', sd_vend_num := length ?r\<rparr>"
    using p(1) assms(4) by (simp add: pc_autotrade_populate_def cp populate_loop.simps(2))
  then have "goods_offered (pc_autotrade_populate (at_db (pc_autotrade_prepare a m) a) s') =
      map (\<lambda>e. (strip (?c ! nat (vd_index e)), vd_amount e, vd_value e)) es"
    using p(2) by (simp add: goods_offered_def shelf_def)
  then show ?thesis unfolding restored_goods [OF p(3)] by (simp add: list_eq_iff_nth_eq)
qed

text \<open>
  Three kinds of goods, the second for 7 zeny a piece, the third for 90000. The vendor enters them
  with no piece of the first, and comes back with the third kind for 7 zeny.
\<close>

definition clumsy :: market where
  "clumsy = vending_openvending fair_conf apple_env 1 [65] [(2, 0, 1), (3, 9, 7), (4, 8, 90000)]
     (set_who 1 (newcome ((pc_start 1)\<lparr>sd_cart :=
        (replicate 100 zero_item)[0 := apple, 1 := apple\<lparr>i_nameid := 513\<rparr>, 2 := apple\<lparr>i_nameid := 514\<rparr>]\<rparr>)) empty_market)"

theorem autotrade_prices_shift_witness:
  "map_option goods_offered (who clumsy 1) =
     Some [(strip apple, 0, 1), (strip (apple\<lparr>i_nameid := 513\<rparr>), 9, 7), (strip (apple\<lparr>i_nameid := 514\<rparr>), 8, 90000)] \<and>
   goods_offered (pc_autotrade_populate (at_db (pc_autotrade_prepare 1 clumsy) 1)
     (newcome ((pc_start 1)\<lparr>sd_cart := (replicate 100 zero_item)[0 := apple\<lparr>i_id := 1\<rparr>,
        1 := apple\<lparr>i_nameid := 513, i_id := 2\<rparr>, 2 := apple\<lparr>i_nameid := 514, i_id := 3\<rparr>]\<rparr>))) = [(strip (apple\<lparr>i_nameid := 514\<rparr>), 9, 7)]"
proof -
  let ?c = "(replicate 100 zero_item)[0 := apple\<lparr>i_id := 1\<rparr>, 1 := apple\<lparr>i_nameid := 513, i_id := 2\<rparr>, 2 := apple\<lparr>i_nameid := 514, i_id := 3\<rparr>]"
  let ?d = "(replicate 100 zero_item)[0 := apple, 1 := apple\<lparr>i_nameid := 513\<rparr>, 2 := apple\<lparr>i_nameid := 514\<rparr>]"
  let ?s = "newcome ((pc_start 1)\<lparr>sd_cart := ?c\<rparr>)"
  define e :: "nat \<Rightarrow> s_vending" where
    "e = (\<lambda>i. [\<lparr>vd_index = 0, vd_amount = 0, vd_value = 1\<rparr>, \<lparr>vd_index = 1, vd_amount = 9, vd_value = 7\<rparr>, \<lparr>vd_index = 2, vd_amount = 8, vd_value = 90000\<rparr>] ! i)"
  have "map_option (\<lambda>s. (sd_buyingstore (pc s), shelf s, sd_cart (pc s))) (who clumsy 1) = Some (False, [e 0, e 1, e 2], ?d)"
    unfolding e_def by code_simp
  then obtain s where s: "who clumsy 1 = Some s" "\<not> sd_buyingstore (pc s)" "shelf s = [e 0, e 1, e 2]" "sd_cart (pc s) = ?d" by auto
  have n: "newcomer ?s" by (rule newcomer_newcome; simp add: pc_start_def)
  have c: "sd_cart (pc ?s) = ?c" by (simp add: newcome_def)
  have "came_back ?d ?c"
    unfolding came_back_def by (auto simp: MAX_CART_def map_update mset_update nth_list_update zero_item_def apple_def split: if_splits)
  then have b: "came_back (sd_cart (pc s)) (sd_cart (pc ?s))" unfolding c s(4) .
  have "goods_offered s = [(strip apple, 0, 1), (strip (apple\<lparr>i_nameid := 513\<rparr>), 9, 7), (strip (apple\<lparr>i_nameid := 514\<rparr>), 8, 90000)]"
    by (simp add: goods_offered_def s(3,4) e_def)
  then show ?thesis
    using autotrade_prices_shift [OF s(1,2,3) _ _ _ n b] s(1) by (simp add: s(3,4) e_def MAX_CART_def MAX_VENDING_def)
qed

end
