(* ===== verification/Sv.thy ===== *)
theory Sv
  imports Strlib
begin

text \<open>
  Delimiter-separated values, the \<open>sv\<close> interface of \<open>src/common/strlib.c\<close>: the escapes of
  the C compiler, the field parser, and the splitter the text databases are read with.
\<close>

unbundle bit_operations_syntax

section \<open>Escapes of the C compiler\<close>

definition SV_ESCAPE_C_SUPPORTED :: bytes where
  "SV_ESCAPE_C_SUPPORTED = [97, 98, 116, 110, 118, 102, 114, 63, 34, 39, 92]"

text \<open>What one byte of the source becomes in \<open>sv_escape_c\<close>.\<close>

definition escape_byte :: "bytes \<Rightarrow> byte \<Rightarrow> bytes" where
  "escape_byte escapes c =
     (if c = 0 then [92, 48, 48, 48]
      else if c = 13 then [92, 114]
      else if c = 10 then [92, 110]
      else if c = 92 then [92, 92]
      else if c \<in> set escapes then
        92 # (if c = 7 then [97]
              else if c = 8 then [98]
              else if c = 9 then [116]
              else if c = 11 then [118]
              else if c = 12 then [102]
              else if c = 63 then [63]
              else if c = 34 then [34]
              else [48 + drop_bit 6 (c AND 0xC0), 48 + drop_bit 3 (c AND 0x38), 48 + (c AND 0x07)])
      else [c])"

fun sv_escape_c :: "bytes \<Rightarrow> bytes \<Rightarrow> bytes" where
  "sv_escape_c [] escapes = []"
| "sv_escape_c (c # s) escapes = escape_byte escapes c @ sv_escape_c s escapes"

definition low2hex :: "byte \<Rightarrow> byte" where
  "low2hex c = (if 48 \<le> c \<and> c \<le> 57 then c - 48 else if 65 \<le> c \<and> c \<le> 70 then c - 55
     else if 97 \<le> c \<and> c \<le> 102 then c - 87 else 0)"

definition isodigit :: "byte \<Rightarrow> bool" where
  "isodigit c = (48 \<le> c \<and> c \<le> 55)"

definition hex_value :: "bytes \<Rightarrow> byte" where
  "hex_value s = fold (\<lambda>d c. push_bit 4 c OR low2hex d) s 0"

text \<open>Up to two more octal digits after the first.\<close>

fun octal_rest :: "nat \<Rightarrow> byte \<Rightarrow> bytes \<Rightarrow> byte \<times> bytes" where
  "octal_rest 0 c s = (c, s)"
| "octal_rest (Suc n) c [] = (c, [])"
| "octal_rest (Suc n) c (d # s) =
     (if isodigit d then octal_rest n (push_bit 3 c OR (d - 48)) s else octal_rest n c (d # s))"

definition unescape_letter :: "byte \<Rightarrow> byte" where
  "unescape_letter d =
     (if d = 97 then 7 else if d = 98 then 8 else if d = 116 then 9 else if d = 110 then 10
      else if d = 118 then 11 else if d = 102 then 12 else if d = 114 then 13 else if d = 63 then 63 else d)"

lemma octal_rest_length: "length (snd (octal_rest n c s)) \<le> length s"
  by (induction n c s rule: octal_rest.induct) auto

function sv_unescape_c :: "bytes \<Rightarrow> bytes" where
  "sv_unescape_c [] = []"
| "sv_unescape_c (c # s) =
     (if c = 92 then
        (case s of [] \<Rightarrow> []
         | d # ds \<Rightarrow>
           if d = 120 then
             (if ds = [] \<or> \<not> isxdigit (hd ds) then sv_unescape_c ds
              else hex_value (takeWhile isxdigit ds) # sv_unescape_c (dropWhile isxdigit ds))
           else if d = 48 \<or> d = 49 \<or> d = 50 \<or> d = 51 then
             fst (octal_rest 2 (d - 48) ds) # sv_unescape_c (snd (octal_rest 2 (d - 48) ds))
           else unescape_letter d # sv_unescape_c ds)
      else c # sv_unescape_c s)"
  by pat_completeness auto
termination
  by (relation "measure length")
    (auto simp: less_Suc_eq_le octal_rest_length le_SucI length_dropWhile_le)

text \<open>How many characters \<open>skip_escaped_c\<close> skips.\<close>

definition skip_escaped_c :: "bytes \<Rightarrow> nat" where
  "skip_escaped_c p =
     (case p of c # d # s \<Rightarrow>
        if c \<noteq> 92 then 0
        else if d = 120 then 2 + length (takeWhile isxdigit s)
        else if d = 48 \<or> d = 49 \<or> d = 50 \<or> d = 51 then 2 + (length s - length (snd (octal_rest 2 0 s)))
        else if d \<in> set SV_ESCAPE_C_SUPPORTED then 2
        else 1
      | [c] \<Rightarrow> if c = 92 then 1 else 0
      | [] \<Rightarrow> 0)"

section \<open>The field parser\<close>

definition SV_ESCAPE_C :: int where "SV_ESCAPE_C = 1"
definition SV_TERMINATE_LF :: int where "SV_TERMINATE_LF = 2"
definition SV_TERMINATE_CRLF :: int where "SV_TERMINATE_CRLF = 4"
definition SV_TERMINATE_CR :: int where "SV_TERMINATE_CR = 8"
definition SV_KEEP_TERMINATOR :: int where "SV_KEEP_TERMINATOR = 16"

text \<open>
  The parse state. The \<open>len\<close> bytes of \<open>str\<close> are a list; \<open>sdone\<close> is \<open>done\<close> and
  \<open>fend\<close> is \<open>end\<close>.
\<close>

record s_svstate =
  str :: "bytes option"
  off :: nat
  start :: nat
  fend :: nat
  opt :: int
  delim :: byte
  sdone :: bool

datatype sv_state = START_OF_FIELD | PARSING_FIELD | PARSING_C_ESCAPE | END_OF_FIELD | TERMINATE | END

definition is_terminator :: "int \<Rightarrow> bytes \<Rightarrow> nat \<Rightarrow> bool" where
  "is_terminator flags s i =
     ((flags AND SV_TERMINATE_LF \<noteq> 0 \<and> s ! i = 10) \<or>
      (flags AND SV_TERMINATE_CR \<noteq> 0 \<and> s ! i = 13) \<or>
      (flags AND SV_TERMINATE_CRLF \<noteq> 0 \<and> i + 1 < length s \<and> s ! i = 13 \<and> s ! (i + 1) = 10))"

text \<open>The case \<open>PARSING_C_ESCAPE\<close>: where the escape at \<open>i\<close> ends, or an error.\<close>

definition skip_escape :: "bytes \<Rightarrow> nat \<Rightarrow> nat option" where
  "skip_escape s i =
     (let i = i + 1
      in if i \<ge> length s then None
         else if s ! i = 120 then
           (let i = i + 1
            in if i \<ge> length s \<or> \<not> isxdigit (s ! i) then None
               else Some (i + length (takeWhile isxdigit (drop i s))))
         else if s ! i = 48 \<or> s ! i = 49 \<or> s ! i = 50 then
           (let i = i + 1;
                i = (if i < length s \<and> isodigit (s ! i) then i + 1 else i)
            in Some (if i < length s \<and> isodigit (s ! i) then i + 1 else i))
         else if s ! i \<in> set SV_ESCAPE_C_SUPPORTED \<or> s ! i = 0 then Some (i + 1)
         else None)"

lemma skip_escape_bounds: "skip_escape s i = Some j \<Longrightarrow> i + 1 < j \<and> i + 1 < length s \<and> j \<le> length s"
proof -
  have "length (takeWhile isxdigit (drop (i + 2) s)) \<le> length s - (i + 2)"
    using length_takeWhile_le [of isxdigit "drop (i + 2) s"] by simp
  then show "skip_escape s i = Some j \<Longrightarrow> ?thesis"
    unfolding skip_escape_def Let_def by (auto split: if_splits simp: not_le Suc_le_eq)
qed

text \<open>The loop of \<open>sv_parse_next\<close>. \<open>None\<close> is its \<open>return -1\<close>.\<close>

fun state_rank :: "sv_state \<Rightarrow> nat" where
  "state_rank START_OF_FIELD = 4" | "state_rank PARSING_FIELD = 3" | "state_rank PARSING_C_ESCAPE = 2"
| "state_rank END_OF_FIELD = 2" | "state_rank TERMINATE = 1" | "state_rank END = 0"

function sv_loop :: "bytes \<Rightarrow> s_svstate \<Rightarrow> sv_state \<Rightarrow> nat \<Rightarrow> (s_svstate \<times> nat) option" where
  "sv_loop s st START_OF_FIELD i = sv_loop s (st\<lparr>start := i\<rparr>) PARSING_FIELD i"
| "sv_loop s st PARSING_FIELD i =
     (if i \<ge> length s \<or> s ! i = delim st \<or> is_terminator (opt st) s i then sv_loop s st END_OF_FIELD i
      else if opt st AND SV_ESCAPE_C \<noteq> 0 \<and> s ! i = 92 then sv_loop s st PARSING_C_ESCAPE i
      else sv_loop s st PARSING_FIELD (i + 1))"
| "sv_loop s st PARSING_C_ESCAPE i =
     (case skip_escape s i of None \<Rightarrow> None | Some j \<Rightarrow> sv_loop s st PARSING_FIELD j)"
| "sv_loop s st END_OF_FIELD i =
     (let st = st\<lparr>fend := i\<rparr>
      in if i \<ge> length s then sv_loop s st END i
         else if s ! i = delim st then sv_loop s st END (i + 1)
         else if is_terminator (opt st) s i then sv_loop s st TERMINATE i
         else sv_loop s st END i)"
| "sv_loop s st TERMINATE i = sv_loop s (st\<lparr>sdone := True\<rparr>) END i"
| "sv_loop s st END i = Some (st, i)"
  by pat_completeness auto
termination
  by (relation "measure (\<lambda>(s, st, state, i). 5 * (length s - i) + state_rank state)")
    (auto dest: skip_escape_bounds)

declare sv_loop.simps [simp del]

definition sv_parse_next :: "s_svstate \<Rightarrow> int \<times> s_svstate" where
  "sv_parse_next st =
     (if delim st = 10 \<and> opt st AND (SV_TERMINATE_CRLF OR SV_TERMINATE_LF) \<noteq> 0 then (-1, st)
      else if delim st = 13 \<and> opt st AND (SV_TERMINATE_CRLF OR SV_TERMINATE_CR) \<noteq> 0 then (-1, st)
      else case str st of None \<Rightarrow> (0, st\<lparr>sdone := True\<rparr>)
      | Some s \<Rightarrow>
        if sdone st then (0, st)
        else case sv_loop s st START_OF_FIELD (off st) of
          None \<Rightarrow> (-1, st\<lparr>start := off st\<rparr>)
        | Some (st, i) \<Rightarrow> (1, st\<lparr>sdone := (sdone st \<or> i \<ge> length s), off := i\<rparr>))"

text \<open>A step that neither fails nor ends the text moves on.\<close>

lemma sv_loop_progress:
  assumes "sv_loop s st state i = Some (st', j)"
    "state = END_OF_FIELD \<Longrightarrow> i \<ge> length s \<or> s ! i = delim st \<or> is_terminator (opt st) s i"
    "state \<noteq> TERMINATE" "state \<noteq> END"
  shows "i \<le> j \<and> (i < j \<or> length s \<le> j \<or> sdone st') \<and> str st' = str st"
  using assms
proof (induction s st state i rule: sv_loop.induct)
  case (1 s st i)
  from 1(2) have "sv_loop s (st\<lparr>start := i\<rparr>) PARSING_FIELD i = Some (st', j)" by (simp only: sv_loop.simps(1))
  from 1(1) [OF this] show ?case by simp
next
  case (2 s st i)
  note step = 2(4) [unfolded sv_loop.simps(2) [of s st i]]
  show ?case
  proof (cases "i \<ge> length s \<or> s ! i = delim st \<or> is_terminator (opt st) s i")
    case True
    then show ?thesis using 2(1) [OF True] step by auto
  next
    case False
    then show ?thesis
      using 2(2) [OF False] 2(3) [OF False] step by (cases "opt st AND SV_ESCAPE_C \<noteq> 0 \<and> s ! i = 92") fastforce+
  qed
next
  case (3 s st i)
  then obtain k where k: "skip_escape s i = Some k" "sv_loop s st PARSING_FIELD k = Some (st', j)"
    by (auto simp: sv_loop.simps(3) split: option.splits)
  from 3(1) [OF this] skip_escape_bounds [OF k(1)] show ?case by auto
next
  case (4 s st i)
  define q where "q = st\<lparr>fend := i\<rparr>"
  have q: "str q = str st" "str (q\<lparr>sdone := True\<rparr>) = str st" "sdone (q\<lparr>sdone := True\<rparr>)" by (simp_all add: q_def)
  have "sv_loop s st END_OF_FIELD i =
      (if i \<ge> length s then Some (q, i) else if s ! i = delim st then Some (q, i + 1)
       else if is_terminator (opt st) s i then Some (q\<lparr>sdone := True\<rparr>, i) else Some (q, i))"
    by (simp add: sv_loop.simps(4-6) Let_def q_def)
  with 4(5,6) q show ?case by (auto split: if_splits)
qed simp_all

lemma sv_parse_next_ok:
  assumes "sv_parse_next st = (r, st')" "0 < r"
  shows "\<exists>s. str st = Some s \<and> str st' = Some s \<and> \<not> sdone st \<and> off st \<le> off st' \<and> (sdone st' \<or> off st < off st' \<and> off st' < length s)"
proof -
  obtain s where s: "str st = Some s" "\<not> sdone st"
    using assms by (auto simp: sv_parse_next_def split: if_splits option.splits)
  then obtain st1 i where l: "sv_loop s st START_OF_FIELD (off st) = Some (st1, i)" "st' = st1\<lparr>sdone := (sdone st1 \<or> i \<ge> length s), off := i\<rparr>"
    using assms by (auto simp: sv_parse_next_def split: if_splits option.splits)
  have "off st \<le> i \<and> (off st < i \<or> length s \<le> i \<or> sdone st1) \<and> str st1 = str st"
    by (rule sv_loop_progress [OF l(1)]) simp_all
  with s show ?thesis unfolding l(2) by auto
qed

text \<open>The loop of \<open>sv_parse\<close>; the positions are written to \<open>out\<close>, an array of \<open>npos\<close> cells.\<close>

function sv_parse_loop :: "s_svstate \<Rightarrow> nat \<Rightarrow> int list \<Rightarrow> int \<times> int list" where
  "sv_parse_loop st cnt out =
     (if sdone st then (int cnt, if length out > 1 then out[1 := int (off st)] else out)
      else let cnt = cnt + 1; (r, st) = sv_parse_next st
        in if r \<le> 0 then (-1, out)
           else let out = (if length out > cnt * 2 then out[cnt * 2 := int (start st)] else out);
                    out = (if length out > cnt * 2 + 1 then out[cnt * 2 + 1 := int (fend st)] else out)
             in sv_parse_loop st cnt out)"
  by auto
termination
proof (relation "measure (\<lambda>(st, cnt, out). (if sdone st then 0 else 1) + (length (the (str st)) - off st))", goal_cases)
  case (2 st cnt out cnt1 p r st' out1 out2)
  then have "sv_parse_next st = (r, st')" "0 < r" by auto
  from sv_parse_next_ok [OF this] show ?case by auto
qed simp

declare sv_parse_loop.simps [simp del]

text \<open>\<open>sv_parse\<close> with \<open>npos\<close> cells to fill (0 when \<open>out_pos\<close> is \<open>NULL\<close>).\<close>

definition sv_parse :: "bytes \<Rightarrow> nat \<Rightarrow> byte \<Rightarrow> nat \<Rightarrow> int \<Rightarrow> int \<times> int list" where
  "sv_parse s startoff dl npos flags =
     (let out = replicate npos (-1);
          st = \<lparr>str = Some s, off = startoff, start = 0, fend = 0, opt = flags, delim = dl, sdone = False\<rparr>
      in sv_parse_loop st 0 (if npos > 0 then out[0 := int startoff] else out))"

section \<open>Splitting in place\<close>

text \<open>The byte at \<open>i\<close> of a terminated string.\<close>

definition char_at :: "bytes \<Rightarrow> nat \<Rightarrow> byte" where
  "char_at s i = (if i < length s then s ! i else 0)"

definition POS_LENGTH :: nat where "POS_LENGTH = 1024"

text \<open>
  The loop of \<open>sv_split\<close> over the fields; \<open>out\<close> holds the offsets stored so far and
  \<open>k\<close> is \<open>done\<close>. \<open>None\<close> is a write before the string, through a position that was
  never filled.
\<close>

function split_fields :: "byte \<Rightarrow> int \<Rightarrow> int \<Rightarrow> bytes \<Rightarrow> int list \<Rightarrow> nat \<Rightarrow> nat \<Rightarrow> nat \<Rightarrow> int \<Rightarrow> int list \<Rightarrow> (bytes \<times> int list) option" where
  "split_fields dl flags ret s pos i k nfields e out =
     (if int k < ret \<and> nfields > 0 then
        (if i < POS_LENGTH then
           (if pos ! (i + 1) < 0 then None
            else let e = pos ! (i + 1)
              in split_fields dl flags ret (s[nat e := 0]) pos (i + 2) (k + 1) (nfields - 1) e (out @ [pos ! i]))
         else split_fields dl flags ret s (snd (sv_parse s (nat (pos ! (i - 1) + 1)) dl POS_LENGTH flags)) 2 k nfields e out)
      else Some (s, out @ replicate nfields e))"
  by auto
termination
  by (relation "measure (\<lambda>(dl, flags, ret, s, pos, i, k, nfields, e, out). 2 * nfields + (if i < POS_LENGTH then 0 else 1))")
    (auto simp: POS_LENGTH_def)

declare split_fields.simps [simp del]

text \<open>\<open>sv_split\<close>: the result, the string, and the offsets of \<open>out_fields\<close>.\<close>

definition sv_split :: "bytes \<Rightarrow> nat \<Rightarrow> byte \<Rightarrow> nat \<Rightarrow> int \<Rightarrow> (int \<times> bytes \<times> int list) option" where
  "sv_split s startoff dl nfields flags =
     (let (ret, pos) = sv_parse s startoff dl POS_LENGTH flags
      in if ret = -1 \<or> nfields = 0 then Some (ret, s, [])
         else let e = nat (pos ! 1);
                  keep = flags AND SV_KEEP_TERMINATOR \<noteq> 0;
                  line =
                    (if char_at s e = 0 then Some (s, e)
                     else if flags AND SV_TERMINATE_LF \<noteq> 0 \<and> char_at s e = 10 then
                       Some (if keep then s else s[e := 0], e + 1)
                     else if flags AND SV_TERMINATE_CRLF \<noteq> 0 \<and> char_at s e = 13 \<and> char_at s (e + 1) = 10 then
                       Some (if keep then s else s[e := 0, e + 1 := 0], e + 2)
                     else if flags AND SV_TERMINATE_CR \<noteq> 0 \<and> char_at s e = 13 then
                       Some (if keep then s else s[e := 0], e + 1)
                     else None)
           in case line of None \<Rightarrow> Some (-1, s, [])
              | Some (s, next) \<Rightarrow>
                (case split_fields dl flags ret s pos 2 0 (nfields - 1) (int e) [int next] of
                   None \<Rightarrow> None
                 | Some (s, out) \<Rightarrow> Some (ret, s, out)))"

section \<open>Escaping and unescaping\<close>

definition octal_ok :: "byte \<Rightarrow> bool" where
  "octal_ok c =
     (let d0 = 48 + drop_bit 6 (c AND 0xC0); d1 = 48 + drop_bit 3 (c AND 0x38); d2 = 48 + (c AND 0x07)
      in isodigit d1 \<and> isodigit d2 \<and> (d0 = 48 \<or> d0 = 49 \<or> d0 = 50 \<or> d0 = 51) \<and> (d0 = 51 \<longleftrightarrow> 0xC0 \<le> c) \<and>
         (push_bit 3 (push_bit 3 (d0 - 48) OR (d1 - 48)) OR (d2 - 48)) = c)"

lemma octal_ok_all: "octal_ok c"
  by (rule byte_cases) code_simp

lemma octal_digits:
  "isodigit (48 + drop_bit 3 (c AND 0x38))" "isodigit (48 + (c AND 0x07))"
  "48 + drop_bit 6 (c AND 0xC0) = 48 \<or> 48 + drop_bit 6 (c AND 0xC0) = 49 \<or> 48 + drop_bit 6 (c AND 0xC0) = 50 \<or> 48 + drop_bit 6 (c AND 0xC0) = (51 :: byte)"
  "(48 + drop_bit 6 (c AND 0xC0) = (51 :: byte)) = (0xC0 \<le> c)"
  "push_bit 3 (push_bit 3 (48 + drop_bit 6 (c AND 0xC0) - 48) OR (48 + drop_bit 3 (c AND 0x38) - 48)) OR (48 + (c AND 0x07) - 48) = (c :: byte)"
  using octal_ok_all [of c] unfolding octal_ok_def Let_def by blast+

text \<open>The letters of the two-character escapes come back, and are supported.\<close>

lemma unescape_letter_escape:
  "unescape_letter 97 = 7" "unescape_letter 98 = 8" "unescape_letter 116 = 9" "unescape_letter 110 = 10" "unescape_letter 118 = 11"
  "unescape_letter 102 = 12" "unescape_letter 114 = 13" "unescape_letter 63 = 63" "unescape_letter 34 = 34" "unescape_letter 92 = 92"
  by (simp_all add: unescape_letter_def)

lemma unescape_octal:
  assumes "isodigit d1" "isodigit d2" "d0 = 48 \<or> d0 = 49 \<or> d0 = 50 \<or> d0 = 51"
  shows "sv_unescape_c (92 # d0 # d1 # d2 # s) = (push_bit 3 (push_bit 3 (d0 - 48) OR (d1 - 48)) OR (d2 - 48)) # sv_unescape_c s"
proof -
  have "octal_rest 2 (d0 - 48) (d1 # d2 # s) = (push_bit 3 (push_bit 3 (d0 - 48) OR (d1 - 48)) OR (d2 - 48), s)"
    using assms(1,2) by (simp add: numeral_2_eq_2)
  moreover have "d0 \<noteq> 120" using assms(3) by auto
  ultimately show ?thesis by (subst sv_unescape_c.simps) (simp only: list.case if_True if_False assms(3) fst_conv snd_conv simp_thms)
qed

lemma unescape_two: "d \<noteq> 120 \<Longrightarrow> d \<notin> {48, 49, 50, 51} \<Longrightarrow> sv_unescape_c (92 # d # s) = unescape_letter d # sv_unescape_c s"
  by (subst sv_unescape_c.simps) simp

text \<open>The shapes \<open>escape_byte\<close> can have.\<close>

lemma escape_byte_cases:
  obtains (plain) "escape_byte escapes c = [c]" "c \<notin> {0, 10, 13, 92}" "c \<notin> set escapes"
  | (letter) d where "escape_byte escapes c = [92, d]" "d \<in> set SV_ESCAPE_C_SUPPORTED" "unescape_letter d = c" "d \<notin> {120, 48, 49, 50, 51}"
  | (octal) d0 d1 d2 where "escape_byte escapes c = [92, d0, d1, d2]" "isodigit d1" "isodigit d2"
      "d0 = 48 \<or> d0 = 49 \<or> d0 = 50 \<or> d0 = 51" "d0 = 51 \<longleftrightarrow> 0xC0 \<le> c"
      "push_bit 3 (push_bit 3 (d0 - 48) OR (d1 - 48)) OR (d2 - 48) = c" "c = 0 \<or> c \<in> set escapes"
proof -
  consider "c = 0" | "c = 13 \<or> c = 10 \<or> c = 92" | "c \<notin> {0, 10, 13, 92}" "c \<notin> set escapes"
    | "c \<in> set escapes" "c = 7 \<or> c = 8 \<or> c = 9 \<or> c = 11 \<or> c = 12 \<or> c = 63 \<or> c = 34"
    | "c \<in> set escapes" "c \<notin> {0, 10, 13, 92, 7, 8, 9, 11, 12, 63, 34}" by auto
  then show ?thesis
  proof cases
    case 1
    then show ?thesis by (intro octal [of 48 48 48]) (simp_all add: escape_byte_def isodigit_def)
  next
    case 2
    then show ?thesis
      by (elim disjE; intro letter [of "if c = 13 then 114 else if c = 10 then 110 else 92"])
        (simp_all add: escape_byte_def unescape_letter_escape SV_ESCAPE_C_SUPPORTED_def)
  next
    case 3
    then show ?thesis by (intro plain) (simp_all add: escape_byte_def)
  next
    case 4
    then show ?thesis
      by (elim disjE; intro letter [of "if c = 7 then 97 else if c = 8 then 98 else if c = 9 then 116 else if c = 11 then 118
          else if c = 12 then 102 else if c = 63 then 63 else 34"])
        (simp_all add: escape_byte_def unescape_letter_escape SV_ESCAPE_C_SUPPORTED_def)
  next
    case 5
    then have "escape_byte escapes c = [92, 48 + drop_bit 6 (c AND 0xC0), 48 + drop_bit 3 (c AND 0x38), 48 + (c AND 0x07)]"
      by (simp add: escape_byte_def)
    then show ?thesis by (rule octal [OF _ octal_digits]) (use 5 in simp)
  qed
qed

lemma unescape_byte: "sv_unescape_c (escape_byte escapes c @ s) = c # sv_unescape_c s"
proof (cases rule: escape_byte_cases [of escapes c])
  case plain
  then show ?thesis by simp
next
  case (letter d)
  then show ?thesis by (simp add: unescape_two)
next
  case (octal d0 d1 d2)
  then show ?thesis using unescape_octal [OF octal(2,3,4), of s] by simp
qed

lemma unescape_escape: "sv_unescape_c (sv_escape_c s escapes) = s"
  by (induction s) (simp_all add: unescape_byte)

section \<open>Rows\<close>

lemma skip_letter:
  assumes "d \<in> set SV_ESCAPE_C_SUPPORTED" "d \<notin> {120, 48, 49, 50, 51}"
  shows "skip_escape (pre @ 92 # d # rest) (length pre) = Some (length pre + 2)"
  using assms by (simp add: skip_escape_def nth_append)

lemma skip_octal:
  assumes "isodigit d1" "isodigit d2" "d0 = 48 \<or> d0 = 49 \<or> d0 = 50"
  shows "skip_escape (pre @ 92 # d0 # d1 # d2 # rest) (length pre) = Some (length pre + 4)"
  using assms by (auto simp: skip_escape_def nth_append Let_def)

lemma skip_octal_3: "skip_escape (pre @ 92 # 51 # rest) (length pre) = None"
  by (simp add: skip_escape_def nth_append SV_ESCAPE_C_SUPPORTED_def)

text \<open>One byte of an escaped field is skipped without ending it.\<close>

lemma skip_byte:
  assumes "dl \<in> set escapes" "dl \<noteq> 92" "\<forall>c \<in> set escapes. c < 0xC0" "delim st = dl" "opt st AND SV_ESCAPE_C \<noteq> 0"
  shows "sv_loop (pre @ escape_byte escapes c @ rest) st PARSING_FIELD (length pre) =
    sv_loop (pre @ escape_byte escapes c @ rest) st PARSING_FIELD (length (pre @ escape_byte escapes c))"
proof (cases rule: escape_byte_cases [of escapes c])
  case plain
  then show ?thesis
    using assms by (subst sv_loop.simps(2)) (auto simp: is_terminator_def nth_append)
next
  case (letter d)
  have "sv_loop (pre @ 92 # d # rest) st PARSING_FIELD (length pre) = sv_loop (pre @ 92 # d # rest) st PARSING_C_ESCAPE (length pre)"
    using assms(2,4,5) by (subst sv_loop.simps(2)) (simp add: is_terminator_def nth_append)
  also have "\<dots> = sv_loop (pre @ 92 # d # rest) st PARSING_FIELD (length pre + 2)"
    by (simp add: sv_loop.simps(3) skip_letter [OF letter(2,4)])
  finally show ?thesis by (simp add: letter(1))
next
  case (octal d0 d1 d2)
  have c: "c < 0xC0" using octal(7) assms(3) by auto
  then have d: "d0 = 48 \<or> d0 = 49 \<or> d0 = 50" using octal(4,5) by (auto simp: not_le)
  have "sv_loop (pre @ 92 # d0 # d1 # d2 # rest) st PARSING_FIELD (length pre) = sv_loop (pre @ 92 # d0 # d1 # d2 # rest) st PARSING_C_ESCAPE (length pre)"
    using assms(2,4,5) by (subst sv_loop.simps(2)) (simp add: is_terminator_def nth_append)
  also have "\<dots> = sv_loop (pre @ 92 # d0 # d1 # d2 # rest) st PARSING_FIELD (length pre + 4)"
    by (simp add: sv_loop.simps(3) skip_octal [OF octal(2,3) d])
  finally show ?thesis by (simp add: octal(1) eval_nat_numeral)
qed

lemma skip_field:
  assumes "dl \<in> set escapes" "dl \<noteq> 92" "\<forall>c \<in> set escapes. c < 0xC0" "delim st = dl" "opt st AND SV_ESCAPE_C \<noteq> 0"
  shows "sv_loop (pre @ sv_escape_c f escapes @ rest) st PARSING_FIELD (length pre) =
    sv_loop (pre @ sv_escape_c f escapes @ rest) st PARSING_FIELD (length (pre @ sv_escape_c f escapes))"
proof (induction f arbitrary: pre)
  case (Cons c f)
  show ?case
    using skip_byte [OF assms, of pre c "sv_escape_c f escapes @ rest"] Cons.IH [of "pre @ escape_byte escapes c"] by simp
qed simp

lemma skip_plain:
  assumes "\<forall>c \<in> set f. c \<notin> {dl, 10, 13}" "delim st = dl" "opt st AND SV_ESCAPE_C = 0"
  shows "sv_loop (pre @ f @ rest) st PARSING_FIELD (length pre) = sv_loop (pre @ f @ rest) st PARSING_FIELD (length (pre @ f))"
  using assms(1)
proof (induction f arbitrary: pre)
  case (Cons c f)
  have "sv_loop (pre @ (c # f) @ rest) st PARSING_FIELD (length pre) = sv_loop (pre @ (c # f) @ rest) st PARSING_FIELD (length pre + 1)"
    using Cons.prems assms(2,3) by (subst sv_loop.simps(2)) (auto simp: is_terminator_def nth_append)
  then show ?case using Cons.IH [of "pre @ [c]"] Cons.prems by simp
qed simp

text \<open>A row: the fields with the delimiter between them.\<close>

fun join :: "byte \<Rightarrow> bytes list \<Rightarrow> bytes" where
  "join dl [] = []"
| "join dl [f] = f"
| "join dl (f # g # fs) = f @ dl # join dl (g # fs)"

text \<open>Where the fields of a row that starts at \<open>p\<close> lie.\<close>

fun places :: "nat \<Rightarrow> bytes list \<Rightarrow> (nat \<times> nat) list" where
  "places p [] = []"
| "places p (f # fs) = (p, p + length f) # places (p + length f + 1) fs"

fun fill :: "nat \<Rightarrow> (nat \<times> nat) list \<Rightarrow> int list \<Rightarrow> int list" where
  "fill n [] out = out"
| "fill n ((a, b) # r) out = fill (n + 1) r (out[(n + 1) * 2 := int a, (n + 1) * 2 + 1 := int b])"

definition slice :: "bytes \<Rightarrow> nat \<Rightarrow> nat \<Rightarrow> bytes" where
  "slice s a b = take (b - a) (drop a s)"

lemma length_fill [simp]: "length (fill n r out) = length out"
  by (induction n r out rule: fill.induct) auto

lemma fill_before: "k < (n + 1) * 2 \<Longrightarrow> fill n r out ! k = out ! k"
  by (induction n r out rule: fill.induct) auto

lemma nth_fill:
  "k < length r \<Longrightarrow> (n + k + 1) * 2 + 1 < length out \<Longrightarrow>
   fill n r out ! ((n + k + 1) * 2) = int (fst (r ! k)) \<and> fill n r out ! ((n + k + 1) * 2 + 1) = int (snd (r ! k))"
proof (induction n r out arbitrary: k rule: fill.induct)
  case (2 n a b r out)
  show ?case
  proof (cases k)
    case 0
    then show ?thesis using 2 by (simp add: fill_before)
  next
    case (Suc j)
    then show ?thesis using 2(1) [of j] 2(2,3) by simp
  qed
qed simp

lemma length_places [simp]: "length (places p fs) = length fs"
  by (induction p fs rule: places.induct) auto

lemma slice_places:
  "k < length fs \<Longrightarrow> slice (pre @ join dl fs @ post) (fst (places (length pre) fs ! k)) (snd (places (length pre) fs ! k)) = fs ! k"
proof (induction fs arbitrary: pre k rule: join.induct [of _ dl])
  case (3 dl f g fs)
  show ?case
  proof (cases k)
    case 0
    then show ?thesis by (simp add: slice_def)
  next
    case (Suc j)
    then show ?thesis using 3(1) [of j "pre @ f @ [dl]"] 3(2) by simp
  qed
qed (auto simp: slice_def)

text \<open>
  The contract between the parser and whoever writes rows: a field is written so that the parser
  runs over it without ending it or failing.
\<close>

locale row_syntax =
  fixes enc :: "bytes \<Rightarrow> bytes" and ok :: "byte \<Rightarrow> int \<Rightarrow> bytes \<Rightarrow> bool"
  assumes skip: "ok (delim st) (opt st) f \<Longrightarrow>
      sv_loop (pre @ enc f @ rest) st PARSING_FIELD (length pre) = sv_loop (pre @ enc f @ rest) st PARSING_FIELD (length (pre @ enc f))"
    and delim_ok: "ok dl flags f \<Longrightarrow> dl \<notin> {10, 13}"
begin

lemma next_field:
  assumes "ok (delim st) (opt st) f" "str st = Some (pre @ enc f @ rest)" "off st = length pre" "\<not> sdone st"
    "rest = [] \<or> hd rest = delim st"
  shows "sv_parse_next st = (1, st\<lparr>start := length pre, fend := length (pre @ enc f), sdone := length rest \<le> 1,
    off := length (pre @ enc f) + min 1 (length rest)\<rparr>)"
proof -
  define s where "s = pre @ enc f @ rest"
  define st1 where "st1 = st\<lparr>start := length pre\<rparr>"
  define e where "e = length (pre @ enc f)"
  have "rest \<noteq> [] \<Longrightarrow> s ! e = hd rest" by (cases rest) (simp_all add: s_def e_def nth_append)
  then have e: "e + length rest = length s" "length s \<le> e \<longleftrightarrow> rest = []" "e < length s \<Longrightarrow> s ! e = delim st"
    using assms(5) by (auto simp: s_def e_def)
  have "sv_loop s st START_OF_FIELD (off st) = sv_loop s st1 PARSING_FIELD e"
    using skip [of st1 f pre rest] assms(1,3) by (simp add: sv_loop.simps(1) s_def st1_def e_def)
  also have "\<dots> = sv_loop s st1 END_OF_FIELD e"
    using e by (subst sv_loop.simps(2)) (auto simp: st1_def)
  also have "\<dots> = Some (st1\<lparr>fend := e\<rparr>, e + min 1 (length rest))"
    using e by (cases rest) (auto simp: sv_loop.simps(4,6) Let_def st1_def)
  finally have "sv_loop s st START_OF_FIELD (off st) = Some (st1\<lparr>fend := e\<rparr>, e + min 1 (length rest))" .
  moreover have "length s \<le> e + min 1 (length rest) \<longleftrightarrow> length rest \<le> 1" using e(1) by (cases "rest = []"; cases "tl rest") auto
  ultimately show ?thesis
    using assms(2,4) delim_ok [OF assms(1)] by (simp add: sv_parse_next_def s_def [symmetric] st1_def e_def)
qed

text \<open>The last field of a line: the parser stops before the terminator.\<close>

lemma next_last:
  assumes "ok (delim st) (opt st) f" "str st = Some (pre @ enc f @ rest)" "off st = length pre" "\<not> sdone st"
    "rest \<noteq> []" "hd rest \<noteq> delim st" "is_terminator (opt st) (pre @ enc f @ rest) (length (pre @ enc f))"
  shows "sv_parse_next st = (1, st\<lparr>start := length pre, fend := length (pre @ enc f), sdone := True, off := length (pre @ enc f)\<rparr>)"
proof -
  define s where "s = pre @ enc f @ rest"
  define st1 where "st1 = st\<lparr>start := length pre\<rparr>"
  define e where "e = length (pre @ enc f)"
  have e: "e < length s" "s ! e \<noteq> delim st" "is_terminator (opt st) s e"
    using assms(5,6,7) by (auto simp: s_def e_def nth_append hd_conv_nth)
  have "sv_loop s st START_OF_FIELD (off st) = sv_loop s st1 PARSING_FIELD e"
    using skip [of st1 f pre rest] assms(1,3) by (simp add: sv_loop.simps(1) s_def st1_def e_def)
  also have "\<dots> = sv_loop s st1 END_OF_FIELD e"
    using e by (subst sv_loop.simps(2)) (auto simp: st1_def)
  also have "\<dots> = Some (st1\<lparr>fend := e, sdone := True\<rparr>, e)"
    using e by (simp add: sv_loop.simps(4-6) Let_def st1_def)
  finally have "sv_loop s st START_OF_FIELD (off st) = Some (st1\<lparr>fend := e, sdone := True\<rparr>, e)" .
  then show ?thesis
    using assms(2,4) delim_ok [OF assms(1)] by (simp add: sv_parse_next_def s_def [symmetric] st1_def e_def)
qed

text \<open>
  The whole row: one field per piece, at its place. The parser stops at the end of the text or
  before the line terminator; without a terminator it does not see an empty last field that
  follows a delimiter, hence the condition.
\<close>

lemma parse_row:
  assumes "fs \<noteq> []" "\<forall>f \<in> set fs. ok (delim st) (opt st) f" "str st = Some s" "s = pre @ join (delim st) (map enc fs) @ rest"
    "off st = length pre" "\<not> sdone st"
    "rest = [] \<and> (length fs = 1 \<or> enc (last fs) \<noteq> []) \<or>
     rest \<noteq> [] \<and> hd rest \<noteq> delim st \<and> is_terminator (opt st) s (length s - length rest)"
    "(n + length fs) * 2 + 1 < length out"
  shows "sv_parse_loop st n out =
    (int (n + length fs), (fill n (places (length pre) (map enc fs)) out)[1 := int (length s - length rest)])"
  using assms
proof (induction fs arbitrary: st pre n out)
  case (Cons f fs)
  have ok: "ok (delim st) (opt st) f" using Cons.prems(2) by simp
  show ?case
  proof (cases fs)
    case Nil
    define st1 where "st1 = st\<lparr>start := length pre, fend := length (pre @ enc f), sdone := True, off := length (pre @ enc f)\<rparr>"
    have s: "str st = Some (pre @ enc f @ rest)" using Cons.prems(3,4) Nil by simp
    have len: "length s - length rest = length (pre @ enc f)" using Cons.prems(4) Nil by simp
    have "sv_parse_next st = (1, st1)"
    proof (cases "rest = []")
      case True
      then show ?thesis using next_field [OF ok s Cons.prems(5,6)] by (simp add: st1_def)
    next
      case False
      then have "hd rest \<noteq> delim st" "is_terminator (opt st) s (length (pre @ enc f))"
        using Cons.prems(7) len by simp_all
      then show ?thesis
        using next_last [OF ok s Cons.prems(5,6) False] Cons.prems(4) Nil by (simp add: st1_def)
    qed
    moreover have "sdone st1" "start st1 = length pre" "fend st1 = length (pre @ enc f)" "off st1 = length (pre @ enc f)"
      by (simp_all add: st1_def)
    ultimately show ?thesis
      using Cons.prems(6,8) Nil len by (simp add: sv_parse_loop.simps [of st] sv_parse_loop.simps [of st1] Let_def)
  next
    case (Cons g gs)
    define rest1 where "rest1 = delim st # join (delim st) (map enc fs) @ rest"
    define st1 where "st1 = st\<lparr>start := length pre, fend := length (pre @ enc f), sdone := False, off := length pre + length (enc f) + 1\<rparr>"
    have s: "str st = Some (pre @ enc f @ rest1)" using Cons.prems(3,4) Cons by (simp add: rest1_def)
    have "length rest1 > 1"
    proof -
      have "rest = [] \<Longrightarrow> join (delim st) (map enc fs) \<noteq> []"
        using Cons.prems(7) Cons by (cases gs) auto
      then show ?thesis by (cases "rest = []") (auto simp: rest1_def)
    qed
    then have "sv_parse_next st = (1, st1)"
      using next_field [OF ok s Cons.prems(5,6)] by (simp add: st1_def rest1_def)
    moreover have "\<not> sdone st1" "start st1 = length pre" "fend st1 = length (pre @ enc f)" "delim st1 = delim st" "opt st1 = opt st"
      "str st1 = Some s" "off st1 = length (pre @ enc f @ [delim st])"
      using Cons.prems(3) by (simp_all add: st1_def)
    moreover from this have "sv_parse_loop st1 (n + 1) (out[(n + 1) * 2 := int (length pre), (n + 1) * 2 + 1 := int (length (pre @ enc f))]) =
        (int (n + 1 + length fs), (fill (n + 1) (places (length (pre @ enc f @ [delim st])) (map enc fs))
          (out[(n + 1) * 2 := int (length pre), (n + 1) * 2 + 1 := int (length (pre @ enc f))]))[1 := int (length s - length rest)])"
      using Cons.prems Cons by (intro Cons.IH) (auto simp: rest1_def)
    ultimately show ?thesis
      using Cons.prems(6,8) by (simp add: sv_parse_loop.simps [of st] Let_def)
  qed
qed simp

end

text \<open>The two syntaxes rows are written in.\<close>

interpretation escaped: row_syntax "\<lambda>f. sv_escape_c f escapes"
  "\<lambda>dl flags f. dl \<in> set escapes \<and> dl \<notin> {10, 13, 92} \<and> (\<forall>c \<in> set escapes. c < 0xC0) \<and> flags AND SV_ESCAPE_C \<noteq> 0"
  for escapes
  by unfold_locales (use skip_field in \<open>auto\<close>)

interpretation plain: row_syntax "\<lambda>f. f"
  "\<lambda>dl flags f. dl \<notin> {10, 13} \<and> (\<forall>c \<in> set f. c \<notin> {dl, 10, 13}) \<and> flags AND SV_ESCAPE_C = 0"
  by unfold_locales (rule skip_plain, auto)

lemma escape_nonempty: "f \<noteq> [] \<Longrightarrow> sv_escape_c f escapes \<noteq> []"
  by (cases f) (auto simp: escape_byte_def)

text \<open>
  C11. Writing a row with \<open>sv_escape_c\<close>, the delimiter among the characters to escape, and
  reading it with \<open>sv_parse\<close> and \<open>sv_unescape_c\<close> gives the fields back, whatever bytes they
  hold; provided the last of several fields is not empty and no byte from 0xC0 up is escaped.
\<close>

theorem sv_row_roundtrip:
  assumes "fs \<noteq> []" "length fs = 1 \<or> last fs \<noteq> []" "dl \<in> set escapes" "dl \<notin> {10, 13, 92}"
    "\<forall>c \<in> set escapes. c < 0xC0" "flags AND SV_ESCAPE_C \<noteq> 0" "length fs * 2 + 1 < npos"
    "row = join dl (map (\<lambda>f. sv_escape_c f escapes) fs)" "sv_parse row 0 dl npos flags = (n, pos)"
  shows "n = int (length fs) \<and>
    map (\<lambda>k. sv_unescape_c (slice row (nat (pos ! (2 * k + 2))) (nat (pos ! (2 * k + 3))))) [0..<length fs] = fs"
proof -
  define st where "st = \<lparr>str = Some row, off = 0, start = 0, fend = 0, opt = flags, delim = dl, sdone = False\<rparr>"
  define ps where "ps = map (\<lambda>f. sv_escape_c f escapes) fs"
  define out where "out = (replicate npos (-1 :: int))[0 := 0]"
  have "sv_parse_loop st 0 out = (int (0 + length fs), (fill 0 (places (length ([] :: bytes)) ps) out)[1 := int (length row - length ([] :: bytes))])"
    unfolding ps_def
    by (rule escaped.parse_row)
      (use assms escape_nonempty [of "last fs" escapes] in \<open>auto simp: st_def out_def last_map\<close>)
  then have pos: "n = int (length fs)" "pos = (fill 0 (places 0 ps) out)[1 := int (length row)]"
    using assms(7,9) by (simp_all add: sv_parse_def st_def [symmetric] out_def [symmetric])
  have "sv_unescape_c (slice row (nat (pos ! (2 * k + 2))) (nat (pos ! (2 * k + 3)))) = fs ! k" if "k < length fs" for k
  proof -
    have "fill 0 (places 0 ps) out ! (2 * k + 2) = int (fst (places 0 ps ! k))"
      "fill 0 (places 0 ps) out ! (2 * k + 3) = int (snd (places 0 ps ! k))"
      using nth_fill [of k "places 0 ps" 0 out] that assms(7) by (simp_all add: ps_def out_def algebra_simps numeral_3_eq_3)
    moreover have "slice row (fst (places 0 ps ! k)) (snd (places 0 ps ! k)) = sv_escape_c (fs ! k) escapes"
      using slice_places [of k ps "[]" dl "[]"] that by (simp add: ps_def assms(8))
    ultimately show ?thesis by (simp add: pos unescape_escape)
  qed
  then show ?thesis by (intro conjI pos(1) nth_equalityI) (simp_all del: upt_Suc)
qed

theorem sv_row_roundtrip_witness:
  "sv_parse (join 44 (map (\<lambda>f. sv_escape_c f [44, 34]) [[1, 44, 2], [], [34, 0]])) 0 44 8 1 = (3, [0, 14, 0, 6, 7, 7, 8, 14])"
proof -
  obtain n pos where p: "sv_parse (join 44 (map (\<lambda>f. sv_escape_c f [44, 34]) [[1, 44, 2], [], [34, 0]])) 0 44 8 1 = (n, pos)"
    by (cases "sv_parse (join 44 (map (\<lambda>f. sv_escape_c f [44, 34]) [[1, 44, 2], [], [34, 0]])) 0 44 8 1")
  have "n = int (length [[1, 44, 2], [], [34, 0 :: byte]])"
    using sv_row_roundtrip [of "[[1, 44, 2], [], [34, 0]]" 44 "[44, 34]" 1 8 _ n pos, OF _ _ _ _ _ _ _ refl p]
    by (simp add: SV_ESCAPE_C_def)
  moreover have "snd (sv_parse (join 44 (map (\<lambda>f. sv_escape_c f [44, 34]) [[1, 44, 2], [], [34, 0]])) 0 44 8 1) = [0, 14, 0, 6, 7, 7, 8, 14]"
    by code_simp
  ultimately show ?thesis using p by simp
qed

text \<open>
  The bytes from 0xC0 up break the pairing: \<open>sv_escape_c\<close> writes them as octal escapes
  that start with 3, which \<open>sv_unescape_c\<close> reads and \<open>sv_parse_next\<close> rejects.
\<close>

theorem sv_high_escape_rejected:
  assumes "c \<in> set escapes" "0xC0 \<le> c" "dl \<notin> {10, 13, 92}" "flags AND SV_ESCAPE_C \<noteq> 0"
  shows "sv_unescape_c (sv_escape_c [c] escapes) = [c] \<and> fst (sv_parse (sv_escape_c [c] escapes) 0 dl npos flags) = -1"
proof -
  have "c \<notin> {0, 13, 10, 92, 7, 8, 9, 11, 12, 63, 34}" using assms(2) by auto
  then have "sv_escape_c [c] escapes = 92 # (48 + drop_bit 6 (c AND 0xC0)) # [48 + drop_bit 3 (c AND 0x38), 48 + (c AND 0x07)]"
    using assms(1) by (simp add: escape_byte_def)
  then obtain r where r: "sv_escape_c [c] escapes = 92 # 51 # r" using octal_digits(4) [of c] assms(2) by auto
  define st where "st = \<lparr>str = Some (92 # 51 # r), off = 0, start = 0, fend = 0, opt = flags, delim = dl, sdone = False\<rparr>"
  have "sv_loop (92 # 51 # r) st START_OF_FIELD 0 = None"
    using assms(3,4) skip_octal_3 [of "[]" r]
    by (simp add: sv_loop.simps(1,3)) (subst sv_loop.simps(2), simp add: is_terminator_def st_def sv_loop.simps(3))
  then have "fst (sv_parse_next st) = -1" using assms(3) by (simp add: sv_parse_next_def st_def)
  moreover have nd: "\<not> sdone st" by (simp add: st_def)
  ultimately have "fst (sv_parse_loop st 0 out) = -1" for out
    by (cases "sv_parse_next st") (simp add: sv_parse_loop.simps [of st] nd Let_def)
  then have "fst (sv_parse (92 # 51 # r) 0 dl npos flags) = -1" by (simp add: sv_parse_def Let_def st_def [symmetric] del: replicate.simps)
  then show ?thesis using unescape_escape [of "[c]" escapes] r by simp
qed

theorem sv_high_escape_rejected_witness:
  "sv_unescape_c (sv_escape_c [0xE9] [0xE9]) = [0xE9] \<and> fst (sv_parse (sv_escape_c [0xE9] [0xE9]) 0 44 4 SV_ESCAPE_C) = -1"
  by (rule sv_high_escape_rejected) (simp_all add: SV_ESCAPE_C_def)

section \<open>Splitting\<close>

text \<open>The string at an offset.\<close>

definition cstring :: "bytes \<Rightarrow> nat \<Rightarrow> bytes" where
  "cstring s i = takeWhile (\<lambda>c. c \<noteq> 0) (drop i s)"

lemma cstring_piece: "0 \<notin> set f \<Longrightarrow> z = [] \<or> hd z = 0 \<Longrightarrow> cstring (pre @ f @ z) (length pre) = f"
  by (cases z) (auto simp: cstring_def takeWhile_append)

lemma cstring_places:
  "dl = 0 \<Longrightarrow> k < length fs \<Longrightarrow> \<forall>f \<in> set fs. 0 \<notin> set f \<Longrightarrow> z = [] \<or> hd z = 0 \<Longrightarrow>
   cstring (pre @ join dl fs @ z) (fst (places (length pre) fs ! k)) = fs ! k"
proof (induction fs arbitrary: pre k rule: join.induct [of _ dl])
  case (2 dl f)
  then show ?case by (simp add: cstring_piece)
next
  case (3 dl f g fs)
  show ?case
  proof (cases k)
    case 0
    then show ?thesis using 3(2,4) cstring_piece [of f "0 # join 0 (g # fs) @ z" pre] by simp
  next
    case (Suc j)
    then show ?thesis using 3(1) [of j "pre @ f @ [dl]"] 3(2-5) by simp
  qed
qed simp

lemma snd_last_places: "fs \<noteq> [] \<Longrightarrow> snd (last (places p fs)) = p + length (join dl fs)"
proof (induction dl fs arbitrary: p rule: join.induct)
  case (3 dl f g fs)
  have "places (p + length f + 1) (g # fs) \<noteq> []" by simp
  then have "last (places p (f # g # fs)) = last (places (p + length f + 1) (g # fs))"
    by (simp only: places.simps(2) [of p f] last_ConsR simp_thms if_False)
  with 3(1) [of "p + length f + 1"] show ?case by (simp only: join.simps) simp
qed simp_all

text \<open>The loop over the fields terminates each of them in place.\<close>

lemma split_row:
  assumes "\<And>j. j < length fs \<Longrightarrow> pos ! ((k + j + 1) * 2) = int (fst (places (length pre) fs ! j)) \<and>
      pos ! ((k + j + 1) * 2 + 1) = int (snd (places (length pre) fs ! j))"
    "ret = int (k + length fs)" "length fs \<le> nf" "(k + length fs) * 2 + 1 < POS_LENGTH" "z = [] \<or> hd z = 0"
  shows "split_fields dl flags ret (pre @ join dl fs @ z) pos ((k + 1) * 2) k nf e out =
    Some (pre @ join 0 fs @ z, out @ map (\<lambda>p. int (fst p)) (places (length pre) fs) @
      replicate (nf - length fs) (if fs = [] then e else int (snd (last (places (length pre) fs)))))"
  using assms
proof (induction fs arbitrary: pre k nf e out rule: join.induct [of _ dl])
  case (1 dl)
  then show ?case by (simp add: split_fields.simps)
next
  case (2 dl f)
  have p: "pos ! ((k + 1) * 2) = int (length pre)" "pos ! ((k + 1) * 2 + 1) = int (length (pre @ f))" using 2(1) [of 0] by simp_all
  have z: "(pre @ f @ z)[length (pre @ f) := 0] = pre @ f @ z" using 2(5) by (cases z) (simp_all add: list_update_append list_update_beyond)
  have "split_fields dl flags ret (pre @ f @ z) pos ((k + 1) * 2) k nf e out =
      split_fields dl flags ret (pre @ f @ z) pos ((k + 1) * 2 + 2) (k + 1) (nf - 1) (int (length (pre @ f))) (out @ [int (length pre)])"
    using 2(2-4) p z by (subst split_fields.simps) (simp add: Let_def nat_int_add)
  also have "\<dots> = Some (pre @ f @ z, out @ [int (length pre)] @ replicate (nf - 1) (int (length (pre @ f))))"
    using 2(2) by (subst split_fields.simps) simp
  finally show ?case by simp
next
  case (3 dl f g fs)
  have p: "pos ! ((k + 1) * 2) = int (length pre)" "pos ! ((k + 1) * 2 + 1) = int (length (pre @ f))" using 3(2) [of 0] by simp_all
  have "(pre @ join dl (f # g # fs) @ z)[length (pre @ f) := 0] = (pre @ f @ [0]) @ join dl (g # fs) @ z"
    by (simp add: list_update_append)
  then have "split_fields dl flags ret (pre @ join dl (f # g # fs) @ z) pos ((k + 1) * 2) k nf e out =
      split_fields dl flags ret ((pre @ f @ [0]) @ join dl (g # fs) @ z) pos ((k + 1 + 1) * 2) (k + 1) (nf - 1) (int (length (pre @ f))) (out @ [int (length pre)])"
    using 3(3-5) p by (subst split_fields.simps) (simp add: Let_def nat_int_add)
  also have "\<dots> = Some ((pre @ f @ [0]) @ join 0 (g # fs) @ z, (out @ [int (length pre)]) @ map (\<lambda>p. int (fst p)) (places (length (pre @ f @ [0])) (g # fs)) @
      replicate (nf - 1 - length (g # fs)) (if g # fs = [] then int (length (pre @ f)) else int (snd (last (places (length (pre @ f @ [0])) (g # fs))))))"
  proof (rule 3(1))
    fix j assume "j < length (g # fs)"
    then show "pos ! ((k + 1 + j + 1) * 2) = int (fst (places (length (pre @ f @ [0])) (g # fs) ! j)) \<and>
        pos ! ((k + 1 + j + 1) * 2 + 1) = int (snd (places (length (pre @ f @ [0])) (g # fs) ! j))"
      using 3(2) [of "Suc j"] by simp
  qed (use 3(3-6) in auto)
  finally show ?case by simp
qed

text \<open>
  The splitter cuts a line of a text database, with or without its line end, into its
  columns: every column is at its offset as a terminated string, the columns a row lacks are
  empty, and the first cell holds where the next line starts.
\<close>

lemma sv_split_row:
  assumes "fs \<noteq> []" "length fs \<le> 511" "dl \<notin> {0, 10, 13}" "\<forall>f \<in> set fs. set f \<inter> {0, dl, 10, 13} = {}"
    "eol = [10] \<or> eol = [13, 10] \<or> eol = [] \<and> (length fs = 1 \<or> last fs \<noteq> [])" "length fs < nfields"
  shows "\<exists>s out. sv_split (join dl fs @ eol) 0 dl nfields (SV_TERMINATE_LF OR SV_TERMINATE_CRLF) = Some (int (length fs), s, out) \<and>
    length out = nfields \<and> out ! 0 = int (length (join dl fs @ eol)) \<and>
    (\<forall>k < length fs. cstring s (nat (out ! (k + 1))) = fs ! k) \<and>
    (\<forall>k. length fs < k \<longrightarrow> k < nfields \<longrightarrow> cstring s (nat (out ! k)) = [])"
proof -
  define flags where "flags = SV_TERMINATE_LF OR SV_TERMINATE_CRLF"
  have flags: "flags AND SV_ESCAPE_C = 0" "flags AND SV_TERMINATE_LF \<noteq> 0" "flags AND SV_TERMINATE_CRLF \<noteq> 0" "flags AND SV_KEEP_TERMINATOR = 0"
    "flags AND SV_TERMINATE_CR = 0"
    by (simp_all add: flags_def SV_ESCAPE_C_def SV_TERMINATE_LF_def SV_TERMINATE_CRLF_def SV_KEEP_TERMINATOR_def SV_TERMINATE_CR_def)
  define row where "row = join dl fs"
  define z where "z = replicate (length eol) (0 :: byte)"
  define st where "st = \<lparr>str = Some (row @ eol), off = 0, start = 0, fend = 0, opt = flags, delim = dl, sdone = False\<rparr>"
  define pos where "pos = (fill 0 (places 0 fs) ((replicate POS_LENGTH (-1))[0 := 0]))[1 := int (length row)]"
  have ends: "eol \<noteq> [] \<Longrightarrow> hd eol \<noteq> dl \<and> is_terminator flags (row @ eol) (length row)"
    using assms(3,5) flags by (auto simp: is_terminator_def nth_append)
  have "sv_parse_loop st 0 ((replicate POS_LENGTH (-1))[0 := 0]) = (int (0 + length fs),
      (fill 0 (places (length ([] :: bytes)) (map (\<lambda>f. f) fs)) ((replicate POS_LENGTH (-1))[0 := 0]))[1 := int (length (row @ eol) - length eol)])"
    using assms ends flags(1) by (intro plain.parse_row [where pre = "[]"]) (auto simp: st_def row_def POS_LENGTH_def)
  then have parse: "sv_parse (row @ eol) 0 dl POS_LENGTH flags = (int (length fs), pos)"
    by (simp add: sv_parse_def st_def [symmetric] pos_def POS_LENGTH_def)
  have pos1: "pos ! 1 = int (length row)" by (simp add: pos_def POS_LENGTH_def)
  have posk: "pos ! ((0 + j + 1) * 2) = int (fst (places (length ([] :: bytes)) fs ! j)) \<and> pos ! ((0 + j + 1) * 2 + 1) = int (snd (places (length ([] :: bytes)) fs ! j))"
    if "j < length fs" for j
    using nth_fill [of j "places 0 fs" 0 "(replicate POS_LENGTH (-1))[0 := 0]"] that assms(2) by (simp add: pos_def POS_LENGTH_def)
  have split: "split_fields dl flags (int (length fs)) (row @ z) pos 2 0 (nfields - 1) (int (length row)) [int (length (row @ eol))] =
      Some (join 0 fs @ z, int (length (row @ eol)) # map (\<lambda>p. int (fst p)) (places 0 fs) @
        replicate (nfields - 1 - length fs) (int (snd (last (places 0 fs)))))"
    using split_row [of fs pos 0 "[]" "int (length fs)" "nfields - 1" z dl flags "int (length row)" "[int (length (row @ eol))]", OF posk]
      assms(1,2,6) by (cases eol) (auto simp: row_def z_def POS_LENGTH_def)
  have "sv_split (row @ eol) 0 dl nfields flags = Some (int (length fs), join 0 fs @ z, int (length (row @ eol)) # map (\<lambda>p. int (fst p)) (places 0 fs) @
        replicate (nfields - 1 - length fs) (int (snd (last (places 0 fs)))))"
    unfolding sv_split_def parse prod.case using assms(5)
  proof (elim disjE conjE, goal_cases)
    case 1
    with split flags assms(6) pos1 show ?case by (simp add: Let_def char_at_def z_def list_update_append)
  next
    case 2
    with split flags assms(6) pos1 show ?case
      by (simp add: Let_def char_at_def z_def nth_append list_update_append)
  qed (use split flags assms(6) pos1 in \<open>simp_all add: Let_def char_at_def z_def\<close>)
  moreover have "cstring (join 0 fs @ z) (fst (places 0 fs ! k)) = fs ! k" if "k < length fs" for k
    using cstring_places [of 0 k fs z "[]"] that assms(4) by (cases eol) (auto simp: z_def)
  moreover have "cstring (join 0 fs @ z) (snd (last (places 0 fs))) = []"
    using snd_last_places [OF assms(1), of 0 0] by (cases eol) (simp_all add: cstring_def z_def)
  ultimately show ?thesis
    using assms(6) unfolding row_def flags_def by (auto simp: nth_Cons' nth_append)
qed

section \<open>Text databases\<close>

text \<open>
  \<open>sv_readdb\<close>: the loop over the lines of the file. \<open>parseproc\<close> gets the columns as strings,
  their number and the number of rows taken so far; it returns its own state with its result.
\<close>

function readdb_loop :: "('a \<Rightarrow> bytes list \<Rightarrow> int \<Rightarrow> nat \<Rightarrow> 'a \<times> bool) \<Rightarrow> byte \<Rightarrow> int \<Rightarrow> nat \<Rightarrow> nat \<Rightarrow> bytes \<Rightarrow> nat \<Rightarrow> 'a \<Rightarrow> ('a \<times> nat) option" where
  "readdb_loop parseproc dl mincols maxcols maxrows file entries a =
     (if file = [] then Some (a, entries)
      else let (line, file) = fgets 1023 file;
               line = takeWhile (\<lambda>c. c \<noteq> 0) line;
               line = (case strstr line (lit ''//'') of Some n \<Rightarrow> take n line | None \<Rightarrow> line)
        in if line = [] \<or> hd line = 10 \<or> hd line = 13
           then readdb_loop parseproc dl mincols maxcols maxrows file entries a
           else case sv_split line 0 dl (maxcols + 1) (SV_TERMINATE_LF OR SV_TERMINATE_CRLF) of
             None \<Rightarrow> None
           | Some (columns, s, cells) \<Rightarrow>
             if columns < mincols then readdb_loop parseproc dl mincols maxcols maxrows file entries a
             else if columns > int maxcols then readdb_loop parseproc dl mincols maxcols maxrows file entries a
             else if entries = maxrows then Some (a, entries)
             else let (a, ok) = parseproc a (map (\<lambda>p. cstring s (nat p)) (tl cells)) columns entries
               in readdb_loop parseproc dl mincols maxcols maxrows file (if ok then entries + 1 else entries) a)"
  by auto
termination
  by (relation "measure (\<lambda>(parseproc, dl, mincols, maxcols, maxrows, file, entries, a). length file)")
    (auto dest!: arg_cong [of _ _ snd] simp: fgets_length)

declare readdb_loop.simps [simp del]

definition sv_readdb :: "('a \<Rightarrow> bytes list \<Rightarrow> int \<Rightarrow> nat \<Rightarrow> 'a \<times> bool) \<Rightarrow> byte \<Rightarrow> int \<Rightarrow> nat \<Rightarrow> nat \<Rightarrow> bytes option \<Rightarrow> 'a \<Rightarrow> ('a \<times> bool) option" where
  "sv_readdb parseproc dl mincols maxcols maxrows fp a =
     (case fp of None \<Rightarrow> Some (a, False)
      | Some file \<Rightarrow> map_option (\<lambda>(a, entries). (a, True)) (readdb_loop parseproc dl mincols maxcols maxrows file 0 a))"

text \<open>What reading a database is for: the rows, in order, to the callback, at most \<open>maxrows\<close>.\<close>

fun feed :: "('a \<Rightarrow> bytes list \<Rightarrow> int \<Rightarrow> nat \<Rightarrow> 'a \<times> bool) \<Rightarrow> nat \<Rightarrow> nat \<Rightarrow> bytes list list \<Rightarrow> nat \<Rightarrow> 'a \<Rightarrow> 'a" where
  "feed parseproc maxcols maxrows [] n a = a"
| "feed parseproc maxcols maxrows (r # rs) n a =
     (if n = maxrows then a
      else let (a, ok) = parseproc a (r @ replicate (maxcols - length r) []) (int (length r)) n
        in feed parseproc maxcols maxrows rs (if ok then n + 1 else n) a)"

lemma fgets_line: "length l < n \<Longrightarrow> 10 \<notin> set l \<Longrightarrow> fgets n (l @ 10 # s) = (l @ [10], s)"
  by (induction n l rule: fgets.induct) auto

lemma strstr_none: "n \<noteq> [] \<Longrightarrow> hd n \<notin> set h \<Longrightarrow> strstr h n = None"
proof (induction h)
  case (Cons c h)
  then show ?case by (cases n) auto
qed simp

text \<open>A line the reader hands to the splitter as it is.\<close>

definition good_row :: "byte \<Rightarrow> bytes list \<Rightarrow> bool" where
  "good_row dl fs =
     (fs \<noteq> [] \<and> length (join dl fs) < 1023 \<and> fs ! 0 \<noteq> [] \<and> (\<forall>f \<in> set fs. set f \<inter> {0, dl, 10, 13, 47} = {}))"

lemma set_join: "set (join dl fs) \<subseteq> insert dl (\<Union> (set ` set fs))"
  by (induction dl fs rule: join.induct) auto

lemma hd_join: "fs \<noteq> [] \<Longrightarrow> fs ! 0 \<noteq> [] \<Longrightarrow> join dl fs \<noteq> [] \<and> hd (join dl fs) = hd (fs ! 0)"
  by (induction dl fs rule: join.induct) auto

text \<open>
  C31. Reading a text database of clean rows passes them to the callback in order, each with its
  columns and with empty strings for those it lacks, and stops after the number of rows asked for.
  A clean row fits the line buffer of 1024 bytes, has between \<open>mincols\<close> and \<open>maxcols\<close> columns (at most 511), of
  which the first is not empty, and no column contains a delimiter, a line end, a zero byte or a
  slash, which may start a comment.
\<close>

theorem sv_readdb_rows:
  assumes "dl \<notin> {0, 10, 13, 47}" "maxcols \<le> 511" "\<forall>r \<in> set rows. good_row dl r \<and> mincols \<le> int (length r) \<and> length r \<le> maxcols"
  shows "sv_readdb parseproc dl mincols maxcols maxrows (Some (concat (map (\<lambda>r. join dl r @ [10]) rows))) a = Some (feed parseproc maxcols maxrows rows 0 a, True)"
proof -
  have "\<exists>m. readdb_loop parseproc dl mincols maxcols maxrows (concat (map (\<lambda>r. join dl r @ [10]) rows)) n a = Some (feed parseproc maxcols maxrows rows n a, m)"
    for n using assms(3)
  proof (induction rows arbitrary: n a)
    case Nil
    then show ?case by (simp add: readdb_loop.simps)
  next
    case (Cons r rows)
    define rest where "rest = concat (map (\<lambda>r. join dl r @ [10]) rows)"
    have r: "r \<noteq> []" "length (join dl r) < 1023" "r ! 0 \<noteq> []" "\<forall>f \<in> set r. set f \<inter> {0, dl, 10, 13, 47} = {}"
      using Cons.prems by (auto simp: good_row_def)
    then have j: "set (join dl r) \<inter> {0, 10, 13, 47} = {}" using set_join [of dl r] assms(1) by auto
    have line: "fgets 1023 (join dl r @ 10 # rest) = (join dl r @ [10], rest)" using fgets_line r(2) j by simp
    have w: "takeWhile (\<lambda>c. c \<noteq> 0) (join dl r @ [10]) = join dl r @ [10]" using j by (subst takeWhile_append2) auto
    have c: "strstr (join dl r @ [10]) (lit ''//'') = None" using j by (intro strstr_none) (auto simp: lit_def)
    have "hd (r ! 0) \<in> set (join dl r)" using hd_join [OF r(1,3), of dl] by (metis hd_in_set)
    then have h: "hd (join dl r @ [10]) \<noteq> 10" "hd (join dl r @ [10]) \<noteq> 13" using hd_join [OF r(1,3), of dl] j by auto
    obtain s out where split: "sv_split (join dl r @ [10]) 0 dl (maxcols + 1) (SV_TERMINATE_LF OR SV_TERMINATE_CRLF) = Some (int (length r), s, out)"
      "length out = maxcols + 1" "\<forall>k < length r. cstring s (nat (out ! (k + 1))) = r ! k"
      "\<forall>k. length r < k \<longrightarrow> k < maxcols + 1 \<longrightarrow> cstring s (nat (out ! k)) = []"
      using sv_split_row [of r dl "[10]" "maxcols + 1"] r assms(1,2) Cons.prems by fastforce
    have cols: "map (\<lambda>p. cstring s (nat p)) (tl out) = r @ replicate (maxcols - length r) []"
      using split(2-4) Cons.prems by (intro nth_equalityI) (auto simp: nth_tl nth_append)
    have "readdb_loop parseproc dl mincols maxcols maxrows (join dl r @ 10 # rest) n a =
        (if n = maxrows then Some (a, n)
         else let (a, ok) = parseproc a (r @ replicate (maxcols - length r) []) (int (length r)) n
           in readdb_loop parseproc dl mincols maxcols maxrows rest (if ok then n + 1 else n) a)"
      using Cons.prems h by (subst readdb_loop.simps) (simp add: line w c split(1) [simplified] cols Let_def)
    then show ?case
      using Cons.IH Cons.prems by (cases "parseproc a (r @ replicate (maxcols - length r) []) (int (length r)) n") (simp add: rest_def)
  qed
  from this [of 0] show ?thesis by (auto simp: sv_readdb_def)
qed

theorem sv_readdb_rows_witness:
  "sv_readdb (\<lambda>a r n k. (a @ [(r, n, k)], True)) 44 1 3 9 (Some [65, 44, 66, 10, 67, 10]) [] =
    Some ([([[65], [66], []], 2, 0), ([[67], [], []], 1, 1)], True)"
proof -
  have "replicate 2 ([] :: bytes) = [[], []]" by (simp add: numeral_2_eq_2)
  then show ?thesis
    using sv_readdb_rows [of 44 3 "[[[65], [66]], [[67]]]" 1 "\<lambda>a r n k. (a @ [(r, n, k)], True)" 9 "[]"]
    by (simp add: good_row_def)
qed

end
