(* ===== verification/Des.thy ===== *)
theory Des
  imports Prelude
begin

text \<open>
  The one-round variant of DES the archives of the client use, \<open>src/common/des.c\<close>. A block
  (\<open>struct des_bit64\<close>) is a list of eight bytes; the functions that work in place return
  the block. Bits are numbered as the tables number them, from 0 at the top of the first byte.
\<close>

unbundle bit_operations_syntax

type_synonym block = "8 word list"

definition mask :: "8 word list" where
  "mask = [0x80, 0x40, 0x20, 0x10, 0x08, 0x04, 0x02, 0x01]"

definition ip_table :: "nat list" where
  "ip_table =
    [58, 50, 42, 34, 26, 18, 10, 2, 60, 52, 44, 36, 28, 20, 12, 4,
     62, 54, 46, 38, 30, 22, 14, 6, 64, 56, 48, 40, 32, 24, 16, 8,
     57, 49, 41, 33, 25, 17, 9, 1, 59, 51, 43, 35, 27, 19, 11, 3,
     61, 53, 45, 37, 29, 21, 13, 5, 63, 55, 47, 39, 31, 23, 15, 7]"

definition fp_table :: "nat list" where
  "fp_table =
    [40, 8, 48, 16, 56, 24, 64, 32, 39, 7, 47, 15, 55, 23, 63, 31,
     38, 6, 46, 14, 54, 22, 62, 30, 37, 5, 45, 13, 53, 21, 61, 29,
     36, 4, 44, 12, 52, 20, 60, 28, 35, 3, 43, 11, 51, 19, 59, 27,
     34, 2, 42, 10, 50, 18, 58, 26, 33, 1, 41, 9, 49, 17, 57, 25]"

definition tp_table :: "nat list" where
  "tp_table =
    [16, 7, 20, 21, 29, 12, 28, 17, 1, 15, 23, 26, 5, 18, 31, 10,
     2, 8, 24, 14, 32, 27, 3, 9, 19, 13, 30, 6, 22, 11, 4, 25]"

definition s_table :: "8 word list list" where
  "s_table =
   [[239, 3, 65, 253, 216, 116, 30, 71, 38, 239, 251, 34, 179, 216, 132, 30,
     57, 172, 167, 96, 98, 193, 205, 186, 92, 150, 144, 89, 5, 59, 122, 133,
     64, 253, 30, 200, 231, 138, 139, 33, 218, 67, 100, 159, 45, 20, 177, 114,
     245, 91, 200, 182, 156, 55, 118, 236, 57, 160, 163, 5, 82, 110, 15, 217],
    [167, 221, 13, 120, 158, 11, 227, 149, 96, 54, 54, 79, 249, 96, 90, 163,
     17, 36, 210, 135, 200, 82, 117, 236, 187, 193, 76, 186, 36, 254, 143, 25,
     218, 19, 102, 175, 73, 208, 144, 6, 140, 106, 251, 145, 55, 141, 13, 120,
     191, 73, 17, 244, 35, 229, 206, 59, 85, 188, 162, 87, 232, 34, 116, 206],
    [44, 234, 193, 191, 74, 36, 31, 194, 121, 71, 162, 124, 182, 217, 104, 21,
     128, 86, 93, 1, 51, 253, 244, 174, 222, 48, 7, 155, 229, 131, 155, 104,
     73, 180, 46, 131, 31, 194, 181, 124, 162, 25, 216, 229, 124, 47, 131, 218,
     247, 107, 144, 254, 196, 1, 90, 151, 97, 166, 61, 64, 11, 88, 230, 61],
    [77, 209, 178, 15, 40, 189, 228, 120, 246, 74, 15, 147, 139, 23, 209, 164,
     58, 236, 201, 53, 147, 86, 126, 203, 85, 32, 160, 254, 108, 137, 23, 98,
     23, 98, 75, 177, 180, 222, 209, 135, 201, 20, 60, 74, 126, 168, 226, 125,
     160, 159, 246, 92, 106, 9, 141, 240, 15, 227, 83, 37, 149, 54, 40, 203]]"

text \<open>
  One step of the loops of \<open>des_IP\<close>, \<open>des_FP\<close> and \<open>des_TP\<close>: bit \<open>j\<close> of the source
  sets bit \<open>i\<close> of the result.
\<close>

definition move_bit :: "block \<Rightarrow> nat \<Rightarrow> nat \<Rightarrow> block \<Rightarrow> block" where
  "move_bit src j i tmp =
     (if src ! (j div 8) AND mask ! (j mod 8) \<noteq> 0
      then tmp[i div 8 := tmp ! (i div 8) OR mask ! (i mod 8)] else tmp)"

definition des_IP :: "block \<Rightarrow> block" where
  "des_IP src = fold (\<lambda>i. move_bit src (ip_table ! i - 1) i) [0..<64] (replicate 8 0)"

definition des_FP :: "block \<Rightarrow> block" where
  "des_FP src = fold (\<lambda>i. move_bit src (fp_table ! i - 1) i) [0..<64] (replicate 8 0)"

definition des_E :: "block \<Rightarrow> block" where
  "des_E b =
     [(push_bit 5 (b ! 7) OR drop_bit 3 (b ! 4)) AND 0x3f,
      (push_bit 1 (b ! 4) OR drop_bit 7 (b ! 5)) AND 0x3f,
      (push_bit 5 (b ! 4) OR drop_bit 3 (b ! 5)) AND 0x3f,
      (push_bit 1 (b ! 5) OR drop_bit 7 (b ! 6)) AND 0x3f,
      (push_bit 5 (b ! 5) OR drop_bit 3 (b ! 6)) AND 0x3f,
      (push_bit 1 (b ! 6) OR drop_bit 7 (b ! 7)) AND 0x3f,
      (push_bit 5 (b ! 6) OR drop_bit 3 (b ! 7)) AND 0x3f,
      (push_bit 1 (b ! 7) OR drop_bit 7 (b ! 4)) AND 0x3f]"

definition des_TP :: "block \<Rightarrow> block" where
  "des_TP src = fold (\<lambda>i. move_bit src (tp_table ! i - 1) (i + 32)) [0..<32] (replicate 8 0)"

definition des_SBOX :: "block \<Rightarrow> block" where
  "des_SBOX b =
     map (\<lambda>i. (s_table ! i ! unat (b ! (2 * i)) AND 0xf0) OR (s_table ! i ! unat (b ! (2 * i + 1)) AND 0x0f)) [0..<4]
     @ [0, 0, 0, 0]"

definition des_RoundFunction :: "block \<Rightarrow> block" where
  "des_RoundFunction src =
     (let tmp = des_TP (des_SBOX (des_E src))
      in src[0 := src ! 0 XOR tmp ! 4, 1 := src ! 1 XOR tmp ! 5, 2 := src ! 2 XOR tmp ! 6, 3 := src ! 3 XOR tmp ! 7])"

definition des_decrypt_block :: "block \<Rightarrow> block" where
  "des_decrypt_block block = des_FP (des_RoundFunction (des_IP block))"

text \<open>\<open>des_decrypt\<close>: its loop decrypts the block \<open>p\<close> points to, and never moves \<open>p\<close>.\<close>

function des_loop :: "nat \<Rightarrow> nat \<Rightarrow> block \<Rightarrow> block" where
  "des_loop i n p = (if i * 8 < n then des_loop (i + 8) n (des_decrypt_block p) else p)"
  by auto
termination by (relation "measure (\<lambda>(i, n, p). n - i * 8)") auto

declare des_loop.simps [simp del]

definition des_decrypt :: "8 word list \<Rightarrow> nat \<Rightarrow> 8 word list" where
  "des_decrypt data n = des_loop 0 n (take 8 data) @ drop 8 data"

text \<open>The expansion the file gives under \<open>#if 0\<close>, before the optimised \<open>des_E\<close>.\<close>

definition expand_table :: "nat list" where
  "expand_table =
    [32, 1, 2, 3, 4, 5, 4, 5, 6, 7, 8, 9, 8, 9, 10, 11, 12, 13, 12, 13, 14, 15, 16, 17,
     16, 17, 18, 19, 20, 21, 20, 21, 22, 23, 24, 25, 24, 25, 26, 27, 28, 29, 28, 29, 30, 31, 32, 1]"


section \<open>Blocks as bits\<close>

definition bit_at :: "block \<Rightarrow> nat \<Rightarrow> bool" where
  "bit_at b k = bit (b ! (k div 8)) (7 - k mod 8)"

lemma mask_nth: "m < 8 \<Longrightarrow> mask ! m = 2 ^ (7 - m)"
  by (simp add: mask_def numeral_eq_Suc less_Suc_eq) auto

lemma mask_test: "m < 8 \<Longrightarrow> (w AND mask ! m \<noteq> 0) = bit w (7 - m)"
  by (simp add: mask_nth and_exp_eq_0_iff_not_bit)

lemma mask_set: "m < 8 \<Longrightarrow> k < 8 \<Longrightarrow> bit (w OR mask ! m) (7 - k) = (bit w (7 - k) \<or> k = m)"
  by (auto simp: mask_nth bit_or_iff bit_exp_iff)

lemma block_eqI:
  assumes "length a = 8" "length b = 8" "\<And>k. k < 64 \<Longrightarrow> bit_at a k = bit_at b k"
  shows "a = b"
proof (rule nth_equalityI)
  fix i assume i: "i < length a"
  show "a ! i = b ! i"
  proof (rule bit_word_eqI)
    fix n assume n: "n < LENGTH(8)"
    have "bit_at a (i * 8 + (7 - n)) = bit_at b (i * 8 + (7 - n))" using i n assms(1) by (intro assms(3)) auto
    moreover have "(i * 8 + m) div 8 = i \<and> (i * 8 + m) mod 8 = m" if "m < 8" for m using that by simp
    from this [of "7 - n"] have "(i * 8 + (7 - n)) div 8 = i" "(i * 8 + (7 - n)) mod 8 = 7 - n" by simp_all
    ultimately show "bit (a ! i) n = bit (b ! i) n" using n by (simp add: bit_at_def)
  qed
qed (use assms in simp)

lemma length_move_bit [simp]: "length (move_bit src j i tmp) = length tmp"
  by (simp add: move_bit_def)

lemma bit_at_move_bit:
  assumes "length tmp = 8" "i < 64" "k < 64"
  shows "bit_at (move_bit src j i tmp) k = (bit_at tmp k \<or> k = i \<and> bit_at src j)"
proof -
  have "(k div 8 = i div 8 \<and> k mod 8 = i mod 8) = (k = i)" by (metis div_mult_mod_eq)
  moreover have "i div 8 < 8" "k div 8 < 8" using assms by auto
  ultimately show ?thesis
    using assms(1) mask_set [of "i mod 8" "k mod 8" "tmp ! (i div 8)"]
    by (auto simp: move_bit_def bit_at_def mask_test nth_list_update)
qed

lemma bit_at_zero [simp]: "k < 64 \<Longrightarrow> \<not> bit_at (replicate 8 0) k"
  by (simp add: bit_at_def)

text \<open>A loop over a table moves exactly the bits of the table.\<close>

lemma table_loop:
  assumes "n + off \<le> 64"
  shows "length (fold (\<lambda>i. move_bit src (t i) (i + off)) [0..<n] (replicate 8 0)) = 8 \<and>
    (\<forall>k < 64. bit_at (fold (\<lambda>i. move_bit src (t i) (i + off)) [0..<n] (replicate 8 0)) k =
      (off \<le> k \<and> k < n + off \<and> bit_at src (t (k - off))))"
  using assms
proof (induction n)
  case 0
  then show ?case by simp
next
  case (Suc n)
  then have IH: "length (fold (\<lambda>i. move_bit src (t i) (i + off)) [0..<n] (replicate 8 0)) = 8"
    "k < 64 \<Longrightarrow> bit_at (fold (\<lambda>i. move_bit src (t i) (i + off)) [0..<n] (replicate 8 0)) k =
      (off \<le> k \<and> k < n + off \<and> bit_at src (t (k - off)))" for k by auto
  have "(off \<le> k \<and> k < n + off \<and> bit_at src (t (k - off)) \<or> k = n + off \<and> bit_at src (t n)) =
      (off \<le> k \<and> k < Suc n + off \<and> bit_at src (t (k - off)))" for k by (cases "k = n + off") auto
  then show ?case using IH Suc.prems by (simp add: bit_at_move_bit)
qed

lemma des_IP_bits: "length (des_IP b) = 8" "k < 64 \<Longrightarrow> bit_at (des_IP b) k = bit_at b (ip_table ! k - 1)"
  using table_loop [of 64 0 b "\<lambda>i. ip_table ! i - 1"] by (simp_all add: des_IP_def)

lemma des_FP_bits: "length (des_FP b) = 8" "k < 64 \<Longrightarrow> bit_at (des_FP b) k = bit_at b (fp_table ! k - 1)"
  using table_loop [of 64 0 b "\<lambda>i. fp_table ! i - 1"] by (simp_all add: des_FP_def)

text \<open>The two permutations are inverse: a check of the tables.\<close>

lemma tables_inverse:
  "\<forall>k \<in> set [0..<64]. ip_table ! (fp_table ! k - 1) - 1 = k \<and> fp_table ! (ip_table ! k - 1) - 1 = k \<and>
     ip_table ! k - 1 < 64 \<and> fp_table ! k - 1 < 64"
  by code_simp

lemma des_FP_IP: "length b = 8 \<Longrightarrow> des_FP (des_IP b) = b"
  using tables_inverse by (intro block_eqI) (auto simp: des_FP_bits des_IP_bits)

lemma des_IP_FP: "length b = 8 \<Longrightarrow> des_IP (des_FP b) = b"
  using tables_inverse by (intro block_eqI) (auto simp: des_FP_bits des_IP_bits)

lemma des_E_right: "drop 4 a = drop 4 b \<Longrightarrow> length a = 8 \<Longrightarrow> length b = 8 \<Longrightarrow> des_E a = des_E b"
proof -
  assume eq: "drop 4 a = drop 4 b" and len: "length a = 8" "length b = 8"
  have nth: "c ! (4 + i) = drop 4 c ! i" if "length c = 8" for c :: block and i using that by simp
  have "a ! (4 + i) = b ! (4 + i)" for i by (simp only: nth [OF len(1)] nth [OF len(2)] eq)
  from this [of 0] this [of 1] this [of 2] this [of 3] show ?thesis by (simp add: des_E_def)
qed

lemma des_round_twice: "length b = 8 \<Longrightarrow> des_RoundFunction (des_RoundFunction b) = b"
proof -
  assume len: "length b = 8"
  define tmp where "tmp = des_TP (des_SBOX (des_E b))"
  have r: "des_RoundFunction b = b[0 := b ! 0 XOR tmp ! 4, 1 := b ! 1 XOR tmp ! 5, 2 := b ! 2 XOR tmp ! 6, 3 := b ! 3 XOR tmp ! 7]"
    by (simp add: des_RoundFunction_def tmp_def Let_def)
  have "des_E (des_RoundFunction b) = des_E b" by (rule des_E_right) (simp_all add: r len)
  then have "des_RoundFunction (des_RoundFunction b) = (des_RoundFunction b)
      [0 := des_RoundFunction b ! 0 XOR tmp ! 4, 1 := des_RoundFunction b ! 1 XOR tmp ! 5,
       2 := des_RoundFunction b ! 2 XOR tmp ! 6, 3 := des_RoundFunction b ! 3 XOR tmp ! 7]"
    by (simp add: des_RoundFunction_def [of "des_RoundFunction b"] tmp_def Let_def)
  then show ?thesis using len by (intro nth_equalityI) (auto simp: r nth_list_update xor.assoc)
qed

lemma length_decrypt [simp]: "length (des_decrypt_block b) = 8"
  by (simp add: des_decrypt_block_def des_FP_bits)

lemma des_decrypt_twice:
  assumes "length b = 8"
  shows "des_decrypt_block (des_decrypt_block b) = b"
proof -
  have "length (des_RoundFunction (des_IP b)) = 8" by (simp add: des_RoundFunction_def Let_def des_IP_bits)
  then show ?thesis
    using assms by (simp add: des_decrypt_block_def des_IP_FP des_round_twice des_IP_bits des_FP_IP)
qed

text \<open>
  C32. Decrypting a block twice gives the block back: with the two permutations inverse to each
  other and a single round in between, the cipher is its own inverse.
\<close>

theorem des_involution:
  assumes "length b = 8"
  shows "des_decrypt_block (des_decrypt_block b) = b"
  using assms by (rule des_decrypt_twice)

theorem des_involution_witness:
  "des_decrypt_block (des_decrypt_block [1, 2, 3, 4, 5, 6, 7, 8]) = [1, 2, 3, 4, 5, 6, 7, 8]"
  by (rule des_involution) simp

text \<open>One byte of the expansion: the five or one low bits of \<open>x\<close> above the top of \<open>y\<close>.\<close>

definition six :: "nat \<Rightarrow> 8 word \<Rightarrow> nat \<Rightarrow> 8 word \<Rightarrow> 8 word" where
  "six k x m y = (push_bit k x OR drop_bit m y) AND 0x3f"

lemma bit_six: "n < 6 \<Longrightarrow> bit (six k x m y) n = (k \<le> n \<and> bit x (n - k) \<or> m + n < 8 \<and> bit y (m + n))"
proof -
  assume n: "n < 6"
  have m: "(0x3f :: 8 word) = Bit_Operations.mask 6" by (simp add: mask_eq_exp_minus_1)
  have "bit y (m + n) \<Longrightarrow> m + n < 8" using bit_imp_le_length [of y "m + n"] by simp
  then show ?thesis
    unfolding six_def m using n by (auto simp: bit_and_iff bit_or_iff bit_push_bit_iff bit_drop_bit_eq bit_mask_iff)
qed

lemma des_E_six:
  "des_E b = [six 5 (b ! 7) 3 (b ! 4), six 1 (b ! 4) 7 (b ! 5), six 5 (b ! 4) 3 (b ! 5), six 1 (b ! 5) 7 (b ! 6),
     six 5 (b ! 5) 3 (b ! 6), six 1 (b ! 6) 7 (b ! 7), six 5 (b ! 6) 3 (b ! 7), six 1 (b ! 7) 7 (b ! 4)]"
  by (simp only: des_E_def six_def)

lemma below_48:
  "(\<forall>i < (48::nat). P i) = (\<forall>q \<in> {0, 1, 2, 3, 4, 5, 6, 7}. \<forall>r \<in> {0, 1, 2, 3, 4, 5}. P (q * 6 + r))"
proof
  assume *: "\<forall>q \<in> {0, 1, 2, 3, 4, 5, 6, 7}. \<forall>r \<in> {0, 1, 2, 3, 4, 5}. P (q * 6 + r)"
  show "\<forall>i < (48::nat). P i"
  proof (intro allI impI)
    fix i :: nat assume "i < 48"
    then have "i div 6 \<in> {0, 1, 2, 3, 4, 5, 6, 7}" "i mod 6 \<in> {0, 1, 2, 3, 4, 5}" by auto
    from bspec [OF bspec [OF * this(1)] this(2)] show "P i" by simp
  qed
qed auto

text \<open>
  The optimised expansion is the table the file keeps beside it: bit \<open>i mod 6\<close> of output
  byte \<open>i div 6\<close> is the bit of the right half the table names, for all 48 entries.
\<close>

theorem des_E_is_table:
  "\<forall>i < 48. bit (des_E b ! (i div 6)) (5 - i mod 6) = bit (b ! ((expand_table ! i - 1) div 8 + 4)) (7 - (expand_table ! i - 1) mod 8)"
  unfolding below_48 des_E_six by (simp add: bit_six expand_table_def)

theorem des_E_is_table_witness:
  "bit (des_E [1, 2, 3, 4, 5, 6, 7, 8] ! 0) 0 = bit (5 :: 8 word) 3"
  using spec [OF des_E_is_table [of "[1, 2, 3, 4, 5, 6, 7, 8]"], of 5] by (simp add: expand_table_def)

text \<open>
  \<open>des_decrypt\<close> does not do what its loop means to do: of any number of bytes it touches
  the first eight only, and it decrypts them once for every started 64 bytes, so that it leaves
  them as they were when that number is even.
\<close>

theorem des_decrypt_first_block:
  assumes "8 \<le> length data"
  shows "des_decrypt data n = (if odd ((n + 63) div 64) then des_decrypt_block (take 8 data) else take 8 data) @ drop 8 data"
proof -
  have step: "(n - i * 8 + 63) div 64 = Suc ((n - (i + 8) * 8 + 63) div 64)" if "i * 8 < n" for i n :: nat
    using that by (cases "n \<le> (i + 8) * 8") (auto simp: div_if)
  have "des_loop i n p = (if odd ((n - i * 8 + 63) div 64) then des_decrypt_block p else p)" if "length p = 8" for i p
    using that
  proof (induction i n p rule: des_loop.induct)
    case (1 i n p)
    show ?case
    proof (cases "i * 8 < n")
      case True
      have "des_loop i n p = des_loop (i + 8) n (des_decrypt_block p)" using True by (subst des_loop.simps) simp
      also have "\<dots> = (if odd ((n - (i + 8) * 8 + 63) div 64) then p else des_decrypt_block p)"
        using 1(1) [OF True] 1(2) des_decrypt_twice [of p] by simp
      finally show ?thesis by (simp only: step [OF True] even_Suc) simp
    qed (subst des_loop.simps, simp)
  qed
  from this [of "take 8 data" 0] show ?thesis using assms by (simp add: des_decrypt_def)
qed

theorem des_decrypt_first_block_witness:
  "des_decrypt [1, 2, 3, 4, 5, 6, 7, 8, 9] 128 = [1, 2, 3, 4, 5, 6, 7, 8, 9]"
  by (subst des_decrypt_first_block) simp_all

end
