(* ===== verification/Grf.thy ===== *)
theory Grf
  imports Des Strlib
begin

text \<open>
  The archive reader, \<open>src/common/grfio.c\<close>: the decoding of entries, the hash table of file
  names, the index of an archive, and the lookup that reads a file. What the file system holds is
  an argument \<open>fs\<close>, what \<open>uncompress\<close> of zlib writes is an argument \<open>unzip\<close>, which
  gets the source and the size of the destination and gives the bytes written. \<open>None\<close> is an
  access outside a buffer, an allocation of a negative size, or a loop that does not end.
\<close>

unbundle bit_operations_syntax

section \<open>Bytes\<close>

definition getlong :: "bytes \<Rightarrow> 32 word" where
  "getlong p =
     (push_bit 0 (ucast (p ! 0)) OR push_bit 8 (ucast (p ! 1)) OR push_bit 16 (ucast (p ! 2)) OR push_bit 24 (ucast (p ! 3)))"

text \<open>\<open>getlong\<close> of a place in a buffer, and its value as an \<open>int\<close>.\<close>

definition getlong_at :: "bytes \<Rightarrow> int \<Rightarrow> 32 word option" where
  "getlong_at buf p = (if 0 \<le> p \<and> nat p + 4 \<le> length buf then Some (getlong (drop (nat p) buf)) else None)"

definition byte_at :: "bytes \<Rightarrow> int \<Rightarrow> byte option" where
  "byte_at buf p = (if 0 \<le> p \<and> nat p < length buf then Some (buf ! nat p) else None)"

definition NibbleSwap :: "bytes \<Rightarrow> bytes" where
  "NibbleSwap = map (\<lambda>b. drop_bit 4 b OR push_bit 4 b)"

definition grf_substitution :: "byte \<Rightarrow> byte" where
  "grf_substitution x =
     (if x = 0x00 then 0x2B else if x = 0x2B then 0x00 else if x = 0x6C then 0x80 else if x = 0x01 then 0x68
      else if x = 0x68 then 0x01 else if x = 0x48 then 0x77 else if x = 0x60 then 0xFF else if x = 0x77 then 0x48
      else if x = 0xB9 then 0xC0 else if x = 0xC0 then 0xB9 else if x = 0xFE then 0xEB else if x = 0xEB then 0xFE
      else if x = 0x80 then 0x6C else if x = 0xFF then 0x60 else x)"

definition grf_shuffle_enc :: "block \<Rightarrow> block" where
  "grf_shuffle_enc b = [b ! 3, b ! 4, b ! 5, b ! 0, b ! 1, b ! 6, b ! 2, grf_substitution (b ! 7)]"

definition grf_shuffle_dec :: "block \<Rightarrow> block" where
  "grf_shuffle_dec b = [b ! 3, b ! 4, b ! 6, b ! 0, b ! 1, b ! 2, b ! 5, grf_substitution (b ! 7)]"

section \<open>Decoding\<close>

text \<open>A function applied to block \<open>i\<close> of a buffer.\<close>

definition on_block :: "(block \<Rightarrow> block) \<Rightarrow> nat \<Rightarrow> bytes \<Rightarrow> bytes" where
  "on_block f i buf = take (8 * i) buf @ f (take 8 (drop (8 * i) buf)) @ drop (8 * i + 8) buf"

definition grf_decode_header :: "bytes \<Rightarrow> bytes" where
  "grf_decode_header buf =
     (let nblocks = length buf div 8 in fold (on_block des_decrypt_block) [0..<min 20 nblocks] buf)"

text \<open>
  The loop of \<open>grf_decode_full\<close> after the first blocks. \<open>j\<close> counts up from \<open>(size_t)-1\<close>
  in the code; here it is one more, the value the next \<open>++j\<close> gives.
\<close>

definition full_step :: "(block \<Rightarrow> block) \<Rightarrow> nat \<Rightarrow> nat \<Rightarrow> nat \<times> bytes \<Rightarrow> nat \<times> bytes" where
  "full_step shuffle dcycle i = (\<lambda>(j, buf).
     if i mod dcycle = 0 then (j, on_block des_decrypt_block i buf)
     else if j mod 7 = 0 \<and> j \<noteq> 0 then (j + 1, on_block shuffle i buf)
     else (j + 1, buf))"

definition grf_decode_full :: "bytes \<Rightarrow> nat \<Rightarrow> bytes" where
  "grf_decode_full buf cycle =
     (let nblocks = length buf div 8;
          buf = fold (on_block des_decrypt_block) [0..<min 20 nblocks] buf
      in snd (fold (full_step grf_shuffle_dec cycle) [20..<nblocks] (0, buf)))"

text \<open>The loop that counts the digits of the length, with the \<open>int\<close> it multiplies.\<close>

partial_function (option) count_digits :: "int \<Rightarrow> int \<Rightarrow> nat \<Rightarrow> nat option" where
  "count_digits entry_len i digits =
     (if i \<le> entry_len then count_digits entry_len (to_int32 (i * 10)) (digits + 1) else Some digits)"

definition grf_cycle :: "nat \<Rightarrow> nat" where
  "grf_cycle digits = (if digits < 3 then 1 else if digits < 5 then digits + 1 else if digits < 7 then digits + 9 else digits + 15)"

definition FILELIST_TYPE_FILE :: int where "FILELIST_TYPE_FILE = 1"
definition FILELIST_TYPE_ENCRYPT_MIXED :: int where "FILELIST_TYPE_ENCRYPT_MIXED = 2"
definition FILELIST_TYPE_ENCRYPT_HEADER :: int where "FILELIST_TYPE_ENCRYPT_HEADER = 4"

definition grf_decode :: "bytes \<Rightarrow> int \<Rightarrow> int \<Rightarrow> bytes option" where
  "grf_decode buf entry_type entry_len =
     (if entry_type AND FILELIST_TYPE_ENCRYPT_MIXED \<noteq> 0 then
        map_option (\<lambda>digits. grf_decode_full buf (grf_cycle digits)) (count_digits entry_len 10 1)
      else if entry_type AND FILELIST_TYPE_ENCRYPT_HEADER \<noteq> 0 then Some (grf_decode_header buf)
      else Some buf)"

section \<open>The table of files\<close>

record grf_filelist =
  srclen :: int
  srclen_aligned :: int
  declen :: int
  srcpos :: int
  nxt :: int
  ftype :: int
  fn :: bytes
  fnd :: "bytes option"
  gentry :: int

text \<open>
  The file-level variables. \<open>filelist\<close> holds the \<open>filelist_entrys\<close> entries in use;
  \<open>filelist_maxentry\<close> is the room allocated, 0 when the pointer is \<open>NULL\<close>.
\<close>

record grfio =
  filelist :: "grf_filelist list"
  filelist_maxentry :: nat
  filelist_hash :: "int list"
  gentry_table :: "bytes list"
  data_dir :: bytes

definition hashinit :: "grfio \<Rightarrow> grfio" where
  "hashinit g = g\<lparr>filelist_hash := replicate 256 (-1)\<rparr>"

definition grf_filehash :: "bytes \<Rightarrow> nat" where
  "grf_filehash fname =
     unat (fold (\<lambda>c hash. push_bit 1 hash + drop_bit 7 hash * 9 + ucast (to_lower c)) fname (0 :: 32 word) AND 255)"

partial_function (option) walk_chain :: "grf_filelist list \<Rightarrow> bytes \<Rightarrow> int \<Rightarrow> int option" where
  "walk_chain fl fname index =
     (if index = -1 then Some (-1)
      else if \<not> (0 \<le> index \<and> nat index < length fl) then None
      else if same_nocase (fn (fl ! nat index)) fname then Some index
      else walk_chain fl fname (nxt (fl ! nat index)))"

text \<open>\<open>grfio_filelist_find\<close> gives the index of the entry, -1 for \<open>NULL\<close>.\<close>

definition grfio_filelist_find :: "grfio \<Rightarrow> bytes \<Rightarrow> int option" where
  "grfio_filelist_find g fname =
     (if filelist_maxentry g = 0 then Some (-1)
      else map_option (\<lambda>index. if index \<ge> 0 then index else -1)
        (walk_chain (filelist g) fname (filelist_hash g ! grf_filehash fname)))"

definition grfio_find_file :: "grfio \<Rightarrow> bytes \<Rightarrow> bytes option option" where
  "grfio_find_file g fname =
     map_option (\<lambda>index. if index = -1 then None
       else Some (case fnd (filelist g ! nat index) of None \<Rightarrow> fn (filelist g ! nat index) | Some f \<Rightarrow> f))
     (grfio_filelist_find g fname)"

definition FILELIST_ADDS :: nat where "FILELIST_ADDS = 1024"

definition grfio_filelist_add :: "grfio \<Rightarrow> grf_filelist \<Rightarrow> grfio" where
  "grfio_filelist_add g entry =
     (let entrys = length (filelist g);
          g = (if entrys \<ge> filelist_maxentry g then g\<lparr>filelist_maxentry := filelist_maxentry g + FILELIST_ADDS\<rparr> else g);
          hash = grf_filehash (fn entry)
      in g\<lparr>filelist := filelist g @ [entry\<lparr>nxt := filelist_hash g ! hash\<rparr>],
           filelist_hash := (filelist_hash g)[hash := int entrys]\<rparr>)"

definition grfio_filelist_modify :: "grfio \<Rightarrow> grf_filelist \<Rightarrow> grfio option" where
  "grfio_filelist_modify g entry =
     (case grfio_filelist_find g (fn entry) of None \<Rightarrow> None
      | Some index \<Rightarrow>
        Some (if index \<noteq> -1
              then g\<lparr>filelist := (filelist g)[nat index := entry\<lparr>nxt := nxt (filelist g ! nat index)\<rparr>]\<rparr>
              else grfio_filelist_add g entry))"

definition grfio_filelist_compact :: "grfio \<Rightarrow> grfio" where
  "grfio_filelist_compact g =
     (if filelist_maxentry g = 0 then g
      else if length (filelist g) < filelist_maxentry g then g\<lparr>filelist_maxentry := length (filelist g)\<rparr> else g)"

section \<open>Reading a file\<close>

definition grfio_localpath_create :: "grfio \<Rightarrow> nat \<Rightarrow> bytes \<Rightarrow> bytes" where
  "grfio_localpath_create g n filename =
     (let path = (if data_dir g = [] \<or> last (data_dir g) = 47 \<or> last (data_dir g) = 92
                  then data_dir g @ filename else data_dir g @ [47] @ filename)
      in map (\<lambda>c. if c = 92 then 47 else c) (take (n - 1) path))"

text \<open>The part of \<open>grfio_reads\<close> that reads from the archive of an entry.\<close>

definition read_archive :: "(bytes \<Rightarrow> bytes option) \<Rightarrow> (bytes \<Rightarrow> nat \<Rightarrow> bytes) \<Rightarrow> grfio \<Rightarrow> grf_filelist \<Rightarrow> (bytes \<times> int) option option" where
  "read_archive fs unzip g entry =
     (if nat (gentry entry - 1) \<ge> length (gentry_table g) then None
      else case fs (gentry_table g ! nat (gentry entry - 1)) of None \<Rightarrow> Some None
      | Some file \<Rightarrow>
        let fsize = srclen_aligned entry
        in if fsize < 0 then None
           else if srcpos entry < 0 \<or> (fsize > 0 \<and> srcpos entry + fsize > int (length file)) then Some None
           else if declen entry < 0 \<or> declen entry = 2147483647 then None
           else let buf = take (nat fsize) (drop (nat (srcpos entry)) file)
             in if ftype entry AND FILELIST_TYPE_FILE \<noteq> 0 then
                  (case grf_decode buf (ftype entry) (srclen entry) of None \<Rightarrow> None
                   | Some buf \<Rightarrow>
                     if srclen entry < 0 \<or> srclen entry > fsize then None
                     else let buf2 = unzip (take (nat (srclen entry)) buf) (nat (declen entry))
                       in if int (length buf2) \<noteq> declen entry then Some None
                          else Some (Some (buf2, declen entry)))
                else if declen entry > fsize then None
                else Some (Some (take (nat (declen entry)) buf, declen entry)))"

definition grfio_reads :: "(bytes \<Rightarrow> bytes option) \<Rightarrow> (bytes \<Rightarrow> nat \<Rightarrow> bytes) \<Rightarrow> grfio \<Rightarrow> bytes \<Rightarrow> (grfio \<times> (bytes \<times> int) option) option" where
  "grfio_reads fs unzip g fname =
     (case grfio_filelist_find g fname of None \<Rightarrow> None
      | Some index \<Rightarrow>
        let entry = (if index = -1 then None else Some (filelist g ! nat index));
            archive = (\<lambda>g e. if gentry e > 0 then map_option (Pair g) (read_archive fs unzip g e) else Some (g, None))
        in if (case entry of None \<Rightarrow> True | Some e \<Rightarrow> gentry e \<le> 0) then
             let name = (case entry of None \<Rightarrow> fname | Some e \<Rightarrow> (case fnd e of None \<Rightarrow> fname | Some f \<Rightarrow> f));
                 lfname = grfio_localpath_create g 256 name
             in (case fs lfname of
                  Some file \<Rightarrow>
                    let declen = to_int32 (int (length file))
                    in if declen = -1 then Some (g, None) else if declen < 0 then None else Some (g, Some (file, declen))
                | None \<Rightarrow>
                  (case entry of None \<Rightarrow> Some (g, None)
                   | Some e \<Rightarrow>
                     if gentry e \<ge> 0 then Some (g, None)
                     else let e = e\<lparr>gentry := to_int8 (- gentry e)\<rparr>
                       in archive (g\<lparr>filelist := (filelist g)[nat index := e]\<rparr>) e))
           else archive g (the entry))"

section \<open>Reading an index\<close>

definition grfio_is_full_encrypt :: "bytes \<Rightarrow> bool" where
  "grfio_is_full_encrypt fname =
     (case strrchr fname 46 of None \<Rightarrow> True
      | Some ext \<Rightarrow> \<not> (\<exists>e \<in> set [lit ''.gnd'', lit ''.gat'', lit ''.act'', lit ''.str'']. same_nocase ext e))"

text \<open>\<open>grfio_decode_filename\<close> on the place \<open>p\<close> of the index, in place.\<close>

function grfio_decode_filename :: "bytes \<Rightarrow> nat \<Rightarrow> nat \<Rightarrow> int \<Rightarrow> bytes option" where
  "grfio_decode_filename buf p i len =
     (if int i < len then
        (if p + i + 8 \<le> length buf then
           grfio_decode_filename
             (take (p + i) buf @ des_decrypt (NibbleSwap (take 8 (drop (p + i) buf))) 8 @ drop (p + i + 8) buf)
             p (i + 8) len
         else None)
      else Some buf)"
  by auto
termination by (relation "measure (\<lambda>(buf, p, i, len). nat (len - int i))") auto

declare grfio_decode_filename.simps [simp del]

text \<open>The string at a place of a buffer; \<open>None\<close> without a terminator.\<close>

definition string_at :: "bytes \<Rightarrow> int \<Rightarrow> bytes option" where
  "string_at buf p =
     (if 0 \<le> p \<and> 0 \<in> set (drop (nat p) buf) then Some (takeWhile (\<lambda>c. c \<noteq> 0) (drop (nat p) buf)) else None)"

text \<open>
  The two loops of \<open>grfio_entryread\<close>, for the index of an archive of version 1 and of version
  2; \<open>n\<close> is how many entries are left. The result is the table with the error code.
\<close>

fun read_index1 :: "grfio \<Rightarrow> int \<Rightarrow> nat \<Rightarrow> bytes \<Rightarrow> int \<Rightarrow> (grfio \<times> int) option" where
  "read_index1 g gent 0 buf ofs = Some (g, 0)"
| "read_index1 g gent (Suc n) buf ofs =
     (case getlong_at buf ofs of None \<Rightarrow> None
      | Some l \<Rightarrow>
        let ofs2 = sint (word_of_int ofs + l + 4)
        in (case byte_at buf (ofs2 + 12) of None \<Rightarrow> None
            | Some type \<Rightarrow>
              if type AND 1 = 0 then read_index1 g gent n buf (to_int32 (ofs2 + 17))
              else (case grfio_decode_filename buf (nat (ofs + 6)) 0 (uint (buf ! nat ofs) - 6) of None \<Rightarrow> None
                | Some buf \<Rightarrow>
                  (case (string_at buf (ofs + 6), getlong_at buf ofs2, getlong_at buf (ofs2 + 4), getlong_at buf (ofs2 + 8), getlong_at buf (ofs2 + 13)) of
                     (Some fname, Some l0, Some l4, Some l8, Some l13) \<Rightarrow>
                       if length fname > 107 then Some (g, 5)
                       else let type = type OR (if grfio_is_full_encrypt fname then 2 else 4);
                                aentry = \<lparr>srclen = sint (l0 - l8 - 715), srclen_aligned = sint (l4 - 37579), declen = sint l8,
                                  srcpos = sint (l13 + 0x2e), nxt = 0, ftype = sint type, fn = fname, fnd = None, gentry = to_int8 (gent + 1)\<rparr>
                         in (case grfio_filelist_modify g aentry of None \<Rightarrow> None
                             | Some g \<Rightarrow> read_index1 g gent n buf (to_int32 (ofs2 + 17)))
                   | _ \<Rightarrow> None))))"

fun read_index2 :: "grfio \<Rightarrow> int \<Rightarrow> nat \<Rightarrow> bytes \<Rightarrow> int \<Rightarrow> (grfio \<times> int) option" where
  "read_index2 g gent 0 buf ofs = Some (g, 0)"
| "read_index2 g gent (Suc n) buf ofs =
     (case string_at buf ofs of None \<Rightarrow> None
      | Some fname \<Rightarrow>
        let ofs2 = ofs + int (length fname) + 1
        in (case byte_at buf (ofs2 + 12) of None \<Rightarrow> None
            | Some type \<Rightarrow>
              if length fname > 107 then Some (g, 5)
              else if type AND 1 = 0 then read_index2 g gent n buf (ofs2 + 17)
              else (case (getlong_at buf ofs2, getlong_at buf (ofs2 + 4), getlong_at buf (ofs2 + 8), getlong_at buf (ofs2 + 13)) of
                  (Some l0, Some l4, Some l8, Some l13) \<Rightarrow>
                    let aentry = \<lparr>srclen = sint l0, srclen_aligned = sint l4, declen = sint l8, srcpos = sint (l13 + 0x2e), nxt = 0,
                      ftype = sint type, fn = fname, fnd = None, gentry = to_int8 (gent + 1)\<rparr>
                    in (case grfio_filelist_modify g aentry of None \<Rightarrow> None
                        | Some g \<Rightarrow> read_index2 g gent n buf (ofs2 + 17))
                | _ \<Rightarrow> None)))"

definition grfio_entryread :: "(bytes \<Rightarrow> bytes option) \<Rightarrow> (bytes \<Rightarrow> nat \<Rightarrow> bytes) \<Rightarrow> grfio \<Rightarrow> bytes \<Rightarrow> int \<Rightarrow> (grfio \<times> int) option" where
  "grfio_entryread fs unzip g grfname gent =
     (case fs grfname of None \<Rightarrow> Some (g, 1)
      | Some file \<Rightarrow>
        if length file < 0x2e then Some (g, 2)
        else if take 16 file \<noteq> lit ''Master of Magic'' @ [0] then Some (g, 2)
        else
          let pos = 0x2e + unat (getlong (drop 0x1e file));
              version = drop_bit 8 (getlong (drop 0x2a file));
              done = map_option (\<lambda>(g, err). (if err = 0 then grfio_filelist_compact g else g, err))
          in if version = 1 then
               if pos > length file then None
               else done (read_index1 g gent (nat (sint (getlong (drop 0x26 file) - getlong (drop 0x22 file) - 7))) (drop pos file) 0)
             else if version = 2 then
               if pos + 8 > length file then Some (g, 4)
               else
                 let rSize = unat (getlong (drop pos file)); eSize = unat (getlong (drop (pos + 4) file));
                     entrys = sint (getlong (drop 0x26 file) - 7)
                 in if pos + 8 + rSize > length file then Some (g, 4)
                    else if entrys < 0 then Some (g, 4)
                    else done (read_index2 g gent (nat entrys) (unzip (take rSize (drop (pos + 8) file)) eSize) 0)
             else Some (g, 4))"

definition grfio_add :: "(bytes \<Rightarrow> bytes option) \<Rightarrow> (bytes \<Rightarrow> nat \<Rightarrow> bytes) \<Rightarrow> grfio \<Rightarrow> bytes \<Rightarrow> (grfio \<times> int) option" where
  "grfio_add fs unzip g fname =
     (let g = g\<lparr>gentry_table := gentry_table g @ [fname]\<rparr>
      in grfio_entryread fs unzip g fname (int (length (gentry_table g)) - 1))"

section \<open>Aliases and start-up\<close>

text \<open>\<open>sscanf\<close> of a run of at most \<open>n\<close> characters outside a set, then the rest.\<close>

definition scan_run :: "nat \<Rightarrow> byte set \<Rightarrow> bytes \<Rightarrow> bytes \<times> bytes" where
  "scan_run n stop s = (let w = takeWhile (\<lambda>c. c \<notin> stop) (take n s) in (w, drop (length w) s))"

definition grfio_parse_restable_row :: "(bytes \<Rightarrow> bytes option) \<Rightarrow> grfio \<Rightarrow> bytes \<Rightarrow> (grfio \<times> bool) option" where
  "grfio_parse_restable_row fs g row =
     (let (w1, r) = scan_run 255 {35, 13, 10} row; (w2, r') = scan_run 255 {35, 13, 10} (tl r)
      in if w1 = [] \<or> r = [] \<or> hd r \<noteq> 35 \<or> w2 = [] then Some (g, False)
         else if strstr w2 (lit ''.gat'') = None \<and> strstr w2 (lit ''.rsw'') = None then Some (g, False)
         else let src = lit ''data'' @ [92] @ w1; dst = lit ''data'' @ [92] @ w2
           in if length src \<ge> 256 \<or> length dst \<ge> 256 then None
              else (case grfio_filelist_find g dst of None \<Rightarrow> None
                | Some index \<Rightarrow>
                  if index \<noteq> -1 then
                    map_option (\<lambda>g. (g, True))
                      (grfio_filelist_modify g ((filelist g ! nat index)\<lparr>fn := take 107 src, fnd := Some dst\<rparr>))
                  else if fs (grfio_localpath_create g 256 dst) \<noteq> None then
                    map_option (\<lambda>g. (g, True))
                      (grfio_filelist_modify g \<lparr>srclen = 0, srclen_aligned = 0, declen = 0, srcpos = 0, nxt = 0, ftype = 0,
                         fn = take 107 src, fnd = Some dst, gentry = 0\<rparr>)
                  else Some (g, False)))"

text \<open>The two loops of \<open>grfio_resourcecheck\<close>: over a local file, and over a file of an archive.\<close>

function restable_lines :: "(bytes \<Rightarrow> bytes option) \<Rightarrow> grfio \<Rightarrow> bytes \<Rightarrow> grfio option" where
  "restable_lines fs g file =
     (if file = [] then Some g
      else let (line, file) = fgets 255 file
        in (case grfio_parse_restable_row fs g (takeWhile (\<lambda>c. c \<noteq> 0) line) of None \<Rightarrow> None
            | Some (g, _) \<Rightarrow> restable_lines fs g file))"
  by auto
termination
  by (relation "measure (\<lambda>(fs, g, file). length file)") (auto dest!: arg_cong [of _ _ snd] simp: fgets_length)

function restable_rows :: "(bytes \<Rightarrow> bytes option) \<Rightarrow> grfio \<Rightarrow> bytes \<Rightarrow> grfio option" where
  "restable_rows fs g buf =
     (if buf = [] then Some g
      else (case grfio_parse_restable_row fs g (takeWhile (\<lambda>c. c \<noteq> 0) buf) of None \<Rightarrow> None
        | Some (g, _) \<Rightarrow>
          let s = takeWhile (\<lambda>c. c \<noteq> 0) buf
          in if 10 \<in> set s then restable_rows fs g (drop (length (takeWhile (\<lambda>c. c \<noteq> 10) s) + 1) buf) else Some g))"
  by auto
termination by (relation "measure (\<lambda>(fs, g, buf). length buf)") auto

declare restable_lines.simps [simp del] restable_rows.simps [simp del]

definition grfio_resourcecheck :: "(bytes \<Rightarrow> bytes option) \<Rightarrow> (bytes \<Rightarrow> nat \<Rightarrow> bytes) \<Rightarrow> grfio \<Rightarrow> grfio option" where
  "grfio_resourcecheck fs unzip g =
     (case fs (grfio_localpath_create g 256 (lit ''data'' @ [92] @ lit ''resnametable.txt'')) of
        Some file \<Rightarrow> restable_lines fs g file
      | None \<Rightarrow>
        (case grfio_reads fs unzip g (lit ''data'' @ [92] @ lit ''resnametable.txt'') of None \<Rightarrow> None
         | Some (g, None) \<Rightarrow> Some g
         | Some (g, Some (buf, n)) \<Rightarrow> restable_rows fs g buf))"

definition grfio_final :: "grfio \<Rightarrow> grfio" where
  "grfio_final g = g\<lparr>filelist := [], filelist_maxentry := 0, gentry_table := []\<rparr>"

text \<open>The loop of \<open>grfio_init\<close> over its configuration file.\<close>

function conf_lines :: "(bytes \<Rightarrow> bytes option) \<Rightarrow> (bytes \<Rightarrow> nat \<Rightarrow> bytes) \<Rightarrow> grfio \<Rightarrow> bytes \<Rightarrow> grfio option" where
  "conf_lines fs unzip g file =
     (if file = [] then Some g
      else let (line, file) = fgets 1023 file;
               line = takeWhile (\<lambda>c. c \<noteq> 0) line;
               (w1, r) = scan_run 1023 {58} line;
               (w2, r') = scan_run 1023 {13, 10} (dropWhile isspace (tl r))
        in if take 2 line = [47, 47] then conf_lines fs unzip g file
           else if w1 = [] \<or> r = [] \<or> hd r \<noteq> 58 \<or> w2 = [] then conf_lines fs unzip g file
           else if w1 = lit ''grf'' then
             (case grfio_add fs unzip g w2 of None \<Rightarrow> None | Some (g, _) \<Rightarrow> conf_lines fs unzip g file)
           else if w1 = lit ''data_dir'' then conf_lines fs unzip (g\<lparr>data_dir := take 1023 w2\<rparr>) file
           else conf_lines fs unzip g file)"
  by auto
termination
  by (relation "measure (\<lambda>(fs, unzip, g, file). length file)") (auto dest!: arg_cong [of _ _ snd] simp: fgets_length)

declare conf_lines.simps [simp del]

definition grfio_init :: "(bytes \<Rightarrow> bytes option) \<Rightarrow> (bytes \<Rightarrow> nat \<Rightarrow> bytes) \<Rightarrow> grfio \<Rightarrow> bytes \<Rightarrow> grfio option" where
  "grfio_init fs unzip g fname =
     (case (case fs fname of None \<Rightarrow> Some (hashinit g) | Some file \<Rightarrow> conf_lines fs unzip (hashinit g) file) of
        None \<Rightarrow> None
      | Some g \<Rightarrow> grfio_resourcecheck fs unzip (grfio_filelist_compact g))"

section \<open>The ciphers and their inverses\<close>

text \<open>What the loops do to block \<open>i\<close>, whatever the bytes are.\<close>

definition plain_rank :: "nat \<Rightarrow> nat \<Rightarrow> nat" where
  "plain_rank cycle n = length (filter (\<lambda>m. m mod cycle \<noteq> 0) [20..<n])"

definition block_op :: "(block \<Rightarrow> block) \<Rightarrow> nat \<Rightarrow> nat \<Rightarrow> block \<Rightarrow> block" where
  "block_op shuffle cycle i =
     (if i < 20 \<or> i mod cycle = 0 then des_decrypt_block
      else if plain_rank cycle i mod 7 = 0 \<and> plain_rank cycle i \<noteq> 0 then shuffle else id)"

definition block_at :: "bytes \<Rightarrow> nat \<Rightarrow> block" where
  "block_at buf i = take 8 (drop (8 * i) buf)"

text \<open>The buffer with the operations of the first \<open>n\<close> blocks done.\<close>

definition blocks_done :: "(nat \<Rightarrow> block \<Rightarrow> block) \<Rightarrow> nat \<Rightarrow> bytes \<Rightarrow> bytes" where
  "blocks_done f n buf = concat (map (\<lambda>i. f i (block_at buf i)) [0..<n]) @ drop (8 * n) buf"

definition keeps_length :: "(nat \<Rightarrow> block \<Rightarrow> block) \<Rightarrow> bool" where
  "keeps_length f = (\<forall>i b. length b = 8 \<longrightarrow> length (f i b) = 8)"

lemma length_block_at: "8 * Suc i \<le> length buf \<Longrightarrow> length (block_at buf i) = 8"
  by (simp add: block_at_def)

lemma length_prefix:
  assumes "keeps_length f" "8 * n \<le> length buf"
  shows "length (concat (map (\<lambda>i. f i (block_at buf i)) [0..<n])) = 8 * n"
  using assms(2)
proof (induction n)
  case (Suc n)
  then show ?case using assms(1) length_block_at [of n buf] by (simp add: keeps_length_def)
qed simp

lemma length_blocks_done: "keeps_length f \<Longrightarrow> 8 * n \<le> length buf \<Longrightarrow> length (blocks_done f n buf) = length buf"
  by (simp add: blocks_done_def length_prefix)

lemma on_block_done:
  assumes "keeps_length f" "8 * Suc n \<le> length buf"
  shows "on_block (f n) n (blocks_done f n buf) = blocks_done f (Suc n) buf"
  using length_prefix [OF assms(1), of n buf] assms(2)
  by (simp add: on_block_def blocks_done_def block_at_def add.commute)

lemma skip_block_done:
  assumes "f n = id" "8 * Suc n \<le> length buf"
  shows "blocks_done f (Suc n) buf = blocks_done f n buf"
proof -
  have "drop (8 * n) buf = block_at buf n @ drop (8 * n + 8) buf"
    unfolding block_at_def by (metis append_take_drop_id drop_drop add.commute)
  then show ?thesis by (simp add: blocks_done_def assms(1) add.commute)
qed

lemma blocks_done_inverse:
  assumes f: "keeps_length f" and g: "\<And>i b. length b = 8 \<Longrightarrow> g i (f i b) = b" and n: "8 * n \<le> length buf"
  shows "blocks_done g n (blocks_done f n buf) = buf"
proof -
  let ?c = "concat (map (\<lambda>i. f i (block_at buf i)) [0..<n])"
  have "block_at (blocks_done f m buf) i = f i (block_at buf i)" if "i < m" "8 * m \<le> length buf" for i m
    using that
  proof (induction m)
    case (Suc m)
    show ?case
    proof (cases "i = m")
      case True
      then show ?thesis
        using Suc.prems length_prefix [OF f, of m buf] length_block_at [of m buf] f
        by (simp add: block_at_def [of "_ @ _"] blocks_done_def keeps_length_def)
    next
      case False
      then have "block_at (blocks_done f (Suc m) buf) i = block_at (blocks_done f m buf) i"
        using Suc.prems length_prefix [OF f, of m buf] by (simp add: block_at_def [of "_ @ _"] blocks_done_def)
      then show ?thesis using Suc False by simp
    qed
  qed simp
  then have b: "block_at (blocks_done f n buf) i = f i (block_at buf i)" if "i < n" for i using that n by simp
  have "concat (map (block_at buf) [0..<m]) = take (8 * m) buf" if "m \<le> n" for m using that
  proof (induction m)
    case (Suc m)
    have "take (8 * Suc m) buf = take (8 * m) buf @ take 8 (drop (8 * m) buf)"
      by (metis take_add mult_Suc_right add.commute)
    with Suc show ?case by (simp add: block_at_def)
  qed simp
  then have t: "concat (map (block_at buf) [0..<n]) = take (8 * n) buf" by simp
  have m: "map (\<lambda>i. g i (block_at (blocks_done f n buf) i)) [0..<n] = map (block_at buf) [0..<n]"
    using b g n by (auto simp: length_block_at)
  have "drop (8 * n) (blocks_done f n buf) = drop (8 * n) buf"
    using length_prefix [OF f n] by (simp add: blocks_done_def)
  then show ?thesis unfolding blocks_done_def [of g] m t by simp
qed

lemma fold_on_block:
  assumes "keeps_length f" "8 * n \<le> length buf" "\<And>i. i < n \<Longrightarrow> f i = h"
  shows "fold (on_block h) [0..<n] buf = blocks_done f n buf"
  using assms(2,3)
proof (induction n)
  case 0
  then show ?case by (simp add: blocks_done_def)
next
  case (Suc n)
  then have "fold (on_block h) [0..<Suc n] buf = on_block (f n) n (blocks_done f n buf)" by simp
  then show ?case using on_block_done [OF assms(1)] Suc.prems(1) by simp
qed

lemma length_shuffle [simp]: "length (grf_shuffle_dec b) = 8" "length (grf_shuffle_enc b) = 8"
  by (simp_all add: grf_shuffle_dec_def grf_shuffle_enc_def)

lemma keeps_block_op: "\<forall>b. length (sh b) = 8 \<Longrightarrow> keeps_length (block_op sh cycle)"
  by (auto simp: keeps_length_def block_op_def)

definition header_op :: "nat \<Rightarrow> block \<Rightarrow> block" where
  "header_op i = (if i < 20 then des_decrypt_block else id)"

lemma keeps_header_op: "keeps_length header_op"
  by (simp add: keeps_length_def header_op_def)

lemma grf_decode_header_blocks: "grf_decode_header buf = blocks_done header_op (length buf div 8) buf"
proof -
  let ?m = "min 20 (length buf div 8)"
  have "fold (on_block des_decrypt_block) [0..<?m] buf = blocks_done header_op ?m buf"
    by (rule fold_on_block [OF keeps_header_op]) (auto simp: header_op_def)
  moreover have "blocks_done header_op (?m + k) buf = blocks_done header_op ?m buf" if "?m + k \<le> length buf div 8" for k
    using that
  proof (induction k)
    case (Suc k)
    then have "header_op (?m + k) = id" by (auto simp: header_op_def)
    then show ?case using Suc skip_block_done [of header_op "?m + k" buf] by simp
  qed simp
  from this [of "length buf div 8 - ?m"] have "blocks_done header_op (length buf div 8) buf = blocks_done header_op ?m buf" by simp
  ultimately show ?thesis by (simp add: grf_decode_header_def Let_def)
qed

definition full_loop :: "(block \<Rightarrow> block) \<Rightarrow> nat \<Rightarrow> nat \<Rightarrow> bytes \<Rightarrow> nat \<times> bytes" where
  "full_loop sh cycle n buf = fold (full_step sh cycle) [20..<n] (0, fold (on_block des_decrypt_block) [0..<min 20 n] buf)"

lemma full_loop_blocks:
  assumes "\<forall>b. length (sh b) = 8"
  shows "8 * n \<le> length buf \<Longrightarrow> full_loop sh cycle n buf = (plain_rank cycle n, blocks_done (block_op sh cycle) n buf)"
proof (induction n)
  case 0
  then show ?case by (simp add: full_loop_def blocks_done_def plain_rank_def)
next
  case (Suc n)
  note f = keeps_block_op [OF assms, of cycle]
  show ?case
  proof (cases "n < 20")
    case True
    have "fold (on_block des_decrypt_block) [0..<Suc n] buf = blocks_done (block_op sh cycle) (Suc n) buf"
      using True Suc.prems by (intro fold_on_block [OF f]) (auto simp: block_op_def)
    moreover have "min 20 (Suc n) = Suc n" using True by simp
    ultimately show ?thesis using True by (simp add: full_loop_def plain_rank_def del: upt_Suc)
  next
    case False
    then have "full_loop sh cycle (Suc n) buf = full_step sh cycle n (full_loop sh cycle n buf)"
      by (simp add: full_loop_def min_def)
    also have "\<dots> = full_step sh cycle n (plain_rank cycle n, blocks_done (block_op sh cycle) n buf)"
      using Suc by simp
    also have "\<dots> = (plain_rank cycle (Suc n), blocks_done (block_op sh cycle) (Suc n) buf)"
      using False on_block_done [OF f Suc.prems] skip_block_done [of "block_op sh cycle" n buf] Suc.prems
      by (auto simp: full_step_def block_op_def plain_rank_def)
    finally show ?thesis .
  qed
qed

lemma grf_decode_full_blocks: "grf_decode_full buf cycle = blocks_done (block_op grf_shuffle_dec cycle) (length buf div 8) buf"
  using full_loop_blocks [of grf_shuffle_dec "length buf div 8" buf cycle]
  by (simp add: grf_decode_full_def full_loop_def Let_def)

lemma grf_substitution_twice: "grf_substitution (grf_substitution x) = x"
proof (cases "x \<in> {0x00, 0x2B, 0x6C, 0x01, 0x68, 0x48, 0x60, 0x77, 0xB9, 0xC0, 0xFE, 0xEB, 0x80, 0xFF}")
  case True
  then show ?thesis by (elim insertE) (simp_all add: grf_substitution_def)
next
  case False
  then have "grf_substitution x = x" by (simp add: grf_substitution_def)
  then show ?thesis by simp
qed

lemma shuffle_inverse:
  assumes "length b = 8"
  shows "grf_shuffle_dec (grf_shuffle_enc b) = b"
proof -
  have "[b ! 0, b ! 1, b ! 2, b ! 3, b ! 4, b ! 5, b ! 6, b ! 7] = map (\<lambda>i. b ! i) [0..<8]"
    by (simp add: numeral_eq_Suc)
  then have b: "b = [b ! 0, b ! 1, b ! 2, b ! 3, b ! 4, b ! 5, b ! 6, b ! 7]"
    using map_nth [of b] assms by simp
  have "grf_shuffle_dec (grf_shuffle_enc b) = [b ! 0, b ! 1, b ! 2, b ! 3, b ! 4, b ! 5, b ! 6, b ! 7]"
    by (simp add: grf_shuffle_dec_def grf_shuffle_enc_def grf_substitution_twice)
  with b show ?thesis by (simp only:)
qed

text \<open>Encryption: the same blocks, shuffled the other way.\<close>

definition grf_encode :: "bytes \<Rightarrow> int \<Rightarrow> int \<Rightarrow> bytes" where
  "grf_encode buf entry_type entry_len =
     (if entry_type AND FILELIST_TYPE_ENCRYPT_MIXED \<noteq> 0 then
        blocks_done (block_op grf_shuffle_enc (grf_cycle (the (count_digits entry_len 10 1)))) (length buf div 8) buf
      else if entry_type AND FILELIST_TYPE_ENCRYPT_HEADER \<noteq> 0 then blocks_done header_op (length buf div 8) buf
      else buf)"

lemma length_grf_encode [simp]: "length (grf_encode buf entry_type entry_len) = length buf"
  by (simp add: grf_encode_def length_blocks_done keeps_block_op keeps_header_op)

lemma grf_decode_encode:
  assumes "count_digits entry_len 10 1 \<noteq> None"
  shows "grf_decode (grf_encode buf entry_type entry_len) entry_type entry_len = Some buf"
proof -
  obtain d where d: "count_digits entry_len 10 1 = Some d" using assms by auto
  note ke = keeps_block_op [of grf_shuffle_enc "grf_cycle d"]
  have "block_op grf_shuffle_dec c i (block_op grf_shuffle_enc c i b) = b" if "length b = 8" for c i b
    using that by (simp add: block_op_def des_decrypt_twice shuffle_inverse)
  then have 1: "grf_decode_full (blocks_done (block_op grf_shuffle_enc (grf_cycle d)) (length buf div 8) buf) (grf_cycle d) = buf"
    using blocks_done_inverse [OF ke, of "block_op grf_shuffle_dec (grf_cycle d)" "length buf div 8" buf]
    by (simp add: grf_decode_full_blocks length_blocks_done ke)
  have "header_op i (header_op i b) = b" if "length b = 8" for i b
    using that by (simp add: header_op_def des_decrypt_twice)
  then have 2: "grf_decode_header (blocks_done header_op (length buf div 8) buf) = buf"
    using blocks_done_inverse [OF keeps_header_op, of header_op "length buf div 8" buf]
    by (simp add: grf_decode_header_blocks length_blocks_done keeps_header_op)
  show ?thesis by (simp add: grf_decode_def grf_encode_def d 1 2 del: One_nat_def)
qed

section \<open>Counting digits\<close>

definition times10 :: "int \<Rightarrow> int" where
  "times10 i = to_int32 (i * 10)"

fun powers :: "nat \<Rightarrow> int \<Rightarrow> int list" where
  "powers 0 i = []"
| "powers (Suc k) i = i # powers k (times10 i)"

lemma count_digits_step: "count_digits n i d = (if i \<le> n then count_digits n (times10 i) (d + 1) else Some d)"
  by (simp add: count_digits.simps [of n i d] times10_def)

lemma count_digits_ends: "\<exists>x \<in> set (powers k i). n < x \<Longrightarrow> count_digits n i d \<noteq> None"
proof (induction k arbitrary: i d)
  case (Suc k)
  then show ?case by (subst count_digits_step) auto
qed simp

text \<open>Once the multiplier has run out of bits it is 0 for good.\<close>

lemma count_digits_zero: "0 \<le> n \<Longrightarrow> count_digits n 0 d = None"
proof -
  have "i = 0 \<longrightarrow> 0 \<le> n \<longrightarrow> False" if "count_digits n i d = Some y" for i y
    by (rule count_digits.raw_induct [of "\<lambda>n i d y. i = 0 \<longrightarrow> 0 \<le> n \<longrightarrow> False", OF _ that]) (auto split: if_splits)
  then show "0 \<le> n \<Longrightarrow> ?thesis" by (cases "count_digits n 0 d") auto
qed

lemma count_digits_runs: "\<forall>x \<in> set (powers k i). x \<le> n \<Longrightarrow> count_digits n i d = count_digits n ((times10 ^^ k) i) (d + k)"
proof (induction k arbitrary: i d)
  case (Suc k)
  then show ?case by (subst count_digits_step) (simp add: funpow_swap1)
qed simp

lemma powers_33:
  "(times10 ^^ 33) 10 = 0" "list_all (\<lambda>x. x \<le> 1874919424) (powers 33 10)" "1874919424 \<in> set (powers 33 10)"
  by code_simp+

lemma count_digits_iff: "count_digits n 10 d = None \<longleftrightarrow> 1874919424 \<le> n"
proof
  assume n: "1874919424 \<le> n"
  then have "\<forall>x \<in> set (powers 33 10). x \<le> n" using powers_33(2) by (auto simp: list_all_iff)
  then have "count_digits n 10 d = count_digits n 0 (d + 33)"
    using count_digits_runs [of 33 10 n d] powers_33(1) by simp
  then show "count_digits n 10 d = None" using n by (simp add: count_digits_zero)
next
  assume "count_digits n 10 d = None"
  then show "1874919424 \<le> n" using count_digits_ends [of 33 10 n d] powers_33(3) by force
qed

text \<open>Up to a thousand million the count is right.\<close>

lemma count_digits_decimal:
  assumes "10 ^ k \<le> n" "n < 10 ^ Suc k" "n < 1000000000"
  shows "count_digits n 10 1 = Some (Suc k)"
proof -
  have k: "k < 9" using assms(1,3) power_increasing [of 9 k "10 :: int"] by (cases "k < 9") auto
  have "count_digits n (10 ^ Suc i) (Suc i) = Some (Suc k)" if "i \<le> k" for i
    using that
  proof (induction "k - i" arbitrary: i)
    case 0
    then show ?case using assms(2) by (subst count_digits_step) simp
  next
    case (Suc m)
    have "(10 :: int) ^ Suc i \<le> 10 ^ k" using Suc by (intro power_increasing) auto
    then have "10 ^ Suc i \<le> n" using assms(1) by linarith
    moreover have "(10 :: int) ^ Suc (Suc i) \<le> 10 ^ 9" using Suc k by (intro power_increasing) auto
    then have "times10 (10 ^ Suc i) = 10 ^ Suc (Suc i)"
      unfolding times10_def by (subst to_int32_id) (auto intro: order_trans [of _ 0])
    ultimately show ?case using Suc(1) [of "Suc i"] Suc(2,3) by (subst count_digits_step) simp
  qed
  from this [of 0] show ?thesis by simp
qed

section \<open>The table as a map\<close>

definition key :: "bytes \<Rightarrow> bytes" where
  "key f = map to_lower f"

lemma same_nocase_key: "same_nocase a b = (key a = key b)"
  by (simp add: same_nocase_def key_def)

lemma grf_filehash_key: "key a = key b \<Longrightarrow> grf_filehash a = grf_filehash b"
proof -
  have "fold (\<lambda>c hash. push_bit 1 hash + drop_bit 7 hash * 9 + ucast (to_lower c)) f h =
      fold (\<lambda>c hash. push_bit 1 hash + drop_bit 7 hash * 9 + ucast c) (key f) h" for f and h :: "32 word"
    by (induction f arbitrary: h) (simp_all add: key_def)
  then show "key a = key b \<Longrightarrow> ?thesis" by (simp add: grf_filehash_def)
qed

lemma grf_filehash_less: "grf_filehash f < 256"
proof -
  have "unat (w AND 255) < 256" for w :: "32 word"
    using word_and_le1 [of w 255] by (simp add: word_le_nat_alt le_less_trans)
  then show ?thesis by (simp add: grf_filehash_def)
qed

text \<open>The greatest index below \<open>n\<close> of an entry with a property, or -1.\<close>

fun last_below :: "(grf_filelist \<Rightarrow> bool) \<Rightarrow> grf_filelist list \<Rightarrow> nat \<Rightarrow> int" where
  "last_below p fl 0 = -1"
| "last_below p fl (Suc n) = (if p (fl ! n) then int n else last_below p fl n)"

definition in_bucket :: "nat \<Rightarrow> grf_filelist \<Rightarrow> bool" where
  "in_bucket h e = (grf_filehash (fn e) = h)"

text \<open>
  The invariant: the head of each chain is the last entry of its bucket, each entry points to
  the one before it in its bucket, and no name occurs twice.
\<close>

definition table_inv :: "grfio \<Rightarrow> bool" where
  "table_inv g =
     (length (filelist_hash g) = 256 \<and> length (filelist g) \<le> filelist_maxentry g \<and>
      (\<forall>h < 256. filelist_hash g ! h = last_below (in_bucket h) (filelist g) (length (filelist g))) \<and>
      (\<forall>i < length (filelist g). nxt (filelist g ! i) = last_below (in_bucket (grf_filehash (fn (filelist g ! i)))) (filelist g) i) \<and>
      distinct (map (\<lambda>e. key (fn e)) (filelist g)))"

text \<open>What the table holds: the link is left out.\<close>

definition contents :: "grfio \<Rightarrow> bytes \<Rightarrow> grf_filelist option" where
  "contents g = map_of (map (\<lambda>e. (key (fn e), e\<lparr>nxt := 0\<rparr>)) (filelist g))"

lemma last_below_bound: "last_below p fl n = -1 \<or> (\<exists>i < n. last_below p fl n = int i \<and> p (fl ! i))"
  by (induction n) (auto intro: less_SucI)

lemma last_below_cong: "(\<And>i. i < n \<Longrightarrow> p (fl ! i) = q (fl' ! i)) \<Longrightarrow> last_below p fl n = last_below q fl' n"
  by (induction n) auto

lemma walk_chain_finds:
  assumes "\<forall>i < length fl. nxt (fl ! i) = last_below (in_bucket (grf_filehash (fn (fl ! i)))) fl i" "n \<le> length fl"
  shows "walk_chain fl f (last_below (in_bucket (grf_filehash f)) fl n) = Some (last_below (\<lambda>e. same_nocase (fn e) f) fl n)"
  using assms(2)
proof (induction n)
  case 0
  then show ?case by (simp add: walk_chain.simps)
next
  case (Suc n)
  have same: "same_nocase (fn e) f \<Longrightarrow> in_bucket (grf_filehash f) e" for e
    unfolding same_nocase_key in_bucket_def by (rule grf_filehash_key)
  show ?case
  proof (cases "in_bucket (grf_filehash f) (fl ! n)")
    case True
    then have "nxt (fl ! n) = last_below (in_bucket (grf_filehash f)) fl n"
      using assms(1) Suc.prems by (simp add: in_bucket_def)
    then have "walk_chain fl f (int n) = (if same_nocase (fn (fl ! n)) f then Some (int n)
        else walk_chain fl f (last_below (in_bucket (grf_filehash f)) fl n))"
      using Suc.prems by (subst walk_chain.simps) simp
    then show ?thesis using True Suc by simp
  next
    case False
    then have "\<not> same_nocase (fn (fl ! n)) f" using same by blast
    then show ?thesis using Suc False by simp
  qed
qed

lemma find_total:
  assumes "table_inv g"
  shows "grfio_filelist_find g f = Some (last_below (\<lambda>e. same_nocase (fn e) f) (filelist g) (length (filelist g)))"
proof (cases "filelist_maxentry g = 0")
  case True
  then show ?thesis using assms by (simp add: grfio_filelist_find_def table_inv_def)
next
  case False
  then show ?thesis
    using assms walk_chain_finds [of "filelist g" "length (filelist g)" f] grf_filehash_less [of f]
      last_below_bound [of "\<lambda>e. same_nocase (fn e) f" "filelist g" "length (filelist g)"]
    by (auto simp: grfio_filelist_find_def table_inv_def)
qed

lemma map_of_nth_key:
  "distinct (map (\<lambda>e. key (fn e)) fl) \<Longrightarrow> i < length fl \<Longrightarrow> map_of (map (\<lambda>e. (key (fn e), e\<lparr>nxt := 0\<rparr>)) fl) (key (fn (fl ! i))) = Some ((fl ! i)\<lparr>nxt := 0\<rparr>)"
  by (rule map_of_is_SomeI) (auto simp: comp_def)

lemma find_contents:
  assumes "table_inv g" "grfio_filelist_find g f = Some r"
  shows "r = -1 \<and> contents g (key f) = None \<or>
    (\<exists>i < length (filelist g). r = int i \<and> key (fn (filelist g ! i)) = key f \<and> contents g (key f) = Some ((filelist g ! i)\<lparr>nxt := 0\<rparr>))"
proof -
  define fl where "fl = filelist g"
  have d: "distinct (map (\<lambda>e. key (fn e)) fl)" and r: "r = last_below (\<lambda>e. same_nocase (fn e) f) fl (length fl)"
    using assms find_total [OF assms(1)] by (auto simp: table_inv_def fl_def)
  have none: "last_below (\<lambda>e. same_nocase (fn e) f) fl n = -1 \<Longrightarrow> \<forall>i < n. key (fn (fl ! i)) \<noteq> key f" for n
    by (induction n) (auto simp: same_nocase_key less_Suc_eq split: if_splits)
  have c: "contents g = map_of (map (\<lambda>e. (key (fn e), e\<lparr>nxt := 0\<rparr>)) fl)" by (simp add: contents_def fl_def)
  from last_below_bound [of "\<lambda>e. same_nocase (fn e) f" fl "length fl"] show ?thesis
  proof (elim disjE exE conjE)
    assume "last_below (\<lambda>e. same_nocase (fn e) f) fl (length fl) = -1"
    with none [of "length fl"] r have "r = -1" "key f \<notin> fst ` set (map (\<lambda>e. (key (fn e), e\<lparr>nxt := 0\<rparr>)) fl)"
      by (auto simp: in_set_conv_nth)
    then show ?thesis unfolding c map_of_eq_None_iff by simp
  next
    fix i assume "i < length fl" "last_below (\<lambda>e. same_nocase (fn e) f) fl (length fl) = int i" "same_nocase (fn (fl ! i)) f"
    then show ?thesis using r map_of_nth_key [OF d, of i] c by (auto simp: same_nocase_key fl_def)
  qed
qed

text \<open>
  The contract of a table of named entries: adding or replacing an entry updates the map at its
  key. Its client, the reader of an index, adds a list of them.
\<close>

locale named_table =
  fixes inv :: "'s \<Rightarrow> bool" and lookup :: "'s \<Rightarrow> bytes \<Rightarrow> 'e option" and modify :: "'s \<Rightarrow> 'e \<Rightarrow> 's option"
    and name :: "'e \<Rightarrow> bytes" and norm :: "'e \<Rightarrow> 'e"
  assumes modify_ok: "inv s \<Longrightarrow> \<exists>s'. modify s e = Some s' \<and> inv s' \<and> lookup s' = (lookup s)(name e \<mapsto> norm e)"
begin

fun modify_all :: "'s \<Rightarrow> 'e list \<Rightarrow> 's option" where
  "modify_all s [] = Some s"
| "modify_all s (e # es) = (case modify s e of None \<Rightarrow> None | Some s \<Rightarrow> modify_all s es)"

lemma modify_all_ok:
  "inv s \<Longrightarrow> \<exists>s'. modify_all s es = Some s' \<and> inv s' \<and> lookup s' = lookup s ++ map_of (rev (map (\<lambda>e. (name e, norm e)) es))"
proof (induction es arbitrary: s)
  case (Cons e es)
  obtain s1 where s1: "modify s e = Some s1" "inv s1" "lookup s1 = (lookup s)(name e \<mapsto> norm e)"
    using modify_ok [OF Cons.prems] by blast
  obtain s2 where s2: "modify_all s1 es = Some s2" "inv s2" "lookup s2 = lookup s1 ++ map_of (rev (map (\<lambda>e. (name e, norm e)) es))"
    using Cons.IH [OF s1(2)] by blast
  have "lookup s2 = lookup s ++ map_of (rev (map (\<lambda>e. (name e, norm e)) (e # es)))"
    unfolding s2(3) s1(3) by (rule ext) (simp add: map_add_def split: option.splits)
  then show ?case using s1(1) s2(1,2) by simp
qed simp

end

lemma table_inv_add:
  assumes "table_inv g" "contents g (key (fn e)) = None"
  shows "table_inv (grfio_filelist_add g e) \<and> contents (grfio_filelist_add g e) = (contents g)(key (fn e) \<mapsto> e\<lparr>nxt := 0\<rparr>)"
proof -
  define fl where "fl = filelist g"
  define h where "h = grf_filehash (fn e)"
  define e' where "e' = e\<lparr>nxt := last_below (in_bucket h) fl (length fl)\<rparr>"
  have h: "h < 256" by (simp add: h_def grf_filehash_less)
  have e': "fn e' = fn e" "nxt e' = last_below (in_bucket h) fl (length fl)" "e'\<lparr>nxt := 0\<rparr> = e\<lparr>nxt := 0\<rparr>" by (simp_all add: e'_def)
  have inv: "length (filelist_hash g) = 256" "\<forall>h < 256. filelist_hash g ! h = last_below (in_bucket h) fl (length fl)"
    "\<forall>i < length fl. nxt (fl ! i) = last_below (in_bucket (grf_filehash (fn (fl ! i)))) fl i" "distinct (map (\<lambda>e. key (fn e)) fl)"
    using assms(1) by (simp_all add: table_inv_def fl_def)
  have add: "filelist (grfio_filelist_add g e) = fl @ [e']" "filelist_hash (grfio_filelist_add g e) = (filelist_hash g)[h := int (length fl)]"
    using inv h by (simp_all add: grfio_filelist_add_def Let_def fl_def [symmetric] h_def [symmetric] e'_def)
  have room: "length (fl @ [e']) \<le> filelist_maxentry (grfio_filelist_add g e)"
    using assms(1) by (simp add: grfio_filelist_add_def Let_def fl_def FILELIST_ADDS_def table_inv_def)
  have lb: "last_below p (fl @ [e']) n = last_below p fl n" if "n \<le> length fl" for p n
    using that by (intro last_below_cong) (simp add: nth_append)
  have new: "key (fn e) \<notin> set (map (\<lambda>e. key (fn e)) fl)"
    using assms(2) by (auto simp: contents_def fl_def map_of_eq_None_iff image_iff)
  have "table_inv (grfio_filelist_add g e)"
    unfolding table_inv_def add
  proof (intro conjI allI impI, goal_cases)
    case 1 show ?case using inv(1) by simp
  next
    case 2 show ?case by (rule room)
  next
    case (3 k)
    then show ?case using inv(1,2) lb by (auto simp: nth_list_update in_bucket_def e' h_def)
  next
    case (4 i)
    then show ?case using inv(3) lb e' by (auto simp: nth_append h_def less_Suc_eq)
  next
    case 5 show ?case using inv(4) new e' by simp
  qed
  moreover have "contents (grfio_filelist_add g e) = (contents g)(key (fn e) \<mapsto> e\<lparr>nxt := 0\<rparr>)"
  proof -
    let ?m = "map_of (map (\<lambda>e. (key (fn e), e\<lparr>nxt := 0\<rparr>)) fl)"
    have "dom [key (fn e) \<mapsto> e\<lparr>nxt := 0\<rparr>] \<inter> dom ?m = {}" using new by (auto dest!: map_of_SomeD)
    from map_add_comm [OF this] show ?thesis unfolding contents_def add fl_def [symmetric] using e' by simp
  qed
  ultimately show ?thesis ..
qed

lemma table_inv_replace:
  assumes "table_inv g" "i < length (filelist g)" "key (fn (filelist g ! i)) = key (fn e)"
    "g' = g\<lparr>filelist := (filelist g)[i := e\<lparr>nxt := nxt (filelist g ! i)\<rparr>]\<rparr>"
  shows "table_inv g' \<and> contents g' = (contents g)(key (fn e) \<mapsto> e\<lparr>nxt := 0\<rparr>)"
proof -
  define fl where "fl = filelist g"
  define e' where "e' = e\<lparr>nxt := nxt (fl ! i)\<rparr>"
  have e': "fn e' = fn e" "nxt e' = nxt (fl ! i)" "e'\<lparr>nxt := 0\<rparr> = e\<lparr>nxt := 0\<rparr>" by (simp_all add: e'_def)
  have g': "filelist g' = fl[i := e']" "filelist_hash g' = filelist_hash g" "filelist_maxentry g' = filelist_maxentry g"
    by (simp_all add: assms(4) fl_def e'_def)
  have i: "i < length fl" "key (fn (fl ! i)) = key (fn e)" using assms(2,3) by (simp_all add: fl_def)
  have hash: "grf_filehash (fn (fl[i := e'] ! j)) = grf_filehash (fn (fl ! j))" for j
    using i(1) e' grf_filehash_key [OF i(2)] by (cases "j = i") simp_all
  then have lb: "last_below (in_bucket h) (fl[i := e']) n = last_below (in_bucket h) fl n" for h n
    by (intro last_below_cong) (simp add: in_bucket_def)
  have keys: "map (\<lambda>e. key (fn e)) (fl[i := e']) = map (\<lambda>e. key (fn e)) fl"
    using i e' by (intro nth_equalityI) (auto simp: nth_list_update)
  have inv: "table_inv g'"
  proof -
    have "nxt (fl[i := e'] ! j) = nxt (fl ! j)" if "j < length fl" for j
      using e' i by (cases "j = i") simp_all
    then show ?thesis
      using assms(1) unfolding table_inv_def g' keys lb hash fl_def [symmetric] length_list_update by simp
  qed
  have "contents g' k = ((contents g)(key (fn e) \<mapsto> e\<lparr>nxt := 0\<rparr>)) k" for k
  proof (cases "k = key (fn e)")
    case True
    have "distinct (map (\<lambda>e. key (fn e)) (fl[i := e']))" using inv by (simp add: table_inv_def g')
    from map_of_nth_key [OF this, of i] show ?thesis using True i e' by (simp add: contents_def g')
  next
    case False
    have "map_of (map (\<lambda>e. (key (fn e), e\<lparr>nxt := 0\<rparr>)) (xs @ a # ys)) k = map_of (map (\<lambda>e. (key (fn e), e\<lparr>nxt := 0\<rparr>)) (xs @ b # ys)) k"
      if "key (fn a) \<noteq> k" "key (fn b) \<noteq> k" for xs a b ys using that by (induction xs) auto
    from this [of "fl ! i" e' "take i fl" "drop (Suc i) fl"] show ?thesis
      using False i e' by (simp add: contents_def g' fl_def [symmetric] upd_conv_take_nth_drop id_take_nth_drop [symmetric])
  qed
  with inv show ?thesis by (auto intro: ext)
qed

lemma grfio_filelist_modify_ok:
  assumes "table_inv g"
  shows "\<exists>g'. grfio_filelist_modify g e = Some g' \<and> table_inv g' \<and> contents g' = (contents g)(key (fn e) \<mapsto> e\<lparr>nxt := 0\<rparr>)"
proof -
  obtain r where r: "grfio_filelist_find g (fn e) = Some r" using find_total [OF assms] by blast
  from find_contents [OF assms r] show ?thesis
  proof (elim disjE exE conjE)
    assume "r = -1" "contents g (key (fn e)) = None"
    then show ?thesis using table_inv_add [OF assms] r by (simp add: grfio_filelist_modify_def)
  next
    fix i assume "i < length (filelist g)" "r = int i" "key (fn (filelist g ! i)) = key (fn e)"
    then show ?thesis using table_inv_replace [OF assms] r by (simp add: grfio_filelist_modify_def)
  qed
qed

interpretation files: named_table table_inv contents grfio_filelist_modify "\<lambda>e. key (fn e)" "\<lambda>e. e\<lparr>nxt := 0\<rparr>"
  by unfold_locales (rule grfio_filelist_modify_ok)

section \<open>Whole archives\<close>

definition put32 :: "32 word \<Rightarrow> bytes" where
  "put32 w = [ucast w, ucast (drop_bit 8 w), ucast (drop_bit 16 w), ucast (drop_bit 24 w)]"

lemma length_put32 [simp]: "length (put32 w) = 4"
  by (simp add: put32_def)

lemma getlong_put32 [simp]: "getlong (put32 w @ s) = w"
proof (rule bit_word_eqI)
  fix n assume n: "n < LENGTH(32)"
  consider "n < 8" | "8 \<le> n" "n < 16" | "16 \<le> n" "n < 24" | "24 \<le> n" "n < 32" using n by fastforce
  then show "bit (getlong (put32 w @ s)) n = bit w n"
    by cases (auto simp: getlong_def put32_def bit_or_iff bit_push_bit_iff bit_ucast_iff bit_drop_bit_eq dest: bit_imp_le_length)
qed

lemma sint_small: "n < 2147483648 \<Longrightarrow> sint (word_of_nat n :: 32 word) = int n"
  by (simp add: signed_of_nat signed_take_bit_int_eq_self)

text \<open>
  An archive of version 2 as a packer writes it: a member has a name, its contents and a mode of
  encryption; \<open>deflate\<close> compresses.
\<close>

type_synonym member = "bytes \<times> bytes \<times> byte"

definition pad :: "bytes \<Rightarrow> bytes" where
  "pad z = z @ replicate ((8 - length z mod 8) mod 8) 0"

definition mtype :: "member \<Rightarrow> byte" where
  "mtype m = 1 OR snd (snd m)"

definition stored :: "(bytes \<Rightarrow> bytes) \<Rightarrow> member \<Rightarrow> bytes" where
  "stored deflate m = (let z = deflate (fst (snd m)) in grf_encode (pad z) (sint (mtype m)) (int (length z)))"

definition index_entry :: "(bytes \<Rightarrow> bytes) \<Rightarrow> nat \<Rightarrow> member \<Rightarrow> bytes" where
  "index_entry deflate pos m =
     fst m @ [0] @ put32 (of_nat (length (deflate (fst (snd m))))) @ put32 (of_nat (length (stored deflate m))) @
     put32 (of_nat (length (fst (snd m)))) @ [mtype m] @ put32 (of_nat pos)"

fun index_of :: "(bytes \<Rightarrow> bytes) \<Rightarrow> nat \<Rightarrow> member list \<Rightarrow> bytes" where
  "index_of deflate pos [] = []"
| "index_of deflate pos (m # ms) = index_entry deflate pos m @ index_of deflate (pos + length (stored deflate m)) ms"

definition data_of :: "(bytes \<Rightarrow> bytes) \<Rightarrow> member list \<Rightarrow> bytes" where
  "data_of deflate ms = concat (map (stored deflate) ms)"

definition archive :: "(bytes \<Rightarrow> bytes) \<Rightarrow> member list \<Rightarrow> bytes" where
  "archive deflate ms =
     (let z = deflate (index_of deflate 0 ms)
      in (lit ''Master of Magic'' @ replicate 15 0) @ put32 (of_nat (length (data_of deflate ms))) @ put32 0 @
         put32 (of_nat (length ms + 7)) @ put32 0x200 @ data_of deflate ms @
         put32 (of_nat (length z)) @ put32 (of_nat (length (index_of deflate 0 ms))) @ z)"

definition good_member :: "(bytes \<Rightarrow> bytes) \<Rightarrow> member \<Rightarrow> bool" where
  "good_member deflate m =
     (0 \<notin> set (fst m) \<and> length (fst m) \<le> 107 \<and> snd (snd m) \<in> {0, 2, 4} \<and> length (fst (snd m)) < 2147483647)"

text \<open>The entry the reader makes of a member.\<close>

definition entry_of :: "(bytes \<Rightarrow> bytes) \<Rightarrow> int \<Rightarrow> nat \<Rightarrow> member \<Rightarrow> grf_filelist" where
  "entry_of deflate gent pos m =
     \<lparr>srclen = int (length (deflate (fst (snd m)))), srclen_aligned = int (length (stored deflate m)), declen = int (length (fst (snd m))),
      srcpos = int pos + 0x2e, nxt = 0, ftype = sint (mtype m), fn = fst m, fnd = None, gentry = to_int8 (gent + 1)\<rparr>"

fun entries_of :: "(bytes \<Rightarrow> bytes) \<Rightarrow> int \<Rightarrow> nat \<Rightarrow> member list \<Rightarrow> grf_filelist list" where
  "entries_of deflate gent pos [] = []"
| "entries_of deflate gent pos (m # ms) = entry_of deflate gent pos m # entries_of deflate gent (pos + length (stored deflate m)) ms"

lemma length_pad: "length z \<le> length (pad z)"
  by (simp add: pad_def)

lemma length_stored: "length (deflate (fst (snd m))) \<le> length (stored deflate m)"
  by (simp add: stored_def Let_def length_pad)

text \<open>One step of the reader over an entry of the index.\<close>

lemma drop_within: "drop (length a + n) (a @ b) = drop n b"
  by simp

lemma read_entry:
  assumes "good_member deflate m" "pos + length (stored deflate m) < 2000000000"
  shows "read_index2 g gent (Suc n) (pre @ index_entry deflate pos m @ rest) (int (length pre)) =
    (case grfio_filelist_modify g (entry_of deflate gent pos m) of None \<Rightarrow> None
     | Some g \<Rightarrow> read_index2 g gent n (pre @ index_entry deflate pos m @ rest) (int (length (pre @ index_entry deflate pos m))))"
proof -
  define buf where "buf = pre @ index_entry deflate pos m @ rest"
  define o2 where "o2 = length pre + length (fst m) + 1"
  define tail where "tail = put32 (of_nat (length (deflate (fst (snd m))))) @ put32 (of_nat (length (stored deflate m))) @
     put32 (of_nat (length (fst (snd m)))) @ [mtype m] @ put32 (of_nat pos) @ rest"
  have buf: "buf = pre @ fst m @ [0] @ tail" by (simp add: buf_def tail_def index_entry_def)
  have m: "0 \<notin> set (fst m)" "length (fst m) \<le> 107" "snd (snd m) \<in> {0, 2, 4}" "length (fst (snd m)) < 2147483647"
    using assms(1) by (simp_all add: good_member_def)
  have str: "string_at buf (int (length pre)) = Some (fst m)"
    using m(1) by (auto simp: string_at_def buf takeWhile_append)
  have drop: "drop o2 buf = tail" by (simp add: buf o2_def)
  have at: "getlong_at buf (int o2 + int k) = Some (getlong (drop k tail))" if "k + 4 \<le> length tail" for k
  proof -
    have "drop (o2 + k) buf = drop k tail" using drop by (metis drop_drop add.commute)
    moreover have "o2 + length tail = length buf" by (simp add: buf o2_def)
    ultimately show ?thesis using that by (simp add: getlong_at_def nat_int_add)
  qed
  have g0: "getlong_at buf (int o2) = Some (of_nat (length (deflate (fst (snd m)))))" using at [of 0] by (simp add: tail_def)
  have g4: "getlong_at buf (int o2 + 4) = Some (of_nat (length (stored deflate m)))" using at [of 4] by (simp add: tail_def)
  have g8: "getlong_at buf (int o2 + 8) = Some (of_nat (length (fst (snd m))))" using at [of 8] by (simp add: tail_def)
  have g13: "getlong_at buf (int o2 + 13) = Some (of_nat pos)" using at [of 13] by (simp add: tail_def)
  have ty: "byte_at buf (int o2 + 12) = Some (mtype m)"
  proof -
    have "o2 \<le> length buf" by (simp add: buf o2_def)
    then have "buf ! (o2 + 12) = tail ! 12" unfolding drop [symmetric] by (simp only: nth_drop)
    moreover have "tail ! 12 = mtype m" by (simp add: tail_def nth_append)
    moreover have "o2 + 12 < length buf" by (simp add: buf o2_def tail_def)
    ultimately have "byte_at buf (int (o2 + 12)) = Some (mtype m)" by (simp only: byte_at_def nat_int) simp
    then show ?thesis by simp
  qed
  have odd: "mtype m AND 1 \<noteq> 0" using m(3) by (auto simp: mtype_def)
  have pos: "sint (of_nat pos + 0x2e :: 32 word) = int pos + 0x2e"
    using sint_small [of "pos + 0x2e"] assms(2) by simp
  have small: "sint (of_nat (length (deflate (fst (snd m)))) :: 32 word) = int (length (deflate (fst (snd m))))"
    "sint (of_nat (length (stored deflate m)) :: 32 word) = int (length (stored deflate m))"
    "sint (of_nat (length (fst (snd m))) :: 32 word) = int (length (fst (snd m)))"
    using length_stored [of deflate m] assms(2) m(4) by (auto intro!: sint_small)
  have o2': "int (length pre) + int (length (fst m)) + 1 = int o2" by (simp add: o2_def)
  have len: "int (length (pre @ index_entry deflate pos m)) = int o2 + 17" by (simp add: index_entry_def o2_def)
  show ?thesis
    unfolding buf_def [symmetric] len
    using m(2) odd by (simp add: str o2' Let_def ty g0 g4 g8 g13 pos small entry_of_def)
qed


lemma read_entries:
  assumes "\<forall>m \<in> set ms. good_member deflate m" "pos + length (data_of deflate ms) < 2000000000"
  shows "read_index2 g gent (length ms) (pre @ index_of deflate pos ms @ rest) (int (length pre)) =
    map_option (\<lambda>g. (g, 0)) (files.modify_all g (entries_of deflate gent pos ms))"
  using assms
proof (induction ms arbitrary: g pos pre)
  case (Cons m ms)
  have "good_member deflate m" "pos + length (stored deflate m) < 2000000000"
    using Cons.prems by (simp_all add: data_of_def)
  note step = read_entry [OF this, of g gent "length ms" pre "index_of deflate (pos + length (stored deflate m)) ms @ rest"]
  show ?case
  proof (cases "grfio_filelist_modify g (entry_of deflate gent pos m)")
    case (Some g')
    then show ?thesis
      using step Cons.IH [of "pos + length (stored deflate m)" g' "pre @ index_entry deflate pos m"] Cons.prems
      by (simp add: data_of_def)
  qed (use step in simp)
qed simp

text \<open>Where a member is, in the data and in the list of entries.\<close>

lemma entries_split:
  "entries_of deflate gent pos (ms1 @ m # ms2) =
     entries_of deflate gent pos ms1 @ entry_of deflate gent (pos + length (data_of deflate ms1)) m #
     entries_of deflate gent (pos + length (data_of deflate ms1) + length (stored deflate m)) ms2"
  by (induction ms1 arbitrary: pos) (simp_all add: data_of_def add.assoc)

lemma entries_names: "map (\<lambda>e. key (fn e)) (entries_of deflate gent pos ms) = map (\<lambda>m. key (fst m)) ms"
  by (induction ms arbitrary: pos) (simp_all add: entry_of_def)

lemma entries_norm: "e \<in> set (entries_of deflate gent pos ms) \<Longrightarrow> e\<lparr>nxt := 0\<rparr> = e"
  by (induction ms arbitrary: pos) (auto simp: entry_of_def)

lemma archive_parts:
  assumes "length (archive deflate ms) < 2000000000" "length ms < 2000000000"
  shows "take 16 (archive deflate ms) = lit ''Master of Magic'' @ [0]"
    "getlong (drop 0x1e (archive deflate ms)) = of_nat (length (data_of deflate ms))"
    "getlong (drop 0x26 (archive deflate ms)) = of_nat (length ms + 7)"
    "getlong (drop 0x2a (archive deflate ms)) = 0x200"
    "drop 0x2e (archive deflate ms) = data_of deflate ms @ put32 (of_nat (length (deflate (index_of deflate 0 ms)))) @
       put32 (of_nat (length (index_of deflate 0 ms))) @ deflate (index_of deflate 0 ms)"
    "0x2e \<le> length (archive deflate ms)"
proof -
  define h where "h = lit ''Master of Magic'' @ replicate 15 (0 :: byte)"
  have h: "length h = 30" "take 16 h = lit ''Master of Magic'' @ [0]" by (simp_all add: h_def lit_def numeral_eq_Suc)
  have a: "archive deflate ms = h @ put32 (of_nat (length (data_of deflate ms))) @ put32 0 @
         put32 (of_nat (length ms + 7)) @ put32 0x200 @ data_of deflate ms @
         put32 (of_nat (length (deflate (index_of deflate 0 ms)))) @ put32 (of_nat (length (index_of deflate 0 ms))) @ deflate (index_of deflate 0 ms)"
    by (simp only: archive_def h_def Let_def)
  show "take 16 (archive deflate ms) = lit ''Master of Magic'' @ [0]"
    "getlong (drop 0x1e (archive deflate ms)) = of_nat (length (data_of deflate ms))"
    "getlong (drop 0x26 (archive deflate ms)) = of_nat (length ms + 7)"
    "getlong (drop 0x2a (archive deflate ms)) = 0x200"
    "drop 0x2e (archive deflate ms) = data_of deflate ms @ put32 (of_nat (length (deflate (index_of deflate 0 ms)))) @
       put32 (of_nat (length (index_of deflate 0 ms))) @ deflate (index_of deflate 0 ms)"
    "0x2e \<le> length (archive deflate ms)"
    using h by (simp_all add: a del: of_nat_add)
qed

lemma modify_keeps: "grfio_filelist_modify g e = Some g' \<Longrightarrow> gentry_table g' = gentry_table g \<and> data_dir g' = data_dir g"
  by (auto simp: grfio_filelist_modify_def grfio_filelist_add_def Let_def split: option.splits)

lemma modify_all_keeps: "files.modify_all g es = Some g' \<Longrightarrow> gentry_table g' = gentry_table g \<and> data_dir g' = data_dir g"
  by (induction es arbitrary: g) (auto split: option.splits dest: modify_keeps)

lemma compact_keeps:
  "table_inv g \<Longrightarrow> table_inv (grfio_filelist_compact g)" "contents (grfio_filelist_compact g) = contents g"
  "gentry_table (grfio_filelist_compact g) = gentry_table g" "filelist (grfio_filelist_compact g) = filelist g"
  by (auto simp: grfio_filelist_compact_def table_inv_def contents_def)

lemma read_whole_index:
  assumes ok: "\<forall>m \<in> set ms. good_member deflate m"
    and small: "length (archive deflate ms) < 2000000000" "length (index_of deflate 0 ms) < 2000000000"
    and unzip: "unzip (deflate (index_of deflate 0 ms)) (length (index_of deflate 0 ms)) = index_of deflate 0 ms"
    and fs: "fs grfname = Some (archive deflate ms)" and inv: "table_inv g"
  shows "\<exists>g'. grfio_entryread fs unzip g grfname gent = Some (g', 0) \<and> table_inv g' \<and> gentry_table g' = gentry_table g \<and>
    contents g' = contents g ++ map_of (rev (map (\<lambda>e. (key (fn e), e)) (entries_of deflate gent 0 ms)))"
proof -
  define idx where "idx = index_of deflate 0 ms"
  define d where "d = length (data_of deflate ms)"
  have len: "d + length (deflate idx) + 54 = length (archive deflate ms)"
    by (simp add: archive_def Let_def idx_def lit_def d_def)
  have n: "length ms \<le> length idx"
  proof -
    have "1 \<le> length (index_entry deflate pos m)" for pos m by (simp add: index_entry_def)
    then have "length ms \<le> length (index_of deflate pos ms)" for pos
      by (induction ms arbitrary: pos) (simp_all, metis One_nat_def Suc_eq_plus1_left add_mono_thms_linordered_semiring(1))
    then show ?thesis by (simp add: idx_def)
  qed
  define arch where "arch = archive deflate ms"
  define body where "body = data_of deflate ms @ put32 (of_nat (length (deflate idx))) @ put32 (of_nat (length idx)) @ deflate idx"
  have "length ms < 2000000000" using n small(2) by (simp add: idx_def)
  note parts = archive_parts [OF small(1) this, folded arch_def idx_def, folded body_def]
  have pos: "46 + unat (getlong (drop 30 arch)) = 46 + d"
    using parts(2) small(1) len by (simp add: d_def unat_of_nat take_bit_nat_eq_self)
  have e: "drop (46 + d + k) arch = drop (d + k) body" for k
    unfolding parts(5) [symmetric] drop_drop by (simp add: ac_simps)
  have at: "drop (46 + d) arch = put32 (of_nat (length (deflate idx))) @ put32 (of_nat (length idx)) @ deflate idx"
    "drop (46 + d + 4) arch = put32 (of_nat (length idx)) @ deflate idx" "drop (46 + d + 8) arch = deflate idx"
    using e [of 0] e [of 4] e [of 8] by (simp_all add: body_def d_def)
  have count: "sint (getlong (drop 38 arch) - 7) = int (length ms)"
    using parts(3) sint_small [of "length ms"] n small(2) by (simp add: idx_def)
  obtain g1 where g1: "files.modify_all g (entries_of deflate gent 0 ms) = Some g1" "table_inv g1"
    "contents g1 = contents g ++ map_of (rev (map (\<lambda>e. (key (fn e), e\<lparr>nxt := 0\<rparr>)) (entries_of deflate gent 0 ms)))"
    using files.modify_all_ok [OF inv] by blast
  have "read_index2 g gent (length ms) idx 0 = Some (g1, 0)"
    using read_entries [OF ok, of 0 g gent "[]" "[]"] small(1) len g1(1) by (simp add: d_def idx_def)
  then have read: "grfio_entryread fs unzip g grfname gent = Some (grfio_filelist_compact g1, 0)"
    using parts(1,4,6) pos at count unzip len small
    by (simp add: grfio_entryread_def fs arch_def [symmetric] idx_def [symmetric] Let_def unat_of_nat take_bit_nat_eq_self)
  have norm: "map (\<lambda>e. (key (fn e), e\<lparr>nxt := 0\<rparr>)) (entries_of deflate gent 0 ms) = map (\<lambda>e. (key (fn e), e)) (entries_of deflate gent 0 ms)"
    by (rule map_cong) (simp_all add: entries_norm)
  then show ?thesis using read g1(2) g1(3) [unfolded norm] compact_keeps modify_all_keeps [OF g1(1)] by auto
qed


lemma member_stored_at:
  assumes "length (archive deflate (ms1 @ m # ms2)) < 2000000000" "length (ms1 @ m # ms2) < 2000000000"
  shows "take (length (stored deflate m)) (drop (length (data_of deflate ms1) + 0x2e) (archive deflate (ms1 @ m # ms2))) = stored deflate m \<and>
    length (data_of deflate ms1) + 0x2e + length (stored deflate m) \<le> length (archive deflate (ms1 @ m # ms2))"
proof -
  define arch where "arch = archive deflate (ms1 @ m # ms2)"
  obtain rest where r: "drop 0x2e arch = data_of deflate ms1 @ stored deflate m @ rest" "0x2e \<le> length arch"
    using archive_parts(5,6) [OF assms] by (simp add: arch_def data_of_def)
  have "drop (length (data_of deflate ms1) + 0x2e) arch = drop (length (data_of deflate ms1)) (drop 0x2e arch)"
    by (simp add: add.commute)
  moreover have "length arch = 0x2e + length (drop 0x2e arch)" using r(2) by simp
  ultimately show ?thesis unfolding arch_def [symmetric] using r(1) by simp
qed

lemma mtype_flags:
  assumes "good_member deflate m"
  shows "sint (mtype m) AND FILELIST_TYPE_FILE \<noteq> 0"
proof -
  have "mtype m = 1 \<or> mtype m = 3 \<or> mtype m = 5" using assms by (auto simp: good_member_def mtype_def)
  then show ?thesis by (elim disjE) (simp_all add: FILELIST_TYPE_FILE_def)
qed

lemma read_member:
  assumes ok: "good_member deflate m" and small: "length (archive deflate (ms1 @ m # ms2)) < 1800000000" "length (ms1 @ m # ms2) < 2000000000"
    and unzip: "unzip (deflate (fst (snd m))) (length (fst (snd m))) = fst (snd m)"
    and fs: "fs (gentry_table g ! nat gent) = Some (archive deflate (ms1 @ m # ms2))" "0 \<le> gent" "gent < 127" "nat gent < length (gentry_table g)"
  shows "read_archive fs unzip g (entry_of deflate gent (length (data_of deflate ms1)) m) = Some (Some (fst (snd m), int (length (fst (snd m)))))"
proof -
  define z where "z = deflate (fst (snd m))"
  define e where "e = entry_of deflate gent (length (data_of deflate ms1)) m"
  have e: "gentry e = gent + 1" "srclen_aligned e = int (length (stored deflate m))" "srclen e = int (length z)"
    "declen e = int (length (fst (snd m)))" "srcpos e = int (length (data_of deflate ms1) + 0x2e)" "ftype e = sint (mtype m)"
    using fs(2,3) by (simp_all add: e_def entry_of_def z_def)
  note at = member_stored_at [of deflate ms1 m ms2]
  have z: "length z \<le> length (stored deflate m)" "length z < 1874919424"
    using length_stored [of deflate m] at small by (simp_all add: z_def)
  have "count_digits (int (length z)) 10 1 \<noteq> None" using z(2) by (simp add: count_digits_iff)
  then have "grf_decode (stored deflate m) (sint (mtype m)) (int (length z)) = Some (pad z)"
    by (simp add: stored_def Let_def z_def [symmetric] grf_decode_encode)
  moreover have "take (length z) (pad z) = z" by (simp add: pad_def)
  moreover have "length (fst (snd m)) < 2147483647" using ok by (simp add: good_member_def)
  ultimately show ?thesis
    unfolding e_def [symmetric] using fs(1,2,4) at small z(1) unzip mtype_flags [OF ok]
    by (simp add: read_archive_def e Let_def z_def [symmetric] del: of_nat_add)
qed

text \<open>
  C4. What a packer stores comes back: after an archive of version 2 has been opened, every
  member of it, plain, with an encrypted header or encrypted throughout, is found under any
  spelling of the case of its name and read with the contents it was packed with, for archives
  up to 1.8 GB whose names do not repeat.
\<close>

theorem archive_roundtrip:
  assumes "\<forall>m \<in> set ms. good_member deflate m" "distinct (map (\<lambda>m. key (fst m)) ms)"
    "length (archive deflate ms) < 1800000000" "length (index_of deflate 0 ms) < 2000000000"
    "\<And>x. unzip (deflate x) (length x) = x" "fs grfname = Some (archive deflate ms)"
    "table_inv g" "length (gentry_table g) < 127" "m \<in> set ms" "same_nocase fname (fst m)"
  shows "\<exists>g'. grfio_add fs unzip g grfname = Some (g', 0) \<and>
    grfio_reads fs unzip g' fname = Some (g', Some (fst (snd m), int (length (fst (snd m)))))"
proof -
  define gent where "gent = int (length (gentry_table g))"
  define g0 where "g0 = g\<lparr>gentry_table := gentry_table g @ [grfname]\<rparr>"
  have g0: "table_inv g0" "contents g0 = contents g" "gentry_table g0 = gentry_table g @ [grfname]"
    using assms(7) by (simp_all add: g0_def table_inv_def contents_def)
  have "length (archive deflate ms) < 2000000000" using assms(3) by simp
  from read_whole_index [of ms deflate unzip fs grfname g0 gent, OF assms(1) this assms(4,5,6) g0(1)]
  obtain g' where g': "grfio_entryread fs unzip g0 grfname gent = Some (g', 0)" "table_inv g'" "gentry_table g' = gentry_table g @ [grfname]"
    "contents g' = contents g ++ map_of (rev (map (\<lambda>e. (key (fn e), e)) (entries_of deflate gent 0 ms)))"
    using g0 by auto
  have add: "grfio_add fs unzip g grfname = Some (g', 0)" using g'(1) by (simp add: grfio_add_def Let_def gent_def g0_def)
  obtain ms1 ms2 where ms: "ms = ms1 @ m # ms2" using assms(9) by (metis split_list)
  define e where "e = entry_of deflate gent (length (data_of deflate ms1)) m"
  have "e \<in> set (entries_of deflate gent 0 ms)" by (simp add: ms entries_split e_def)
  moreover have "distinct (map (\<lambda>e. key (fn e)) (entries_of deflate gent 0 ms))" by (simp only: entries_names assms(2))
  ultimately have "map_of (rev (map (\<lambda>e. (key (fn e), e)) (entries_of deflate gent 0 ms))) (key (fn e)) = Some e"
    by (intro map_of_is_SomeI) (auto simp: rev_map [symmetric] comp_def)
  then have c: "contents g' (key fname) = Some e"
    using assms(10) by (simp add: g'(4) same_nocase_key e_def entry_of_def)
  obtain r where r: "grfio_filelist_find g' fname = Some r" using find_total [OF g'(2)] by blast
  obtain i where i: "r = int i" "i < length (filelist g')" "e = (filelist g' ! i)\<lparr>nxt := 0\<rparr>"
    using find_contents [OF g'(2) r] c by auto
  have "srclen (filelist g' ! i) = srclen e" "srclen_aligned (filelist g' ! i) = srclen_aligned e" "declen (filelist g' ! i) = declen e"
    "srcpos (filelist g' ! i) = srcpos e" "ftype (filelist g' ! i) = ftype e" "gentry (filelist g' ! i) = gentry e"
    by (simp_all add: i(3))
  then have same: "read_archive fs unzip g' (filelist g' ! i) = read_archive fs unzip g' e" "gentry (filelist g' ! i) = gentry e"
    unfolding read_archive_def by (simp_all only:)
  have len: "length ms < 2000000000"
  proof -
    have "length ms \<le> length (index_of deflate pos ms)" for pos
      by (induction ms arbitrary: pos) (simp_all add: index_entry_def le_SucI trans_le_add2)
    from this [of 0] assms(4) show ?thesis by linarith
  qed
  have "read_archive fs unzip g' e = Some (Some (fst (snd m), int (length (fst (snd m)))))"
    unfolding e_def using assms(1,3,5,6,8) len g'(3) by (intro read_member [where ?ms2.0 = ms2]) (simp_all add: ms gent_def)
  moreover have "gentry e > 0" using assms(8) by (simp add: e_def entry_of_def gent_def)
  ultimately have "grfio_reads fs unzip g' fname = Some (g', Some (fst (snd m), int (length (fst (snd m)))))"
    using i(1) by (simp add: grfio_reads_def r same Let_def)
  with add show ?thesis by blast
qed


definition no_files :: grfio where
  "no_files = hashinit \<lparr>filelist = [], filelist_maxentry = 0, filelist_hash = [], gentry_table = [], data_dir = []\<rparr>"

lemma table_inv_no_files: "table_inv no_files"
  by (simp add: table_inv_def no_files_def hashinit_def)

theorem archive_roundtrip_witness:
  "\<exists>g'. grfio_add (\<lambda>f. if f = [103] then Some (archive id [([65], [1, 2, 3], 2), ([66], [], 0)]) else None) (\<lambda>z n. z) no_files [103] = Some (g', 0) \<and>
     grfio_reads (\<lambda>f. if f = [103] then Some (archive id [([65], [1, 2, 3], 2), ([66], [], 0)]) else None) (\<lambda>z n. z) g' [97] = Some (g', Some ([1, 2, 3], 3))"
proof -
  define ms :: "member list" where "ms = [([65], [1, 2, 3], 2), ([66], [], 0)]"
  have good: "\<forall>m \<in> set ms. good_member id m" by (simp add: ms_def good_member_def)
  have keys: "distinct (map (\<lambda>m. key (fst m)) ms)" by (simp add: ms_def key_def to_lower_def)
  have len: "length (archive id ms) < 1800000000" "length (index_of id 0 ms) < 2000000000"
    by (simp_all add: ms_def archive_def Let_def data_of_def stored_def pad_def lit_def index_entry_def)
  have m: "([65], [1, 2, 3], 2) \<in> set ms" by (simp add: ms_def)
  have name: "same_nocase [97] (fst ([65], [1, 2, 3 :: byte], 2 :: byte))" by (simp add: same_nocase_def to_lower_def)
  show ?thesis
    unfolding ms_def [symmetric]
    using archive_roundtrip [OF good keys len, of "\<lambda>z n. z" "\<lambda>f. if f = [103] then Some (archive id ms) else None" "[103]" no_files, OF _ _ table_inv_no_files _ m name]
    by (simp add: no_files_def hashinit_def)
qed

section \<open>Hostile archives\<close>

text \<open>
  C29. Decoding ends unless the entry is fully encrypted and claims a length from 1874919424 up:
  then the \<open>int\<close> that counts its digits overflows down to 0 and the loop does not end.
\<close>

theorem grf_decode_hangs:
  "grf_decode buf entry_type entry_len = None \<longleftrightarrow> entry_type AND FILELIST_TYPE_ENCRYPT_MIXED \<noteq> 0 \<and> 1874919424 \<le> entry_len"
  using count_digits_iff [of entry_len 1] by (auto simp: grf_decode_def)

text \<open>
  C28. The file table is a map from names to entries that ignores their case: adding or replacing
  an entry never fails, updates the map there and nowhere else, and a lookup finds exactly the
  entry of the map.
\<close>

theorem file_table_refines:
  assumes "table_inv g"
  shows "\<exists>g'. grfio_filelist_modify g e = Some g' \<and> table_inv g' \<and> contents g' = (contents g)(key (fn e) \<mapsto> e\<lparr>nxt := 0\<rparr>) \<and>
    (\<forall>f. \<exists>r. grfio_filelist_find g' f = Some r \<and>
       contents g' (key f) = (if r = -1 then None else Some ((filelist g' ! nat r)\<lparr>nxt := 0\<rparr>)))"
proof -
  obtain g' where g': "grfio_filelist_modify g e = Some g'" "table_inv g'" "contents g' = (contents g)(key (fn e) \<mapsto> e\<lparr>nxt := 0\<rparr>)"
    using files.modify_ok [OF assms] by blast
  have "\<exists>r. grfio_filelist_find g' f = Some r \<and> contents g' (key f) = (if r = -1 then None else Some ((filelist g' ! nat r)\<lparr>nxt := 0\<rparr>))" for f
    using find_total [OF g'(2), of f] find_contents [OF g'(2), of f] by fastforce
  with g' show ?thesis by blast
qed

theorem file_table_refines_witness:
  "\<exists>g'. grfio_filelist_modify no_files (entry_of id 0 0 ([65], [], 0)) = Some g' \<and> table_inv g'"
  using file_table_refines [OF table_inv_no_files, of "entry_of id 0 0 ([65], [], 0)"] by blast

lemma scan_run_piece:
  "\<forall>c \<in> set w. c \<notin> stop \<Longrightarrow> length w \<le> n \<Longrightarrow> r = [] \<or> hd r \<in> stop \<Longrightarrow> scan_run n stop (w @ r) = (w, r)"
proof -
  assume a: "\<forall>c \<in> set w. c \<notin> stop" "length w \<le> n" "r = [] \<or> hd r \<in> stop"
  have "take (n - length w) r = [] \<or> hd (take (n - length w) r) \<in> stop" using a(3) by (cases r; cases "n - length w") auto
  then have "takeWhile (\<lambda>c. c \<notin> stop) (w @ take (n - length w) r) = w"
    using a(1) by (cases "take (n - length w) r") (auto simp: takeWhile_append)
  then show ?thesis using a(2) by (simp add: scan_run_def Let_def)
qed

text \<open>
  C30. A row of the table of resource names that is used, because its second name contains
  \<open>.gat\<close> or \<open>.rsw\<close>, overruns a buffer exactly when one of its two names is longer than 250
  characters: the scan admits 255, and five more are put before them into 256 bytes.
  (Rows with other second names are dropped before anything is written. The names are taken up to
  255 characters, free of \<open>#\<close> and line ends, the first not empty.)
\<close>

theorem restable_overflow:
  assumes "\<forall>c \<in> set w1 \<union> set w2. c \<notin> {35, 13, 10}" "w1 \<noteq> []" "length w1 \<le> 255" "length w2 \<le> 255"
    "strstr w2 (lit ''.gat'') \<noteq> None \<or> strstr w2 (lit ''.rsw'') \<noteq> None" "r = [] \<or> hd r \<in> {35, 13, 10}" "table_inv g"
  shows "grfio_parse_restable_row fs g (w1 @ 35 # w2 @ r) = None \<longleftrightarrow> 250 < length w1 \<or> 250 < length w2"
proof -
  have s1: "scan_run 255 {35, 13, 10} (w1 @ 35 # w2 @ r) = (w1, 35 # w2 @ r)"
    using assms by (intro scan_run_piece) auto
  have s2: "scan_run 255 {35, 13, 10} (w2 @ r) = (w2, r)" using assms by (intro scan_run_piece) auto
  have "w2 \<noteq> []" using assms(5) by (auto simp: lit_def)
  obtain i where i: "grfio_filelist_find g (lit ''data'' @ [92] @ w2) = Some i" using find_total [OF assms(7)] by blast
  have ok: "grfio_filelist_modify g e \<noteq> None" for e using files.modify_ok [OF assms(7), of e] by auto
  show ?thesis
    using assms(2,5) \<open>w2 \<noteq> []\<close> i ok
    by (auto simp: grfio_parse_restable_row_def s1 s2 Let_def lit_def)
qed

theorem restable_overflow_witness:
  "grfio_parse_restable_row (\<lambda>f. None) no_files (replicate 251 65 @ 35 # lit ''.gat'') = None"
proof -
  have "grfio_parse_restable_row (\<lambda>f. None) no_files (replicate 251 65 @ 35 # lit ''.gat'' @ []) = None"
    by (subst restable_overflow) (auto simp: table_inv_no_files lit_def)
  then show ?thesis by simp
qed

end
