(* ===== verification/Duel.thy ===== *)
theory Duel
  imports Strlib
begin

text \<open>
  Duels: \<open>src/map/duel.c\<close>, the commands of \<open>src/map/atcommand.c\<close> that drive it (\<open>@duel\<close>,
  \<open>@invite\<close>, \<open>@accept\<close>, \<open>@reject\<close>, \<open>@leave\<close>), and the calls of \<open>src/map/unit.c\<close> and
  \<open>src/map/pc.c\<close> when a character leaves its map, logs out or dies. Messages to clients are left
  out. The clock (day of the month and minute, in minutes), the character a name stands for
  (\<open>map->nick2sd\<close>) and the battle configuration are arguments.
\<close>

section \<open>Rooms and fighters\<close>

definition MAX_DUEL :: nat where "MAX_DUEL = 1024"

record duel_room =
  members_count :: int
  invites_count :: int
  max_players_limit :: int

text \<open>The fields of a character duels use; \<open>last_duel\<close> is the registry entry \<open>PC_LAST_DUEL_TIME\<close>.\<close>

record fighter =
  duel_group :: int
  duel_invited :: int
  fighter_m :: int
  last_duel :: int

record arena =
  duel_list :: "duel_room list"
  duel_count :: int
  fighters :: "int \<Rightarrow> fighter option"

definition no_room :: duel_room where
  "no_room = \<lparr>members_count = 0, invites_count = 0, max_players_limit = 0\<rparr>"

definition duel_init :: "(int \<Rightarrow> fighter option) \<Rightarrow> arena" where
  "duel_init f = \<lparr>duel_list = replicate MAX_DUEL no_room, duel_count = 0, fighters = f\<rparr>"

abbreviation room :: "arena \<Rightarrow> int \<Rightarrow> duel_room" where
  "room w did \<equiv> duel_list w ! nat did"

definition set_room :: "int \<Rightarrow> (duel_room \<Rightarrow> duel_room) \<Rightarrow> arena \<Rightarrow> arena" where
  "set_room did g w = w\<lparr>duel_list := (duel_list w)[nat did := g (room w did)]\<rparr>"

definition set_fighter :: "int \<Rightarrow> (fighter \<Rightarrow> fighter) \<Rightarrow> arena \<Rightarrow> arena" where
  "set_fighter a g w = w\<lparr>fighters := (fighters w)(a := map_option g (fighters w a))\<rparr>"

section \<open>The operations of duel.c\<close>

definition duel_checktime :: "int \<Rightarrow> int \<Rightarrow> fighter \<Rightarrow> bool" where
  "duel_checktime now interval f = (let diff = now - last_duel f in \<not> (diff \<ge> 0 \<and> diff < interval))"

definition duel_create :: "int \<Rightarrow> int \<Rightarrow> arena \<Rightarrow> int \<times> arena" where
  "duel_create a maxpl w =
     (let i = 1 + arr_find (\<lambda>r. \<not> members_count r > 0) (drop 1 (duel_list w))
      in if i = MAX_DUEL then (0, w)
         else
           let w = w\<lparr>duel_count := duel_count w + 1\<rparr>;
               w = set_fighter a (\<lambda>f. f\<lparr>duel_group := int i\<rparr>) w;
               w = set_room (int i) (\<lambda>r. \<lparr>members_count = members_count r + 1, invites_count = 0, max_players_limit = to_int32 maxpl\<rparr>) w
           in (int i, w))"

definition duel_invite :: "int \<Rightarrow> int \<Rightarrow> arena \<Rightarrow> arena" where
  "duel_invite did target w =
     set_room did (\<lambda>r. r\<lparr>invites_count := invites_count r + 1\<rparr>) (set_fighter target (\<lambda>f. f\<lparr>duel_invited := did\<rparr>) w)"

definition duel_leave_sub :: "int \<Rightarrow> fighter \<Rightarrow> fighter" where
  "duel_leave_sub did f = (if duel_invited f = did then f\<lparr>duel_invited := 0\<rparr> else f)"

definition duel_leave :: "int \<Rightarrow> int \<Rightarrow> int \<Rightarrow> arena \<Rightarrow> arena" where
  "duel_leave now did a w =
     (let w = set_room did (\<lambda>r. r\<lparr>members_count := members_count r - 1\<rparr>) w;
          w = (if members_count (room w did) = 0
               then w\<lparr>fighters := \<lambda>b. map_option (duel_leave_sub did) (fighters w b), duel_count := duel_count w - 1\<rparr>
               else w)
      in set_fighter a (\<lambda>f. f\<lparr>duel_group := 0, last_duel := now\<rparr>) w)"

definition duel_accept :: "int \<Rightarrow> int \<Rightarrow> arena \<Rightarrow> arena" where
  "duel_accept did a w =
     (let w = set_room did (\<lambda>r. r\<lparr>members_count := members_count r + 1\<rparr>) w;
          w = set_fighter a (\<lambda>f. f\<lparr>duel_group := duel_invited f\<rparr>) w;
          w = set_room did (\<lambda>r. r\<lparr>invites_count := invites_count r - 1\<rparr>) w
      in set_fighter a (\<lambda>f. f\<lparr>duel_invited := 0\<rparr>) w)"

definition duel_reject :: "int \<Rightarrow> int \<Rightarrow> arena \<Rightarrow> arena" where
  "duel_reject did a w =
     set_fighter a (\<lambda>f. f\<lparr>duel_invited := 0\<rparr>) (set_room did (\<lambda>r. r\<lparr>invites_count := invites_count r - 1\<rparr>) w)"

section \<open>The commands\<close>

definition duel_full :: "duel_room \<Rightarrow> bool" where
  "duel_full r \<longleftrightarrow> max_players_limit r > 0 \<and> members_count r \<ge> max_players_limit r"

definition engaged :: "fighter \<Rightarrow> bool" where
  "engaged f \<longleftrightarrow> duel_group f > 0 \<or> duel_invited f > 0"

definition atcommand_invite :: "bool \<Rightarrow> int option \<Rightarrow> int \<Rightarrow> arena \<Rightarrow> bool \<times> arena" where
  "atcommand_invite same_map target a w =
     (case fighters w a of None \<Rightarrow> (False, w)
      | Some f \<Rightarrow>
        let did = duel_group f
        in if did = 0 then (False, w)
           else if duel_full (room w did) then (False, w)
           else (case target of None \<Rightarrow> (False, w)
             | Some t \<Rightarrow> (case fighters w t of None \<Rightarrow> (False, w)
               | Some tf \<Rightarrow>
                 if engaged tf then (False, w)
                 else if same_map \<and> fighter_m tf \<noteq> fighter_m f then (False, w)
                 else (True, duel_invite did t w))))"

text \<open>\<open>sscanf(message, "%12u", &maxpl)\<close>: white space, a sign and digits, twelve characters at most.\<close>

definition scan_digits :: "bytes \<Rightarrow> int" where
  "scan_digits ds = foldl (\<lambda>n d. 10 * n + (uint d - 48)) 0 ds"

definition scan_u12 :: "bytes \<Rightarrow> int option" where
  "scan_u12 s =
     (let s = take 12 (dropWhile isspace s);
          neg = (s \<noteq> [] \<and> hd s = 45);
          s = (if s \<noteq> [] \<and> (hd s = 45 \<or> hd s = 43) then tl s else s);
          ds = takeWhile isdigit s
      in if ds = [] then None
         else Some (to_uint32 (if neg then - scan_digits ds else scan_digits ds)))"

definition atcommand_duel :: "int \<Rightarrow> int \<Rightarrow> (bytes \<Rightarrow> int option) \<Rightarrow> bytes \<Rightarrow> int \<Rightarrow> arena \<Rightarrow> bool \<times> arena" where
  "atcommand_duel now interval nick2sd message a w =
     (case fighters w a of None \<Rightarrow> (False, w)
      | Some f \<Rightarrow>
        if duel_group f > 0 then (True, w)
        else if duel_invited f > 0 then (False, w)
        else if \<not> duel_checktime now interval f then (False, w)
        else if message \<noteq> []
        then (case scan_u12 message of
            Some maxpl \<Rightarrow>
              if maxpl < 2 \<or> maxpl > 65535 then (False, w)
              else (True, snd (duel_create a maxpl w))
          | None \<Rightarrow>
            (case nick2sd message of None \<Rightarrow> (False, w)
             | Some t \<Rightarrow>
               let (newduel, w) = duel_create a 2 w
               in if to_uint32 newduel = 4294967295 then (True, w)
                  else (case fighters w t of None \<Rightarrow> (False, w)
                    | Some tf \<Rightarrow> if engaged tf then (False, w) else (True, duel_invite newduel t w))))
        else (True, snd (duel_create a 0 w)))"

definition atcommand_leave :: "int \<Rightarrow> int \<Rightarrow> arena \<Rightarrow> bool \<times> arena" where
  "atcommand_leave now a w =
     (case fighters w a of None \<Rightarrow> (False, w)
      | Some f \<Rightarrow> if duel_group f \<le> 0 then (False, w) else (True, duel_leave now (duel_group f) a w))"

definition atcommand_accept :: "int \<Rightarrow> int \<Rightarrow> int \<Rightarrow> arena \<Rightarrow> bool \<times> arena" where
  "atcommand_accept now interval a w =
     (case fighters w a of None \<Rightarrow> (False, w)
      | Some f \<Rightarrow>
        if \<not> duel_checktime now interval f then (False, w)
        else if duel_invited f \<le> 0 then (False, w)
        else if duel_full (room w (duel_invited f)) then (False, w)
        else (True, duel_accept (duel_invited f) a w))"

definition atcommand_reject :: "int \<Rightarrow> arena \<Rightarrow> bool \<times> arena" where
  "atcommand_reject a w =
     (case fighters w a of None \<Rightarrow> (False, w)
      | Some f \<Rightarrow> if duel_invited f \<le> 0 then (False, w) else (True, duel_reject (duel_invited f) a w))"

text \<open>The calls of \<open>unit_remove_map\<close>, \<open>unit_free\<close> and \<open>pc_dead\<close>.\<close>

definition duel_remove_map :: "int \<Rightarrow> int \<Rightarrow> arena \<Rightarrow> arena" where
  "duel_remove_map now a w =
     (case fighters w a of None \<Rightarrow> w | Some f \<Rightarrow> if duel_group f > 0 then duel_leave now (duel_group f) a w else w)"

definition duel_free :: "int \<Rightarrow> arena \<Rightarrow> arena" where
  "duel_free a w =
     (case fighters w a of None \<Rightarrow> w | Some f \<Rightarrow> if duel_invited f > 0 then duel_reject (duel_invited f) a w else w)"

definition duel_dead :: "bool \<Rightarrow> int \<Rightarrow> int \<Rightarrow> arena \<Rightarrow> arena" where
  "duel_dead autoleave now a w = (if autoleave then duel_free a (duel_remove_map now a w) else w)"

definition duel_logout :: "int \<Rightarrow> int \<Rightarrow> arena \<Rightarrow> arena" where
  "duel_logout now a w = (let w = duel_free a (duel_remove_map now a w) in w\<lparr>fighters := (fighters w)(a := None)\<rparr>)"

section \<open>Who is where\<close>

definition in_group :: "arena \<Rightarrow> int \<Rightarrow> int set" where
  "in_group w i = {a. map_option duel_group (fighters w a) = Some i}"

definition asked_to :: "arena \<Rightarrow> int \<Rightarrow> int set" where
  "asked_to w i = {a. map_option duel_invited (fighters w a) = Some i}"

text \<open>The bookkeeping of the rooms agrees with the characters.\<close>

definition room_ok :: "arena \<Rightarrow> int \<Rightarrow> bool" where
  "room_ok w i \<longleftrightarrow> members_count (room w i) = int (card (in_group w i)) \<and>
     (in_group w i \<noteq> {} \<longrightarrow> invites_count (room w i) = int (card (asked_to w i))) \<and>
     (in_group w i = {} \<longrightarrow> asked_to w i = {}) \<and>
     (max_players_limit (room w i) > 0 \<longrightarrow> members_count (room w i) \<le> max_players_limit (room w i))"

definition fighter_ok :: "fighter \<Rightarrow> bool" where
  "fighter_ok f \<longleftrightarrow> 0 \<le> duel_group f \<and> duel_group f < int MAX_DUEL \<and> 0 \<le> duel_invited f \<and> duel_invited f < int MAX_DUEL \<and>
     (duel_group f = 0 \<or> duel_invited f = 0)"

definition arena_ok :: "arena \<Rightarrow> bool" where
  "arena_ok w \<longleftrightarrow> length (duel_list w) = MAX_DUEL \<and> finite (dom (fighters w)) \<and> (\<forall>i. 0 < i \<and> i < int MAX_DUEL \<longrightarrow> room_ok w i) \<and>
     (\<forall>a f. fighters w a = Some f \<longrightarrow> fighter_ok f) \<and>
     duel_count w = int (card {i. 0 < i \<and> i < int MAX_DUEL \<and> in_group w i \<noteq> {}})"

lemma sets_room [simp]: "in_group (set_room d g w) i = in_group w i" "asked_to (set_room d g w) i = asked_to w i"
  "fighters (set_room d g w) = fighters w" "duel_count (set_room d g w) = duel_count w"
  "length (duel_list (set_room d g w)) = length (duel_list w)"
  by (simp_all add: in_group_def asked_to_def set_room_def)

lemma sets_fighter:
  assumes "fighters w a = Some f"
  shows "in_group (set_fighter a g w) i = (if duel_group (g f) = i then insert a (in_group w i) else in_group w i - {a})"
    "asked_to (set_fighter a g w) i = (if duel_invited (g f) = i then insert a (asked_to w i) else asked_to w i - {a})"
  using assms by (auto simp: in_group_def asked_to_def set_fighter_def)

lemma fighter_other [simp]: "duel_list (set_fighter a g w) = duel_list w" "duel_count (set_fighter a g w) = duel_count w"
  by (simp_all add: set_fighter_def)

lemma room_set:
  assumes "length (duel_list w) = MAX_DUEL" "0 < d" "d < int MAX_DUEL" "0 < i" "i < int MAX_DUEL"
  shows "room (set_room d g w) i = (if i = d then g (room w d) else room w i)"
  using assms by (auto simp: set_room_def nth_list_update)

lemma finite_fighters: "finite (dom (fighters w)) \<Longrightarrow> finite (in_group w i) \<and> finite (asked_to w i)"
  by (intro conjI; rule finite_subset [of _ "dom (fighters w)"]) (auto simp: in_group_def asked_to_def)

lemma in_groupI: "fighters w a = Some f \<Longrightarrow> a \<in> in_group w i \<longleftrightarrow> duel_group f = i"
  "fighters w a = Some f \<Longrightarrow> a \<in> asked_to w i \<longleftrightarrow> duel_invited f = i"
  by (auto simp: in_group_def asked_to_def)

lemma members_pos: "room_ok w i \<Longrightarrow> finite (in_group w i) \<Longrightarrow> members_count (room w i) > 0 \<longleftrightarrow> in_group w i \<noteq> {}"
  by (auto simp: room_ok_def card_gt_0_iff)

text \<open>What a change of the rooms and the fighters has to keep.\<close>

lemma arena_okI:
  assumes "arena_ok w" "length (duel_list w') = MAX_DUEL" "finite (dom (fighters w'))"
    and "\<And>a f. fighters w' a = Some f \<Longrightarrow> fighter_ok f"
    and "\<And>i. 0 < i \<Longrightarrow> i < int MAX_DUEL \<Longrightarrow> i \<noteq> d \<Longrightarrow> room w' i = room w i \<and> in_group w' i = in_group w i \<and> asked_to w' i = asked_to w i"
    and "0 < d \<Longrightarrow> d < int MAX_DUEL \<Longrightarrow> room_ok w' d \<and>
      duel_count w' = duel_count w + of_bool (in_group w' d \<noteq> {}) - of_bool (in_group w d \<noteq> {})"
    and "\<not> (0 < d \<and> d < int MAX_DUEL) \<Longrightarrow> duel_count w' = duel_count w"
  shows "arena_ok w'"
proof -
  let ?act = "\<lambda>w. {i. 0 < i \<and> i < int MAX_DUEL \<and> in_group w i \<noteq> {}}"
  have ok: "room_ok w' i" if "0 < i" "i < int MAX_DUEL" for i
    using assms(1,6) assms(5) [of i] that by (cases "i = d") (auto simp: arena_ok_def room_ok_def)
  have fin: "finite (?act w)" for w by (rule finite_subset [of _ "{0..int MAX_DUEL}"]) auto
  have c: "duel_count w = int (card (?act w))" using assms(1) by (simp add: arena_ok_def)
  have "duel_count w' = int (card (?act w'))"
  proof (cases "0 < d \<and> d < int MAX_DUEL")
    case True
    have eq: "?act w' - {d} = ?act w - {d}" using assms(5) by auto
    have split: "int (card (?act v)) = int (card (?act v - {d})) + of_bool (in_group v d \<noteq> {})" for v
      using True fin [of v] card.remove [of "?act v" d] by (cases "in_group v d = {}") auto
    show ?thesis using assms(6) True split [of w] split [of w'] c unfolding eq by linarith
  next
    case False
    then have "?act w' = ?act w" using assms(5) by auto
    then show ?thesis using assms(7) False c by simp
  qed
  then show ?thesis using assms(2,3,4) ok by (simp add: arena_ok_def)
qed

lemma dom_set_fighter [simp]: "dom (fighters (set_fighter a g w)) = dom (fighters w)"
  by (auto simp: set_fighter_def dom_def)

lemma set_fighter_same: "fighters w a = Some f \<Longrightarrow> fighters (set_fighter a g w) a = Some (g f)"
  by (simp add: set_fighter_def)

lemma set_fighter_other: "b \<noteq> a \<Longrightarrow> fighters (set_fighter a g w) b = fighters w b"
  by (simp add: set_fighter_def)

lemma fighter_okD: "arena_ok w \<Longrightarrow> fighters w a = Some f \<Longrightarrow> fighter_ok f"
  by (simp add: arena_ok_def)

lemma set_fighter_ok:
  assumes "arena_ok w" "fighters w a = Some f" "fighter_ok (g f)" "fighters (set_fighter a g w) b = Some f'"
  shows "fighter_ok f'"
  using assms by (cases "b = a") (auto simp: set_fighter_def arena_ok_def)

lemma duel_create_ok:
  assumes "arena_ok w" "fighters w a = Some f" "duel_group f = 0" "duel_invited f = 0" "maxpl = 0 \<or> 1 \<le> maxpl \<and> maxpl < 65536"
  shows "arena_ok (snd (duel_create a maxpl w))"
    "fst (duel_create a maxpl w) \<noteq> 0 \<Longrightarrow> in_group (snd (duel_create a maxpl w)) (fst (duel_create a maxpl w)) = {a}"
    "0 \<le> fst (duel_create a maxpl w)" "fst (duel_create a maxpl w) < int MAX_DUEL"
proof -
  define j where "j = arr_find (\<lambda>r. \<not> members_count r > 0) (drop 1 (duel_list w))"
  define d where "d = int (1 + j)"
  have len: "length (duel_list w) = MAX_DUEL" and fin: "finite (dom (fighters w))" using assms(1) by (simp_all add: arena_ok_def)
  define w' where "w' = set_room d (\<lambda>r. \<lparr>members_count = members_count r + 1, invites_count = 0, max_players_limit = to_int32 maxpl\<rparr>)
    (set_fighter a (\<lambda>f. f\<lparr>duel_group := d\<rparr>) (w\<lparr>duel_count := duel_count w + 1\<rparr>))"
  have le: "j \<le> MAX_DUEL - 1" using arr_find_le [of _ "drop 1 (duel_list w)"] by (simp add: j_def len)
  have cr: "duel_create a maxpl w = (if d = int MAX_DUEL then (0, w) else (d, w'))"
    unfolding duel_create_def Let_def j_def [symmetric] by (auto simp: d_def w'_def)
  have "arena_ok (snd (duel_create a maxpl w)) \<and> (fst (duel_create a maxpl w) \<noteq> 0 \<longrightarrow>
    in_group (snd (duel_create a maxpl w)) (fst (duel_create a maxpl w)) = {a}) \<and>
    0 \<le> fst (duel_create a maxpl w) \<and> fst (duel_create a maxpl w) < int MAX_DUEL"
  proof (cases "d = int MAX_DUEL")
    case True
    then show ?thesis using assms(1) by (simp add: cr MAX_DUEL_def)
  next
    case False
    then have d: "0 < d" "d < int MAX_DUEL" using le by (auto simp: d_def MAX_DUEL_def)
    have j: "j < length (drop 1 (duel_list w))" using False le by (auto simp: d_def len MAX_DUEL_def)
    have "\<not> members_count (drop 1 (duel_list w) ! j) > 0" unfolding j_def by (rule arr_find_nth [OF j [unfolded j_def]])
    then have "\<not> members_count (room w d) > 0" using len nth_drop [of 1 "duel_list w" j] by (simp add: d_def nat_add_distrib MAX_DUEL_def)
    moreover have rd: "room_ok w d" using assms(1) d by (simp add: arena_ok_def)
    ultimately have e: "in_group w d = {}" using members_pos finite_fighters [OF fin] by blast
    then have e': "asked_to w d = {}" "members_count (room w d) = 0" using rd by (auto simp: room_ok_def)
    define v where "v = w\<lparr>duel_count := duel_count w + 1\<rparr>"
    have v: "fighters v a = Some f" "in_group v i = in_group w i" "asked_to v i = asked_to w i" "length (duel_list v) = MAX_DUEL" "room v i = room w i" for i
      using assms(2) len by (simp_all add: v_def in_group_def asked_to_def)
    have f0: "a \<notin> in_group w i" "a \<notin> asked_to w i" if "0 < i" for i
      using in_groupI [OF assms(2)] assms(3,4) that by auto
    have g: "in_group w' i = (if i = d then {a} else in_group w i)" "asked_to w' i = asked_to w i" if "0 < i" for i
      using that f0 [OF that] d assms(4) e by (auto simp: w'_def v_def [symmetric] sets_fighter [OF v(1)] v)
    have rm: "room w' i = (if i = d then \<lparr>members_count = members_count (room w d) + 1, invites_count = 0, max_players_limit = to_int32 maxpl\<rparr> else room w i)"
      if "0 < i" "i < int MAX_DUEL" for i
      unfolding w'_def v_def [symmetric] using room_set [of "set_fighter a (\<lambda>f. f\<lparr>duel_group := d\<rparr>) v" d i] that d v by auto
    have "room_ok w' d" using d g rm e' assms(5) by (auto simp: room_ok_def)
    moreover have "fighter_ok f'" if "fighters w' b = Some f'" for b f'
      using that assms(1-4) d by (cases "b = a") (auto simp: w'_def set_fighter_def fighter_ok_def arena_ok_def)
    moreover have "duel_count w' = duel_count w + 1" "length (duel_list w') = MAX_DUEL" by (simp_all add: w'_def len)
    moreover have "finite (dom (fighters w'))" using fin by (simp add: w'_def)
    ultimately have "arena_ok w'" using g rm d e by (intro arena_okI [OF assms(1), of w' d]) auto
    then show ?thesis using False d g by (simp add: cr)
  qed
  then show "arena_ok (snd (duel_create a maxpl w))"
    "fst (duel_create a maxpl w) \<noteq> 0 \<Longrightarrow> in_group (snd (duel_create a maxpl w)) (fst (duel_create a maxpl w)) = {a}"
    "0 \<le> fst (duel_create a maxpl w)" "fst (duel_create a maxpl w) < int MAX_DUEL" by auto
qed

text \<open>An operation on room \<open>d\<close> and fighter \<open>a\<close> alone.\<close>

lemma one_room:
  assumes "arena_ok w" "fighters w a = Some f" "fighter_ok (g f)"
    and "w' = set_fighter a g (set_room d h w)"
    and "\<And>i. 0 < i \<Longrightarrow> i \<noteq> d \<Longrightarrow> (duel_group (g f) = i \<longleftrightarrow> duel_group f = i) \<and> (duel_invited (g f) = i \<longleftrightarrow> duel_invited f = i)"
    and "0 < d \<Longrightarrow> d < int MAX_DUEL \<Longrightarrow> room w' d = h (room w d) \<Longrightarrow> room_ok w' d \<and> (in_group w' d = {} \<longleftrightarrow> in_group w d = {})"
  shows "arena_ok w'"
proof (rule arena_okI [OF assms(1), of w' d])
  have len: "length (duel_list w) = MAX_DUEL" using assms(1) by (simp add: arena_ok_def)
  have fs: "fighters (set_room d h w) a = Some f" using assms(2) by simp
  have rm: "room w' i = (if i = d then h (room w d) else room w i)" if "0 < d" "d < int MAX_DUEL" "0 < i" "i < int MAX_DUEL" for i
    unfolding assms(4) using room_set [of w d i h] that len by simp
  show "length (duel_list w') = MAX_DUEL" using len by (simp add: assms(4))
  show "finite (dom (fighters w'))" using assms(1) by (simp add: assms(4) arena_ok_def)
  show "fighter_ok f'" if "fighters w' b = Some f'" for b f'
    using that assms(1-4) by (cases "b = a") (auto simp: set_fighter_def arena_ok_def)
  show "room w' i = room w i \<and> in_group w' i = in_group w i \<and> asked_to w' i = asked_to w i"
    if "0 < i" "i < int MAX_DUEL" "i \<noteq> d" for i
  proof -
    have "room w' i = room w i"
    proof (cases "0 < d \<and> d < int MAX_DUEL")
      case False
      then have "nat d = 0 \<or> \<not> nat d < length (duel_list w)" using len by auto
      then show ?thesis using that by (auto simp: assms(4) set_room_def nth_list_update)
    qed (use rm that in auto)
    then show ?thesis
      using assms(5) [OF that(1,3)] in_groupI [OF assms(2), of i] by (auto simp: assms(4) sets_fighter [OF fs])
  qed
  show "room_ok w' d \<and> duel_count w' = duel_count w + of_bool (in_group w' d \<noteq> {}) - of_bool (in_group w d \<noteq> {})"
    if "0 < d" "d < int MAX_DUEL"
    using assms(6) [OF that rm [OF that that, simplified]] by (auto simp: assms(4))
  show "duel_count w' = duel_count w" by (simp add: assms(4))
qed

lemma room_fin: "arena_ok w \<Longrightarrow> finite (in_group w i) \<and> finite (asked_to w i)"
  using finite_fighters by (auto simp: arena_ok_def)

lemma room_okD: "arena_ok w \<Longrightarrow> 0 < i \<Longrightarrow> i < int MAX_DUEL \<Longrightarrow> room_ok w i"
  by (simp add: arena_ok_def)

lemma invite_ok:
  assumes "arena_ok w" "fighters w t = Some f" "duel_group f = 0" "duel_invited f = 0" "0 \<le> did" "did < int MAX_DUEL"
    "0 < did \<Longrightarrow> in_group w did \<noteq> {}"
  shows "arena_ok (duel_invite did t w)"
proof (rule one_room [OF assms(1,2), where d = did and g = "\<lambda>f. f\<lparr>duel_invited := did\<rparr>" and h = "\<lambda>r. r\<lparr>invites_count := invites_count r + 1\<rparr>"])
  show "fighter_ok (f\<lparr>duel_invited := did\<rparr>)" using assms(3,5,6) by (simp add: fighter_ok_def MAX_DUEL_def)
  show w': "duel_invite did t w = set_fighter t (\<lambda>f. f\<lparr>duel_invited := did\<rparr>) (set_room did (\<lambda>r. r\<lparr>invites_count := invites_count r + 1\<rparr>) w)"
    by (simp add: duel_invite_def set_room_def set_fighter_def)
  show "(duel_group (f\<lparr>duel_invited := did\<rparr>) = i) = (duel_group f = i) \<and> (duel_invited (f\<lparr>duel_invited := did\<rparr>) = i) = (duel_invited f = i)"
    if "0 < i" "i \<noteq> did" for i using that assms(4) by auto
  show "room_ok (duel_invite did t w) did \<and> (in_group (duel_invite did t w) did = {}) = (in_group w did = {})"
    if d: "0 < did" "did < int MAX_DUEL" and r: "room (duel_invite did t w) did = (room w did)\<lparr>invites_count := invites_count (room w did) + 1\<rparr>"
  proof -
    have n: "t \<notin> in_group w did" "t \<notin> asked_to w did" using in_groupI [OF assms(2)] assms(3,4) d by auto
    have "in_group (duel_invite did t w) did = in_group w did" "asked_to (duel_invite did t w) did = insert t (asked_to w did)"
      unfolding w' using sets_fighter [of "set_room did _ w", unfolded sets_room, OF assms(2)] n assms(3) d by auto
    then show ?thesis
      using room_okD [OF assms(1) d] room_fin [OF assms(1), of did] n assms(7) d r by (auto simp: room_ok_def)
  qed
qed

lemma reject_ok:
  assumes "arena_ok w" "fighters w a = Some f" "duel_invited f > 0"
  shows "arena_ok (duel_reject (duel_invited f) a w)"
proof (rule one_room [OF assms(1,2), where d = "duel_invited f" and g = "\<lambda>f. f\<lparr>duel_invited := 0\<rparr>"
      and h = "\<lambda>r. r\<lparr>invites_count := invites_count r - 1\<rparr>"])
  let ?d = "duel_invited f"
  have fo: "fighter_ok f" using fighter_okD [OF assms(1,2)] .
  then show "fighter_ok (f\<lparr>duel_invited := 0\<rparr>)" by (simp add: fighter_ok_def)
  show w': "duel_reject ?d a w = set_fighter a (\<lambda>f. f\<lparr>duel_invited := 0\<rparr>) (set_room ?d (\<lambda>r. r\<lparr>invites_count := invites_count r - 1\<rparr>) w)"
    by (simp add: duel_reject_def)
  show "(duel_group (f\<lparr>duel_invited := 0\<rparr>) = i) = (duel_group f = i) \<and> (duel_invited (f\<lparr>duel_invited := 0\<rparr>) = i) = (duel_invited f = i)"
    if "0 < i" "i \<noteq> ?d" for i using that by auto
  show "room_ok (duel_reject ?d a w) ?d \<and> (in_group (duel_reject ?d a w) ?d = {}) = (in_group w ?d = {})"
    if d: "0 < ?d" "?d < int MAX_DUEL" and r: "room (duel_reject ?d a w) ?d = (room w ?d)\<lparr>invites_count := invites_count (room w ?d) - 1\<rparr>"
  proof -
    have n: "a \<notin> in_group w ?d" "a \<in> asked_to w ?d" using in_groupI [OF assms(2)] fo d by (auto simp: fighter_ok_def)
    have "in_group (duel_reject ?d a w) ?d = in_group w ?d" "asked_to (duel_reject ?d a w) ?d = asked_to w ?d - {a}"
      unfolding w' using sets_fighter [of "set_room ?d _ w", unfolded sets_room, OF assms(2)] n fo d by (auto simp: fighter_ok_def)
    moreover have "int (card (asked_to w ?d - {a})) = int (card (asked_to w ?d)) - 1"
      using n room_fin [OF assms(1), of ?d] card.remove [of "asked_to w ?d" a] by auto
    moreover have "in_group w ?d \<noteq> {}" using room_okD [OF assms(1) d] n(2) by (auto simp: room_ok_def)
    ultimately show ?thesis using room_okD [OF assms(1) d] unfolding room_ok_def r by auto
  qed
qed

lemma set_room_twice: "set_room d h (set_room d h' w) = set_room d (\<lambda>r. h (h' r)) w"
  by (cases "nat d < length (duel_list w)") (simp_all add: set_room_def list_update_beyond)

lemma set_fighter_twice: "set_fighter a g (set_fighter a g' w) = set_fighter a (\<lambda>f. g (g' f)) w"
  by (simp add: set_fighter_def option.map_comp comp_def)

lemma set_room_fighter: "set_room d h (set_fighter a g w) = set_fighter a g (set_room d h w)"
  by (simp add: set_room_def set_fighter_def)

lemma accept_eq: "duel_accept d a w = set_fighter a (\<lambda>f. f\<lparr>duel_group := duel_invited f, duel_invited := 0\<rparr>)
    (set_room d (\<lambda>r. r\<lparr>members_count := members_count r + 1, invites_count := invites_count r - 1\<rparr>) w)"
  by (simp add: duel_accept_def Let_def set_room_twice set_room_fighter set_fighter_twice)

lemma accept_ok:
  assumes "arena_ok w" "fighters w a = Some f" "duel_invited f > 0" "\<not> duel_full (room w (duel_invited f))"
  shows "arena_ok (duel_accept (duel_invited f) a w)"
proof (rule one_room [OF assms(1,2), where d = "duel_invited f" and g = "\<lambda>f. f\<lparr>duel_group := duel_invited f, duel_invited := 0\<rparr>"
      and h = "\<lambda>r. r\<lparr>members_count := members_count r + 1, invites_count := invites_count r - 1\<rparr>"])
  let ?d = "duel_invited f" and ?g = "\<lambda>f. f\<lparr>duel_group := duel_invited f, duel_invited := 0\<rparr>"
  have fo: "fighter_ok f" using fighter_okD [OF assms(1,2)] .
  then show "fighter_ok (?g f)" by (auto simp: fighter_ok_def)
  show w': "duel_accept ?d a w = set_fighter a ?g (set_room ?d (\<lambda>r. r\<lparr>members_count := members_count r + 1, invites_count := invites_count r - 1\<rparr>) w)"
    by (rule accept_eq)
  show "(duel_group (?g f) = i) = (duel_group f = i) \<and> (duel_invited (?g f) = i) = (duel_invited f = i)"
    if "0 < i" "i \<noteq> ?d" for i using that fo assms(3) by (auto simp: fighter_ok_def)
  show "room_ok (duel_accept ?d a w) ?d \<and> (in_group (duel_accept ?d a w) ?d = {}) = (in_group w ?d = {})"
    if d: "0 < ?d" "?d < int MAX_DUEL"
      and r: "room (duel_accept ?d a w) ?d = (room w ?d)\<lparr>members_count := members_count (room w ?d) + 1, invites_count := invites_count (room w ?d) - 1\<rparr>"
  proof -
    have n: "a \<notin> in_group w ?d" "a \<in> asked_to w ?d" using in_groupI [OF assms(2)] fo d by (auto simp: fighter_ok_def)
    have "in_group (duel_accept ?d a w) ?d = insert a (in_group w ?d)" "asked_to (duel_accept ?d a w) ?d = asked_to w ?d - {a}"
      unfolding w' using sets_fighter [of "set_room ?d _ w", unfolded sets_room, OF assms(2)] n fo d by (auto simp: fighter_ok_def)
    moreover have "int (card (insert a (in_group w ?d))) = int (card (in_group w ?d)) + 1" "int (card (asked_to w ?d - {a})) = int (card (asked_to w ?d)) - 1"
      using n room_fin [OF assms(1), of ?d] card.remove [of "asked_to w ?d" a] by auto
    moreover have "in_group w ?d \<noteq> {}" using room_okD [OF assms(1) d] n(2) by (auto simp: room_ok_def)
    ultimately show ?thesis
      using room_okD [OF assms(1) d] assms(4) unfolding room_ok_def duel_full_def r by auto
  qed
qed

lemma duel_leave_ok:
  assumes "arena_ok w" "fighters w a = Some f" "duel_group f > 0"
  shows "arena_ok (duel_leave now (duel_group f) a w)"
proof -
  let ?d = "duel_group f"
  have fo: "fighter_ok f" using fighter_okD [OF assms(1,2)] .
  then have d: "0 < ?d" "?d < int MAX_DUEL" and f0: "duel_invited f = 0" using assms(3) by (auto simp: fighter_ok_def)
  define v where "v = set_room ?d (\<lambda>r. r\<lparr>members_count := members_count r - 1\<rparr>) w"
  define g :: "fighter \<Rightarrow> fighter" where "g = (\<lambda>f. f\<lparr>duel_group := 0, last_duel := now\<rparr>)"
  define w' where "w' = duel_leave now ?d a w"
  have len: "length (duel_list w) = MAX_DUEL" and fin: "finite (dom (fighters w))" using assms(1) by (simp_all add: arena_ok_def)
  have rv: "room v i = (if i = ?d then (room w ?d)\<lparr>members_count := members_count (room w ?d) - 1\<rparr> else room w i)"
    if "0 < i" "i < int MAX_DUEL" for i unfolding v_def using room_set [OF len d that] by simp
  have ro: "room_ok w ?d" using room_okD [OF assms(1) d] .
  have mem: "a \<in> in_group w ?d" using in_groupI [OF assms(2)] by simp
  have c: "int (card (in_group w ?d - {a})) = int (card (in_group w ?d)) - 1"
    using mem room_fin [OF assms(1), of ?d] card.remove [of "in_group w ?d" a] by auto
  define empty where "empty \<longleftrightarrow> in_group w ?d = {a}"
  have "members_count (room v ?d) = 0 \<longleftrightarrow> in_group w ?d - {a} = {}"
  proof -
    have "members_count (room v ?d) = int (card (in_group w ?d - {a}))" unfolding c rv [OF d] using ro by (simp add: room_ok_def)
    then show ?thesis using room_fin [OF assms(1), of ?d] by simp
  qed
  then have e: "members_count (room v ?d) = 0 \<longleftrightarrow> empty" using mem by (auto simp: empty_def)
  define u where "u = (if empty then v\<lparr>fighters := \<lambda>b. map_option (duel_leave_sub ?d) (fighters v b), duel_count := duel_count v - 1\<rparr> else v)"
  have w': "w' = set_fighter a g u"
    unfolding w'_def duel_leave_def Let_def v_def [symmetric] e u_def g_def ..
  have ua: "fighters u a = Some f" using assms(2) f0 d by (simp add: u_def v_def duel_leave_sub_def)
  have rm: "room w' i = room v i" for i by (simp add: w' u_def)
  have "duel_group (duel_leave_sub ?d f) = duel_group f" for f by (simp add: duel_leave_sub_def)
  then have gu: "in_group u i = in_group w i" for i
    by (auto simp: u_def v_def in_group_def set_room_def)
  have au: "asked_to u i = (if empty \<and> i = ?d then {} else asked_to w i)" if "0 < i" for i
    using that by (auto simp: u_def v_def asked_to_def duel_leave_sub_def set_room_def split: if_splits)
  have gw: "in_group w' i = (if i = ?d then in_group w ?d - {a} else in_group w i)" if "0 < i" for i
    using that in_groupI [OF assms(2), of i] unfolding w' sets_fighter [OF ua] gu by (auto simp: g_def)
  have aw: "asked_to w' i = (if empty \<and> i = ?d then {} else asked_to w i)" if "0 < i" for i
    using that in_groupI [OF assms(2), of i] f0 unfolding w' sets_fighter [OF ua] au [OF that] by (auto simp: g_def)
  have "arena_ok w'"
  proof (rule arena_okI [OF assms(1), of w' ?d])
    show "length (duel_list w') = MAX_DUEL" by (simp add: w' u_def v_def len)
    have "dom (fighters u) = dom (fighters w)" by (auto simp: u_def v_def dom_def)
    then show "finite (dom (fighters w'))" using fin by (simp add: w')
    show "fighter_ok f'" if "fighters w' b = Some f'" for b f'
      using that fo assms(1) by (cases "b = a")
        (auto simp: w' set_fighter_def g_def ua fighter_ok_def u_def v_def duel_leave_sub_def arena_ok_def split: if_splits)
    show "room w' i = room w i \<and> in_group w' i = in_group w i \<and> asked_to w' i = asked_to w i"
      if "0 < i" "i < int MAX_DUEL" "i \<noteq> ?d" for i
      using that by (simp add: rm rv gw aw)
    have "room_ok w' ?d" using ro c unfolding room_ok_def rm gw [OF d(1)] aw [OF d(1)] rv [OF d] by (auto simp: empty_def)
    moreover have "duel_count w' = duel_count w - of_bool empty" by (simp add: w' u_def v_def)
    ultimately show "room_ok w' ?d \<and> duel_count w' = duel_count w + of_bool (in_group w' ?d \<noteq> {}) - of_bool (in_group w ?d \<noteq> {})"
      using mem by (auto simp: gw [OF d(1)] empty_def)
    show "duel_count w' = duel_count w" if "\<not> (0 < ?d \<and> ?d < int MAX_DUEL)" using that d by simp
  qed
  then show ?thesis by (simp add: w'_def)
qed

lemma gone_ok:
  assumes "arena_ok w" "fighters w a = Some f" "duel_group f = 0" "duel_invited f = 0"
  shows "arena_ok (w\<lparr>fighters := (fighters w)(a := None)\<rparr>)"
proof (rule arena_okI [OF assms(1), of _ 0])
  let ?w = "w\<lparr>fighters := (fighters w)(a := None)\<rparr>"
  show "room ?w i = room w i \<and> in_group ?w i = in_group w i \<and> asked_to ?w i = asked_to w i" if "0 < i" for i
    using that assms(2-4) by (auto simp: in_group_def asked_to_def)
qed (use assms(1) in \<open>auto simp: arena_ok_def split: if_splits\<close>)

lemma appear_ok:
  assumes "arena_ok w" "duel_group f = 0" "duel_invited f = 0" "\<forall>f'. fighters w a = Some f' \<longrightarrow> duel_group f' = 0 \<and> duel_invited f' = 0"
  shows "arena_ok (w\<lparr>fighters := (fighters w)(a \<mapsto> f)\<rparr>)"
proof (rule arena_okI [OF assms(1), of _ 0])
  let ?w = "w\<lparr>fighters := (fighters w)(a \<mapsto> f)\<rparr>"
  show "room ?w i = room w i \<and> in_group ?w i = in_group w i \<and> asked_to ?w i = asked_to w i" if "0 < i" for i
    using that assms(2-4) by (auto simp: in_group_def asked_to_def split: if_splits)
  show "fighter_ok f'" if "fighters ?w b = Some f'" for b f'
    using that assms by (auto simp: fighter_ok_def arena_ok_def MAX_DUEL_def split: if_splits)
qed (use assms(1) in \<open>auto simp: arena_ok_def\<close>)

lemma moved_ok:
  assumes "arena_ok w" "fighters w a = Some f"
  shows "arena_ok (set_fighter a (\<lambda>f. f\<lparr>fighter_m := k\<rparr>) w)"
proof (rule arena_okI [OF assms(1), of _ 0])
  let ?w = "set_fighter a (\<lambda>f. f\<lparr>fighter_m := k\<rparr>) w"
  show "room ?w i = room w i \<and> in_group ?w i = in_group w i \<and> asked_to ?w i = asked_to w i" for i
    using assms(2) by (auto simp: in_group_def asked_to_def set_fighter_def)
  show "fighter_ok f'" if "fighters ?w b = Some f'" for b f'
    using fighter_okD [OF assms] by (intro set_fighter_ok [OF assms _ that]) (simp add: fighter_ok_def)
qed (use assms(1) in \<open>auto simp: arena_ok_def\<close>)

section \<open>The arena as the players drive it\<close>

text \<open>
  Any player gives any of the commands, dies, changes the map, logs out or comes in, in any
  order; names may stand for any character.
\<close>

inductive duel_step :: "arena \<Rightarrow> arena \<Rightarrow> bool" where
  duel: "duel_step w (snd (atcommand_duel now interval nick2sd message a w))"
| invite: "duel_step w (snd (atcommand_invite same_map target a w))"
| accept: "duel_step w (snd (atcommand_accept now interval a w))"
| reject: "duel_step w (snd (atcommand_reject a w))"
| leave: "duel_step w (snd (atcommand_leave now a w))"
| dead: "duel_step w (duel_dead autoleave now a w)"
| warp: "duel_step w (set_fighter a (\<lambda>f. f\<lparr>fighter_m := k\<rparr>) (duel_remove_map now a w))"
| logout: "duel_step w (duel_logout now a w)"
| login: "fighters w a = None \<Longrightarrow> duel_group f = 0 \<Longrightarrow> duel_invited f = 0 \<Longrightarrow> duel_step w (w\<lparr>fighters := (fighters w)(a \<mapsto> f)\<rparr>)"

inductive duel_reach :: "arena \<Rightarrow> bool" where
  start: "duel_reach (duel_init (\<lambda>_. None))"
| step: "duel_reach w \<Longrightarrow> duel_step w w' \<Longrightarrow> duel_reach w'"

lemma leave_fighter:
  "fighters w a = Some f \<Longrightarrow> \<exists>f'. fighters (duel_leave now d a w) a = Some f' \<and> duel_group f' = 0"
  by (simp add: duel_leave_def Let_def set_fighter_def)

lemma remove_map_ok:
  assumes "arena_ok w" "fighters w a = Some f"
  shows "arena_ok (duel_remove_map now a w)" "\<exists>f'. fighters (duel_remove_map now a w) a = Some f' \<and> duel_group f' = 0"
proof -
  have "0 \<le> duel_group f" using fighter_okD [OF assms] by (simp add: fighter_ok_def)
  then show "arena_ok (duel_remove_map now a w)" "\<exists>f'. fighters (duel_remove_map now a w) a = Some f' \<and> duel_group f' = 0"
    using assms duel_leave_ok [OF assms] leave_fighter [OF assms(2)] by (auto simp: duel_remove_map_def)
qed

lemma free_ok:
  assumes "arena_ok w" "fighters w a = Some f"
  shows "arena_ok (duel_free a w)" "fighters (duel_free a w) a = Some (f\<lparr>duel_invited := 0\<rparr>)"
proof -
  have "0 \<le> duel_invited f" using fighter_okD [OF assms] by (simp add: fighter_ok_def)
  then show "arena_ok (duel_free a w)" "fighters (duel_free a w) a = Some (f\<lparr>duel_invited := 0\<rparr>)"
    using assms reject_ok [OF assms] by (auto simp: duel_free_def duel_reject_def set_fighter_def)
qed

lemma nobody: "fighters w a = None \<Longrightarrow> duel_remove_map now a w = w" "fighters w a = None \<Longrightarrow> duel_free a w = w"
  by (simp_all add: duel_remove_map_def duel_free_def)

lemma away_ok:
  assumes "arena_ok w"
  shows "arena_ok (duel_remove_map now a w)" "arena_ok (duel_free a (duel_remove_map now a w))"
proof -
  show 1: "arena_ok (duel_remove_map now a w)" using assms remove_map_ok(1) [OF assms] nobody(1) by (cases "fighters w a") auto
  show "arena_ok (duel_free a (duel_remove_map now a w))"
    using 1 free_ok(1) [OF 1] nobody(2) by (cases "fighters (duel_remove_map now a w) a") auto
qed

lemma logout_ok:
  assumes "arena_ok w"
  shows "arena_ok (duel_logout now a w)"
proof (cases "fighters w a")
  case None
  then have "w\<lparr>fighters := (fighters w)(a := None)\<rparr> = w" by (simp add: fun_upd_idem)
  then show ?thesis using assms None by (simp add: duel_logout_def nobody Let_def)
next
  case (Some f)
  obtain f' where f': "fighters (duel_remove_map now a w) a = Some f'" "duel_group f' = 0"
    using remove_map_ok(2) [OF assms Some] by auto
  note ok = away_ok [OF assms, where now = now and a = a]
  show ?thesis using gone_ok [OF ok(2) free_ok(2) [OF ok(1) f'(1)]] f'(2) by (simp add: duel_logout_def Let_def)
qed

lemma atcommand_duel_ok:
  assumes "arena_ok w"
  shows "arena_ok (snd (atcommand_duel now interval nick2sd message a w))"
proof (cases "fighters w a")
  case (Some f)
  have fo: "fighter_ok f" using fighter_okD [OF assms Some] .
  show ?thesis
  proof (cases "duel_group f > 0 \<or> duel_invited f > 0")
    case False
    then have f0: "duel_group f = 0" "duel_invited f = 0" using fo by (auto simp: fighter_ok_def)
    note cr = duel_create_ok [OF assms Some f0]
    show ?thesis
    proof (cases "scan_u12 message = None \<and> message \<noteq> []")
      case True
      obtain d w1 where c: "duel_create a 2 w = (d, w1)" by fastforce
      have inv: "arena_ok (duel_invite d t w1)" if "fighters w1 t = Some tf" "\<not> engaged tf" for t tf
        using cr [of 2] c fighter_okD [OF _ that(1)] that by (intro invite_ok [OF _ that(1)]) (auto simp: engaged_def fighter_ok_def)
      show ?thesis using assms cr(1) [of 2] inv True
        by (auto simp: atcommand_duel_def Some c split: option.splits)
    next
      case f: False
      then show ?thesis using assms cr(1)
        by (auto simp: atcommand_duel_def Some split: option.splits)
    qed
  qed (use assms in \<open>auto simp: atcommand_duel_def Some\<close>)
qed (use assms in \<open>simp add: atcommand_duel_def\<close>)

lemma atcommand_invite_ok:
  assumes "arena_ok w"
  shows "arena_ok (snd (atcommand_invite same_map target a w))"
proof (cases "fighters w a")
  case (Some f)
  have fo: "fighter_ok f" using fighter_okD [OF assms Some] .
  have "arena_ok (duel_invite (duel_group f) t w)" if "fighters w t = Some tf" "\<not> engaged tf" for t tf
    using fighter_okD [OF assms that(1)] that fo in_groupI(1) [OF Some, of "duel_group f"]
    by (intro invite_ok [OF assms that(1)]) (auto simp: engaged_def fighter_ok_def)
  then show ?thesis using assms by (auto simp: atcommand_invite_def Some Let_def split: option.splits)
qed (use assms in \<open>simp add: atcommand_invite_def\<close>)

lemma duel_step_ok:
  assumes "duel_step w w'" "arena_ok w"
  shows "arena_ok w'"
  using assms
proof (cases rule: duel_step.cases)
  case (accept now interval a)
  then show ?thesis using assms(2) accept_ok [OF assms(2)] by (auto simp: atcommand_accept_def split: option.splits)
next
  case (reject a)
  then show ?thesis using assms(2) reject_ok [OF assms(2)] by (auto simp: atcommand_reject_def split: option.splits)
next
  case (leave now a)
  then show ?thesis using assms(2) duel_leave_ok [OF assms(2)] by (auto simp: atcommand_leave_def split: option.splits)
next
  case (dead autoleave now a)
  then show ?thesis using assms(2) away_ok(2) [OF assms(2)] by (simp add: duel_dead_def)
next
  case (warp a k now)
  have "arena_ok (duel_remove_map now a w)" by (rule away_ok [OF assms(2)])
  then show ?thesis using moved_ok unfolding warp
    by (cases "fighters (duel_remove_map now a w) a") (auto simp: set_fighter_def fun_upd_idem)
next
  case (login a f)
  then show ?thesis using appear_ok [OF assms(2)] by simp
qed (use assms(2) atcommand_duel_ok atcommand_invite_ok logout_ok in auto)

lemma duel_init_ok: "arena_ok (duel_init (\<lambda>_. None))"
  by (auto simp: arena_ok_def duel_init_def room_ok_def in_group_def asked_to_def no_room_def nat_less_iff)

lemma duel_reach_ok: "duel_reach w \<Longrightarrow> arena_ok w"
  by (induction rule: duel_reach.induct) (auto intro: duel_init_ok duel_step_ok)

text \<open>
  C10. The duels always add up. Whatever the players do, in whatever order, each of the 1023 rooms
  has as many members as there are characters in it, and as many open invitations as there are
  characters invited to it while it is in use; nobody is invited to an empty room; a limit of
  players is never exceeded; nobody is in a duel and invited to one at once; and the number of
  duels is the number of rooms in use.
\<close>

theorem duels_consistent:
  assumes "duel_reach w" "0 < i" "i < int MAX_DUEL"
  shows "members_count (room w i) = int (card (in_group w i)) \<and>
    (in_group w i \<noteq> {} \<longrightarrow> invites_count (room w i) = int (card (asked_to w i))) \<and>
    (in_group w i = {} \<longrightarrow> asked_to w i = {}) \<and>
    (max_players_limit (room w i) > 0 \<longrightarrow> int (card (in_group w i)) \<le> max_players_limit (room w i)) \<and>
    (\<forall>a \<in> asked_to w i. a \<in> in_group w 0) \<and>
    duel_count w = int (card {k. 0 < k \<and> k < int MAX_DUEL \<and> in_group w k \<noteq> {}})"
proof -
  have ok: "arena_ok w" by (rule duel_reach_ok [OF assms(1)])
  have "a \<in> in_group w 0" if "a \<in> asked_to w i" for a
    using that assms(2) fighter_okD [OF ok, of a] by (auto simp: asked_to_def in_group_def fighter_ok_def)
  then show ?thesis using room_okD [OF ok assms(2,3)] ok by (auto simp: room_ok_def arena_ok_def)
qed

text \<open>Character 1 opens a duel for two, invites 2 and 3; 2 accepts and 3 cannot any more.\<close>

definition free_fighter :: fighter where
  "free_fighter = \<lparr>duel_group = 0, duel_invited = 0, fighter_m = 0, last_duel = 0\<rparr>"

definition three :: arena where
  "three = duel_init [1 \<mapsto> free_fighter, 2 \<mapsto> free_fighter, 3 \<mapsto> free_fighter]"

definition bout :: arena where
  "bout =
     (let w = snd (atcommand_duel 100 60 (\<lambda>_. None) (lit ''2'') 1 three);
          w = snd (atcommand_invite False (Some 2) 1 w);
          w = snd (atcommand_invite False (Some 3) 1 w);
          w = snd (atcommand_accept 100 60 2 w)
      in snd (atcommand_accept 100 60 3 w))"

lemma bout_reach: "duel_reach bout"
proof -
  let ?i = "duel_init (\<lambda>_. None)"
  let ?w1 = "?i\<lparr>fighters := (fighters ?i)(1 \<mapsto> free_fighter)\<rparr>"
  let ?w2 = "?w1\<lparr>fighters := (fighters ?w1)(2 \<mapsto> free_fighter)\<rparr>"
  have "duel_reach ?w1" by (intro duel_reach.step [OF duel_reach.start] duel_step.login) (simp_all add: duel_init_def free_fighter_def)
  then have "duel_reach ?w2" by (rule duel_reach.step, intro duel_step.login) (simp_all add: duel_init_def free_fighter_def)
  then have "duel_reach (?w2\<lparr>fighters := (fighters ?w2)(3 \<mapsto> free_fighter)\<rparr>)"
    by (rule duel_reach.step, intro duel_step.login) (simp_all add: duel_init_def free_fighter_def)
  moreover have "?w2\<lparr>fighters := (fighters ?w2)(3 \<mapsto> free_fighter)\<rparr> = three" by (simp add: three_def duel_init_def)
  ultimately have "duel_reach three" by simp
  then show ?thesis unfolding bout_def Let_def
    by (intro duel_reach.step [OF _ duel_step.accept] duel_reach.step [OF _ duel_step.invite] duel_reach.step [OF _ duel_step.duel])
qed

theorem duels_consistent_witness:
  "members_count (room bout 1) = 2 \<and> card (in_group bout 1) = 2 \<and> invites_count (room bout 1) = 1 \<and> card (asked_to bout 1) = 1"
proof -
  have v: "members_count (room bout 1) = 2" "invites_count (room bout 1) = 1" by code_simp+
  then have "in_group bout 1 \<noteq> {}" using duels_consistent [OF bout_reach, of 1] by (auto simp: MAX_DUEL_def)
  then show ?thesis using duels_consistent [OF bout_reach, of 1] v by (simp add: MAX_DUEL_def)
qed

text \<open>
  C39. When all 1023 rooms are in use, \<open>@duel name\<close> reports that the invitation has been sent, but
  opens no duel and invites nobody: \<open>duel_create\<close> answers 0 where the command tests for -1, and
  room 0 is used.
\<close>

theorem duel_without_room:
  assumes "length (duel_list w) = MAX_DUEL" "\<forall>r \<in> set (drop 1 (duel_list w)). members_count r > 0"
    and "fighters w a = Some f" "\<not> engaged f" "duel_checktime now interval f"
    and "message \<noteq> []" "scan_u12 message = None" "nick2sd message = Some t" "fighters w t = Some tf" "duel_group tf = 0" "duel_invited tf = 0"
  shows "fst (atcommand_duel now interval nick2sd message a w) \<and>
    fighters (snd (atcommand_duel now interval nick2sd message a w)) = fighters w \<and>
    duel_count (snd (atcommand_duel now interval nick2sd message a w)) = duel_count w"
proof -
  have "arr_find (\<lambda>r. \<not> members_count r > 0) (drop 1 (duel_list w)) = length (drop 1 (duel_list w))"
    using assms(2) by (subst arr_find_eq_length_iff) auto
  then have c: "duel_create a 2 w = (0, w)" using assms(1) by (simp add: duel_create_def Let_def MAX_DUEL_def)
  have "tf\<lparr>duel_invited := 0\<rparr> = tf" using assms(11) by (cases tf) simp
  then have "fighters (duel_invite 0 t w) = fighters w" using assms(9) by (simp add: duel_invite_def set_fighter_def fun_upd_idem)
  moreover have "duel_count (duel_invite 0 t w) = duel_count w" by (simp add: duel_invite_def)
  ultimately show ?thesis
    using assms(3-11) c by (auto simp: atcommand_duel_def engaged_def to_uint32_def)
qed

definition crowded :: arena where
  "crowded = \<lparr>duel_list = replicate MAX_DUEL \<lparr>members_count = 1, invites_count = 0, max_players_limit = 2\<rparr>, duel_count = 1023,
     fighters = \<lambda>a. if 1 \<le> a \<and> a \<le> 1023 then Some (free_fighter\<lparr>duel_group := a\<rparr>) else if a < 1026 then Some free_fighter else None\<rparr>"

theorem duel_without_room_witness:
  "fst (atcommand_duel 100 60 (\<lambda>_. Some 1025) (lit ''Ann'') 1024 crowded) \<and>
   fighters (snd (atcommand_duel 100 60 (\<lambda>_. Some 1025) (lit ''Ann'') 1024 crowded)) 1025 = Some free_fighter"
proof -
  have n: "scan_u12 (lit ''Ann'') = None" "lit ''Ann'' \<noteq> []" by code_simp+
  show ?thesis
    using duel_without_room [of crowded 1024 free_fighter 100 60 "lit ''Ann''" "\<lambda>_. Some 1025" 1025 free_fighter] n
    by (simp add: crowded_def free_fighter_def engaged_def duel_checktime_def)
qed

end
