(* ===== verification/Chat.thy ===== *)
theory Chat
  imports Strlib Inventory
begin

text \<open>
  Chat rooms, \<open>src/map/chat.c\<close>: rooms of players and waiting rooms of NPCs, with the allocation
  of object ids of \<open>src/map/map.c\<close>. Messages to clients and the block lists of the maps are left
  out, and so is the step onto a warp portal a character makes when it was the last to leave its
  room: it moves the character, which the state machine below allows at any time. The events a
  waiting room triggers are collected in a list; the scripts they run are not modelled.
\<close>

section \<open>Rooms and members\<close>

definition MAX_CHAT_USERS :: nat where "MAX_CHAT_USERS = 20"
definition MAX_LEVEL :: int where "MAX_LEVEL = 175"
definition NAME_LENGTH :: nat where "NAME_LENGTH = 24"
definition CHATROOM_TITLE_SIZE :: nat where "CHATROOM_TITLE_SIZE = 37"
definition CHATROOM_PASS_SIZE :: nat where "CHATROOM_PASS_SIZE = 9"
definition EVENT_NAME_LENGTH :: nat where "EVENT_NAME_LENGTH = 51"
definition MIN_FLOORITEM :: int where "MIN_FLOORITEM = 2"
definition MAX_FLOORITEM :: int where "MAX_FLOORITEM = 2000000"

text \<open>The owner of a room, a block list of the type \<open>BL_PC\<close> or \<open>BL_NPC\<close>.\<close>

datatype chat_owner = BL_PC int | BL_NPC int

fun is_npc :: "chat_owner \<Rightarrow> bool" where
  "is_npc (BL_NPC n) = True"
| "is_npc (BL_PC a) = False"

text \<open>\<open>usersd\<close> is the array of pointers to the members, by account here; 0 is \<open>NULL\<close>.\<close>

record chat_data =
  cd_m :: int
  cd_x :: int
  cd_y :: int
  cd_title :: bytes
  cd_pass :: bytes
  cd_pub :: bool
  cd_users :: nat
  cd_limit :: int
  cd_trigger :: int
  cd_zeny :: int
  cd_min_level :: int
  cd_max_level :: int
  cd_usersd :: "int list"
  cd_owner :: chat_owner
  cd_npc_event :: bytes
  cd_kick_list :: "int list option"

record chatter =
  ch_name :: bytes
  ch_char_id :: int
  ch_level :: int
  ch_zeny :: int
  ch_vending :: bool
  ch_buyingstore :: bool
  ch_join_all :: bool
  ch_no_kick :: bool
  ch_m :: int
  ch_x :: int
  ch_y :: int
  ch_chat_id :: int

record npc_host =
  np_m :: int
  np_x :: int
  np_y :: int
  np_chat_id :: int

text \<open>\<open>objects\<close> are the ids of all other objects in \<open>map->id_db\<close>, \<open>fired\<close> the events so far.\<close>

record plaza =
  chats :: "int \<Rightarrow> chat_data option"
  chatters :: "int \<Rightarrow> chatter option"
  hosts :: "int \<Rightarrow> npc_host option"
  objects :: "int \<Rightarrow> bool"
  last_object_id :: int
  fired :: "bytes list"

definition members :: "chat_data \<Rightarrow> int list" where
  "members cd = take (cd_users cd) (cd_usersd cd)"

definition set_chat_id :: "int \<Rightarrow> int \<Rightarrow> plaza \<Rightarrow> plaza" where
  "set_chat_id a c w = w\<lparr>chatters := (chatters w)(a := map_option (\<lambda>p. p\<lparr>ch_chat_id := c\<rparr>) (chatters w a))\<rparr>"

definition set_chat :: "int \<Rightarrow> chat_data option \<Rightarrow> plaza \<Rightarrow> plaza" where
  "set_chat c cd w = w\<lparr>chats := (chats w)(c := cd)\<rparr>"

text \<open>\<open>strncmp(a, b, n) == 0\<close> for strings without their final zero.\<close>

definition same_to :: "nat \<Rightarrow> bytes \<Rightarrow> bytes \<Rightarrow> bool" where
  "same_to n a b \<longleftrightarrow> take n a = take n b"

section \<open>Object ids\<close>

text \<open>
  The search for a free id. From the first call on, when the cursor is one below the lowest id, the
  loop has no end if all ids are taken: \<open>None\<close>.
\<close>

partial_function (option) id_loop :: "(int \<Rightarrow> bool) \<Rightarrow> int \<Rightarrow> int \<Rightarrow> int option" where
  "id_loop taken cursor i =
     (if i = cursor then Some i
      else
        let i = (if i = MAX_FLOORITEM then MIN_FLOORITEM else i)
        in if \<not> taken i then Some i else id_loop taken cursor (i + 1))"

declare id_loop.simps [code]

text \<open>The id, 0 for none, and the new cursor.\<close>

definition map_get_new_object_id :: "(int \<Rightarrow> bool) \<Rightarrow> int \<Rightarrow> (int \<times> int) option" where
  "map_get_new_object_id taken cursor =
     map_option (\<lambda>i. if i = cursor then (0, cursor) else (i, i)) (id_loop taken cursor (cursor + 1))"

section \<open>Creating a room\<close>

text \<open>\<open>min(limit, ARRAYLENGTH(cd->usersd))\<close>, a comparison of unsigned numbers.\<close>

definition chat_limit :: "int \<Rightarrow> int" where
  "chat_limit limit = (if 0 \<le> limit \<and> limit < int MAX_CHAT_USERS then limit else int MAX_CHAT_USERS)"

definition chat_createchat ::
  "int \<times> int \<times> int \<Rightarrow> chat_owner \<Rightarrow> bytes \<Rightarrow> bytes \<Rightarrow> int \<Rightarrow> bool \<Rightarrow> int \<Rightarrow> bytes \<Rightarrow> int \<Rightarrow> int \<Rightarrow> int \<Rightarrow> plaza \<Rightarrow> (int \<times> plaza) option" where
  "chat_createchat pos owner title pass limit pub trigger ev zeny min_level max_level w =
     (case map_get_new_object_id (\<lambda>i. objects w i \<or> chats w i \<noteq> None) (last_object_id w) of
        None \<Rightarrow> None
      | Some (c, cursor) \<Rightarrow>
        let w = w\<lparr>last_object_id := cursor\<rparr>;
            cd = \<lparr>cd_m = fst pos, cd_x = fst (snd pos), cd_y = snd (snd pos),
              cd_title = strlib_safestrncpy title CHATROOM_TITLE_SIZE, cd_pass = strlib_safestrncpy pass CHATROOM_PASS_SIZE,
              cd_pub = pub, cd_users = 0, cd_limit = to_uint8 (chat_limit limit), cd_trigger = to_uint8 trigger,
              cd_zeny = to_uint32 zeny, cd_min_level = min_level, cd_max_level = max_level,
              cd_usersd = replicate MAX_CHAT_USERS 0, cd_owner = owner,
              cd_npc_event = strlib_safestrncpy ev EVENT_NAME_LENGTH,
              cd_kick_list = (if is_npc owner then None else Some [])\<rparr>
        in if c = 0 then Some (0, w) else Some (c, set_chat c (Some cd) w))"

definition chat_createpcchat ::
  "(int \<Rightarrow> int \<Rightarrow> int \<Rightarrow> bool) \<Rightarrow> int \<Rightarrow> bytes \<Rightarrow> bytes \<Rightarrow> int \<Rightarrow> bool \<Rightarrow> plaza \<Rightarrow> (bool \<times> plaza) option" where
  "chat_createpcchat nochat a title pass limit pub w =
     (case chatters w a of None \<Rightarrow> Some (False, w)
      | Some p \<Rightarrow>
        if ch_chat_id p \<noteq> 0 then Some (False, w)
        else if ch_vending p \<or> ch_buyingstore p then Some (False, w)
        else if nochat (ch_m p) (ch_x p) (ch_y p) then Some (False, w)
        else (case chat_createchat (ch_m p, ch_x p, ch_y p) (BL_PC a) title pass limit pub 0 [] 0 1 MAX_LEVEL w of
            None \<Rightarrow> None
          | Some (c, w) \<Rightarrow>
            if c = 0 then Some (False, w)
            else Some (True, set_chat_id a c
              (w\<lparr>chats := (chats w)(c := map_option (\<lambda>cd. cd\<lparr>cd_users := 1, cd_usersd := (cd_usersd cd)[0 := a]\<rparr>) (chats w c))\<rparr>))))"

section \<open>Joining and leaving\<close>

definition chat_triggerevent :: "int \<Rightarrow> plaza \<Rightarrow> bool \<times> plaza" where
  "chat_triggerevent c w =
     (case chats w c of None \<Rightarrow> (False, w)
      | Some cd \<Rightarrow>
        if int (cd_users cd) \<ge> cd_trigger cd \<and> cd_npc_event cd \<noteq> []
        then (True, w\<lparr>fired := fired w @ [cd_npc_event cd]\<rparr>)
        else (False, w))"

text \<open>The checks of \<open>chat_joinchat\<close>.\<close>

definition may_join :: "chat_data \<Rightarrow> bytes \<Rightarrow> chatter \<Rightarrow> bool" where
  "may_join cd pass p \<longleftrightarrow>
     \<not> (cd_m cd \<noteq> ch_m p \<or> ch_vending p \<or> ch_buyingstore p \<or> ch_chat_id p \<noteq> 0 \<or>
        (if is_npc (cd_owner cd) then int (cd_users cd) + 1 else int (cd_users cd)) \<ge> cd_limit cd) \<and>
     \<not> (\<not> cd_pub cd \<and> \<not> same_to CHATROOM_PASS_SIZE pass (cd_pass cd) \<and> \<not> ch_join_all p) \<and>
     \<not> (ch_level p < cd_min_level cd \<or> ch_level p > cd_max_level cd) \<and>
     \<not> to_uint32 (ch_zeny p) < cd_zeny cd \<and>
     \<not> (\<not> is_npc (cd_owner cd) \<and> ch_char_id p \<in> set (case cd_kick_list cd of None \<Rightarrow> [] | Some l \<Rightarrow> l))"

definition chat_joinchat :: "int \<Rightarrow> int \<Rightarrow> bytes \<Rightarrow> plaza \<Rightarrow> bool \<times> plaza" where
  "chat_joinchat a c pass w =
     (case (chatters w a, chats w c) of
        (Some p, Some cd) \<Rightarrow>
          if may_join cd pass p
          then (True, snd (chat_triggerevent c (set_chat_id a c
                 (set_chat c (Some (cd\<lparr>cd_usersd := (cd_usersd cd)[cd_users cd := a], cd_users := cd_users cd + 1\<rparr>)) w))))
          else (False, w)
      | _ \<Rightarrow> (False, w))"

text \<open>Where a room stands: its first member's place.\<close>

definition place_at :: "int \<Rightarrow> plaza \<Rightarrow> chat_data \<Rightarrow> chat_data" where
  "place_at u w cd = (case chatters w u of None \<Rightarrow> cd | Some p \<Rightarrow> cd\<lparr>cd_x := ch_x p, cd_y := ch_y p\<rparr>)"

text \<open>The array without the entry \<open>i\<close>: the later ones move up, what was last stays behind.\<close>

definition close_gap :: "nat \<Rightarrow> nat \<Rightarrow> int list \<Rightarrow> int list" where
  "close_gap i users us = foldl (\<lambda>us j. us[j := us ! (j + 1)]) us [i..<users]"

definition chat_leavechat :: "int \<Rightarrow> plaza \<Rightarrow> nat \<times> plaza" where
  "chat_leavechat a w =
     (case chatters w a of None \<Rightarrow> (0, w)
      | Some p \<Rightarrow>
        let c = ch_chat_id p; w0 = set_chat_id a 0 w
        in (case chats w c of None \<Rightarrow> (0, w0)
          | Some cd \<Rightarrow>
            let i = arr_find (\<lambda>u. u = a) (members cd)
            in if i = cd_users cd then (0, w0)
               else
                 let users = cd_users cd - 1;
                     cd = cd\<lparr>cd_users := users, cd_usersd := close_gap i users (cd_usersd cd)\<rparr>
                 in if users = 0 \<and> \<not> is_npc (cd_owner cd) then (2, set_chat c None w0)
                    else if i = 0 \<and> \<not> is_npc (cd_owner cd)
                    then let u = cd_usersd cd ! 0 in (3, set_chat c (Some (place_at u w0 (cd\<lparr>cd_owner := BL_PC u\<rparr>))) w0)
                    else (1, set_chat c (Some cd) w0)))"

section \<open>Running a room\<close>

text \<open>The room a character owns.\<close>

definition owned_room :: "int \<Rightarrow> plaza \<Rightarrow> (int \<times> chat_data) option" where
  "owned_room a w =
     (case chatters w a of None \<Rightarrow> None
      | Some p \<Rightarrow>
        (case chats w (ch_chat_id p) of None \<Rightarrow> None
         | Some cd \<Rightarrow> if cd_owner cd = BL_PC a then Some (ch_chat_id p, cd) else None))"

definition named :: "bytes \<Rightarrow> plaza \<Rightarrow> int \<Rightarrow> bool" where
  "named name w u = (case chatters w u of None \<Rightarrow> False | Some p \<Rightarrow> same_to NAME_LENGTH (ch_name p) name)"

definition chat_changechatowner :: "int \<Rightarrow> bytes \<Rightarrow> plaza \<Rightarrow> bool \<times> plaza" where
  "chat_changechatowner a name w =
     (case owned_room a w of None \<Rightarrow> (False, w)
      | Some (c, cd) \<Rightarrow>
        let i = 1 + arr_find (named name w) (drop 1 (members cd))
        in if i = cd_users cd then (False, w)
           else
             let u = cd_usersd cd ! i
             in (True, set_chat c (Some (place_at u w (cd\<lparr>cd_owner := BL_PC u, cd_usersd := swap_at (cd_usersd cd) i 0\<rparr>))) w))"

definition chat_changechatstatus :: "int \<Rightarrow> bytes \<Rightarrow> bytes \<Rightarrow> int \<Rightarrow> bool \<Rightarrow> plaza \<Rightarrow> bool \<times> plaza" where
  "chat_changechatstatus a title pass limit pub w =
     (case owned_room a w of None \<Rightarrow> (False, w)
      | Some (c, cd) \<Rightarrow>
        (True, set_chat c (Some (cd\<lparr>cd_title := strlib_safestrncpy title CHATROOM_TITLE_SIZE,
           cd_pass := strlib_safestrncpy pass CHATROOM_PASS_SIZE, cd_limit := to_uint8 (chat_limit limit), cd_pub := pub\<rparr>)) w))"

definition chat_kickchat :: "int \<Rightarrow> bytes \<Rightarrow> plaza \<Rightarrow> bool \<times> plaza" where
  "chat_kickchat a name w =
     (case owned_room a w of None \<Rightarrow> (False, w)
      | Some (c, cd) \<Rightarrow>
        let i = arr_find (named name w) (members cd)
        in if i = cd_users cd then (False, w)
           else
             let u = cd_usersd cd ! i
             in (case chatters w u of None \<Rightarrow> (False, w)
               | Some p \<Rightarrow>
                 if ch_no_kick p then (False, w)
                 else (True, snd (chat_leavechat u
                        (set_chat c (Some (cd\<lparr>cd_kick_list := map_option (\<lambda>l. ch_char_id p # l) (cd_kick_list cd)\<rparr>)) w)))))"

section \<open>Waiting rooms\<close>

definition chat_createnpcchat ::
  "int \<Rightarrow> bytes \<Rightarrow> int \<Rightarrow> bool \<Rightarrow> int \<Rightarrow> bytes \<Rightarrow> int \<Rightarrow> int \<Rightarrow> int \<Rightarrow> plaza \<Rightarrow> (bool \<times> plaza) option" where
  "chat_createnpcchat n title limit pub trigger ev zeny min_level max_level w =
     (case hosts w n of None \<Rightarrow> Some (False, w)
      | Some np \<Rightarrow>
        if np_chat_id np \<noteq> 0 then Some (False, w)
        else if zeny > MAX_ZENY \<or> max_level > MAX_LEVEL then Some (False, w)
        else (case chat_createchat (np_m np, np_x np, np_y np) (BL_NPC n) title [] limit pub trigger ev zeny min_level max_level w of
            None \<Rightarrow> None
          | Some (c, w) \<Rightarrow>
            if c = 0 then Some (False, w)
            else Some (True, w\<lparr>hosts := (hosts w)(n \<mapsto> np\<lparr>np_chat_id := c\<rparr>)\<rparr>)))"

text \<open>\<open>None\<close>: the loop does not end, or the room is gone while the loop still reads it.\<close>

partial_function (option) chat_npckickall :: "int \<Rightarrow> plaza \<Rightarrow> plaza option" where
  "chat_npckickall c w =
     (case chats w c of None \<Rightarrow> None
      | Some cd \<Rightarrow>
        if cd_users cd > 0 then chat_npckickall c (snd (chat_leavechat (cd_usersd cd ! (cd_users cd - 1)) w))
        else Some w)"

declare chat_npckickall.simps [code]

definition chat_deletenpcchat :: "int \<Rightarrow> plaza \<Rightarrow> (bool \<times> plaza) option" where
  "chat_deletenpcchat n w =
     (case hosts w n of None \<Rightarrow> Some (False, w)
      | Some np \<Rightarrow>
        (case chats w (np_chat_id np) of None \<Rightarrow> Some (False, w)
         | Some cd \<Rightarrow>
           map_option (\<lambda>w. (True, (set_chat (np_chat_id np) None w)\<lparr>hosts := (hosts w)(n \<mapsto> np\<lparr>np_chat_id := 0\<rparr>)\<rparr>))
             (chat_npckickall (np_chat_id np) w)))"

definition chat_enableevent :: "int \<Rightarrow> plaza \<Rightarrow> plaza" where
  "chat_enableevent c w =
     (case chats w c of None \<Rightarrow> w
      | Some cd \<Rightarrow> snd (chat_triggerevent c (set_chat c (Some (cd\<lparr>cd_trigger := cd_trigger cd AND 127\<rparr>)) w)))"

definition chat_disableevent :: "int \<Rightarrow> plaza \<Rightarrow> plaza" where
  "chat_disableevent c w =
     (case chats w c of None \<Rightarrow> w
      | Some cd \<Rightarrow> set_chat c (Some (cd\<lparr>cd_trigger := cd_trigger cd OR 128\<rparr>)) w)"

section \<open>Who sits where\<close>

definition sits :: "plaza \<Rightarrow> int \<Rightarrow> int option" where
  "sits w a = map_option ch_chat_id (chatters w a)"

definition hosted :: "plaza \<Rightarrow> int \<Rightarrow> int option" where
  "hosted w n = map_option np_chat_id (hosts w n)"

definition chat_ok :: "plaza \<Rightarrow> int \<Rightarrow> chat_data \<Rightarrow> bool" where
  "chat_ok w c cd \<longleftrightarrow> length (cd_usersd cd) = MAX_CHAT_USERS \<and> cd_users cd \<le> MAX_CHAT_USERS \<and>
     0 \<le> cd_limit cd \<and> cd_limit cd \<le> int MAX_CHAT_USERS \<and> distinct (members cd) \<and> (\<forall>u \<in> set (members cd). sits w u = Some c) \<and>
     (case cd_owner cd of BL_PC a \<Rightarrow> members cd \<noteq> [] \<and> hd (members cd) = a \<and> cd_kick_list cd \<noteq> None
      | BL_NPC n \<Rightarrow> hosted w n = Some c)"

definition plaza_ok :: "plaza \<Rightarrow> bool" where
  "plaza_ok w \<longleftrightarrow> chats w 0 = None \<and> MIN_FLOORITEM \<le> last_object_id w + 1 \<and> (\<forall>c cd. chats w c = Some cd \<longrightarrow> chat_ok w c cd) \<and>
     (\<forall>a c. sits w a = Some c \<and> c \<noteq> 0 \<longrightarrow> (\<exists>cd. chats w c = Some cd \<and> a \<in> set (members cd))) \<and>
     (\<forall>n c. hosted w n = Some c \<and> c \<noteq> 0 \<longrightarrow> (\<exists>cd. chats w c = Some cd \<and> cd_owner cd = BL_NPC n))"

lemma plaza_okI:
  assumes "plaza_ok w" "c \<noteq> 0" "\<And>d. d \<noteq> c \<Longrightarrow> chats w' d = chats w d" "MIN_FLOORITEM \<le> last_object_id w' + 1"
    and "\<And>u d. d \<noteq> 0 \<Longrightarrow> d \<noteq> c \<Longrightarrow> sits w' u = Some d \<longleftrightarrow> sits w u = Some d"
    and "\<And>n d. d \<noteq> 0 \<Longrightarrow> d \<noteq> c \<Longrightarrow> hosted w' n = Some d \<longleftrightarrow> hosted w n = Some d"
    and "\<And>cd. chats w' c = Some cd \<Longrightarrow> chat_ok w' c cd"
    and "\<And>u. sits w' u = Some c \<Longrightarrow> \<exists>cd. chats w' c = Some cd \<and> u \<in> set (members cd)"
    and "\<And>n. hosted w' n = Some c \<Longrightarrow> \<exists>cd. chats w' c = Some cd \<and> cd_owner cd = BL_NPC n"
  shows "plaza_ok w'"
proof -
  have "chat_ok w' d cd" if "chats w' d = Some cd" for d cd
  proof (cases "d = c")
    case False
    then have cd: "chats w d = Some cd" using assms(3) that by simp
    then have "d \<noteq> 0" "chat_ok w d cd" using assms(1) by (auto simp: plaza_ok_def)
    then show ?thesis using assms(5,6) False by (auto simp: chat_ok_def split: chat_owner.splits)
  qed (use assms(7) that in simp)
  moreover have "\<exists>cd. chats w' d = Some cd \<and> a \<in> set (members cd)" if "sits w' a = Some d" "d \<noteq> 0" for a d
    using assms(1,3,5,8) that by (cases "d = c") (auto simp: plaza_ok_def)
  moreover have "\<exists>cd. chats w' d = Some cd \<and> cd_owner cd = BL_NPC n" if "hosted w' n = Some d" "d \<noteq> 0" for n d
    using assms(1,3,6,9) that by (cases "d = c") (auto simp: plaza_ok_def)
  moreover have "chats w' 0 = None" using assms(1,2,3) by (simp add: plaza_ok_def)
  ultimately show ?thesis using assms(4) by (auto simp: plaza_ok_def)
qed

lemma sits_set [simp]: "sits (set_chat_id a c w) u = (if u = a \<and> chatters w a \<noteq> None then Some c else sits w u)"
  by (auto simp: sits_def set_chat_id_def)

lemma sits_other [simp]: "sits (set_chat c x w) = sits w" "hosted (set_chat c x w) = hosted w" "hosted (set_chat_id a c w) = hosted w"
  "chats (set_chat c x w) = (chats w)(c := x)" "chats (set_chat_id a c w) = chats w"
  "last_object_id (set_chat c x w) = last_object_id w" "last_object_id (set_chat_id a c w) = last_object_id w"
  "hosts (set_chat c x w) = hosts w" "hosts (set_chat_id a c w) = hosts w"
  by (simp_all add: sits_def hosted_def set_chat_def set_chat_id_def fun_eq_iff)

lemma gap_nth: "i \<le> n \<Longrightarrow> n < length us \<Longrightarrow> length (close_gap i n us) = length us \<and>
    (\<forall>k < length us. close_gap i n us ! k = (if i \<le> k \<and> k < n then us ! (k + 1) else us ! k))"
proof (induction "n - i" arbitrary: i us)
  case (Suc d)
  then have "[i..<n] = i # [Suc i..<n]" by (intro upt_conv_Cons) simp
  then have c: "close_gap i n us = close_gap (Suc i) n (us[i := us ! (i + 1)])" by (simp add: close_gap_def)
  show ?case using Suc.hyps(1) [of "Suc i" "us[i := us ! (i + 1)]"] Suc.hyps(2) Suc.prems
    unfolding c by (auto simp: nth_list_update)
qed (simp add: close_gap_def)

lemma gap_members:
  assumes "i \<le> n" "n < length us"
  shows "take n (close_gap i n us) = take i us @ drop (Suc i) (take (Suc n) us)" "length (close_gap i n us) = length us"
proof -
  show len: "length (close_gap i n us) = length us" using gap_nth [OF assms] by simp
  show "take n (close_gap i n us) = take i us @ drop (Suc i) (take (Suc n) us)"
    by (rule nth_equalityI) (use assms gap_nth [OF assms] len in \<open>auto simp: nth_append min_def\<close>)
qed

lemma hd_members: "0 < cd_users cd \<Longrightarrow> length (cd_usersd cd) \<noteq> 0 \<Longrightarrow> hd (members cd) = cd_usersd cd ! 0 \<and> members cd \<noteq> []"
  by (cases "cd_usersd cd"; cases "cd_users cd") (auto simp: members_def)

lemma members_ok: "chat_ok w c cd \<Longrightarrow> length (members cd) = cd_users cd"
  by (simp add: members_def chat_ok_def)

lemma free_id:
  assumes "id_loop taken cursor i = Some k"
  shows "MIN_FLOORITEM \<le> i \<longrightarrow> k \<noteq> cursor \<longrightarrow> \<not> taken k \<and> MIN_FLOORITEM \<le> k"
  by (rule id_loop.raw_induct [of "\<lambda>taken cursor i k. MIN_FLOORITEM \<le> i \<longrightarrow> k \<noteq> cursor \<longrightarrow> \<not> taken k \<and> MIN_FLOORITEM \<le> k", OF _ assms])
    (fastforce simp: Let_def MIN_FLOORITEM_def split: if_splits)

lemma new_id:
  assumes "map_get_new_object_id taken cursor = Some (k, cursor')" "MIN_FLOORITEM \<le> cursor + 1"
  shows "k = 0 \<or> \<not> taken k \<and> MIN_FLOORITEM \<le> k" "MIN_FLOORITEM \<le> cursor' + 1"
  using assms free_id [of taken cursor "cursor + 1"] by (auto simp: map_get_new_object_id_def split: if_splits)

lemma limit_ok: "0 \<le> to_uint8 (chat_limit l) \<and> to_uint8 (chat_limit l) \<le> int MAX_CHAT_USERS"
  by (simp add: chat_limit_def MAX_CHAT_USERS_def to_uint8_def)

lemma chat_there: "plaza_ok w \<Longrightarrow> chats w c = Some cd \<Longrightarrow> chat_ok w c cd \<and> c \<noteq> 0"
  by (auto simp: plaza_ok_def)

lemma cursor_there: "plaza_ok w \<Longrightarrow> MIN_FLOORITEM \<le> last_object_id w + 1"
  by (simp add: plaza_ok_def)

lemma sits_in: "plaza_ok w \<Longrightarrow> sits w a = Some c \<Longrightarrow> c \<noteq> 0 \<Longrightarrow> \<exists>cd. chats w c = Some cd \<and> a \<in> set (members cd)"
  unfolding plaza_ok_def by blast

lemma hosted_in: "plaza_ok w \<Longrightarrow> hosted w n = Some c \<Longrightarrow> c \<noteq> 0 \<Longrightarrow> \<exists>cd. chats w c = Some cd \<and> cd_owner cd = BL_NPC n"
  unfolding plaza_ok_def by blast

lemma sits_there: "plaza_ok w \<Longrightarrow> sits w a = Some c \<Longrightarrow> chats w c = Some cd \<Longrightarrow> a \<in> set (members cd)"
  using sits_in [of w a c] chat_there [of w c cd] by auto

lemma hosted_there: "plaza_ok w \<Longrightarrow> hosted w n = Some c \<Longrightarrow> chats w c = Some cd \<Longrightarrow> cd_owner cd = BL_NPC n"
  using hosted_in [of w n c] chat_there [of w c cd] by auto

lemma nobody_there: "plaza_ok w \<Longrightarrow> c \<noteq> 0 \<Longrightarrow> chats w c = None \<Longrightarrow> sits w u \<noteq> Some c \<and> hosted w n \<noteq> Some c"
  using sits_in [of w u c] hosted_in [of w n c] by auto

text \<open>Changes inside a room, with the same members.\<close>

lemma room_change_ok:
  assumes "plaza_ok w" "chats w c = Some cd" "chat_ok w c cd'" "set (members cd') = set (members cd)"
    "\<And>n. cd_owner cd = BL_NPC n \<Longrightarrow> cd_owner cd' = BL_NPC n"
  shows "plaza_ok (set_chat c (Some cd') w)"
proof (rule plaza_okI [OF assms(1), of c])
  show "c \<noteq> 0" using chat_there assms by blast
  show "\<exists>cd. chats (set_chat c (Some cd') w) c = Some cd \<and> u \<in> set (members cd)" if "sits (set_chat c (Some cd') w) u = Some c" for u
    using that sits_there [OF assms(1) _ assms(2)] assms(4) by simp
  show "\<exists>cd. chats (set_chat c (Some cd') w) c = Some cd \<and> cd_owner cd = BL_NPC n" if "hosted (set_chat c (Some cd') w) n = Some c" for n
    using that hosted_there [OF assms(1) _ assms(2)] assms(5) by simp
qed (use assms in \<open>auto simp: plaza_ok_def chat_ok_def split: chat_owner.splits\<close>)

lemma event_ok: "plaza_ok w \<Longrightarrow> plaza_ok (snd (chat_triggerevent c w))"
  by (auto simp: chat_triggerevent_def plaza_ok_def sits_def hosted_def chat_ok_def split: option.splits chat_owner.splits)

lemma created:
  assumes "plaza_ok w" "chat_createchat pos owner title pass limit pub trigger ev zeny mn mx w = Some (c, w')"
  shows "chatters w' = chatters w" "hosts w' = hosts w" "MIN_FLOORITEM \<le> last_object_id w' + 1"
    "c = 0 \<Longrightarrow> chats w' = chats w"
    "c \<noteq> 0 \<Longrightarrow> chats w c = None \<and> (\<exists>cd. chats w' = (chats w)(c \<mapsto> cd) \<and> cd_users cd = 0 \<and> length (cd_usersd cd) = MAX_CHAT_USERS \<and>
       cd_owner cd = owner \<and> 0 \<le> cd_limit cd \<and> cd_limit cd \<le> int MAX_CHAT_USERS \<and> (cd_kick_list cd = None \<longleftrightarrow> is_npc owner))"
proof -
  obtain k cur where k: "map_get_new_object_id (\<lambda>i. objects w i \<or> chats w i \<noteq> None) (last_object_id w) = Some (k, cur)"
    using assms(2) unfolding chat_createchat_def
    by (cases "map_get_new_object_id (\<lambda>i. objects w i \<or> chats w i \<noteq> None) (last_object_id w)") auto
  have "MIN_FLOORITEM \<le> last_object_id w + 1" using assms(1) by (simp add: plaza_ok_def)
  note n = new_id [OF k this]
  note e = assms(2) [unfolded chat_createchat_def k option.case prod.case Let_def]
  have ck: "c = k" using e by (simp split: if_splits)
  show "chatters w' = chatters w" "hosts w' = hosts w" "MIN_FLOORITEM \<le> last_object_id w' + 1" "c = 0 \<Longrightarrow> chats w' = chats w"
    using e n(2) by (auto simp: set_chat_def split: if_splits)
  assume c: "c \<noteq> 0"
  have "chats w c = None" using n(1) c ck by auto
  then show "chats w c = None \<and> (\<exists>cd. chats w' = (chats w)(c \<mapsto> cd) \<and> cd_users cd = 0 \<and> length (cd_usersd cd) = MAX_CHAT_USERS \<and>
       cd_owner cd = owner \<and> 0 \<le> cd_limit cd \<and> cd_limit cd \<le> int MAX_CHAT_USERS \<and> (cd_kick_list cd = None \<longleftrightarrow> is_npc owner))"
  proof -
    assume n: "chats w c = None"
    define cd where "cd = the (chats w' c)"
    have "cd_users cd = 0 \<and> length (cd_usersd cd) = MAX_CHAT_USERS \<and> cd_owner cd = owner \<and> 0 \<le> cd_limit cd \<and>
        cd_limit cd \<le> int MAX_CHAT_USERS" "chats w' = (chats w)(c \<mapsto> cd)"
      using e c ck limit_ok [of limit] by (auto simp: set_chat_def cd_def)
    moreover have "cd_kick_list cd = (if is_npc owner then None else Some [])" using e c ck by (auto simp: set_chat_def cd_def)
    ultimately show ?thesis using n by (intro conjI exI [of _ cd]) auto
  qed
qed

lemma cursor_ok: "plaza_ok w \<Longrightarrow> chats w' = chats w \<Longrightarrow> chatters w' = chatters w \<Longrightarrow> hosts w' = hosts w \<Longrightarrow>
    MIN_FLOORITEM \<le> last_object_id w' + 1 \<Longrightarrow> plaza_ok w'"
  by (auto simp: plaza_ok_def sits_def hosted_def chat_ok_def split: chat_owner.splits)

lemma createpc_last:
  assumes "plaza_ok w" "chatters w a = Some p" "ch_chat_id p = 0"
    and v: "chat_createchat pos (BL_PC a) title pass limit pub t ev z mn mx w = Some (c, v)"
    and w': "w' = (if c = 0 then v else set_chat_id a c
      (v\<lparr>chats := (chats v)(c := map_option (\<lambda>cd. cd\<lparr>cd_users := 1, cd_usersd := (cd_usersd cd)[0 := a]\<rparr>) (chats v c))\<rparr>))"
  shows "plaza_ok w'"
proof -
  note cr = created [OF assms(1) v]
  show ?thesis
  proof (cases "c = 0")
    case True
    then show ?thesis using cursor_ok [OF assms(1)] cr w' by simp
  next
    case False
    then obtain cd where cd: "chats w c = None" "chats v = (chats w)(c \<mapsto> cd)" "cd_users cd = 0" "length (cd_usersd cd) = MAX_CHAT_USERS"
        "cd_owner cd = BL_PC a" "0 \<le> cd_limit cd" "cd_limit cd \<le> int MAX_CHAT_USERS" "cd_kick_list cd \<noteq> None"
      using cr(5) by auto
    define cd' where "cd' = cd\<lparr>cd_users := 1, cd_usersd := (cd_usersd cd)[0 := a]\<rparr>"
    have w': "chats w' = (chats w)(c \<mapsto> cd')" "hosted w' = hosted w" "\<And>u. sits w' u = (if u = a then Some c else sits w u)"
        "last_object_id w' = last_object_id v"
      using False w' assms(2) cd(2) cr(1,2) by (auto simp: cd'_def set_chat_id_def hosted_def sits_def)
    have m: "members cd' = [a]" using cd(4) by (cases "cd_usersd cd") (auto simp: members_def cd'_def MAX_CHAT_USERS_def)
    have a0: "sits w a = Some 0" using assms(2,3) by (simp add: sits_def)
    have e: "sits w u \<noteq> Some c" "hosted w n \<noteq> Some c" for u n using nobody_there [OF assms(1) False cd(1)] by auto
    have "chat_ok w' c cd'" unfolding chat_ok_def m w' using cd by (simp add: cd'_def MAX_CHAT_USERS_def)
    then show ?thesis using e m a0 cr(3) False by (intro plaza_okI [OF assms(1) False]) (auto simp: w' split: if_splits)
  qed
qed

lemma createpc_ok:
  assumes "plaza_ok w" "chat_createpcchat nochat a title pass limit pub w = Some (r, w')"
  shows "plaza_ok w'"
proof (cases "chatters w a")
  case (Some p)
  show ?thesis
  proof (cases "ch_chat_id p = 0")
    case True
    show ?thesis
    proof (cases "chat_createchat (ch_m p, ch_x p, ch_y p) (BL_PC a) title pass limit pub 0 [] 0 1 MAX_LEVEL w")
      case None
      then show ?thesis using assms by (auto simp: chat_createpcchat_def Some split: if_splits)
    next
      case (Some x)
      then obtain c v where "chat_createchat (ch_m p, ch_x p, ch_y p) (BL_PC a) title pass limit pub 0 [] 0 1 MAX_LEVEL w = Some (c, v)"
        by (cases x) auto
      note v = this
      show ?thesis
        using assms v createpc_last [OF assms(1) \<open>chatters w a = Some p\<close> True v refl]
        by (auto simp: chat_createpcchat_def \<open>chatters w a = Some p\<close> split: if_splits)
    qed
  qed (use assms Some in \<open>simp add: chat_createpcchat_def\<close>)
qed (use assms in \<open>simp add: chat_createpcchat_def\<close>)

lemma join_ok:
  assumes "plaza_ok w"
  shows "plaza_ok (snd (chat_joinchat a c pass w))"
proof (cases "\<exists>p cd. chatters w a = Some p \<and> chats w c = Some cd \<and> may_join cd pass p")
  case True
  then obtain p cd where pc: "chatters w a = Some p" "chats w c = Some cd" "may_join cd pass p" by blast
  note co = chat_there [OF assms pc(2)]
  have lt: "cd_users cd < MAX_CHAT_USERS" and p0: "sits w a = Some 0"
    using pc co by (auto simp: may_join_def chat_ok_def sits_def MAX_CHAT_USERS_def split: if_splits)
  define cd' where "cd' = cd\<lparr>cd_usersd := (cd_usersd cd)[cd_users cd := a], cd_users := cd_users cd + 1\<rparr>"
  define v where "v = set_chat_id a c (set_chat c (Some cd') w)"
  have m: "members cd' = members cd @ [a]" using co lt by (auto simp: members_def cd'_def chat_ok_def take_Suc_conv_app_nth)
  have new: "a \<notin> set (members cd)" using co p0 by (auto simp: chat_ok_def)
  have sv: "sits v u = (if u = a then Some c else sits w u)" for u using pc(1) by (auto simp: v_def sits_def set_chat_id_def set_chat_def)
  have "chat_ok v c cd'"
  proof -
    have "length (cd_usersd cd') = MAX_CHAT_USERS" "cd_users cd' \<le> MAX_CHAT_USERS" "cd_limit cd' = cd_limit cd" "cd_owner cd' = cd_owner cd"
      "cd_kick_list cd' = cd_kick_list cd" using co lt by (simp_all add: cd'_def chat_ok_def)
    moreover have "hosted v = hosted w" by (simp add: v_def)
    ultimately show ?thesis using co new unfolding chat_ok_def m sv by (auto split: chat_owner.splits)
  qed
  then have "plaza_ok v"
    using sv co m p0 sits_there [OF assms _ pc(2)] hosted_there [OF assms _ pc(2)] assms
    by (intro plaza_okI [OF assms, of c]) (auto simp: v_def cd'_def plaza_ok_def split: if_splits)
  then have "plaza_ok (snd (chat_triggerevent c v))" by (rule event_ok)
  then show ?thesis using pc by (simp add: chat_joinchat_def v_def cd'_def)
next
  case False
  then show ?thesis using assms by (auto simp: chat_joinchat_def split: option.splits)
qed

text \<open>Leaving: what becomes of the members.\<close>

lemma arr_find_split:
  assumes "distinct xs" "a \<in> set xs" "i = arr_find (\<lambda>u. u = a) xs"
  shows "i < length xs" "xs ! i = a" "set (take i xs @ drop (Suc i) xs) = set xs - {a}" "distinct (take i xs @ drop (Suc i) xs)"
proof -
  show i: "i < length xs" using assms by (simp add: arr_find_lt_iff)
  show a: "xs ! i = a" using arr_find_nth [of "\<lambda>u. u = a" xs] i assms(3) by simp
  have "xs = take i xs @ a # drop (Suc i) xs" using i a id_take_nth_drop [of i xs] by simp
  then have "distinct (take i xs @ a # drop (Suc i) xs)" "set xs = set (take i xs @ a # drop (Suc i) xs)" using assms(1) by metis+
  then show "set (take i xs @ drop (Suc i) xs) = set xs - {a}" "distinct (take i xs @ drop (Suc i) xs)" by auto
qed

lemma leave_member:
  assumes "chatters w a = Some p" "chats w (ch_chat_id p) = Some cd" "i = arr_find (\<lambda>u. u = a) (members cd)" "i < cd_users cd"
    "cd1 = cd\<lparr>cd_users := cd_users cd - 1, cd_usersd := close_gap i (cd_users cd - 1) (cd_usersd cd)\<rparr>" "w0 = set_chat_id a 0 w"
  shows "chat_leavechat a w =
    (if cd_users cd1 = 0 \<and> \<not> is_npc (cd_owner cd) then (2, set_chat (ch_chat_id p) None w0)
     else if i = 0 \<and> \<not> is_npc (cd_owner cd)
     then (3, set_chat (ch_chat_id p) (Some (place_at (cd_usersd cd1 ! 0) w0 (cd1\<lparr>cd_owner := BL_PC (cd_usersd cd1 ! 0)\<rparr>))) w0)
     else (1, set_chat (ch_chat_id p) (Some cd1) w0))"
  using assms(4) unfolding chat_leavechat_def assms(1,2) option.case Let_def assms(3) [symmetric] assms(5,6) by simp

lemma chat_leave_ok:
  assumes "plaza_ok w" "chatters w a = Some p"
  shows "plaza_ok (snd (chat_leavechat a w))" "sits (snd (chat_leavechat a w)) a = Some 0"
    "u \<noteq> a \<Longrightarrow> sits (snd (chat_leavechat a w)) u = sits w u" "hosts (snd (chat_leavechat a w)) = hosts w"
    "chats w (ch_chat_id p) = Some cd \<Longrightarrow> cd_owner cd = BL_NPC n \<Longrightarrow>
      \<exists>cd'. chats (snd (chat_leavechat a w)) (ch_chat_id p) = Some cd' \<and> cd_users cd' = cd_users cd - 1 \<and> cd_owner cd' = BL_NPC n \<and>
        set (members cd') = set (members cd) - {a}"
proof -
  define c where "c = ch_chat_id p"
  have sa: "sits w a = Some c" using assms(2) by (simp add: sits_def c_def)
  define w0 where "w0 = set_chat_id a 0 w"
  have s0: "sits w0 u = (if u = a then Some 0 else sits w u)" for u using assms(2) by (simp add: w0_def)
  have o0: "chats w0 = chats w" "hosted w0 = hosted w" "hosts w0 = hosts w" "last_object_id w0 = last_object_id w"
    by (simp_all add: w0_def)
  have "plaza_ok (snd (chat_leavechat a w)) \<and> sits (snd (chat_leavechat a w)) a = Some 0 \<and>
    (\<forall>u. u \<noteq> a \<longrightarrow> sits (snd (chat_leavechat a w)) u = sits w u) \<and> hosts (snd (chat_leavechat a w)) = hosts w \<and>
    (\<forall>cd n. chats w c = Some cd \<and> cd_owner cd = BL_NPC n \<longrightarrow> (\<exists>cd'. chats (snd (chat_leavechat a w)) c = Some cd' \<and>
      cd_users cd' = cd_users cd - 1 \<and> cd_owner cd' = BL_NPC n \<and> set (members cd') = set (members cd) - {a}))"
  proof (cases "chats w c")
    case None
    then have "c = 0" using sits_in [OF assms(1) sa] by auto
    then have "plaza_ok w0" using sa s0 assms(1)
      by (auto simp: plaza_ok_def chat_ok_def o0 split: chat_owner.splits)
    then show ?thesis using None s0 assms(2) by (simp add: chat_leavechat_def c_def [symmetric] w0_def [symmetric] o0 Let_def)
  next
    case (Some cd)
    note co = chat_there [OF assms(1) Some]
    define i where "i = arr_find (\<lambda>u. u = a) (members cd)"
    have am: "a \<in> set (members cd)" by (rule sits_there [OF assms(1) sa Some])
    have dm: "distinct (members cd)" using co by (simp add: chat_ok_def)
    note sp = arr_find_split [OF dm am i_def]
    have lm: "length (members cd) = cd_users cd" using co members_ok by blast
    define us where "us = cd_users cd - 1"
    define cd1 where "cd1 = cd\<lparr>cd_users := us, cd_usersd := close_gap i us (cd_usersd cd)\<rparr>"
    have iu: "i \<le> us" "us < length (cd_usersd cd)" "Suc us = cd_users cd" using sp(1) lm co by (auto simp: us_def chat_ok_def)
    have m1: "members cd1 = take i (members cd) @ drop (Suc i) (members cd)" "length (cd_usersd cd1) = MAX_CHAT_USERS"
      using gap_members [OF iu(1,2)] iu co by (simp_all add: members_def cd1_def chat_ok_def min_absorb1)
    have ml: "length (members cd1) = us" using sp(1) lm by (simp add: m1 us_def)
    have lv: "chat_leavechat a w =
      (if us = 0 \<and> \<not> is_npc (cd_owner cd) then (2, set_chat c None w0)
       else if i = 0 \<and> \<not> is_npc (cd_owner cd)
       then (3, set_chat c (Some (place_at (cd_usersd cd1 ! 0) w0 (cd1\<lparr>cd_owner := BL_PC (cd_usersd cd1 ! 0)\<rparr>))) w0)
       else (1, set_chat c (Some cd1) w0))"
      using leave_member [OF assms(2) Some [unfolded c_def] i_def _ cd1_def [unfolded us_def] w0_def] sp(1) lm
      by (simp add: c_def [symmetric]) (simp add: cd1_def)
    have ok1: "chat_ok w' c cd2"
      if "\<And>u. sits w' u = sits w0 u" "hosted w' = hosted w" "members cd2 = members cd1" "cd_users cd2 = us" "length (cd_usersd cd2) = MAX_CHAT_USERS"
        "cd_limit cd2 = cd_limit cd" "case cd_owner cd2 of BL_PC a \<Rightarrow> members cd1 \<noteq> [] \<and> hd (members cd1) = a \<and> cd_kick_list cd2 \<noteq> None
          | BL_NPC n \<Rightarrow> hosted w n = Some c" for w' cd2
      using that co sp(3,4) iu unfolding chat_ok_def m1 by (auto simp: s0 split: chat_owner.splits)
    show ?thesis
    proof (cases "cd_owner cd")
      case o: (BL_NPC n)
      define w' where "w' = set_chat c (Some cd1) w0"
      have w': "chat_leavechat a w = (1, w')" using lv o by (simp add: w'_def)
      have "chat_ok w' c cd1" using co o m1(2) by (intro ok1) (simp_all add: w'_def o0 cd1_def chat_ok_def)
      then have "plaza_ok w'"
        using co o sits_there [OF assms(1) _ Some] hosted_there [OF assms(1) _ Some] assms(1) sa sp(3)
        by (intro plaza_okI [OF assms(1), of c]) (auto simp: w'_def s0 o0 m1 plaza_ok_def cd1_def [THEN arg_cong, of cd_owner] split: if_splits)
      moreover have "set (members cd1) = set (members cd) - {a}" unfolding m1 by (rule sp(3))
      moreover have "cd_users cd1 = us" "cd_owner cd1 = cd_owner cd" by (simp_all add: cd1_def)
      ultimately show ?thesis using s0 o0 Some o by (auto simp: w' w'_def us_def)
    next
      case o: (BL_PC x)
      have kx: "cd_kick_list cd \<noteq> None" "hd (members cd) = x" using co o by (simp_all add: chat_ok_def)
      have noh: "hosted w n \<noteq> Some c" for n using hosted_there [OF assms(1) _ Some] o by auto
      have sit: "u \<in> set (members cd)" if "sits w u = Some c" for u using sits_there [OF assms(1) that Some] .
      have rest: "plaza_ok (set_chat c (Some cd2) w0) \<and> sits (set_chat c (Some cd2) w0) = sits w0 \<and> hosts (set_chat c (Some cd2) w0) = hosts w"
        if "chat_ok (set_chat c (Some cd2) w0) c cd2" "members cd2 = members cd1" for cd2
        using that co sit noh assms(1) sa sp(3)
        by (intro conjI plaza_okI [OF assms(1), of c]) (auto simp: s0 o0 m1 plaza_ok_def split: if_splits)
      consider "us = 0" | "us \<noteq> 0" "i = 0" | "us \<noteq> 0" "i \<noteq> 0" by blast
      then show ?thesis
      proof cases
        case 1
        then have "members cd1 = []" using ml by simp
        moreover have "set (members cd1) = set (members cd) - {a}" unfolding m1 by (rule sp(3))
        ultimately have only: "set (members cd) - {a} = {}" by simp
        have "plaza_ok (set_chat c None w0)"
          using co sit only noh assms(1) sa
          by (intro plaza_okI [OF assms(1), of c]) (auto simp: s0 o0 plaza_ok_def split: if_splits)
        then show ?thesis using 1 o s0 o0 lv Some by simp
      next
        case 2
        define cd2 where "cd2 = place_at (cd_usersd cd1 ! 0) w0 (cd1\<lparr>cd_owner := BL_PC (cd_usersd cd1 ! 0)\<rparr>)"
        have c2: "members cd2 = members cd1" "cd_users cd2 = us" "length (cd_usersd cd2) = MAX_CHAT_USERS" "cd_limit cd2 = cd_limit cd"
            "cd_owner cd2 = BL_PC (cd_usersd cd1 ! 0)" "cd_kick_list cd2 = cd_kick_list cd"
          using m1(2) by (auto simp: cd2_def place_at_def members_def cd1_def split: option.splits)
        have "hd (members cd1) = cd_usersd cd1 ! 0" "members cd1 \<noteq> []"
        proof -
          have "0 < cd_users cd1" "length (cd_usersd cd1) \<noteq> 0" using 2(1) m1(2) by (simp_all add: MAX_CHAT_USERS_def) (simp add: cd1_def)
          then show "hd (members cd1) = cd_usersd cd1 ! 0" "members cd1 \<noteq> []" using hd_members [of cd1] by blast+
        qed
        then have "chat_ok (set_chat c (Some cd2) w0) c cd2" using c2 kx by (intro ok1) (simp_all add: o0)
        then show ?thesis using rest [of cd2] c2(1) 2 o s0 lv Some by (simp add: cd2_def [symmetric])
      next
        case 3
        have "members cd \<noteq> []" using am by auto
        then have "hd (members cd1) = x" "members cd1 \<noteq> []" using 3(2) kx by (auto simp: m1(1) hd_append take_hd_drop hd_conv_nth)
        then have "chat_ok (set_chat c (Some cd1) w0) c cd1" using kx o m1(2) by (intro ok1) (simp_all add: o0 cd1_def)
        then show ?thesis using rest [of cd1] 3 o s0 lv Some by simp
      qed
    qed
  qed
  note all = this
  show "plaza_ok (snd (chat_leavechat a w))" "sits (snd (chat_leavechat a w)) a = Some 0" "hosts (snd (chat_leavechat a w)) = hosts w"
    using all by blast+
  show "sits (snd (chat_leavechat a w)) u = sits w u" if "u \<noteq> a" using all that by blast
  show "\<exists>cd'. chats (snd (chat_leavechat a w)) (ch_chat_id p) = Some cd' \<and> cd_users cd' = cd_users cd - 1 \<and> cd_owner cd' = BL_NPC n \<and>
        set (members cd') = set (members cd) - {a}" if "chats w (ch_chat_id p) = Some cd" "cd_owner cd = BL_NPC n"
    using all that unfolding c_def by blast
qed

lemma owned_room_ok:
  assumes "plaza_ok w" "owned_room a w = Some (c, cd)"
  shows "chats w c = Some cd" "chat_ok w c cd" "cd_owner cd = BL_PC a" "members cd \<noteq> []" "hd (members cd) = a" "cd_kick_list cd \<noteq> None"
proof -
  show c: "chats w c = Some cd" "cd_owner cd = BL_PC a" using assms(2) by (auto simp: owned_room_def split: option.splits if_splits)
  show co: "chat_ok w c cd" using chat_there [OF assms(1) c(1)] by simp
  show "members cd \<noteq> []" "hd (members cd) = a" "cd_kick_list cd \<noteq> None" using co c(2) by (simp_all add: chat_ok_def)
qed

lemma swap_members:
  assumes "i < cd_users cd" "cd_users cd \<le> length (cd_usersd cd)"
  shows "mset (take (cd_users cd) (swap_at (cd_usersd cd) i 0)) = mset (members cd)"
    "take (cd_users cd) (swap_at (cd_usersd cd) i 0) = swap_at (members cd) i 0"
proof -
  show "take (cd_users cd) (swap_at (cd_usersd cd) i 0) = swap_at (members cd) i 0"
    using assms by (simp add: swap_at_def members_def take_update_swap)
  then show "mset (take (cd_users cd) (swap_at (cd_usersd cd) i 0)) = mset (members cd)"
    using assms by (simp add: members_def)
qed

lemma changeowner_ok:
  assumes "plaza_ok w"
  shows "plaza_ok (snd (chat_changechatowner a name w))"
proof (cases "owned_room a w")
  case (Some x)
  then obtain c cd where o: "owned_room a w = Some (c, cd)" by (cases x) auto
  note ow = owned_room_ok [OF assms o]
  define i where "i = 1 + arr_find (named name w) (drop 1 (members cd))"
  show ?thesis
  proof (cases "i = cd_users cd")
    case False
    have lm: "length (members cd) = cd_users cd" using members_ok ow(2) by blast
    have "i \<le> cd_users cd" using arr_find_le [of "named name w" "drop 1 (members cd)"] lm ow(4) by (cases "members cd") (auto simp: i_def)
    then have i: "i < cd_users cd" "cd_users cd \<le> length (cd_usersd cd)" using False ow(2) by (auto simp: chat_ok_def)
    define cd' where "cd' = place_at (cd_usersd cd ! i) w (cd\<lparr>cd_owner := BL_PC (cd_usersd cd ! i), cd_usersd := swap_at (cd_usersd cd) i 0\<rparr>)"
    have c': "members cd' = swap_at (members cd) i 0" "cd_users cd' = cd_users cd" "length (cd_usersd cd') = length (cd_usersd cd)"
        "cd_limit cd' = cd_limit cd" "cd_owner cd' = BL_PC (cd_usersd cd ! i)" "cd_kick_list cd' = cd_kick_list cd"
      using swap_members(2) [OF i] by (auto simp: cd'_def place_at_def members_def split: option.splits)
    have pos: "0 < cd_users cd" using i by simp
    have ms: "mset (members cd') = mset (members cd)" using c'(1) i pos lm by simp
    have "hd (members cd') = cd_usersd cd ! i" "members cd' \<noteq> []"
    proof -
      have l: "length (swap_at (members cd) i 0) = cd_users cd" using lm by simp
      then have "swap_at (members cd) i 0 \<noteq> []" using pos by (metis length_0_conv less_numeral_extra(3))
      moreover have "swap_at (members cd) i 0 ! 0 = members cd ! i" using i pos lm nth_swap_at [of i "members cd" 0 0] by (cases "i = 0") auto
      moreover have "members cd ! i = cd_usersd cd ! i" using i by (simp add: members_def)
      ultimately show "hd (members cd') = cd_usersd cd ! i" "members cd' \<noteq> []" by (simp_all add: c'(1) hd_conv_nth)
    qed
    then have "chat_ok w c cd'" using ow mset_eq_setD [OF ms] mset_eq_imp_distinct_iff [OF ms] c' by (auto simp: chat_ok_def)
    then have "plaza_ok (set_chat c (Some cd') w)"
      using ow mset_eq_setD [OF ms] by (intro room_change_ok [OF assms ow(1)]) auto
    then show ?thesis
      using False unfolding chat_changechatowner_def o option.case prod.case Let_def i_def [symmetric] cd'_def [symmetric] by simp
  next
    case True
    then show ?thesis using assms unfolding chat_changechatowner_def o option.case prod.case Let_def i_def [symmetric] by simp
  qed
qed (use assms in \<open>simp add: chat_changechatowner_def\<close>)

lemma same_members_ok:
  assumes "plaza_ok w" "chats w c = Some cd" "cd_users cd' = cd_users cd" "cd_usersd cd' = cd_usersd cd" "cd_owner cd' = cd_owner cd"
    "0 \<le> cd_limit cd'" "cd_limit cd' \<le> int MAX_CHAT_USERS" "cd_kick_list cd' = None \<longleftrightarrow> cd_kick_list cd = None"
  shows "plaza_ok (set_chat c (Some cd') w)"
proof -
  have m: "members cd' = members cd" using assms(3,4) by (simp add: members_def)
  then have "chat_ok w c cd'" using chat_there [OF assms(1,2)] assms(3-) by (auto simp: chat_ok_def split: chat_owner.splits)
  then show ?thesis using m assms(5) by (intro room_change_ok [OF assms(1,2)]) auto
qed

lemma changestatus_ok:
  assumes "plaza_ok w"
  shows "plaza_ok (snd (chat_changechatstatus a title pass limit pub w))"
proof (cases "owned_room a w")
  case (Some x)
  then obtain c cd where o: "owned_room a w = Some (c, cd)" by (cases x) auto
  note ow = owned_room_ok [OF assms o]
  show ?thesis using limit_ok [of limit] by (simp add: chat_changechatstatus_def o) (intro same_members_ok [OF assms ow(1)]; simp)
qed (use assms in \<open>simp add: chat_changechatstatus_def\<close>)

lemma kick_ok:
  assumes "plaza_ok w"
  shows "plaza_ok (snd (chat_kickchat a name w))"
proof (cases "owned_room a w")
  case (Some x)
  then obtain c cd where o: "owned_room a w = Some (c, cd)" by (cases x) auto
  note ow = owned_room_ok [OF assms o]
  have "plaza_ok (snd (chat_leavechat u (set_chat c (Some (cd\<lparr>cd_kick_list := map_option ((#) k) (cd_kick_list cd)\<rparr>)) w)))"
    if "chatters w u = Some p" for u p k
  proof -
    have "plaza_ok (set_chat c (Some (cd\<lparr>cd_kick_list := map_option ((#) k) (cd_kick_list cd)\<rparr>)) w)"
      using ow(2) by (intro same_members_ok [OF assms ow(1)]) (auto simp: chat_ok_def)
    then show ?thesis using that by (intro chat_leave_ok(1) [where p = p]) (simp_all add: set_chat_def)
  qed
  then show ?thesis using assms by (auto simp: chat_kickchat_def o Let_def split: option.splits)
qed (use assms in \<open>simp add: chat_kickchat_def\<close>)

lemma enable_ok: "plaza_ok w \<Longrightarrow> plaza_ok (chat_enableevent c w)" "plaza_ok w \<Longrightarrow> plaza_ok (chat_disableevent c w)"
  using chat_there [of w c]
  by (auto simp: chat_enableevent_def chat_disableevent_def chat_ok_def split: option.splits intro!: event_ok same_members_ok)

text \<open>Emptying a waiting room ends, with every member outside.\<close>

lemma kickall_ends:
  assumes "plaza_ok w" "chats w c = Some cd" "cd_owner cd = BL_NPC n"
  shows "\<exists>w' cd'. chat_npckickall c w = Some w' \<and> plaza_ok w' \<and> chats w' c = Some cd' \<and> cd_users cd' = 0 \<and> cd_owner cd' = BL_NPC n \<and>
    hosts w' = hosts w \<and> (\<forall>u. sits w' u = (if sits w u = Some c then Some 0 else sits w u))"
  using assms
proof (induction "cd_users cd" arbitrary: w cd)
  case 0
  have "sits w u \<noteq> Some c" for u using sits_there [OF 0(2) _ 0(3), of u] 0(1) by (auto simp: members_def)
  then show ?case using 0 by (subst chat_npckickall.simps) auto
next
  case (Suc k)
  note co = chat_there [OF Suc.prems(1,2)]
  define u where "u = cd_usersd cd ! k"
  have "u \<in> set (members cd)" using Suc.hyps(2) co by (auto simp: members_def chat_ok_def in_set_conv_nth u_def intro!: exI [of _ k])
  then have su: "sits w u = Some c" using co by (simp add: chat_ok_def)
  then obtain p where p: "chatters w u = Some p" "ch_chat_id p = c" by (auto simp: sits_def)
  define w1 where "w1 = snd (chat_leavechat u w)"
  note lv = chat_leave_ok [OF Suc.prems(1) p(1), folded w1_def]
  obtain cd1 where c1: "chats w1 c = Some cd1" "cd_users cd1 = cd_users cd - 1" "cd_owner cd1 = BL_NPC n"
    using lv(5) [OF Suc.prems(2) [folded p(2)] Suc.prems(3)] p(2) by auto
  have "k = cd_users cd1" using c1(2) Suc.hyps(2) by simp
  from Suc.hyps(1) [OF this lv(1) c1(1,3)] obtain w' cd' where IH: "chat_npckickall c w1 = Some w'" "plaza_ok w'" "chats w' c = Some cd'"
      "cd_users cd' = 0" "cd_owner cd' = BL_NPC n" "hosts w' = hosts w1" "\<forall>u. sits w' u = (if sits w1 u = Some c then Some 0 else sits w1 u)"
    by auto
  have step: "chat_npckickall c w = Some w'"
    using IH(1) Suc.prems(2) Suc.hyps(2) by (subst chat_npckickall.simps) (simp add: w1_def u_def Suc.hyps(2) [symmetric])
  have "c \<noteq> 0" using co by simp
  then have "sits w' x = (if sits w x = Some c then Some 0 else sits w x)" for x
    using IH(7) lv(2) lv(3) [of x] su by (cases "x = u") auto
  then show ?case using step IH lv(4) by auto
qed

lemma createnpc_ok:
  assumes "plaza_ok w" "chat_createnpcchat n title limit pub trigger ev zeny mn mx w = Some (r, w')"
  shows "plaza_ok w'"
proof (cases "hosts w n")
  case (Some np)
  show ?thesis
  proof (cases "np_chat_id np = 0 \<and> \<not> (zeny > MAX_ZENY \<or> mx > MAX_LEVEL)")
    case True
    then obtain c v where v: "chat_createchat (np_m np, np_x np, np_y np) (BL_NPC n) title [] limit pub trigger ev zeny mn mx w = Some (c, v)"
        and w': "w' = (if c = 0 then v else v\<lparr>hosts := (hosts v)(n \<mapsto> np\<lparr>np_chat_id := c\<rparr>)\<rparr>)"
      using assms(2) by (cases "chat_createchat (np_m np, np_x np, np_y np) (BL_NPC n) title [] limit pub trigger ev zeny mn mx w")
        (auto simp: chat_createnpcchat_def Some split: if_splits)
    note cr = created [OF assms(1) v]
    show ?thesis
    proof (cases "c = 0")
      case True
      then show ?thesis using cursor_ok [OF assms(1)] cr w' by simp
    next
      case False
      then obtain cd where cd: "chats w c = None" "chats v = (chats w)(c \<mapsto> cd)" "cd_users cd = 0" "length (cd_usersd cd) = MAX_CHAT_USERS"
          "cd_owner cd = BL_NPC n" "0 \<le> cd_limit cd" "cd_limit cd \<le> int MAX_CHAT_USERS" "cd_kick_list cd = None"
        using cr(5) by auto
      have w': "chats w' = (chats w)(c \<mapsto> cd)" "\<And>k. hosted w' k = (if k = n then Some c else hosted w k)" "sits w' = sits w"
          "last_object_id w' = last_object_id v"
        using False w' cd(2) cr(1,2) by (auto simp: hosted_def sits_def fun_eq_iff)
      have n0: "hosted w n = Some 0" using Some True by (simp add: hosted_def)
      have e: "sits w u \<noteq> Some c" "hosted w k \<noteq> Some c" for u k using nobody_there [OF assms(1) False cd(1)] by auto
      have "chat_ok w' c cd" using cd by (simp add: chat_ok_def members_def w')
      then show ?thesis using e n0 cr(3) False cd(5) by (intro plaza_okI [OF assms(1) False]) (auto simp: w' split: if_splits)
    qed
  qed (use assms Some in \<open>auto simp: chat_createnpcchat_def split: if_splits\<close>)
qed (use assms in \<open>simp add: chat_createnpcchat_def\<close>)

lemma waiting_room:
  assumes "plaza_ok w" "hosts w n = Some np" "np_chat_id np \<noteq> 0"
  shows "\<exists>cd. chats w (np_chat_id np) = Some cd \<and> cd_owner cd = BL_NPC n"
  using hosted_in [OF assms(1), of n "np_chat_id np"] assms(2,3) by (simp add: hosted_def)

lemma delete_room:
  assumes "plaza_ok w" "hosts w n = Some np" "np_chat_id np \<noteq> 0"
  shows "\<exists>w'. chat_deletenpcchat n w = Some (True, w') \<and> plaza_ok w' \<and> chats w' (np_chat_id np) = None \<and>
    hosts w' = (hosts w)(n \<mapsto> np\<lparr>np_chat_id := 0\<rparr>) \<and> (\<forall>u. sits w' u = (if sits w u = Some (np_chat_id np) then Some 0 else sits w u))"
proof -
  let ?c = "np_chat_id np"
  obtain cd where cd: "chats w ?c = Some cd" "cd_owner cd = BL_NPC n" using waiting_room [OF assms] by auto
  from kickall_ends [OF assms(1) cd] obtain v cdv where v: "chat_npckickall ?c w = Some v" "plaza_ok v" "chats v ?c = Some cdv" "cd_users cdv = 0"
      "cd_owner cdv = BL_NPC n" "hosts v = hosts w" "\<forall>u. sits v u = (if sits w u = Some ?c then Some 0 else sits w u)" by auto
  define w' where "w' = (set_chat ?c None v)\<lparr>hosts := (hosts v)(n \<mapsto> np\<lparr>np_chat_id := 0\<rparr>)\<rparr>"
  have s: "sits w' = sits v" "chats w' = (chats v)(?c := None)" "last_object_id w' = last_object_id v"
      "\<And>k. hosted w' k = (if k = n then Some 0 else hosted v k)" by (auto simp: w'_def sits_def set_chat_def hosted_def fun_eq_iff)
  have h: "hosted v k = Some ?c \<Longrightarrow> k = n" for k using hosted_there [OF v(2) _ v(3), of k] v(5) by simp
  have hn: "hosted v n = Some ?c" using assms(2) v(6) by (simp add: hosted_def)
  have su: "sits v u \<noteq> Some ?c" for u using v(7) assms(3) by auto
  have "plaza_ok w'"
  proof (rule plaza_okI [OF v(2) assms(3)])
    show "hosted w' k = Some d \<longleftrightarrow> hosted v k = Some d" if "d \<noteq> 0" "d \<noteq> ?c" for k d using that hn by (cases "k = n") (simp_all add: s)
    show "\<exists>cd. chats w' ?c = Some cd \<and> cd_owner cd = BL_NPC k" if "hosted w' k = Some ?c" for k
      using that assms(3) h [of k] by (cases "k = n") (simp_all add: s)
  qed (use cursor_there [OF v(2)] su in \<open>simp_all add: s\<close>)
  moreover have "chat_deletenpcchat n w = Some (True, w')" using assms(2) cd v(1) by (simp add: chat_deletenpcchat_def w'_def)
  moreover have "chats w' ?c = None" "hosts w' = (hosts w)(n \<mapsto> np\<lparr>np_chat_id := 0\<rparr>)"
      "\<forall>u. sits w' u = (if sits w u = Some ?c then Some 0 else sits w u)" using v(6,7) s(1,2) by (simp_all add: w'_def)
  ultimately show ?thesis by blast
qed

lemma delete_ok:
  assumes "plaza_ok w" "chat_deletenpcchat n w = Some (r, w')"
  shows "plaza_ok w'"
proof (cases "hosts w n")
  case (Some np)
  show ?thesis
  proof (cases "np_chat_id np = 0")
    case True
    then show ?thesis using assms Some by (auto simp: chat_deletenpcchat_def plaza_ok_def)
  next
    case False
    then show ?thesis using delete_room [OF assms(1) Some False] assms(2) by auto
  qed
qed (use assms in \<open>simp add: chat_deletenpcchat_def\<close>)

section \<open>Players and scripts at work\<close>

definition same_seat :: "chatter \<Rightarrow> chatter \<Rightarrow> bool" where
  "same_seat p p' \<longleftrightarrow> ch_chat_id p' = ch_chat_id p"

text \<open>\<open>unit_remove_map\<close> for a character, \<open>npc_unload\<close> for an NPC.\<close>

definition chat_remove_map :: "int \<Rightarrow> plaza \<Rightarrow> plaza" where
  "chat_remove_map a w =
     (case chatters w a of None \<Rightarrow> w | Some p \<Rightarrow> if ch_chat_id p \<noteq> 0 then snd (chat_leavechat a w) else w)"

definition chat_npc_unload :: "int \<Rightarrow> plaza \<Rightarrow> plaza option" where
  "chat_npc_unload n w =
     (case hosts w n of None \<Rightarrow> Some w
      | Some np \<Rightarrow>
        map_option (\<lambda>w. w\<lparr>hosts := (hosts w)(n := None)\<rparr>)
          (if np_chat_id np \<noteq> 0 then map_option snd (chat_deletenpcchat n w) else Some w))"

inductive chat_step :: "plaza \<Rightarrow> plaza \<Rightarrow> bool" where
  create: "chat_createpcchat nochat a title pass limit pub w = Some (r, w') \<Longrightarrow> chat_step w w'"
| join: "chat_step w (snd (chat_joinchat a c pass w))"
| leave: "chat_step w (snd (chat_leavechat a w))"
| owner: "chat_step w (snd (chat_changechatowner a name w))"
| status: "chat_step w (snd (chat_changechatstatus a title pass limit pub w))"
| kick: "chat_step w (snd (chat_kickchat a name w))"
| waitingroom: "chat_createnpcchat n title limit pub trigger ev zeny mn mx w = Some (r, w') \<Longrightarrow> chat_step w w'"
| delwaitingroom: "chat_deletenpcchat n w = Some (r, w') \<Longrightarrow> chat_step w w'"
| kickall: "hosts w n = Some np \<Longrightarrow> np_chat_id np \<noteq> 0 \<Longrightarrow> chat_npckickall (np_chat_id np) w = Some w' \<Longrightarrow> chat_step w w'"
| enable: "chat_step w (chat_enableevent c w)"
| disable: "chat_step w (chat_disableevent c w)"
| login: "chatters w a = None \<Longrightarrow> ch_chat_id p = 0 \<Longrightarrow> chat_step w (w\<lparr>chatters := (chatters w)(a \<mapsto> p)\<rparr>)"
| logout: "w' = chat_remove_map a w \<Longrightarrow> chat_step w (w'\<lparr>chatters := (chatters w')(a := None)\<rparr>)"
| change: "chatters w a = Some p \<Longrightarrow> same_seat p p' \<Longrightarrow> chat_step w (w\<lparr>chatters := (chatters w)(a \<mapsto> p')\<rparr>)"
| npc: "hosts w n = None \<Longrightarrow> np_chat_id np = 0 \<Longrightarrow> chat_step w (w\<lparr>hosts := (hosts w)(n \<mapsto> np)\<rparr>)"
| unload: "chat_npc_unload n w = Some w' \<Longrightarrow> chat_step w w'"
| others: "MIN_FLOORITEM \<le> cursor + 1 \<Longrightarrow> chat_step w (w\<lparr>objects := obj, last_object_id := cursor\<rparr>)"

definition chat_start :: plaza where
  "chat_start = \<lparr>chats = \<lambda>_. None, chatters = \<lambda>_. None, hosts = \<lambda>_. None, objects = \<lambda>_. False, last_object_id = MIN_FLOORITEM - 1, fired = []\<rparr>"

inductive chat_reach :: "plaza \<Rightarrow> bool" where
  start: "chat_reach chat_start"
| step: "chat_reach w \<Longrightarrow> chat_step w w' \<Longrightarrow> chat_reach w'"

text \<open>Changes outside the rooms.\<close>

lemma outside_ok:
  assumes "plaza_ok w" "chats w' = chats w" "MIN_FLOORITEM \<le> last_object_id w' + 1"
    "\<And>u c. c \<noteq> 0 \<Longrightarrow> sits w' u = Some c \<longleftrightarrow> sits w u = Some c" "\<And>n c. c \<noteq> 0 \<Longrightarrow> hosted w' n = Some c \<longleftrightarrow> hosted w n = Some c"
  shows "plaza_ok w'"
proof -
  have "chat_ok w' c cd" if "chats w c = Some cd" for c cd
    using chat_there [OF assms(1) that] assms(4,5) by (auto simp: chat_ok_def split: chat_owner.splits)
  then show ?thesis using assms sits_in [OF assms(1)] hosted_in [OF assms(1)] by (auto simp: plaza_ok_def)
qed

lemma seat_out [simp]: "sits (w\<lparr>chatters := (chatters w)(a := x)\<rparr>) u = (if u = a then map_option ch_chat_id x else sits w u)"
  "hosted (w\<lparr>chatters := f\<rparr>) n = hosted w n" "sits (w\<lparr>hosts := h\<rparr>) u = sits w u"
  "hosted (w\<lparr>hosts := (hosts w)(n := y)\<rparr>) k = (if k = n then map_option np_chat_id y else hosted w k)"
  by (simp_all add: sits_def hosted_def)

lemma remove_map_out:
  assumes "plaza_ok w"
  shows "plaza_ok (chat_remove_map a w)" "sits (chat_remove_map a w) a = None \<or> sits (chat_remove_map a w) a = Some 0"
  using assms chat_leave_ok(1,2) [OF assms] by (auto simp: chat_remove_map_def sits_def split: option.splits)

lemma chat_step_ok:
  assumes "chat_step w w'" "plaza_ok w"
  shows "plaza_ok w'"
  using assms
proof (cases rule: chat_step.cases)
  case (leave a)
  then show ?thesis using chat_leave_ok(1) [OF assms(2)] assms(2) by (cases "chatters w a") (auto simp: chat_leavechat_def)
next
  case (kickall n np)
  then show ?thesis using waiting_room [OF assms(2)] kickall_ends [OF assms(2)] by fastforce
next
  case (login a p)
  then show ?thesis using cursor_there [OF assms(2)] by (intro outside_ok [OF assms(2)]) (simp_all add: sits_def [of w])
next
  case (logout v a)
  note r = remove_map_out [OF assms(2), of a]
  show ?thesis unfolding logout
  proof (rule outside_ok [OF r(1)])
    show "sits (chat_remove_map a w\<lparr>chatters := (chatters (chat_remove_map a w))(a := None)\<rparr>) u = Some c \<longleftrightarrow>
        sits (chat_remove_map a w) u = Some c" if "c \<noteq> 0" for u c
      using r(2) that by (cases "u = a") (simp_all, metis option.distinct(1) option.inject)
  qed (use cursor_there [OF r(1)] in simp_all)
next
  case (change a p p')
  then show ?thesis using cursor_there [OF assms(2)]
    by (intro outside_ok [OF assms(2)]) (simp_all add: sits_def [of w] same_seat_def)
next
  case (npc n np)
  then show ?thesis using cursor_there [OF assms(2)] by (intro outside_ok [OF assms(2)]) (simp_all add: hosted_def [of w])
next
  case (unload n)
  show ?thesis
  proof (cases "hosts w n")
    case (Some np)
    have "\<exists>v. w' = v\<lparr>hosts := (hosts v)(n := None)\<rparr> \<and> plaza_ok v \<and> (hosted v n = Some 0)"
    proof (cases "np_chat_id np = 0")
      case True
      then show ?thesis using unload Some assms(2) by (auto simp: chat_npc_unload_def hosted_def)
    next
      case False
      then show ?thesis using unload Some delete_room [OF assms(2) Some False] by (auto simp: chat_npc_unload_def hosted_def)
    qed
    then obtain v where v: "w' = v\<lparr>hosts := (hosts v)(n := None)\<rparr>" "plaza_ok v" "hosted v n = Some 0" by blast
    show ?thesis unfolding v(1) using v(3) cursor_there [OF v(2)] by (intro outside_ok [OF v(2)]) simp_all
  qed (use unload assms(2) in \<open>simp add: chat_npc_unload_def\<close>)
next
  case (others cursor obj)
  then show ?thesis by (intro outside_ok [OF assms(2)]) (auto simp: sits_def hosted_def)
next
  case create
  then show ?thesis using createpc_ok [OF assms(2)] by blast
next
  case waitingroom
  then show ?thesis using createnpc_ok [OF assms(2)] by blast
next
  case delwaitingroom
  then show ?thesis using delete_ok [OF assms(2)] by blast
qed (simp_all add: assms(2) join_ok changeowner_ok changestatus_ok kick_ok enable_ok)

lemma chat_reach_ok: "chat_reach w \<Longrightarrow> plaza_ok w"
proof (induction rule: chat_reach.induct)
  case start
  show ?case by (simp add: plaza_ok_def chat_start_def sits_def hosted_def)
qed (rule chat_step_ok)

text \<open>
  C9. The seats of the chat rooms are always consistent. Whatever players and scripts do, in
  whatever order, the members a room lists are different, at most 20, and exactly the characters
  that have the room's id; so nobody sits in two rooms, in none that is gone, and no pointer of a
  room dangles. A room of players is never empty, its owner is its first member, and a waiting
  room belongs to the NPC that has its id.
\<close>

theorem chat_rooms_consistent:
  assumes "chat_reach w" "chats w c = Some cd"
  shows "c \<noteq> 0 \<and> length (cd_usersd cd) = MAX_CHAT_USERS \<and> length (members cd) = cd_users cd \<and> cd_users cd \<le> MAX_CHAT_USERS \<and>
    distinct (members cd) \<and> set (members cd) = {a. sits w a = Some c} \<and>
    (case cd_owner cd of BL_PC a \<Rightarrow> members cd \<noteq> [] \<and> hd (members cd) = a | BL_NPC n \<Rightarrow> hosted w n = Some c) \<and>
    (\<forall>a d. sits w a = Some d \<and> d \<noteq> 0 \<longrightarrow> chats w d \<noteq> None)"
proof -
  have ok: "plaza_ok w" by (rule chat_reach_ok [OF assms(1)])
  note co = chat_there [OF ok assms(2)]
  have "set (members cd) = {a. sits w a = Some c}" using co sits_there [OF ok _ assms(2)] by (auto simp: chat_ok_def)
  moreover have "\<forall>a d. sits w a = Some d \<and> d \<noteq> 0 \<longrightarrow> chats w d \<noteq> None" using sits_in [OF ok] by blast
  ultimately show ?thesis using co members_ok [of w c cd] by (auto simp: chat_ok_def split: chat_owner.splits)
qed

text \<open>
  C38. Emptying and removing a waiting room ends: \<open>chat_npckickall\<close>, which takes the last member out
  until none is left, returns with the room empty and still there, and \<open>chat_deletenpcchat\<close>
  removes it; every member sits nowhere afterwards and nobody else moves.
\<close>

theorem waiting_room_empties:
  assumes "chat_reach w" "hosts w n = Some np" "np_chat_id np = c" "c \<noteq> 0"
  shows "(\<exists>w1 cd. chat_npckickall c w = Some w1 \<and> chats w1 c = Some cd \<and> cd_users cd = 0 \<and>
      (\<forall>u. sits w1 u = (if sits w u = Some c then Some 0 else sits w u))) \<and>
    (\<exists>w2. chat_deletenpcchat n w = Some (True, w2) \<and> chats w2 c = None \<and> hosted w2 n = Some 0 \<and>
      (\<forall>u. sits w2 u = (if sits w u = Some c then Some 0 else sits w u)))"
proof -
  have ok: "plaza_ok w" by (rule chat_reach_ok [OF assms(1)])
  have c: "np_chat_id np \<noteq> 0" using assms(3,4) by simp
  obtain cd where "chats w c = Some cd" "cd_owner cd = BL_NPC n" using waiting_room [OF ok assms(2) c] assms(3) by auto
  from kickall_ends [OF ok this] obtain w1 cd1 where 1: "chat_npckickall c w = Some w1" "chats w1 c = Some cd1" "cd_users cd1 = 0"
      "\<forall>u. sits w1 u = (if sits w u = Some c then Some 0 else sits w u)" by blast
  from delete_room [OF ok assms(2) c] obtain w2 where 2: "chat_deletenpcchat n w = Some (True, w2)" "chats w2 c = None"
      "hosts w2 = (hosts w)(n \<mapsto> np\<lparr>np_chat_id := 0\<rparr>)" "\<forall>u. sits w2 u = (if sits w u = Some c then Some 0 else sits w u)"
    using assms(3) by blast
  have "hosted w2 n = Some 0" using 2(3) by (simp add: hosted_def)
  then show ?thesis using 1 2 by blast
qed

section \<open>An example\<close>

definition guest :: "string \<Rightarrow> chatter" where
  "guest name = \<lparr>ch_name = lit name, ch_char_id = 150000, ch_level = 10, ch_zeny = 100, ch_vending = False, ch_buyingstore = False,
     ch_join_all = False, ch_no_kick = False, ch_m = 0, ch_x = 10, ch_y = 10, ch_chat_id = 0\<rparr>"

definition hall :: plaza where
  "hall = chat_start\<lparr>chatters := [1 \<mapsto> guest ''Ann'', 2 \<mapsto> guest ''Bob'', 3 \<mapsto> guest ''Cid''],
     hosts := [9 \<mapsto> \<lparr>np_m = 0, np_x = 5, np_y = 5, np_chat_id = 0\<rparr>]\<rparr>"

definition opened :: "(bool \<times> plaza) option" where
  "opened = chat_createpcchat (\<lambda>_ _ _. False) 1 (lit ''talk'') [] 5 True hall"

definition moved_on :: plaza where
  "moved_on = snd (chat_leavechat 1 (snd (chat_joinchat 2 2 [] (snd (the opened)))))"

definition waiting :: "(bool \<times> plaza) option" where
  "waiting = chat_createnpcchat 9 (lit ''wait'') 5 True 3 (lit ''Guard::OnFull'') 0 1 175 hall"

definition queued :: plaza where
  "queued = snd (chat_joinchat 3 2 [] (snd (chat_joinchat 2 2 [] (snd (the waiting)))))"

lemma hall_reach: "chat_reach hall"
proof -
  let ?h = "\<lparr>np_m = 0, np_x = 5, np_y = 5, np_chat_id = 0\<rparr> :: npc_host"
  have "chat_reach (chat_start\<lparr>chatters := (chatters chat_start)(1 \<mapsto> guest ''Ann'')\<rparr>)" (is "chat_reach ?w1")
    by (rule chat_reach.step [OF chat_reach.start chat_step.login]) (simp_all add: chat_start_def guest_def)
  then have "chat_reach (?w1\<lparr>chatters := (chatters ?w1)(2 \<mapsto> guest ''Bob'')\<rparr>)" (is "chat_reach ?w2")
    by (rule chat_reach.step [OF _ chat_step.login]) (simp_all add: chat_start_def guest_def)
  then have "chat_reach (?w2\<lparr>chatters := (chatters ?w2)(3 \<mapsto> guest ''Cid'')\<rparr>)" (is "chat_reach ?w3")
    by (rule chat_reach.step [OF _ chat_step.login]) (simp_all add: chat_start_def guest_def)
  then have "chat_reach (?w3\<lparr>hosts := (hosts ?w3)(9 \<mapsto> ?h)\<rparr>)"
    by (rule chat_reach.step [OF _ chat_step.npc]) (simp_all add: chat_start_def)
  then show ?thesis by (simp add: hall_def chat_start_def)
qed

lemma opened_reach: "map_option fst opened = Some True" "chat_reach (snd (the opened))" "chat_reach moved_on"
proof -
  show 1: "map_option fst opened = Some True" by code_simp
  then obtain r w where "opened = Some (r, w)" by auto
  then show 2: "chat_reach (snd (the opened))" using chat_reach.step [OF hall_reach chat_step.create] by (simp add: opened_def)
  show "chat_reach moved_on" unfolding moved_on_def
    by (intro chat_reach.step [OF _ chat_step.leave] chat_reach.step [OF _ chat_step.join] 2)
qed

lemma queued_reach: "chat_reach queued"
proof -
  have "map_option fst waiting = Some True" by code_simp
  then obtain r w where "waiting = Some (r, w)" by auto
  then have "chat_reach (snd (the waiting))" using chat_reach.step [OF hall_reach chat_step.waitingroom] by (simp add: waiting_def)
  then show ?thesis unfolding queued_def by (intro chat_reach.step [OF _ chat_step.join])
qed

text \<open>Ann opens a room, Bob joins, Ann leaves: the room is Bob's, and only he sits there.\<close>

theorem chat_rooms_consistent_witness:
  "\<exists>cd. chats moved_on 2 = Some cd \<and> cd_owner cd = BL_PC 2 \<and> {a. sits moved_on a = Some 2} = {2}"
proof -
  have "map_option (\<lambda>cd. (cd_owner cd, members cd)) (chats moved_on 2) = Some (BL_PC 2, [2])" by code_simp
  then obtain cd where cd: "chats moved_on 2 = Some cd" "cd_owner cd = BL_PC 2" "members cd = [2]" by auto
  then show ?thesis using chat_rooms_consistent [OF opened_reach(3) cd(1)] by simp
qed

text \<open>Two wait; the NPC sends them away.\<close>

theorem waiting_room_empties_witness:
  "sits queued 3 = Some 2 \<and> (\<exists>w2. chat_deletenpcchat 9 queued = Some (True, w2) \<and> sits w2 3 = Some 0 \<and> chats w2 2 = None)"
proof -
  have "map_option np_chat_id (hosts queued 9) = Some 2" "sits queued 3 = Some 2" by code_simp+
  then obtain np where "hosts queued 9 = Some np" "np_chat_id np = 2" "sits queued 3 = Some 2" by auto
  then show ?thesis using waiting_room_empties [OF queued_reach, of 9 np 2] by auto
qed

end
