(* ===== verification/Spec2Isabelle.thy ===== *)
theory Spec2Isabelle
  imports Timer Astar Absent Sv Grf Duel Chat
begin

text \<open>
  Verification of core parts of the RagEmu game server, C sources under \<open>src/src/\<close>.

  The program. A login server, a character server and a map server share the library
  \<open>common/\<close>: containers, timers, strings, archives, sockets, SQL. The map server holds the
  world: maps of cells, units that walk on them, and characters with their items, which move
  between inventory, cart, storage, other characters and shops. The development models parts of
  the library and of the map server that carry state of their own: every one of them is written
  as in C, one definition per function or macro, over explicit state.

  Theories and sources.

  \<^item> \<open>Prelude\<close>: C integers (\<open>to_int16\<close> and its kin wrap as the compilers the server is built
    with do), C division, \<open>cap_value\<close>, \<open>ARR_FIND\<close>, generic facts on lists.
  \<^item> \<open>Vector\<close>, \<open>Bheap\<close>: the macros \<open>VECTOR_*\<close> and \<open>BHEAP_*\<close> of \<open>common/db.h\<close>. A vector is
    its initialised prefix, its length and its capacity; reads outside the prefix are \<open>None\<close>.
    The heap operations refine a multiset with a least element, for any comparison that
    satisfies the locale \<open>topcmp\<close>; the comparisons of the sources are its interpretations.
  \<^item> \<open>Timer\<close>: \<open>common/timer.c\<close>. The timer table, the free list and the heap are a record;
    \<open>do_timer\<close> runs the due timers, and what a timer function does to the table is an argument.
  \<^item> \<open>MapCell\<close>: the cell flags, directions and invisible walls of \<open>map/map.c\<close>.
  \<^item> \<open>Path\<close>, \<open>Astar\<close>: \<open>map/path.c\<close>: lines, knock-back, the straight walk and the A* search
    with its node table of 32 * 32 slots and its open heap.
  \<^item> \<open>Inventory\<close>, \<open>Storage\<close>, \<open>Trade\<close>: the item-moving half of \<open>map/pc.c\<close>,
    \<open>map/storage.c\<close>, \<open>map/trade.c\<close>. A character is a record of the fields these files use,
    an item a record with its number, amount, cards, binding and expiry time. The database of
    items and the permissions of a group are arguments (\<open>pc_env\<close>).
  \<^item> \<open>Strlib\<close>, \<open>Sv\<close>: \<open>common/strlib.c\<close>: escaping, trimming, searching, and the parser,
    splitter and reader of delimiter-separated text databases.
  \<^item> \<open>Des\<close>, \<open>Grf\<close>: \<open>common/des.c\<close>, \<open>common/grfio.c\<close>: the cipher of the archives, their
    decoding, the hash table of file names, the two formats of index, reading and start-up. The
    file system and the function \<open>uncompress\<close> of zlib are arguments.
  \<^item> \<open>Shop\<close>: the fields of a character the shops use, and the operations of a search for
    shops; \<open>Vending\<close>, \<open>Buyingstore\<close>, \<open>Searchstore\<close>: \<open>map/vending.c\<close>,
    \<open>map/buyingstore.c\<close>, \<open>map/searchstore.c\<close>, and the page of results of \<open>map/clif.c\<close>.
    The table of vendors is a map from accounts; the order in which the source visits the table
    is an argument.
  \<^item> \<open>Autotrade\<close>, \<open>Absent\<close>: the shops of characters whose owner has left (\<open>pc_autotrade_*\<close> of
    \<open>map/pc.c\<close>, \<open>buyingstore_autotrade_*\<close>). The rows of the SQL tables are arguments and results.
  \<^item> \<open>Market\<close>: all operations on shops as a step relation over one state, its invariant, and
    what searches find; \<open>Deals\<close>, \<open>Sales\<close>: the settlement of a purchase and of a sale.
  \<^item> \<open>Duel\<close>: \<open>map/duel.c\<close> and its commands in \<open>map/atcommand.c\<close>; \<open>Chat\<close>: \<open>map/chat.c\<close> and the
    allocation of object ids in \<open>map/map.c\<close>. Both as step relations over their operations.

  Conventions. A result \<open>None\<close> is an access outside an array, an allocation of a negative
  size, or a loop that does not end; a return code of the source stays a return code. Loops are
  recursive functions with a termination proof, or \<open>partial_function (option)\<close> where they may
  not end (\<open>do_timer\<close>, the A* search, hash chains, the digit count of an archive entry), and
  then termination is a theorem under stated conditions. No fuel is used.

  Interfaces. \<open>Bheap\<close> states what a comparison owes the heap (\<open>topcmp\<close>), and \<open>Timer\<close> and
  \<open>Astar\<close> interpret it on theirs;
  \<open>Inventory\<close> states once what moving an item between two containers keeps (locale
  \<open>item_move\<close>), and the eight moves of \<open>Storage\<close> and the two of the cart are interpretations;
  \<open>Sv\<close> states what a field syntax owes the parser (\<open>row_syntax\<close>), interpreted for escaped
  and for plain fields; \<open>Searchstore\<close> states what it asks of a kind of store
  (\<open>store_search\<close>), interpreted for vendors and for buying stores; \<open>Grf\<close> states the table of files as a map (\<open>named_table\<close>).

  What is shown. Invariants of every operation (a timer stays on the heap until it ends, items
  and zeny are conserved by trades, the cart and both storages, one member at a time uses a
  guild storage; open shops list what their owner holds, the seats of chat rooms and the counts
  of duels agree with the characters in them); settlement of purchases and sales; functional correctness (paths are walkable and have the length reported, the
  line is the exact line, walls block and come off again, a cell query returns what was set);
  refinement (heaps, the file table); equivalence (the incremental line, the reader of text
  databases, a search and the list of matching offers); round trips (archives, escaped rows,
  walls, the shops of absent owners); termination; and the behaviour of faults: each finding that names a theorem has the
  input that shows it there.

  Not modelled. Network, SQL and client protocol code (input and output); the script engine,
  battle, status and skill formulas, monsters and companions (large tables of game rules over
  the whole world state); the rest of \<open>pc.c\<close> and \<open>map.c\<close>. Messages to clients, logs and
  memory allocation are left out of the modelled functions, as are the sources of the clock.
\<close>

end
